(* ===== verification/Athena_Prelude.thy ===== *)
theory Athena_Prelude
  imports Complex_Main "HOL-Library.Monad_Syntax"
begin

text \<open>
  The prelude of the development: how an access that may fail, a C++ substring and an edit of
  a consecutive part of an array are written in HOL, the collections of rules that the
  component theories share, and the lemmas about list splices on which the commutation of
  edits rests.

  Conventions. \<open>None\<close> is an exception of the program: \<open>ASSERT\<close> and \<open>FAILED\<close> of
  \<open>src/src/Core/Abstractions/basic.hpp\<close> raise \<open>tm_throw\<close>, and an array access out of
  range is undefined behaviour, so a definition that would reach one returns \<open>None\<close> and the
  theorems say when this does not happen. Positions and path items are \<open>int\<close>, as in the
  source; the sizes of documents are far below the range of a 32-bit \<open>int\<close>.
\<close>

named_theorems tree_simps \<open>equations of the tree accessors\<close>
named_theorems mod_simps \<open>equations of the accessors of modifications\<close>
named_theorems effect_simps \<open>equations of the effect of a modification\<close>

section \<open>Arrays and strings\<close>

text \<open>\<open>a[i]\<close> of an array: \<open>None\<close> out of range.\<close>

definition array_ref :: "'a list \<Rightarrow> int \<Rightarrow> 'a option" where
  "array_ref xs i = (if 0 \<le> i \<and> i < int (length xs) then Some (xs ! nat i) else None)"

text \<open>
  \<open>s (begin, end)\<close> of \<open>string::operator ()\<close>: an empty range gives the empty string and both
  bounds are clamped to the string.
\<close>

definition substr :: "'a list \<Rightarrow> int \<Rightarrow> int \<Rightarrow> 'a list" where
  "substr s b e =
     (if e \<le> b then []
      else (let b' = max (min (int (length s)) b) 0; e' = max (min (int (length s)) e) 0
            in if e' - b' > 0 then take (nat (e' - b')) (drop (nat b') s) else []))"

text \<open>
  \<open>range (a, i, j)\<close> of \<open>array.cpp\<close>: it asserts \<open>0 \<le> i\<close> and \<open>j \<le> N(a)\<close>; a negative
  length of the new array is out of range as well.
\<close>

definition range_of :: "'a list \<Rightarrow> int \<Rightarrow> int \<Rightarrow> 'a list option" where
  "range_of xs i j =
     (if 0 \<le> i \<and> j \<le> int (length xs) \<and> i \<le> j
      then Some (take (nat (j - i)) (drop (nat i) xs)) else None)"

lemma array_ref_Some [simp]:
  "array_ref xs i = Some x \<longleftrightarrow> 0 \<le> i \<and> i < int (length xs) \<and> x = xs ! nat i"
  by (auto simp: array_ref_def)

lemma array_ref_in_range [simp]: "0 \<le> i \<Longrightarrow> i < int (length xs) \<Longrightarrow> array_ref xs i = Some (xs ! nat i)"
  by simp

lemma array_ref_None: "array_ref xs i = None \<longleftrightarrow> i < 0 \<or> int (length xs) \<le> i"
  by (auto simp: array_ref_def)

lemma substr_prefix: "0 \<le> e \<Longrightarrow> e \<le> int (length s) \<Longrightarrow> substr s 0 e = take (nat e) s"
  by (auto simp: substr_def Let_def)

lemma substr_suffix: "0 \<le> b \<Longrightarrow> b \<le> int (length s) \<Longrightarrow> substr s b (int (length s)) = drop (nat b) s"
  by (auto simp: substr_def Let_def)

lemma substr_slice:
  "0 \<le> b \<Longrightarrow> b \<le> e \<Longrightarrow> e \<le> int (length s) \<Longrightarrow> substr s b e = take (nat (e - b)) (drop (nat b) s)"
  by (auto simp: substr_def Let_def)

lemma range_of_Some:
  "range_of xs i j = Some ys \<longleftrightarrow>
     0 \<le> i \<and> j \<le> int (length xs) \<and> i \<le> j \<and> ys = take (nat (j - i)) (drop (nat i) xs)"
  by (auto simp: range_of_def)

section \<open>Splices\<close>

text \<open>
  Every edit of the children of a node (and of the characters of a string) replaces a
  consecutive part: \<open>splice_at b n F xs\<close> replaces the \<open>n\<close> elements from position \<open>b\<close> by
  what \<open>F\<close> makes of them, and fails when the range is not inside \<open>xs\<close> or \<open>F\<close> fails.
\<close>

definition splice_at :: "int \<Rightarrow> int \<Rightarrow> ('a list \<Rightarrow> 'a list option) \<Rightarrow> 'a list \<Rightarrow> 'a list option" where
  "splice_at b n F xs =
     (if 0 \<le> b \<and> 0 \<le> n \<and> b + n \<le> int (length xs)
      then map_option (\<lambda>ys. take (nat b) xs @ ys @ drop (nat (b + n)) xs)
             (F (take (nat n) (drop (nat b) xs)))
      else None)"

lemma splice_Some_iff:
  "splice_at b n F xs = Some zs \<longleftrightarrow>
     (\<exists>A S C ys. xs = A @ S @ C \<and> int (length A) = b \<and> int (length S) = n \<and>
        F S = Some ys \<and> zs = A @ ys @ C)"
proof
  assume "splice_at b n F xs = Some zs"
  then obtain ys where r: "0 \<le> b" "0 \<le> n" "b + n \<le> int (length xs)"
    and F: "F (take (nat n) (drop (nat b) xs)) = Some ys"
    and zs: "zs = take (nat b) xs @ ys @ drop (nat (b + n)) xs"
    by (auto simp: splice_at_def split: if_splits)
  let ?A = "take (nat b) xs" and ?S = "take (nat n) (drop (nat b) xs)"
  have "xs = ?A @ ?S @ drop (nat (b + n)) xs"
    using r by (metis append_take_drop_id drop_drop nat_add_distrib add.commute)
  moreover have "int (length ?A) = b" "int (length ?S) = n"
    using r by auto
  ultimately show "\<exists>A S C ys. xs = A @ S @ C \<and> int (length A) = b \<and> int (length S) = n \<and>
      F S = Some ys \<and> zs = A @ ys @ C"
    using F zs by blast
next
  assume "\<exists>A S C ys. xs = A @ S @ C \<and> int (length A) = b \<and> int (length S) = n \<and>
      F S = Some ys \<and> zs = A @ ys @ C"
  then show "splice_at b n F xs = Some zs"
    by (auto simp: splice_at_def nat_add_distrib)
qed

lemma spliceI:
  "int (length A) = b \<Longrightarrow> int (length S) = n \<Longrightarrow> F S = Some T \<Longrightarrow> xs = A @ S @ C \<Longrightarrow>
   zs = A @ T @ C \<Longrightarrow> splice_at b n F xs = Some zs"
  unfolding splice_Some_iff by blast

lemma splice_length:
  assumes "splice_at b n F xs = Some ys"
    and "\<And>S T. length S = nat n \<Longrightarrow> F S = Some T \<Longrightarrow> int (length T) = n + d"
  shows "int (length ys) = int (length xs) + d"
  using assms by (fastforce simp: splice_Some_iff)

lemma append_eq_append_longer:
  "xs @ ys = us @ vs \<Longrightarrow> length us \<le> length xs \<Longrightarrow> \<exists>ws. xs = us @ ws \<and> vs = ws @ ys"
  by (auto simp: append_eq_append_conv2)

text \<open>
  Two splices that touch disjoint parts commute. The first lemma is the case where the second
  splice lies to the right of what the first one wrote: it can be done first, at its position
  before the first one moved it by \<open>d\<close>.
\<close>

lemma splice_commute_right:
  assumes 1: "splice_at b1 n1 F1 xs = Some ys" and 2: "splice_at b2 n2 F2 ys = Some zs"
    and d: "int (length ys) = int (length xs) + d" and right: "b1 + n1 + d \<le> b2"
  shows "\<exists>us. splice_at (b2 - d) n2 F2 xs = Some us \<and> splice_at b1 n1 F1 us = Some zs"
proof -
  from 1 obtain A S C T where xs: "xs = A @ S @ C" and A: "int (length A) = b1"
    and S: "int (length S) = n1" and F1: "F1 S = Some T" and ys: "ys = A @ T @ C"
    by (auto simp: splice_Some_iff)
  from 2 obtain A' S' C' T' where ys': "ys = A' @ S' @ C'" and A': "int (length A') = b2"
    and S': "int (length S') = n2" and F2: "F2 S' = Some T'" and zs: "zs = A' @ T' @ C'"
    by (auto simp: splice_Some_iff)
  have T: "int (length T) = n1 + d"
    using d xs ys S by simp
  have "A' @ (S' @ C') = (A @ T) @ C"
    using ys ys' by simp
  moreover have "length (A @ T) \<le> length A'"
    using right A A' T by simp
  ultimately obtain B where B: "A' = (A @ T) @ B" and C: "C = B @ S' @ C'"
    by (meson append_eq_append_longer)
  have bd: "int (length (A @ S @ B)) = b2 - d"
    using A S T A' B by simp
  have "splice_at (b2 - d) n2 F2 xs = Some ((A @ S @ B) @ T' @ C')"
    by (rule spliceI [where F = F2, OF bd S' F2]) (simp_all add: xs C)
  moreover have "splice_at b1 n1 F1 ((A @ S @ B) @ T' @ C') = Some zs"
    by (rule spliceI [where F = F1, OF A S F1]) (simp_all add: zs B)
  ultimately show ?thesis by blast
qed

text \<open>
  The other case: the second splice lies to the left of the first one, which then moves by
  the number \<open>d\<close> of elements the second one adds.
\<close>

lemma splice_commute_left:
  assumes 1: "splice_at b1 n1 F1 xs = Some ys" and 2: "splice_at b2 n2 F2 ys = Some zs"
    and d: "int (length zs) = int (length ys) + d" and left: "b2 + n2 \<le> b1"
  shows "\<exists>us. splice_at b2 n2 F2 xs = Some us \<and> splice_at (b1 + d) n1 F1 us = Some zs"
proof -
  from 1 obtain A S C T where xs: "xs = A @ S @ C" and A: "int (length A) = b1"
    and S: "int (length S) = n1" and F1: "F1 S = Some T" and ys: "ys = A @ T @ C"
    by (auto simp: splice_Some_iff)
  from 2 obtain A' S' C' T' where ys': "ys = A' @ S' @ C'" and A': "int (length A') = b2"
    and S': "int (length S') = n2" and F2: "F2 S' = Some T'" and zs: "zs = A' @ T' @ C'"
    by (auto simp: splice_Some_iff)
  have "A @ (T @ C) = (A' @ S') @ C'"
    using ys ys' by simp
  moreover have "length (A' @ S') \<le> length A"
    using left A A' S' by simp
  ultimately obtain B where B: "A = (A' @ S') @ B" and C: "C' = B @ T @ C"
    by (meson append_eq_append_longer)
  have T': "int (length (A' @ T' @ B)) = b1 + d"
    using d zs ys' B A by simp
  have "splice_at b2 n2 F2 xs = Some (A' @ T' @ B @ S @ C)"
    by (rule spliceI [where F = F2, OF A' S' F2]) (simp_all add: xs B)
  moreover have "splice_at (b1 + d) n1 F1 (A' @ T' @ B @ S @ C) = Some zs"
    by (rule spliceI [where F = F1, OF T' S F1]) (simp_all add: zs C)
  ultimately show ?thesis by blast
qed

end
