(* ===== verification/Athena_Tree.thy ===== *)
theory Athena_Tree
  imports Athena_Prelude
begin

text \<open>
  Document trees and node metadata: \<open>src/src/Core/Types/tree.hpp\<close>, \<open>tree.cpp\<close>,
  \<open>tree_label.hpp\<close> and \<open>node_metadata.hpp\<close>, \<open>node_metadata.cpp\<close>.

  A tree is atomic (a string) or compound (a label and an array of children), and carries an
  optional metadata block: a persistent identity and typed properties, one kind of which is
  structured text, so that trees, metadata and properties are mutually recursive. The model
  takes trees as values: reference counts, copy-on-write storage, the shared immutable
  metadata payloads and the observers hanging off a node are not part of it, and
  \<open>operator ==\<close>, which compares labels, metadata and children recursively, is HOL equality.
  The opaque \<open>generic_rep\<close> trees (a negative label around a C++ value) have no constructor:
  they never carry children and no edit produces one. A \<open>double\<close> property is finite
  (\<open>validation::value\<close>) and is modelled by a real number; the dictionary of properties, a
  \<open>std::map\<close>, is the list of its entries in key order.
\<close>

section \<open>Labels\<close>

type_synonym tree_label = int

text \<open>The values of the enumeration that the modelled code mentions, as \<open>tree_label.hpp\<close> orders them.\<close>

definition TMSTRING :: tree_label where [tree_simps]: "TMSTRING = 0"
definition UNINIT :: tree_label where [tree_simps]: "UNINIT = 2"
definition RAW_DATA :: tree_label where [tree_simps]: "RAW_DATA = 4"
definition DOCUMENT :: tree_label where [tree_simps]: "DOCUMENT = 5"
definition CONCAT :: tree_label where [tree_simps]: "CONCAT = 8"
definition UNFREEZE :: tree_label where [tree_simps]: "UNFREEZE = 13"
definition TABLE :: tree_label where [tree_simps]: "TABLE = 92"
definition QUOTE :: tree_label where [tree_simps]: "QUOTE = 121"
definition TUPLE :: tree_label where [tree_simps]: "TUPLE = 257"

section \<open>Trees, metadata and properties\<close>

datatype tree =
    Atomic (atomic_attrs: "metadata option") (label: string)
  | Compound (compound_attrs: "metadata option") (op_of: tree_label) (children_of: "tree list")
and metadata = Metadata (meta_id: string) (meta_properties: "(string \<times> property) list")
and property =
    P_string string
  | P_bool bool
  | P_int int
  | P_double real
  | P_list "property list"
  | P_dictionary "(string \<times> property) list"
  | P_reference string
  | P_rich_text tree

section \<open>Accessors of trees\<close>

primrec attrs :: "tree \<Rightarrow> metadata option" where
  "attrs (Atomic m s) = m"
| "attrs (Compound m l ts) = m"

primrec copy_metadata :: "metadata option \<Rightarrow> tree \<Rightarrow> tree" where
  "copy_metadata m (Atomic m' s) = Atomic m s"
| "copy_metadata m (Compound m' l ts) = Compound m l ts"

primrec L :: "tree \<Rightarrow> tree_label" where
  "L (Atomic m s) = TMSTRING"
| "L (Compound m l ts) = l"

primrec children :: "tree \<Rightarrow> tree list" where
  "children (Atomic m s) = []"
| "children (Compound m l ts) = ts"

definition N :: "tree \<Rightarrow> int" where
  "N t = int (length (children t))"

primrec is_atomic :: "tree \<Rightarrow> bool" where
  "is_atomic (Atomic m s) = True"
| "is_atomic (Compound m l ts) = False"

definition is_compound :: "tree \<Rightarrow> bool" where
  "is_compound t \<longleftrightarrow> \<not> is_atomic t"

definition is_generic :: "tree \<Rightarrow> bool" where
  "is_generic t \<longleftrightarrow> L t < 0"

text \<open>\<open>t->label\<close>: only an atomic tree has one.\<close>

primrec label_of :: "tree \<Rightarrow> string option" where
  "label_of (Atomic m s) = Some s"
| "label_of (Compound m l ts) = None"

text \<open>\<open>t[i]\<close>.\<close>

definition child :: "tree \<Rightarrow> int \<Rightarrow> tree option" where
  "child t i = array_ref (children t) i"

definition is_func_any :: "tree \<Rightarrow> tree_label \<Rightarrow> bool" where
  "is_func_any t l \<longleftrightarrow> L t = l \<and> N t \<noteq> 0"

definition is_func :: "tree \<Rightarrow> tree_label \<Rightarrow> int \<Rightarrow> bool" where
  "is_func t l i \<longleftrightarrow> L t = l \<and> N t = i"

primrec right_index :: "tree \<Rightarrow> int" where
  "right_index (Atomic m s) = int (length s)"
| "right_index (Compound m l ts) = 1"

text \<open>
  \<open>t (begin, end)\<close>: the children of the range under the label of \<open>t\<close>, without its
  metadata. A negative length or an index out of range has no value.
\<close>

definition tree_range :: "tree \<Rightarrow> int \<Rightarrow> int \<Rightarrow> tree option" where
  "tree_range t b e = do { ts \<leftarrow> range_of (children t) b e; Some (Compound None (L t) ts) }"

text \<open>\<open>t1 * t2\<close>: an atomic operand is first wrapped under the label of the other one.\<close>

definition tree_times :: "tree \<Rightarrow> tree \<Rightarrow> tree" where
  "tree_times t1 t2 =
     (let r1 = (if is_atomic t1 then Compound None (L t2) [t1] else t1);
          r2 = (if is_atomic t2 then Compound None (L r1) [t2] else t2)
      in Compound None (L r1) (children r1 @ children r2))"

text \<open>\<open>copy\<close>: a node-by-node reconstruction that carries the metadata over.\<close>

fun copy_tree :: "tree \<Rightarrow> tree" where
  "copy_tree (Atomic m s) = copy_metadata m (Atomic None s)"
| "copy_tree (Compound m l ts) = copy_metadata m (Compound None l (map copy_tree ts))"

fun freeze :: "tree \<Rightarrow> tree" where
  "freeze (Atomic m s) = copy_tree (Atomic m s)"
| "freeze (Compound m l ts) =
     (if is_func (Compound m l ts) UNFREEZE 1 \<and> m = None then ts ! 0
      else copy_metadata m (Compound None l (map freeze ts)))"

definition is_document :: "tree \<Rightarrow> bool" where
  "is_document t \<longleftrightarrow> L t = DOCUMENT"

definition is_concat :: "tree \<Rightarrow> bool" where
  "is_concat t \<longleftrightarrow> L t = CONCAT"

fun is_multi_line :: "tree \<Rightarrow> bool" where
  "is_multi_line (Atomic m s) = False"
| "is_multi_line (Compound m l ts) =
     (let t = Compound m l ts in
      if is_func_any t DOCUMENT then True
      else if is_func_any t CONCAT \<or> is_func_any t TABLE then False
      else list_ex is_multi_line ts)"

section \<open>Basic facts\<close>

lemma attrs_copy_metadata [simp]: "attrs (copy_metadata m t) = m"
  by (cases t) auto

lemma copy_metadata_attrs [simp]: "copy_metadata (attrs t) t = t"
  by (cases t) auto

lemma is_atomic_copy_metadata [simp]: "is_atomic (copy_metadata m t) = is_atomic t"
  by (cases t) auto

lemma children_copy_metadata [simp]: "children (copy_metadata m t) = children t"
  by (cases t) auto

lemma L_copy_metadata [simp]: "L (copy_metadata m t) = L t"
  by (cases t) auto

lemma N_simps [simp, tree_simps]:
  "N (Atomic m s) = 0" "N (Compound m l ts) = int (length ts)"
  by (simp_all add: N_def)

lemma child_Compound [simp]: "child (Compound m l ts) i = array_ref ts i"
  by (simp add: child_def)

lemma child_Atomic [simp]: "child (Atomic m s) i = None"
  by (auto simp: child_def array_ref_def)

lemma is_compound_simps [simp]: "\<not> is_compound (Atomic m s)" "is_compound (Compound m l ts)"
  by (simp_all add: is_compound_def)

lemma is_atomic_iff: "is_atomic t \<longleftrightarrow> (\<exists>m s. t = Atomic m s)"
  by (cases t) auto

lemma is_compound_iff: "is_compound t \<longleftrightarrow> (\<exists>m l ts. t = Compound m l ts)"
  by (cases t) auto

lemma is_func_iff:
  assumes "l \<noteq> TMSTRING"
  shows "is_func t l n \<longleftrightarrow> (\<exists>m ts. t = Compound m l ts \<and> int (length ts) = n)"
  using assms by (cases t) (auto simp: is_func_def)

lemma is_func_Compound [simp]: "is_func (Compound m l ts) l' n \<longleftrightarrow> l = l' \<and> int (length ts) = n"
  by (simp add: is_func_def)

lemma is_func_TUPLE [simp]:
  "is_func t TUPLE n \<longleftrightarrow> (\<exists>m ts. t = Compound m TUPLE ts \<and> int (length ts) = n)"
  by (rule is_func_iff) (simp add: tree_simps)

lemma is_func_UNINIT [simp]:
  "is_func t UNINIT n \<longleftrightarrow> (\<exists>m ts. t = Compound m UNINIT ts \<and> int (length ts) = n)"
  by (rule is_func_iff) (simp add: tree_simps)

lemma copy_tree_id [simp]: "copy_tree t = t"
  by (induction t rule: copy_tree.induct) (simp_all add: map_idI)

lemma map_copy_tree [simp]: "map copy_tree ts = ts"
  by (simp add: map_idI)

end
