(* ===== verification/Athena_Metadata.thy ===== *)
theory Athena_Metadata
  imports Athena_Tree
begin

text \<open>
  Node identities and properties: \<open>src/src/Core/Types/node_metadata.cpp\<close>. The functions that
  walk a tree together with the structured text inside its properties (\<open>walk\<close>,
  \<open>walk_property\<close>, \<open>remap_property\<close> with the callbacks of \<open>duplicate\<close> and
  \<open>content_projection\<close>) are written as one family of recursive functions per callback.
  \<open>new_id\<close> draws a UUID from Qt: the identities drawn during one call are a parameter
  \<open>ids\<close>, the \<open>n\<close>-th draw being \<open>ids n\<close>.
\<close>

section \<open>Canonical identities\<close>

definition id_char_ok :: "nat \<Rightarrow> char \<Rightarrow> bool" where
  "id_char_ok i c \<longleftrightarrow>
     (if i = 8 \<or> i = 13 \<or> i = 18 \<or> i = 23 then c = CHR ''-''
      else c \<in> set ''0123456789abcdef'')"

definition valid_id :: "string \<Rightarrow> bool" where
  "valid_id s \<longleftrightarrow>
     length s = 36 \<and> (\<forall>i \<in> {0..<36}. id_char_ok i (s ! i)) \<and>
     list_ex (\<lambda>i. \<not> (i = 8 \<or> i = 13 \<or> i = 18 \<or> i = 23) \<and> s ! i \<noteq> CHR ''0'') [0..<36]"

definition id_of :: "tree \<Rightarrow> string" where
  "id_of t = (case attrs t of None \<Rightarrow> [] | Some m \<Rightarrow> meta_id m)"

fun contains_metadata :: "tree \<Rightarrow> bool" where
  "contains_metadata (Atomic m s) = (m \<noteq> None)"
| "contains_metadata (Compound m l ts) = (m \<noteq> None \<or> list_ex contains_metadata ts)"

section \<open>Duplication: fresh identities, remapped references\<close>

type_synonym identity_map = "(string \<times> string) list"
type_synonym alloc_state = "nat \<times> identity_map"

text \<open>
  The callback \<open>allocate\<close>: a nonempty identity is replaced by a fresh one and the pair is
  recorded; an identity recorded before makes \<open>duplicate\<close> throw.
\<close>

definition allocate :: "(nat \<Rightarrow> string) \<Rightarrow> string \<Rightarrow> alloc_state \<Rightarrow> (alloc_state \<times> string) option" where
  "allocate ids i st =
     (if i = [] then Some (st, i)
      else if map_of (snd st) i \<noteq> None then None
      else Some ((Suc (fst st), (i, ids (fst st)) # snd st), ids (fst st)))"

primrec alloc_tree :: "(nat \<Rightarrow> string) \<Rightarrow> tree \<Rightarrow> alloc_state \<Rightarrow> (alloc_state \<times> tree) option"
  and alloc_trees :: "(nat \<Rightarrow> string) \<Rightarrow> tree list \<Rightarrow> alloc_state \<Rightarrow> (alloc_state \<times> tree list) option"
  and alloc_attrs ::
    "(nat \<Rightarrow> string) \<Rightarrow> metadata option \<Rightarrow> alloc_state \<Rightarrow> (alloc_state \<times> metadata option) option"
  and alloc_metadata :: "(nat \<Rightarrow> string) \<Rightarrow> metadata \<Rightarrow> alloc_state \<Rightarrow> (alloc_state \<times> metadata) option"
  and alloc_property :: "(nat \<Rightarrow> string) \<Rightarrow> property \<Rightarrow> alloc_state \<Rightarrow> (alloc_state \<times> property) option"
  and alloc_list ::
    "(nat \<Rightarrow> string) \<Rightarrow> property list \<Rightarrow> alloc_state \<Rightarrow> (alloc_state \<times> property list) option"
  and alloc_dictionary ::
    "(nat \<Rightarrow> string) \<Rightarrow> (string \<times> property) list \<Rightarrow> alloc_state \<Rightarrow>
       (alloc_state \<times> (string \<times> property) list) option"
  and alloc_entry ::
    "(nat \<Rightarrow> string) \<Rightarrow> string \<times> property \<Rightarrow> alloc_state \<Rightarrow> (alloc_state \<times> (string \<times> property)) option"
where
  "alloc_tree ids (Atomic m s) st =
     do { (st, m) \<leftarrow> alloc_attrs ids m st; Some (st, Atomic m s) }"
| "alloc_tree ids (Compound m l ts) st =
     do { (st, m) \<leftarrow> alloc_attrs ids m st; (st, ts) \<leftarrow> alloc_trees ids ts st;
          Some (st, Compound m l ts) }"
| "alloc_trees ids [] st = Some (st, [])"
| "alloc_trees ids (t # ts) st =
     do { (st, t) \<leftarrow> alloc_tree ids t st; (st, ts) \<leftarrow> alloc_trees ids ts st; Some (st, t # ts) }"
| "alloc_attrs ids None st = Some (st, None)"
| "alloc_attrs ids (Some m) st = do { (st, m) \<leftarrow> alloc_metadata ids m st; Some (st, Some m) }"
| "alloc_metadata ids (Metadata i ps) st =
     do { (st, i) \<leftarrow> allocate ids i st; (st, ps) \<leftarrow> alloc_dictionary ids ps st;
          Some (st, Metadata i ps) }"
| "alloc_property ids (P_string s) st = Some (st, P_string s)"
| "alloc_property ids (P_bool b) st = Some (st, P_bool b)"
| "alloc_property ids (P_int n) st = Some (st, P_int n)"
| "alloc_property ids (P_double x) st = Some (st, P_double x)"
| "alloc_property ids (P_list ps) st =
     do { (st, ps) \<leftarrow> alloc_list ids ps st; Some (st, P_list ps) }"
| "alloc_property ids (P_dictionary ps) st =
     do { (st, ps) \<leftarrow> alloc_dictionary ids ps st; Some (st, P_dictionary ps) }"
| "alloc_property ids (P_reference s) st = Some (st, P_reference s)"
| "alloc_property ids (P_rich_text t) st =
     do { (st, t) \<leftarrow> alloc_tree ids t st; Some (st, P_rich_text t) }"
| "alloc_list ids [] st = Some (st, [])"
| "alloc_list ids (p # ps) st =
     do { (st, p) \<leftarrow> alloc_property ids p st; (st, ps) \<leftarrow> alloc_list ids ps st; Some (st, p # ps) }"
| "alloc_dictionary ids [] st = Some (st, [])"
| "alloc_dictionary ids (p # ps) st =
     do { (st, p) \<leftarrow> alloc_entry ids p st; (st, ps) \<leftarrow> alloc_dictionary ids ps st; Some (st, p # ps) }"
| "alloc_entry ids (k, p) st = do { (st, p) \<leftarrow> alloc_property ids p st; Some (st, (k, p)) }"

text \<open>
  The callback \<open>remap\<close>: every reference to an identity that was replaced is redirected to
  the new identity, at each node and in each structured text.
\<close>

definition remap_id :: "identity_map \<Rightarrow> string \<Rightarrow> string" where
  "remap_id r i = (case map_of r i of None \<Rightarrow> i | Some j \<Rightarrow> j)"

primrec remap_tree :: "identity_map \<Rightarrow> tree \<Rightarrow> tree"
  and remap_metadata :: "identity_map \<Rightarrow> metadata \<Rightarrow> metadata"
  and remap_property :: "identity_map \<Rightarrow> property \<Rightarrow> property"
where
  "remap_tree r (Atomic m s) = Atomic (map_option (remap_metadata r) m) s"
| "remap_tree r (Compound m l ts) = Compound (map_option (remap_metadata r) m) l (map (remap_tree r) ts)"
| "remap_metadata r (Metadata i ps) = Metadata i (map (map_prod id (remap_property r)) ps)"
| "remap_property r (P_string s) = P_string s"
| "remap_property r (P_bool b) = P_bool b"
| "remap_property r (P_int n) = P_int n"
| "remap_property r (P_double x) = P_double x"
| "remap_property r (P_list ps) = P_list (map (remap_property r) ps)"
| "remap_property r (P_dictionary ps) = P_dictionary (map (map_prod id (remap_property r)) ps)"
| "remap_property r (P_reference s) = P_reference (remap_id r s)"
| "remap_property r (P_rich_text t) = P_rich_text (remap_tree r t)"

definition duplicate :: "(nat \<Rightarrow> string) \<Rightarrow> tree \<Rightarrow> (tree \<times> identity_map) option" where
  "duplicate ids t =
     do { (st, t') \<leftarrow> alloc_tree ids (copy_tree t) (0, []);
          Some (remap_tree (snd st) t', snd st) }"

section \<open>Content without identity\<close>

text \<open>
  \<open>content_projection\<close>: identities are cleared, and a metadata block that becomes empty is
  removed.
\<close>

definition strip_attrs :: "metadata option \<Rightarrow> metadata option" where
  "strip_attrs m =
     (case m of None \<Rightarrow> None
      | Some (Metadata i ps) \<Rightarrow> if ps = [] then None else Some (Metadata [] ps))"

primrec content_projection :: "tree \<Rightarrow> tree"
  and strip_metadata :: "metadata \<Rightarrow> metadata"
  and strip_property :: "property \<Rightarrow> property"
where
  "content_projection (Atomic m s) = Atomic (strip_attrs (map_option strip_metadata m)) s"
| "content_projection (Compound m l ts) =
     Compound (strip_attrs (map_option strip_metadata m)) l (map content_projection ts)"
| "strip_metadata (Metadata i ps) = Metadata i (map (map_prod id strip_property) ps)"
| "strip_property (P_string s) = P_string s"
| "strip_property (P_bool b) = P_bool b"
| "strip_property (P_int n) = P_int n"
| "strip_property (P_double x) = P_double x"
| "strip_property (P_list ps) = P_list (map strip_property ps)"
| "strip_property (P_dictionary ps) = P_dictionary (map (map_prod id strip_property) ps)"
| "strip_property (P_reference s) = P_reference s"
| "strip_property (P_rich_text t) = P_rich_text (content_projection t)"

text \<open>\<open>content_equal\<close> with \<open>equal_properties\<close> and \<open>equal_property_content\<close>.\<close>

definition properties_of :: "metadata option \<Rightarrow> (string \<times> property) list" where
  "properties_of m = (case m of None \<Rightarrow> [] | Some m' \<Rightarrow> meta_properties m')"

fun equal_entries ::
  "((string \<times> (property \<Rightarrow> bool)) list) \<Rightarrow> (string \<times> property) list \<Rightarrow> bool" where
  "equal_entries [] [] = True"
| "equal_entries ((k, eq) # es) ((k', q) # qs) = (k = k' \<and> eq q \<and> equal_entries es qs)"
| "equal_entries _ _ = False"

primrec content_equal :: "tree \<Rightarrow> tree \<Rightarrow> bool"
  and equal_metadata_content :: "metadata \<Rightarrow> (string \<times> property) list \<Rightarrow> bool"
  and equal_property_content :: "property \<Rightarrow> property \<Rightarrow> bool"
where
  "content_equal (Atomic m s) u =
     (case u of Compound m' l us \<Rightarrow> False
      | Atomic m' s' \<Rightarrow>
          (case map_option equal_metadata_content m of
             None \<Rightarrow> properties_of m' = []
           | Some eq \<Rightarrow> eq (properties_of m')) \<and> s = s')"
| "content_equal (Compound m l ts) u =
     (case u of Atomic m' s' \<Rightarrow> False
      | Compound m' l' us \<Rightarrow>
          l = l' \<and>
          (case map_option equal_metadata_content m of
             None \<Rightarrow> properties_of m' = []
           | Some eq \<Rightarrow> eq (properties_of m')) \<and>
          list_all2 (\<lambda>eq u. eq u) (map content_equal ts) us)"
| "equal_metadata_content (Metadata i ps) qs =
     equal_entries (map (map_prod id equal_property_content) ps) qs"
| "equal_property_content (P_string s) q = (q = P_string s)"
| "equal_property_content (P_bool b) q = (q = P_bool b)"
| "equal_property_content (P_int n) q = (q = P_int n)"
| "equal_property_content (P_double x) q = (q = P_double x)"
| "equal_property_content (P_list ps) q =
     (case q of P_list qs \<Rightarrow> list_all2 (\<lambda>eq q. eq q) (map equal_property_content ps) qs | _ \<Rightarrow> False)"
| "equal_property_content (P_dictionary ps) q =
     (case q of P_dictionary qs \<Rightarrow> equal_entries (map (map_prod id equal_property_content) ps) qs
      | _ \<Rightarrow> False)"
| "equal_property_content (P_reference s) q = (q = P_reference s)"
| "equal_property_content (P_rich_text t) q =
     (case q of P_rich_text u \<Rightarrow> content_equal t u | _ \<Rightarrow> False)"

section \<open>Shape of the results\<close>

lemma alloc_attrs_shape: "alloc_attrs ids m st = Some (st', m') \<Longrightarrow> (m' = None) = (m = None)"
  by (cases m) (auto split: bind_splits)

lemma alloc_trees_length: "alloc_trees ids ts st = Some (st', ts') \<Longrightarrow> length ts' = length ts"
  by (induction ts arbitrary: st st' ts') (auto split: bind_splits)

lemma alloc_tree_shape:
  assumes "alloc_tree ids t st = Some (st', t')"
  shows "is_atomic t' = is_atomic t \<and> L t' = L t \<and> label_of t' = label_of t \<and>
    length (children t') = length (children t) \<and> (attrs t' = None) = (attrs t = None)"
  using assms
  by (cases t) (auto split: bind_splits dest!: alloc_attrs_shape alloc_trees_length)

lemma remap_tree_shape [simp]:
  "is_atomic (remap_tree r t) = is_atomic t" "L (remap_tree r t) = L t"
  "label_of (remap_tree r t) = label_of t" "length (children (remap_tree r t)) = length (children t)"
  "attrs (remap_tree r t) = None \<longleftrightarrow> attrs t = None"
  by (cases t; simp)+

lemma duplicate_shape:
  "duplicate ids t = Some (t', r) \<Longrightarrow>
   is_atomic t' = is_atomic t \<and> L t' = L t \<and> label_of t' = label_of t \<and>
   length (children t') = length (children t) \<and> (attrs t' = None) = (attrs t = None)"
  by (auto simp: duplicate_def split: bind_splits dest!: alloc_tree_shape)

end
