(* ===== verification/Athena_Path.thy ===== *)
theory Athena_Path
  imports Athena_Tree "HOL-Library.Sublist"
begin

text \<open>
  Paths, the lists of integers that address subtrees: \<open>src/src/Core/Types/path.cpp\<close>, on the
  linked lists of \<open>src/src/Core/Containers/list.cpp\<close>, with the decimal conversions of
  \<open>src/src/Core/Types/string.cpp\<close> they use. \<open>None\<close> is a failed assertion
  (\<open>"empty path"\<close>, \<open>"list too short"\<close>, \<open>"path did not start with required path"\<close>).
\<close>

type_synonym path = "int list"

section \<open>Lists\<close>

fun last_item :: "'a list \<Rightarrow> 'a option" where
  "last_item [] = None"
| "last_item (x # xs) = (if xs = [] then Some x else last_item xs)"

fun list_less :: "'a list \<Rightarrow> 'a list \<Rightarrow> bool" where
  "list_less (x # xs) (y # ys) = (x = y \<and> list_less xs ys)"
| "list_less xs ys = (ys \<noteq> [])"

fun list_leq :: "'a list \<Rightarrow> 'a list \<Rightarrow> bool" where
  "list_leq (x # xs) (y # ys) = (x = y \<and> list_leq xs ys)"
| "list_leq xs ys = (xs = [])"

text \<open>\<open>head (l, n)\<close>: a negative \<open>n\<close> runs off the list, which the assertion catches.\<close>

fun head :: "'a list \<Rightarrow> int \<Rightarrow> 'a list option" where
  "head xs n =
     (if n = 0 then Some []
      else case xs of [] \<Rightarrow> None | x # ys \<Rightarrow> do { r \<leftarrow> head ys (n - 1); Some (x # r) })"

declare head.simps [simp del]

fun tail :: "'a list \<Rightarrow> int \<Rightarrow> 'a list option" where
  "tail xs n = (if n > 0 then (case xs of [] \<Rightarrow> None | x # ys \<Rightarrow> tail ys (n - 1)) else Some xs)"

declare tail.simps [simp del]

fun reverse_loop :: "'a list \<Rightarrow> 'a list \<Rightarrow> 'a list" where
  "reverse_loop r [] = r"
| "reverse_loop r (x # l) = reverse_loop (x # r) l"

definition reverse :: "'a list \<Rightarrow> 'a list" where
  "reverse l = reverse_loop [] l"

fun remove_item :: "'a list \<Rightarrow> 'a \<Rightarrow> 'a list" where
  "remove_item [] w = []"
| "remove_item (x # l) w = (if x = w then remove_item l w else x # remove_item l w)"

section \<open>Operations on paths\<close>

fun zero_path :: "path \<Rightarrow> bool" where
  "zero_path [] = True"
| "zero_path (i # p) = (i = 0 \<and> zero_path p)"

text \<open>\<open>path_up\<close> of the empty path is the empty path (outside the developer mode).\<close>

fun path_up :: "path \<Rightarrow> path" where
  "path_up [] = []"
| "path_up (i # p) = (if p = [] then [] else i # path_up p)"

definition path_up_times :: "path \<Rightarrow> int \<Rightarrow> path option" where
  "path_up_times p k = head p (int (length p) - k)"

fun path_add :: "path \<Rightarrow> int \<Rightarrow> path option" where
  "path_add [] d = None"
| "path_add (i # p) d =
     (if p = [] then Some [i + d] else do { q \<leftarrow> path_add p d; Some (i # q) })"

definition path_add_at :: "path \<Rightarrow> int \<Rightarrow> int \<Rightarrow> path option" where
  "path_add_at p d pos = do { i \<leftarrow> array_ref p pos; Some (p[nat pos := i + d]) }"

fun path_inf :: "path \<Rightarrow> path \<Rightarrow> bool" where
  "path_inf (i # p) (j # q) = (if i < j then True else if i > j then False else path_inf p q)"
| "path_inf _ _ = False"

fun path_inf_eq :: "path \<Rightarrow> path \<Rightarrow> bool" where
  "path_inf_eq (i # p) (j # q) = (if i < j then True else if i > j then False else path_inf_eq p q)"
| "path_inf_eq p q = (p = q)"

fun path_less_eq :: "path \<Rightarrow> path \<Rightarrow> bool" where
  "path_less_eq (i # p) (j # q) =
     (if p = [] \<or> q = [] then
        (if p = [] \<and> q = [] then i \<le> j
         else if i = 0 \<and> p = [] then True
         else if j = 1 \<and> q = [] then True
         else False)
      else if i < j then True else if i > j then False else path_less_eq p q)"
| "path_less_eq p q = (p = q)"

definition path_less :: "path \<Rightarrow> path \<Rightarrow> bool" where
  "path_less p q \<longleftrightarrow> path_less_eq p q \<and> p \<noteq> q"

text \<open>\<open>p / q\<close>: \<open>p\<close> without its prefix \<open>q\<close>.\<close>

fun path_div :: "path \<Rightarrow> path \<Rightarrow> path option" where
  "path_div p [] = Some p"
| "path_div [] (j # q) = None"
| "path_div (i # p) (j # q) = (if i \<noteq> j then None else path_div p q)"

fun common :: "path \<Rightarrow> path \<Rightarrow> path" where
  "common (i # p) (j # q) = (if i \<noteq> j then [] else i # common p q)"
| "common _ _ = []"

section \<open>Decimal notation\<close>

definition is_digit :: "char \<Rightarrow> bool" where
  "is_digit c \<longleftrightarrow> c \<in> set ''0123456789''"

definition digit_value :: "char \<Rightarrow> int" where
  "digit_value c = int (of_char c) - 48"

fun as_int_loop :: "int \<Rightarrow> string \<Rightarrow> int" where
  "as_int_loop val [] = val"
| "as_int_loop val (c # s) = (if is_digit c then as_int_loop (val * 10 + digit_value c) s else val)"

definition as_int :: "string \<Rightarrow> int" where
  "as_int s =
     (if s = [] then 0
      else if hd s = CHR ''-'' then - as_int_loop 0 (tl s) else as_int_loop 0 s)"

fun decimal :: "nat \<Rightarrow> string" where
  "decimal n = (if n < 10 then [''0123456789'' ! n] else decimal (n div 10) @ [''0123456789'' ! (n mod 10)])"

declare decimal.simps [simp del]

definition as_string_int :: "int \<Rightarrow> string" where
  "as_string_int i = (if i < 0 then CHR ''-'' # decimal (nat (- i)) else decimal (nat i))"

fun as_string_path :: "path \<Rightarrow> string" where
  "as_string_path [] = []"
| "as_string_path (i # p) =
     (if p = [] then as_string_int i else as_string_int i @ ''.'' @ as_string_path p)"

text \<open>
  \<open>as_path\<close> skips to the first digit, reads the digits up to the next other character and
  continues behind them.
\<close>

function as_path :: "string \<Rightarrow> path" where
  "as_path s =
     (let r = dropWhile (\<lambda>c. \<not> is_digit c) s in
      if r = [] then []
      else as_int (takeWhile is_digit r) # as_path (dropWhile is_digit r))"
  by pat_completeness auto
termination
proof (relation "measure length")
  fix s :: string and r
  assume r: "r = dropWhile (\<lambda>c. \<not> is_digit c) s" "r \<noteq> []"
  then have "is_digit (hd r)"
    by (metis hd_dropWhile)
  then have "length (dropWhile is_digit r) < length r"
    using r(2) by (cases r) (auto simp: length_dropWhile_le le_imp_less_Suc)
  also have "length r \<le> length s"
    unfolding r(1) by (rule length_dropWhile_le)
  finally show "(dropWhile is_digit r, s) \<in> measure length" by simp
qed simp

declare as_path.simps [simp del]

definition starts :: "string \<Rightarrow> string \<Rightarrow> bool" where
  "starts s what \<longleftrightarrow> length what \<le> length s \<and> take (length what) s = what"

definition version_inf_eq :: "string \<Rightarrow> string \<Rightarrow> bool" where
  "version_inf_eq v1 v2 \<longleftrightarrow> starts v2 v1 \<or> path_inf_eq (as_path v1) (as_path v2)"

definition version_inf :: "string \<Rightarrow> string \<Rightarrow> bool" where
  "version_inf v1 v2 \<longleftrightarrow> v1 \<noteq> v2 \<and> version_inf_eq v1 v2"

section \<open>Subtrees\<close>

fun has_subtree :: "tree \<Rightarrow> path \<Rightarrow> bool" where
  "has_subtree t [] = True"
| "has_subtree t (i # p) =
     (is_compound t \<and> 0 \<le> i \<and> i < N t \<and> has_subtree (children t ! nat i) p)"

text \<open>
  \<open>subtree\<close> warns and returns the tree reached so far when an item is too large; a negative
  item is an access out of range.
\<close>

fun subtree :: "tree \<Rightarrow> path \<Rightarrow> tree option" where
  "subtree t [] = Some t"
| "subtree t (i # p) = (if N t > i then do { c \<leftarrow> child t i; subtree c p } else Some t)"

fun parent_subtree :: "tree \<Rightarrow> path \<Rightarrow> tree option" where
  "parent_subtree t [] = None"
| "parent_subtree t (i # p) = (if p = [] then Some t else do { c \<leftarrow> child t i; parent_subtree c p })"

section \<open>The list operations in library terms\<close>

lemma last_item_eq [simp]: "last_item xs = (if xs = [] then None else Some (last xs))"
  by (induction xs) auto

lemma last_item_snoc: "last_item (p @ [i]) = Some i"
  by simp

lemma path_up_eq [simp]: "path_up p = butlast p"
  by (induction p) auto

lemma list_leq_prefix [simp]: "list_leq p q \<longleftrightarrow> prefix p q"
  by (induction p q rule: list_leq.induct) auto

lemma list_less_strict_prefix [simp]: "list_less p q \<longleftrightarrow> strict_prefix p q"
  by (induction p q rule: list_less.induct) (auto simp: strict_prefix_def)

lemma head_eq: "head xs n = (if 0 \<le> n \<and> n \<le> int (length xs) then Some (take (nat n) xs) else None)"
proof (induction xs arbitrary: n)
  case Nil
  then show ?case by (auto simp: head.simps)
next
  case (Cons x xs)
  show ?case
    by (subst head.simps) (auto simp: Cons.IH take_Cons' nat_diff_distrib)
qed

lemma tail_eq: "tail xs n = (if n \<le> int (length xs) then Some (drop (nat n) xs) else None)"
proof (induction xs arbitrary: n)
  case Nil
  then show ?case by (auto simp: tail.simps)
next
  case (Cons x xs)
  show ?case
    by (subst tail.simps) (auto simp: Cons.IH drop_Cons' nat_diff_distrib)
qed

lemma reverse_loop_eq: "reverse_loop r l = rev l @ r"
  by (induction r l rule: reverse_loop.induct) auto

lemma reverse_eq [simp]: "reverse l = rev l"
  by (simp add: reverse_def reverse_loop_eq)

lemma remove_item_eq: "remove_item l w = filter (\<lambda>x. x \<noteq> w) l"
  by (induction l) auto

lemma path_div_eq [simp]: "path_div p q = Some r \<longleftrightarrow> p = q @ r"
  by (induction p q rule: path_div.induct) auto

lemma path_div_None: "path_div p q = None \<longleftrightarrow> \<not> prefix q p"
  by (induction p q rule: path_div.induct) auto

lemma path_up_times_eq:
  "0 \<le> k \<Longrightarrow> k \<le> int (length p) \<Longrightarrow> path_up_times p k = Some (take (length p - nat k) p)"
  by (simp add: path_up_times_def head_eq nat_diff_distrib)

section \<open>Subtrees and positions\<close>

lemma has_subtree_append:
  "has_subtree t (p @ q) \<longleftrightarrow> has_subtree t p \<and> has_subtree (the (subtree t p)) q"
proof (induction p arbitrary: t)
  case (Cons i p)
  show ?case
  proof (cases "is_compound t \<and> 0 \<le> i \<and> i < N t")
    case True
    then have "child t i = Some (children t ! nat i)"
      by (simp add: child_def N_def)
    with True Cons.IH show ?thesis by simp
  qed auto
qed simp

lemma has_subtree_subtree: "has_subtree t p \<Longrightarrow> \<exists>s. subtree t p = Some s"
  by (induction p arbitrary: t) (auto simp: child_def N_def)

lemma has_subtree_prefix: "has_subtree t (p @ q) \<Longrightarrow> has_subtree t p"
  by (simp add: has_subtree_append)

lemma subtree_append:
  "has_subtree t p \<Longrightarrow> subtree t (p @ q) = do { s \<leftarrow> subtree t p; subtree s q }"
proof (induction p arbitrary: t)
  case (Cons i p)
  then have "child t i = Some (children t ! nat i)" and "has_subtree (children t ! nat i) p"
    by (auto simp: child_def N_def)
  with Cons show ?case by simp
qed simp

lemma has_subtree_snoc:
  assumes "subtree t p = Some s" and "has_subtree t p"
  shows "has_subtree t (p @ [i]) \<longleftrightarrow> is_compound s \<and> 0 \<le> i \<and> i < N s"
  using assms by (simp add: has_subtree_append)

end
