(* ===== verification/Athena_Modification.thy ===== *)
theory Athena_Modification
  imports Athena_Metadata Athena_Path
begin

text \<open>
  Elementary tree modifications: \<open>src/src/Core/Types/modification.hpp\<close> and
  \<open>modification.cpp\<close>. A modification has a kind, a path and a tree; the last items of the
  path are the position arguments of the kind, the items before them lead to the node that is
  changed. The theory holds the accessors, the applicability test, the preparation of a forward
  operation (which resolves the identities that a split, a join or the removal of a node must
  hand out) and the functional application \<open>clean_apply\<close>.

  The preparation writes into the modification it is given; here it returns the prepared one.
  Identities drawn during one call are the parameter \<open>ids\<close>.
\<close>

section \<open>The modification class\<close>

datatype modification_type =
    MOD_ASSIGN | MOD_INSERT | MOD_REMOVE | MOD_SPLIT | MOD_JOIN
  | MOD_ASSIGN_NODE | MOD_INSERT_NODE | MOD_REMOVE_NODE | MOD_SET_CURSOR | MOD_SET_METADATA

record modification =
  mod_k :: modification_type
  mod_p :: path
  mod_t :: tree

definition empty_tree :: tree where
  "empty_tree = Atomic None []"

definition modification2 :: "modification_type \<Rightarrow> path \<Rightarrow> modification" where
  "modification2 k p = \<lparr>mod_k = k, mod_p = p, mod_t = empty_tree\<rparr>"

definition modification3 :: "modification_type \<Rightarrow> path \<Rightarrow> tree \<Rightarrow> modification" where
  "modification3 k p t = \<lparr>mod_k = k, mod_p = p, mod_t = t\<rparr>"

definition mod_assign :: "path \<Rightarrow> tree \<Rightarrow> modification" where
  "mod_assign p t = modification3 MOD_ASSIGN p t"

definition mod_insert :: "path \<Rightarrow> int \<Rightarrow> tree \<Rightarrow> modification" where
  "mod_insert p pos t = modification3 MOD_INSERT (p @ [pos]) t"

definition mod_remove :: "path \<Rightarrow> int \<Rightarrow> int \<Rightarrow> modification" where
  "mod_remove p pos nr = modification2 MOD_REMOVE (p @ [pos, nr])"

definition mod_split :: "path \<Rightarrow> int \<Rightarrow> int \<Rightarrow> modification" where
  "mod_split p pos a = modification2 MOD_SPLIT (p @ [pos, a])"

definition mod_split_headers :: "path \<Rightarrow> int \<Rightarrow> int \<Rightarrow> tree \<Rightarrow> modification" where
  "mod_split_headers p pos a headers = modification3 MOD_SPLIT (p @ [pos, a]) headers"

definition mod_join :: "path \<Rightarrow> int \<Rightarrow> modification" where
  "mod_join p pos = modification2 MOD_JOIN (p @ [pos])"

definition mod_join_header :: "path \<Rightarrow> int \<Rightarrow> tree \<Rightarrow> modification" where
  "mod_join_header p pos header = modification3 MOD_JOIN (p @ [pos]) (Compound None TUPLE [header])"

definition mod_assign_node :: "path \<Rightarrow> tree_label \<Rightarrow> modification" where
  "mod_assign_node p lab = modification3 MOD_ASSIGN_NODE p (Compound None lab [])"

definition mod_insert_node :: "path \<Rightarrow> int \<Rightarrow> tree \<Rightarrow> modification" where
  "mod_insert_node p pos t = modification3 MOD_INSERT_NODE (p @ [pos]) t"

definition mod_insert_node_header :: "path \<Rightarrow> int \<Rightarrow> tree \<Rightarrow> tree \<Rightarrow> modification" where
  "mod_insert_node_header p pos t child_header =
     modification3 MOD_INSERT_NODE (p @ [pos]) (Compound None UNINIT [t, child_header])"

definition mod_remove_node :: "path \<Rightarrow> int \<Rightarrow> modification" where
  "mod_remove_node p pos = modification2 MOD_REMOVE_NODE (p @ [pos])"

definition mod_remove_node_header :: "path \<Rightarrow> int \<Rightarrow> tree \<Rightarrow> modification" where
  "mod_remove_node_header p pos child_header =
     modification3 MOD_REMOVE_NODE (p @ [pos]) (Compound None TUPLE [child_header])"

definition mod_set_cursor :: "path \<Rightarrow> int \<Rightarrow> tree \<Rightarrow> modification" where
  "mod_set_cursor p pos data = modification3 MOD_SET_CURSOR (p @ [pos]) data"

definition mod_set_metadata :: "path \<Rightarrow> tree \<Rightarrow> modification" where
  "mod_set_metadata p carrier =
     modification3 MOD_SET_METADATA p (copy_metadata (attrs carrier) (Compound None TUPLE []))"

text \<open>\<open>i * mod\<close>, \<open>p * mod\<close> and \<open>mod / p\<close>.\<close>

definition path_times_mod :: "path \<Rightarrow> modification \<Rightarrow> modification" where
  "path_times_mod p m = modification3 (mod_k m) (p @ mod_p m) (mod_t m)"

definition mod_div_path :: "modification \<Rightarrow> path \<Rightarrow> modification option" where
  "mod_div_path m p = do { q \<leftarrow> path_div (mod_p m) p; Some (modification3 (mod_k m) q (mod_t m)) }"

section \<open>Headers\<close>

definition node_header :: "tree \<Rightarrow> tree" where
  "node_header t =
     copy_metadata (attrs t) (if is_atomic t then Atomic None [] else Compound None (L t) [])"

definition apply_node_header :: "tree \<Rightarrow> tree \<Rightarrow> tree option" where
  "apply_node_header t header =
     (if is_atomic t \<noteq> is_atomic header then None
      else Some (copy_metadata (attrs header)
             (if is_compound t then Compound (attrs t) (L header) (children t) else t)))"

definition restores_child_header :: "modification \<Rightarrow> bool" where
  "restores_child_header m \<longleftrightarrow>
     (mod_k m = MOD_INSERT_NODE \<and> is_func (mod_t m) UNINIT 2) \<or>
     (mod_k m = MOD_REMOVE_NODE \<and> is_func (mod_t m) TUPLE 1)"

definition single_node_header :: "modification \<Rightarrow> tree option" where
  "single_node_header m =
     (if (mod_k m = MOD_JOIN \<or> mod_k m = MOD_REMOVE_NODE) \<and> is_func (mod_t m) TUPLE 1
      then child (mod_t m) 0 else None)"

definition inserted_node_template :: "modification \<Rightarrow> tree option" where
  "inserted_node_template m =
     (if mod_k m = MOD_INSERT_NODE
      then if restores_child_header m then child (mod_t m) 0 else Some (mod_t m)
      else None)"

definition compatible_header :: "tree \<Rightarrow> tree \<Rightarrow> bool" where
  "compatible_header source header \<longleftrightarrow>
     \<not> (is_generic header \<or> is_atomic source \<noteq> is_atomic header) \<and>
     (if is_atomic header then label_of header = Some [] else N header = 0)"

definition has_node_headers :: "modification \<Rightarrow> bool" where
  "has_node_headers m \<longleftrightarrow>
     (if mod_k m = MOD_SPLIT then is_func (mod_t m) TUPLE 2
      else if mod_k m = MOD_JOIN then is_func (mod_t m) TUPLE 1
      else False)"

definition empty_header_payload :: "tree \<Rightarrow> bool" where
  "empty_header_payload payload \<longleftrightarrow> label_of payload = Some [] \<and> attrs payload = None"

fun metadata_content_empty :: "tree \<Rightarrow> bool" where
  "metadata_content_empty (Atomic m s) = (length s = 0)"
| "metadata_content_empty (Compound m l ts) =
     (if l \<noteq> CONCAT \<and> l \<noteq> DOCUMENT then False else list_all metadata_content_empty ts)"

definition metadata_fragment_empty :: "tree \<Rightarrow> int \<Rightarrow> int \<Rightarrow> bool" where
  "metadata_fragment_empty t b e =
     (if b = e then True
      else if is_atomic t then False
      else if L t \<noteq> CONCAT \<and> L t \<noteq> DOCUMENT then False
      else list_all metadata_content_empty (take (nat (e - b)) (drop (nat b) (children t))))"

definition mod_insert_node_preserving_identity ::
  "path \<Rightarrow> int \<Rightarrow> tree \<Rightarrow> tree \<Rightarrow> modification option" where
  "mod_insert_node_preserving_identity p pos wrapper source =
     (if \<not> (is_compound wrapper \<and> pos \<ge> 0 \<and> pos \<le> N wrapper) then None
      else if attrs wrapper \<noteq> None then None
      else if attrs source = None then Some (mod_insert_node p pos wrapper)
      else Some (mod_insert_node_header p pos (copy_metadata (attrs source) (copy_tree wrapper))
                   (if is_atomic source then Atomic None [] else Compound None (L source) [])))"

section \<open>Accessors\<close>

definition root :: "modification \<Rightarrow> path" where
  "root m = (case mod_k m of
      MOD_ASSIGN \<Rightarrow> mod_p m
    | MOD_INSERT \<Rightarrow> path_up (mod_p m)
    | MOD_REMOVE \<Rightarrow> path_up (path_up (mod_p m))
    | MOD_SPLIT \<Rightarrow> path_up (path_up (mod_p m))
    | MOD_JOIN \<Rightarrow> path_up (mod_p m)
    | MOD_ASSIGN_NODE \<Rightarrow> mod_p m
    | MOD_INSERT_NODE \<Rightarrow> path_up (mod_p m)
    | MOD_REMOVE_NODE \<Rightarrow> path_up (mod_p m)
    | MOD_SET_CURSOR \<Rightarrow> path_up (mod_p m)
    | MOD_SET_METADATA \<Rightarrow> mod_p m)"

definition index :: "modification \<Rightarrow> int option" where
  "index m = (case mod_k m of
      MOD_INSERT \<Rightarrow> last_item (mod_p m)
    | MOD_REMOVE \<Rightarrow> last_item (path_up (mod_p m))
    | MOD_SPLIT \<Rightarrow> last_item (path_up (mod_p m))
    | MOD_JOIN \<Rightarrow> last_item (mod_p m)
    | MOD_REMOVE_NODE \<Rightarrow> last_item (mod_p m)
    | MOD_SET_CURSOR \<Rightarrow> last_item (mod_p m)
    | _ \<Rightarrow> None)"

definition argument :: "modification \<Rightarrow> int option" where
  "argument m = (case mod_k m of
      MOD_REMOVE \<Rightarrow> last_item (mod_p m)
    | MOD_SPLIT \<Rightarrow> last_item (mod_p m)
    | MOD_INSERT_NODE \<Rightarrow> last_item (mod_p m)
    | _ \<Rightarrow> None)"

definition label_of_mod :: "modification \<Rightarrow> tree_label option" where
  "label_of_mod m = (if mod_k m = MOD_ASSIGN_NODE then Some (L (mod_t m)) else None)"

fun type_of_name :: "string \<Rightarrow> modification_type" where
  "type_of_name s =
     (if s = ''assign'' then MOD_ASSIGN
      else if s = ''insert'' then MOD_INSERT
      else if s = ''remove'' then MOD_REMOVE
      else if s = ''split'' then MOD_SPLIT
      else if s = ''join'' then MOD_JOIN
      else if s = ''assign-node'' then MOD_ASSIGN_NODE
      else if s = ''insert-node'' then MOD_INSERT_NODE
      else if s = ''remove-node'' then MOD_REMOVE_NODE
      else if s = ''set-cursor'' then MOD_SET_CURSOR
      else if s = ''set-metadata'' then MOD_SET_METADATA
      else MOD_ASSIGN)"

definition make_modification :: "string \<Rightarrow> path \<Rightarrow> tree \<Rightarrow> modification" where
  "make_modification s p t = modification3 (type_of_name s) p t"

definition get_type :: "modification \<Rightarrow> string" where
  "get_type m = (case mod_k m of
      MOD_ASSIGN \<Rightarrow> ''assign''
    | MOD_INSERT \<Rightarrow> ''insert''
    | MOD_REMOVE \<Rightarrow> ''remove''
    | MOD_SPLIT \<Rightarrow> ''split''
    | MOD_JOIN \<Rightarrow> ''join''
    | MOD_ASSIGN_NODE \<Rightarrow> ''assign-node''
    | MOD_INSERT_NODE \<Rightarrow> ''insert-node''
    | MOD_REMOVE_NODE \<Rightarrow> ''remove-node''
    | MOD_SET_CURSOR \<Rightarrow> ''set-cursor''
    | MOD_SET_METADATA \<Rightarrow> ''set-metadata'')"

text \<open>What the accessors give for each constructor function.\<close>

lemmas mod_constructor_defs =
  modification2_def modification3_def empty_tree_def mod_assign_def mod_assign_node_def
  mod_insert_def mod_insert_node_def mod_insert_node_header_def mod_join_def
  mod_join_header_def mod_remove_def mod_remove_node_def mod_remove_node_header_def
  mod_set_cursor_def mod_set_metadata_def mod_split_def mod_split_headers_def

lemma mod_k_simps [simp, mod_simps]:
  "mod_k (mod_assign p u) = MOD_ASSIGN"
  "mod_k (mod_insert p i u) = MOD_INSERT"
  "mod_k (mod_remove p i n) = MOD_REMOVE"
  "mod_k (mod_split p i a) = MOD_SPLIT"
  "mod_k (mod_split_headers p i a h) = MOD_SPLIT"
  "mod_k (mod_join p i) = MOD_JOIN"
  "mod_k (mod_join_header p i h) = MOD_JOIN"
  "mod_k (mod_assign_node p l) = MOD_ASSIGN_NODE"
  "mod_k (mod_insert_node p i u) = MOD_INSERT_NODE"
  "mod_k (mod_insert_node_header p i u h) = MOD_INSERT_NODE"
  "mod_k (mod_remove_node p i) = MOD_REMOVE_NODE"
  "mod_k (mod_remove_node_header p i h) = MOD_REMOVE_NODE"
  "mod_k (mod_set_cursor p i u) = MOD_SET_CURSOR"
  "mod_k (mod_set_metadata p u) = MOD_SET_METADATA"
  by (simp_all add: mod_constructor_defs)

lemma mod_t_simps [simp, mod_simps]:
  "mod_t (mod_assign p u) = u"
  "mod_t (mod_insert p i u) = u"
  "mod_t (mod_remove p i n) = Atomic None []"
  "mod_t (mod_split p i a) = Atomic None []"
  "mod_t (mod_split_headers p i a h) = h"
  "mod_t (mod_join p i) = Atomic None []"
  "mod_t (mod_join_header p i h) = Compound None TUPLE [h]"
  "mod_t (mod_assign_node p l) = Compound None l []"
  "mod_t (mod_insert_node p i u) = u"
  "mod_t (mod_insert_node_header p i u h) = Compound None UNINIT [u, h]"
  "mod_t (mod_remove_node p i) = Atomic None []"
  "mod_t (mod_remove_node_header p i h) = Compound None TUPLE [h]"
  "mod_t (mod_set_cursor p i u) = u"
  "mod_t (mod_set_metadata p u) = copy_metadata (attrs u) (Compound None TUPLE [])"
  by (simp_all add: mod_constructor_defs)

lemma root_simps [simp, mod_simps]:
  "root (mod_assign p u) = p"
  "root (mod_insert p i u) = p"
  "root (mod_remove p i n) = p"
  "root (mod_split p i a) = p"
  "root (mod_split_headers p i a h) = p"
  "root (mod_join p i) = p"
  "root (mod_join_header p i h) = p"
  "root (mod_assign_node p l) = p"
  "root (mod_insert_node p i u) = p"
  "root (mod_insert_node_header p i u h) = p"
  "root (mod_remove_node p i) = p"
  "root (mod_remove_node_header p i h) = p"
  "root (mod_set_cursor p i u) = p"
  "root (mod_set_metadata p u) = p"
  by (simp_all add: mod_constructor_defs root_def butlast_append)

lemma index_simps [simp, mod_simps]:
  "index (mod_insert p i u) = Some i"
  "index (mod_remove p i n) = Some i"
  "index (mod_split p i a) = Some i"
  "index (mod_split_headers p i a h) = Some i"
  "index (mod_join p i) = Some i"
  "index (mod_join_header p i h) = Some i"
  "index (mod_remove_node p i) = Some i"
  "index (mod_remove_node_header p i h) = Some i"
  "index (mod_set_cursor p i u) = Some i"
  by (simp_all add: mod_constructor_defs index_def butlast_append)

lemma argument_simps [simp, mod_simps]:
  "argument (mod_remove p i n) = Some n"
  "argument (mod_split p i a) = Some a"
  "argument (mod_split_headers p i a h) = Some a"
  "argument (mod_insert_node p i u) = Some i"
  "argument (mod_insert_node_header p i u h) = Some i"
  by (simp_all add: mod_constructor_defs argument_def)

section \<open>Applicability\<close>

definition can_assign :: "tree \<Rightarrow> path \<Rightarrow> tree \<Rightarrow> bool" where
  "can_assign t p u = has_subtree t p"

definition can_insert :: "tree \<Rightarrow> path \<Rightarrow> int \<Rightarrow> tree \<Rightarrow> bool option" where
  "can_insert t p pos u =
     (if \<not> has_subtree t p then Some False
      else do { st \<leftarrow> subtree t p;
        Some (case st of
            Atomic m s \<Rightarrow> pos \<ge> 0 \<and> pos \<le> int (length s) \<and> is_atomic u
          | Compound m l ts \<Rightarrow> pos \<ge> 0 \<and> pos \<le> N st \<and> is_compound u) })"

definition can_remove :: "tree \<Rightarrow> path \<Rightarrow> int \<Rightarrow> int \<Rightarrow> bool option" where
  "can_remove t p pos nr =
     (if \<not> has_subtree t p then Some False
      else do { st \<leftarrow> subtree t p;
        Some (case st of
            Atomic m s \<Rightarrow> pos \<ge> 0 \<and> pos + nr \<le> int (length s)
          | Compound m l ts \<Rightarrow> pos \<ge> 0 \<and> pos + nr \<le> N st) })"

definition can_split :: "tree \<Rightarrow> path \<Rightarrow> int \<Rightarrow> int \<Rightarrow> bool option" where
  "can_split t p pos a =
     (if \<not> has_subtree t (p @ [pos]) then Some False
      else do { st \<leftarrow> subtree t (p @ [pos]);
        Some (case st of
            Atomic m s \<Rightarrow> a \<ge> 0 \<and> a \<le> int (length s)
          | Compound m l ts \<Rightarrow> a \<ge> 0 \<and> a \<le> N st) })"

definition can_join :: "tree \<Rightarrow> path \<Rightarrow> int \<Rightarrow> bool option" where
  "can_join t p pos =
     (if \<not> has_subtree t p then Some False
      else do { st \<leftarrow> subtree t p;
        if pos < 0 \<or> pos + 1 \<ge> N st then Some False
        else do { a \<leftarrow> child st pos; b \<leftarrow> child st (pos + 1);
          Some ((is_atomic a \<and> is_atomic b) \<or> (is_compound a \<and> is_compound b)) } })"

definition can_assign_node :: "tree \<Rightarrow> path \<Rightarrow> tree_label \<Rightarrow> bool option" where
  "can_assign_node t p l =
     (if \<not> has_subtree t p then Some False else do { st \<leftarrow> subtree t p; Some (is_compound st) })"

definition can_insert_node :: "tree \<Rightarrow> path \<Rightarrow> int \<Rightarrow> tree \<Rightarrow> bool" where
  "can_insert_node t p pos u \<longleftrightarrow> has_subtree t p \<and> is_compound u \<and> pos \<ge> 0 \<and> pos \<le> N u"

definition can_remove_node :: "tree \<Rightarrow> path \<Rightarrow> int \<Rightarrow> bool option" where
  "can_remove_node t p pos =
     (if \<not> has_subtree t (p @ [pos]) then Some False
      else do { source \<leftarrow> subtree t p;
        if attrs source = None then Some True
        else do { c \<leftarrow> child source pos; Some (N source = 1 \<and> attrs c = None) } })"

definition can_set_cursor :: "tree \<Rightarrow> path \<Rightarrow> int \<Rightarrow> tree \<Rightarrow> bool option" where
  "can_set_cursor t p pos data =
     (if \<not> has_subtree t p then Some False
      else do { st \<leftarrow> subtree t p; Some (pos \<ge> 0 \<and> pos \<le> right_index st) })"

definition is_applicable :: "tree \<Rightarrow> modification \<Rightarrow> bool option" where
  "is_applicable t m = (case mod_k m of
      MOD_ASSIGN \<Rightarrow> Some (can_assign t (root m) (mod_t m))
    | MOD_INSERT \<Rightarrow> do { i \<leftarrow> index m; can_insert t (root m) i (mod_t m) }
    | MOD_REMOVE \<Rightarrow> do { i \<leftarrow> index m; n \<leftarrow> argument m; can_remove t (root m) i n }
    | MOD_SPLIT \<Rightarrow> do { i \<leftarrow> index m; a \<leftarrow> argument m; ok \<leftarrow> can_split t (root m) i a;
        if \<not> ok then Some False
        else if empty_header_payload (mod_t m) then Some True
        else if \<not> has_node_headers m then Some False
        else do { source \<leftarrow> subtree t (root m @ [i]);
          h0 \<leftarrow> child (mod_t m) 0; h1 \<leftarrow> child (mod_t m) 1;
          Some (compatible_header source h0 \<and> compatible_header source h1) } }
    | MOD_JOIN \<Rightarrow> do { i \<leftarrow> index m; ok \<leftarrow> can_join t (root m) i;
        if \<not> ok then Some False
        else if \<not> has_node_headers m then Some (empty_header_payload (mod_t m))
        else do { source \<leftarrow> subtree t (root m @ [i]); h \<leftarrow> single_node_header m;
          Some (compatible_header source h) } }
    | MOD_ASSIGN_NODE \<Rightarrow> do { l \<leftarrow> label_of_mod m; can_assign_node t (root m) l }
    | MOD_INSERT_NODE \<Rightarrow> do { a \<leftarrow> argument m; u \<leftarrow> inserted_node_template m;
        if \<not> can_insert_node t (root m) a u then Some False
        else if \<not> restores_child_header m then Some True
        else do { source \<leftarrow> subtree t (root m); h \<leftarrow> child (mod_t m) 1;
          Some (compatible_header source h) } }
    | MOD_REMOVE_NODE \<Rightarrow> do { i \<leftarrow> index m;
        if restores_child_header m then
          (if \<not> has_subtree t (root m @ [i]) then Some False
           else do { source \<leftarrow> subtree t (root m @ [i]); h \<leftarrow> single_node_header m;
             Some (compatible_header source h) })
        else if \<not> empty_header_payload (mod_t m) then Some False
        else can_remove_node t (root m) i }
    | MOD_SET_CURSOR \<Rightarrow> do { i \<leftarrow> index m; can_set_cursor t (root m) i (mod_t m) }
    | MOD_SET_METADATA \<Rightarrow>
        (if \<not> has_subtree t (mod_p m) then Some False
         else do { st \<leftarrow> subtree t (mod_p m);
           Some (\<not> is_generic st \<and> L st \<noteq> UNINIT \<and> is_func (mod_t m) TUPLE 0) }))"

section \<open>Preparation\<close>

definition prepare_modification ::
  "(nat \<Rightarrow> string) \<Rightarrow> tree \<Rightarrow> modification \<Rightarrow> modification option" where
  "prepare_modification ids t m =
     (if mod_k m = MOD_SPLIT \<and> \<not> has_node_headers m then
        do { i \<leftarrow> index m; source \<leftarrow> subtree t (root m @ [i]);
          if attrs source = None then Some m
          else do { a \<leftarrow> argument m;
            let len = (case source of Atomic _ s \<Rightarrow> int (length s) | Compound _ _ ts \<Rightarrow> N source);
            let keep_right = metadata_fragment_empty source 0 a \<and> \<not> metadata_fragment_empty source a len;
            let retained = node_header source;
            (fresh, _) \<leftarrow> duplicate ids retained;
            Some (m\<lparr>mod_t := Compound None TUPLE
              (if keep_right then [fresh, retained] else [retained, fresh])\<rparr>) } }
      else if mod_k m = MOD_JOIN \<and> \<not> has_node_headers m then
        do { source \<leftarrow> subtree t (root m); i \<leftarrow> index m;
          left \<leftarrow> child source i; right \<leftarrow> child source (i + 1);
          Some (if attrs left \<noteq> None \<or> attrs right \<noteq> None \<or> L left \<noteq> L right
                then m\<lparr>mod_t := Compound None TUPLE [node_header left]\<rparr> else m) }
      else if mod_k m = MOD_REMOVE_NODE \<and> \<not> restores_child_header m then
        do { ok \<leftarrow> is_applicable t m;
          if \<not> ok then None
          else do { source \<leftarrow> subtree t (root m); i \<leftarrow> index m; c \<leftarrow> child source i;
            if attrs source = None then Some m
            else do {
              let header = node_header c;
              let header = (if N source = 1 \<and> attrs source \<noteq> None \<and> attrs c = None
                            then copy_metadata (attrs source) header else header);
              Some (m\<lparr>mod_t := Compound None TUPLE [header]\<rparr>) } } }
      else Some m)"

section \<open>Functional application\<close>

text \<open>
  The descent shared by the functions below: a fresh node of the same label and metadata whose
  children are those of \<open>t\<close>, the one at \<open>j\<close> replaced.
\<close>

definition set_child :: "tree \<Rightarrow> int \<Rightarrow> tree \<Rightarrow> tree" where
  "set_child t j c = Compound (attrs t) (L t) ((children t)[nat j := c])"

fun clean_assign :: "tree \<Rightarrow> path \<Rightarrow> tree \<Rightarrow> tree option" where
  "clean_assign t [] u = Some (copy_tree u)"
| "clean_assign t (j # p) u =
     (if j \<ge> N t then None
      else do { c \<leftarrow> child t j; r \<leftarrow> clean_assign c p u; Some (set_child t j r) })"

fun clean_insert :: "tree \<Rightarrow> path \<Rightarrow> tree \<Rightarrow> tree option" where
  "clean_insert t [] u = None"
| "clean_insert t [j] u =
     (case t of
        Atomic m s \<Rightarrow>
          do { l \<leftarrow> label_of u;
            Some (copy_metadata m (Atomic None (substr s 0 j @ l @ substr s j (int (length s))))) }
      | Compound m l ts \<Rightarrow>
          (if 0 \<le> j \<and> j \<le> N t
           then Some (copy_metadata m (Compound None l
                  (take (nat j) ts @ map copy_tree (children u) @ drop (nat j) ts)))
           else None))"
| "clean_insert t (j # q # p) u =
     do { c \<leftarrow> child t j; r \<leftarrow> clean_insert c (q # p) u; Some (set_child t j r) }"

fun clean_remove :: "tree \<Rightarrow> path \<Rightarrow> int \<Rightarrow> tree option" where
  "clean_remove t [] nr = None"
| "clean_remove t [j] nr =
     (case t of
        Atomic m s \<Rightarrow>
          (if int (length s) < j + nr then None
           else Some (copy_metadata m (Atomic None (substr s 0 j @ substr s (j + nr) (int (length s))))))
      | Compound m l ts \<Rightarrow>
          (if 0 \<le> j \<and> j \<le> N t \<and> 0 \<le> j + nr \<and> j + nr \<le> N t
           then Some (copy_metadata m (Compound None l (take (nat j) ts @ drop (nat (j + nr)) ts)))
           else None))"
| "clean_remove t (j # q # p) nr =
     (if j \<ge> N t then None
      else do { c \<leftarrow> child t j; r \<leftarrow> clean_remove c (q # p) nr; Some (set_child t j r) })"

definition split_tree :: "tree \<Rightarrow> int \<Rightarrow> tree \<Rightarrow> (tree \<times> tree) option" where
  "split_tree u n1 headers =
     do { (s1, s2) \<leftarrow> (case u of
          Atomic m s \<Rightarrow> Some (Atomic None (substr s 0 n1), Atomic None (substr s n1 (int (length s))))
        | Compound m l ts \<Rightarrow>
            (if 0 \<le> n1 \<and> n1 \<le> N u
             then Some (Compound None l (take (nat n1) ts), Compound None l (drop (nat n1) ts))
             else None));
       if is_func headers TUPLE 2 then
         do { h0 \<leftarrow> child headers 0; s1 \<leftarrow> apply_node_header s1 h0;
              h1 \<leftarrow> child headers 1; s2 \<leftarrow> apply_node_header s2 h1; Some (s1, s2) }
       else Some (s1, s2) }"

fun clean_split :: "tree \<Rightarrow> path \<Rightarrow> tree \<Rightarrow> tree option" where
  "clean_split t [] headers = None"
| "clean_split t [j] headers = None"
| "clean_split t [j, n1] headers =
     do { u \<leftarrow> child t j; (s1, s2) \<leftarrow> split_tree u n1 headers;
       Some (Compound (attrs t) (L t)
         (take (nat j) (children t) @ [s1, s2] @ drop (nat j + 1) (children t))) }"
| "clean_split t (j # q # r # p) headers =
     do { c \<leftarrow> child t j; r \<leftarrow> clean_split c (q # r # p) headers; Some (set_child t j r) }"

definition join_trees :: "tree \<Rightarrow> tree \<Rightarrow> tree \<Rightarrow> tree option" where
  "join_trees s1 s2 payload =
     do { u \<leftarrow> (case s1 of
          Atomic m s \<Rightarrow> do { l2 \<leftarrow> label_of s2; Some (Atomic None (s @ l2)) }
        | Compound m l ts \<Rightarrow> Some (Compound None l (ts @ children s2)));
       if is_func payload TUPLE 1 then do { h \<leftarrow> child payload 0; apply_node_header u h }
       else Some u }"

fun clean_join :: "tree \<Rightarrow> path \<Rightarrow> tree \<Rightarrow> tree option" where
  "clean_join t [] payload = None"
| "clean_join t [j] payload =
     do { s1 \<leftarrow> child t j; s2 \<leftarrow> child t (j + 1); u \<leftarrow> join_trees s1 s2 payload;
       Some (Compound (attrs t) (L t)
         (take (nat j) (children t) @ [u] @ drop (nat j + 2) (children t))) }"
| "clean_join t (j # q # p) payload =
     do { c \<leftarrow> child t j; r \<leftarrow> clean_join c (q # p) payload; Some (set_child t j r) }"

fun clean_assign_node :: "tree \<Rightarrow> path \<Rightarrow> tree_label \<Rightarrow> tree option" where
  "clean_assign_node t [] l = Some (Compound (attrs t) l (children t))"
| "clean_assign_node t (j # p) l =
     do { c \<leftarrow> child t j; r \<leftarrow> clean_assign_node c p l; Some (set_child t j r) }"

definition clean_with_header :: "tree \<Rightarrow> tree \<Rightarrow> tree" where
  "clean_with_header t header =
     (if L t = L header \<and> attrs t = attrs header then t
      else copy_metadata (attrs header)
        (case t of Atomic m s \<Rightarrow> Atomic None s
         | Compound m l ts \<Rightarrow> Compound None (L header) ts))"

fun clean_insert_node :: "tree \<Rightarrow> path \<Rightarrow> tree \<Rightarrow> tree \<Rightarrow> bool \<Rightarrow> tree option" where
  "clean_insert_node t [] u child_header restore = None"
| "clean_insert_node t [j] u child_header restore =
     (if 0 \<le> j \<and> j \<le> N u
      then Some (Compound (attrs u) (L u)
        (take (nat j) (children u) @ [if restore then clean_with_header t child_header else t] @
         drop (nat j) (children u)))
      else None)"
| "clean_insert_node t (j # q # p) u child_header restore =
     do { c \<leftarrow> child t j; r \<leftarrow> clean_insert_node c (q # p) u child_header restore;
          Some (set_child t j r) }"

fun clean_remove_node :: "tree \<Rightarrow> path \<Rightarrow> tree \<Rightarrow> tree option" where
  "clean_remove_node t [] payload = None"
| "clean_remove_node t [j] payload =
     do { c \<leftarrow> child t j;
       if is_func payload TUPLE 1
       then do { h \<leftarrow> child payload 0; Some (clean_with_header c h) }
       else Some c }"
| "clean_remove_node t (j # q # p) payload =
     do { c \<leftarrow> child t j; r \<leftarrow> clean_remove_node c (q # p) payload; Some (set_child t j r) }"

definition clean_set_cursor :: "tree \<Rightarrow> path \<Rightarrow> tree \<Rightarrow> tree option" where
  "clean_set_cursor t p data = Some t"

text \<open>
  Here the loop compares every child index with the first item of the path, so an item out of
  range changes nothing.
\<close>

fun clean_set_metadata :: "tree \<Rightarrow> path \<Rightarrow> tree \<Rightarrow> tree" where
  "clean_set_metadata t [] carrier = copy_metadata (attrs carrier) t"
| "clean_set_metadata t (j # p) carrier =
     Compound (attrs t) (L t)
       (if 0 \<le> j \<and> j < N t
        then (children t)[nat j := clean_set_metadata (children t ! nat j) p carrier]
        else children t)"

definition clean_apply :: "(nat \<Rightarrow> string) \<Rightarrow> tree \<Rightarrow> modification \<Rightarrow> tree option" where
  "clean_apply ids t m =
     do { ok \<leftarrow> is_applicable t m;
       if \<not> ok then None
       else do { m \<leftarrow> prepare_modification ids t m;
         case mod_k m of
           MOD_ASSIGN \<Rightarrow> clean_assign t (mod_p m) (mod_t m)
         | MOD_INSERT \<Rightarrow> clean_insert t (mod_p m) (mod_t m)
         | MOD_REMOVE \<Rightarrow> do { n \<leftarrow> last_item (mod_p m); clean_remove t (path_up (mod_p m)) n }
         | MOD_SPLIT \<Rightarrow> clean_split t (mod_p m) (mod_t m)
         | MOD_JOIN \<Rightarrow> clean_join t (mod_p m) (mod_t m)
         | MOD_ASSIGN_NODE \<Rightarrow> do { l \<leftarrow> label_of_mod m; clean_assign_node t (mod_p m) l }
         | MOD_INSERT_NODE \<Rightarrow>
             do { u \<leftarrow> inserted_node_template m;
               h \<leftarrow> (if restores_child_header m then child (mod_t m) 1 else Some (mod_t m));
               clean_insert_node t (mod_p m) u h (restores_child_header m) }
         | MOD_REMOVE_NODE \<Rightarrow> clean_remove_node t (mod_p m) (mod_t m)
         | MOD_SET_CURSOR \<Rightarrow> clean_set_cursor t (mod_p m) (mod_t m)
         | MOD_SET_METADATA \<Rightarrow> Some (clean_set_metadata t (mod_p m) (mod_t m)) } }"

end
