(* ===== verification/Athena_Effect.thy ===== *)
theory Athena_Effect
  imports Athena_Modification
begin

text \<open>
  The abstract specification of a modification: go to a node, edit it there. \<open>at_path\<close> is the
  descent, \<open>local_edit\<close> the change at the node, \<open>effect\<close> their composition; the children (or
  the characters) of the node are changed by one splice. The functional application
  \<open>clean_apply\<close> of the source is shown to implement it, so that inversion, commutation and
  the in-place application can be reasoned about on \<open>effect\<close>.

  \<open>effect\<close> is defined on resolved modifications, those that \<open>prepare_modification\<close> leaves as
  they are, and on removals of a nonnegative number of items.
\<close>

section \<open>Specification\<close>

fun at_path :: "path \<Rightarrow> (tree \<Rightarrow> tree option) \<Rightarrow> tree \<Rightarrow> tree option" where
  "at_path [] f t = f t"
| "at_path (j # p) f t = do { c \<leftarrow> child t j; r \<leftarrow> at_path p f c; Some (set_child t j r) }"

definition splice_tree ::
  "int \<Rightarrow> int \<Rightarrow> (string \<Rightarrow> string option) \<Rightarrow> (tree list \<Rightarrow> tree list option) \<Rightarrow> tree \<Rightarrow> tree option"
where
  "splice_tree b n FA FC t = (case t of
      Atomic m s \<Rightarrow> map_option (Atomic m) (splice_at b n FA s)
    | Compound m l ts \<Rightarrow> map_option (Compound m l) (splice_at b n FC ts))"

definition no_text :: "string \<Rightarrow> string option" where
  "no_text s = None"

definition compound_children :: "tree \<Rightarrow> tree list option" where
  "compound_children u = (if is_compound u then Some (children u) else None)"

primrec with_header :: "tree \<Rightarrow> tree \<Rightarrow> tree" where
  "with_header h (Atomic m s) = Atomic (attrs h) s"
| "with_header h (Compound m l ts) = Compound (attrs h) (L h) ts"

primrec content_length :: "tree \<Rightarrow> int" where
  "content_length (Atomic m s) = int (length s)"
| "content_length (Compound m l ts) = int (length ts)"

primrec take_part :: "int \<Rightarrow> tree \<Rightarrow> tree" where
  "take_part a (Atomic m s) = Atomic m (take (nat a) s)"
| "take_part a (Compound m l ts) = Compound m l (take (nat a) ts)"

primrec drop_part :: "int \<Rightarrow> tree \<Rightarrow> tree" where
  "drop_part a (Atomic m s) = Atomic m (drop (nat a) s)"
| "drop_part a (Compound m l ts) = Compound m l (drop (nat a) ts)"

fun join_parts :: "tree \<Rightarrow> tree \<Rightarrow> tree option" where
  "join_parts (Atomic m s) (Atomic m' s') = Some (Atomic m (s @ s'))"
| "join_parts (Compound m l ts) (Compound m' l' ts') = Some (Compound m l (ts @ ts'))"
| "join_parts _ _ = None"

fun split_edit :: "int \<Rightarrow> tree \<Rightarrow> tree list \<Rightarrow> tree list option" where
  "split_edit a h [c] =
     (if 0 \<le> a \<and> a \<le> content_length c then
        (if is_func h TUPLE 2 then
           (let h0 = children h ! 0; h1 = children h ! 1 in
            if compatible_header c h0 \<and> compatible_header c h1
            then Some [with_header h0 (take_part a c), with_header h1 (drop_part a c)] else None)
         else if empty_header_payload h \<and> attrs c = None then Some [take_part a c, drop_part a c]
         else None)
      else None)"
| "split_edit a h _ = None"

fun join_edit :: "tree \<Rightarrow> tree list \<Rightarrow> tree list option" where
  "join_edit h [c1, c2] =
     do { u \<leftarrow> join_parts c1 c2;
       if is_func h TUPLE 1 then
         (if compatible_header c1 (children h ! 0) then Some [with_header (children h ! 0) u] else None)
       else if empty_header_payload h \<and> attrs c1 = None \<and> attrs c2 = None \<and> L c1 = L c2
       then Some [u] else None }"
| "join_edit h _ = None"

definition insert_node_edit :: "int \<Rightarrow> modification \<Rightarrow> tree \<Rightarrow> tree option" where
  "insert_node_edit a m t =
     do { w \<leftarrow> inserted_node_template m;
       if is_compound w \<and> 0 \<le> a \<and> a \<le> N w then
         do { c \<leftarrow> (if restores_child_header m
                then (if compatible_header t (children (mod_t m) ! 1)
                      then Some (with_header (children (mod_t m) ! 1) t) else None)
                else Some t);
              Some (Compound (attrs w) (L w) (take (nat a) (children w) @ [c] @ drop (nat a) (children w))) }
       else None }"

definition remove_node_edit :: "int \<Rightarrow> modification \<Rightarrow> tree \<Rightarrow> tree option" where
  "remove_node_edit i m t =
     do { c \<leftarrow> child t i;
       if restores_child_header m then
         (if compatible_header c (children (mod_t m) ! 0)
          then Some (with_header (children (mod_t m) ! 0) c) else None)
       else if empty_header_payload (mod_t m) \<and> attrs t = None then Some c else None }"

definition local_edit :: "modification \<Rightarrow> tree \<Rightarrow> tree option" where
  "local_edit m t = (case mod_k m of
      MOD_ASSIGN \<Rightarrow> Some (mod_t m)
    | MOD_INSERT \<Rightarrow> do { i \<leftarrow> index m;
        splice_tree i 0 (\<lambda>_. label_of (mod_t m)) (\<lambda>_. compound_children (mod_t m)) t }
    | MOD_REMOVE \<Rightarrow> do { i \<leftarrow> index m; n \<leftarrow> argument m;
        splice_tree i n (\<lambda>_. Some []) (\<lambda>_. Some []) t }
    | MOD_SPLIT \<Rightarrow> do { i \<leftarrow> index m; a \<leftarrow> argument m;
        splice_tree i 1 no_text (split_edit a (mod_t m)) t }
    | MOD_JOIN \<Rightarrow> do { i \<leftarrow> index m; splice_tree i 2 no_text (join_edit (mod_t m)) t }
    | MOD_ASSIGN_NODE \<Rightarrow>
        (case t of Atomic _ _ \<Rightarrow> None | Compound m' l ts \<Rightarrow> Some (Compound m' (L (mod_t m)) ts))
    | MOD_INSERT_NODE \<Rightarrow> do { a \<leftarrow> argument m; insert_node_edit a m t }
    | MOD_REMOVE_NODE \<Rightarrow> do { i \<leftarrow> index m; remove_node_edit i m t }
    | MOD_SET_CURSOR \<Rightarrow> do { i \<leftarrow> index m; if 0 \<le> i \<and> i \<le> right_index t then Some t else None }
    | MOD_SET_METADATA \<Rightarrow>
        (if \<not> is_generic t \<and> L t \<noteq> UNINIT \<and> is_func (mod_t m) TUPLE 0
         then Some (copy_metadata (attrs (mod_t m)) t) else None))"

definition effect :: "modification \<Rightarrow> tree \<Rightarrow> tree option" where
  "effect m t = at_path (root m) (local_edit m) t"

definition nonneg_remove :: "modification \<Rightarrow> bool" where
  "nonneg_remove m \<longleftrightarrow>
     mod_k m = MOD_REMOVE \<longrightarrow> (case argument m of None \<Rightarrow> True | Some n \<Rightarrow> 0 \<le> n)"

section \<open>Descent\<close>

lemma child_Some_iff: "child t i = Some c \<longleftrightarrow> 0 \<le> i \<and> i < N t \<and> c = children t ! nat i"
  by (auto simp: child_def N_def)

lemma child_in_range [simp]: "0 \<le> i \<Longrightarrow> i < N t \<Longrightarrow> child t i = Some (children t ! nat i)"
  by (simp add: child_Some_iff)

lemma N_pos_compound: "i < N t \<Longrightarrow> 0 \<le> i \<Longrightarrow> is_compound t"
  by (cases t) auto

lemma at_path_append: "at_path (p @ q) f t = at_path p (at_path q f) t"
  by (induction p arbitrary: t) auto

lemma at_path_eq:
  "at_path p f t = Some t' \<Longrightarrow> has_subtree t p \<and> (\<exists>s s'. subtree t p = Some s \<and> f s = Some s')"
proof (induction p arbitrary: t t')
  case (Cons j p)
  then obtain c r where c: "child t j = Some c" and r: "at_path p f c = Some r"
    by (auto split: bind_splits)
  from Cons.IH [OF r] c show ?case
    by (auto simp: child_Some_iff N_pos_compound)
qed simp

lemma at_path_cong:
  "(\<And>s. has_subtree t p \<Longrightarrow> subtree t p = Some s \<Longrightarrow> f s = g s) \<Longrightarrow> at_path p f t = at_path p g t"
proof (induction p arbitrary: t)
  case (Cons j p)
  show ?case
  proof (cases "child t j")
    case (Some c)
    then have "at_path p f c = at_path p g c"
      by (intro Cons.IH Cons.prems) (auto simp: child_Some_iff N_pos_compound)
    with Some show ?thesis by simp
  qed simp
qed simp

lemma at_path_Some:
  "has_subtree t p \<Longrightarrow> subtree t p = Some s \<Longrightarrow> f s = Some s' \<Longrightarrow> \<exists>t'. at_path p f t = Some t'"
proof (induction p arbitrary: t)
  case (Cons j p)
  then obtain r where "at_path p f (children t ! nat j) = Some r"
    by fastforce
  with Cons.prems show ?case by simp
qed simp

lemma has_subtree_at_path:
  "at_path p f t = Some t' \<Longrightarrow> has_subtree t' p \<and> subtree t' p = (do { s \<leftarrow> subtree t p; f s })"
proof (induction p arbitrary: t t')
  case (Cons j p)
  then obtain c r where c: "child t j = Some c" and r: "at_path p f c = Some r"
    and t': "t' = set_child t j r"
    by (auto split: bind_splits)
  from c have "children t' ! nat j = r" "N t' = N t" "is_compound t'"
    unfolding t' by (auto simp: set_child_def child_Some_iff N_def)
  then show ?case
    using Cons.IH [OF r] c by (auto simp: child_Some_iff)
qed (auto split: option.splits)


lemma clean_assign_at: "clean_assign t p u = at_path p (\<lambda>_. Some u) t"
  by (induction t p u rule: clean_assign.induct) (auto simp: child_Some_iff split: bind_splits)

lemma clean_assign_node_at:
  "clean_assign_node t p l = at_path p (\<lambda>s. Some (Compound (attrs s) l (children s))) t"
  by (induction p arbitrary: t) auto

lemma clean_insert_at: "clean_insert t (p @ [i]) u = at_path p (\<lambda>s. clean_insert s [i] u) t"
proof (induction p arbitrary: t)
  case (Cons j p)
  then show ?case by (cases "p @ [i]") auto
qed simp

lemma clean_remove_at: "clean_remove t (p @ [i]) n = at_path p (\<lambda>s. clean_remove s [i] n) t"
proof (induction p arbitrary: t)
  case (Cons j p)
  then show ?case by (cases "p @ [i]"; cases "child t j") (auto simp: child_Some_iff)
qed simp

lemma clean_split_at: "clean_split t (p @ [i, a]) h = at_path p (\<lambda>s. clean_split s [i, a] h) t"
proof (induction p arbitrary: t)
  case (Cons j p)
  obtain k l q where q: "p @ [i, a] = k # l # q"
    by (cases p; cases "tl p") auto
  with Cons show ?case by simp
qed simp

lemma clean_join_at: "clean_join t (p @ [i]) h = at_path p (\<lambda>s. clean_join s [i] h) t"
proof (induction p arbitrary: t)
  case (Cons j p)
  then show ?case by (cases "p @ [i]") auto
qed simp

lemma clean_insert_node_at:
  "clean_insert_node t (p @ [i]) u h r = at_path p (\<lambda>s. clean_insert_node s [i] u h r) t"
proof (induction p arbitrary: t)
  case (Cons j p)
  then show ?case by (cases "p @ [i]") auto
qed simp

lemma clean_remove_node_at: "clean_remove_node t (p @ [i]) h = at_path p (\<lambda>s. clean_remove_node s [i] h) t"
proof (induction p arbitrary: t)
  case (Cons j p)
  then show ?case by (cases "p @ [i]") auto
qed simp

lemma clean_set_metadata_at:
  "has_subtree t p \<Longrightarrow> at_path p (\<lambda>s. Some (copy_metadata (attrs u) s)) t = Some (clean_set_metadata t p u)"
  by (induction t p u rule: clean_set_metadata.induct) (auto simp: set_child_def)

lemmas clean_at = clean_assign_at clean_assign_node_at clean_insert_at clean_remove_at clean_split_at
  clean_join_at clean_insert_node_at clean_remove_node_at

section \<open>Application implements the specification\<close>

text \<open>The change that \<open>clean_apply\<close> makes at the node of a resolved modification.\<close>

definition clean_local :: "modification \<Rightarrow> tree \<Rightarrow> tree option" where
  "clean_local m s = (case mod_k m of
      MOD_ASSIGN \<Rightarrow> Some (mod_t m)
    | MOD_INSERT \<Rightarrow> do { i \<leftarrow> index m; clean_insert s [i] (mod_t m) }
    | MOD_REMOVE \<Rightarrow> do { i \<leftarrow> index m; n \<leftarrow> argument m; clean_remove s [i] n }
    | MOD_SPLIT \<Rightarrow> do { i \<leftarrow> index m; a \<leftarrow> argument m; clean_split s [i, a] (mod_t m) }
    | MOD_JOIN \<Rightarrow> do { i \<leftarrow> index m; clean_join s [i] (mod_t m) }
    | MOD_ASSIGN_NODE \<Rightarrow> Some (Compound (attrs s) (L (mod_t m)) (children s))
    | MOD_INSERT_NODE \<Rightarrow> do { a \<leftarrow> argument m; u \<leftarrow> inserted_node_template m;
        h \<leftarrow> (if restores_child_header m then child (mod_t m) 1 else Some (mod_t m));
        clean_insert_node s [a] u h (restores_child_header m) }
    | MOD_REMOVE_NODE \<Rightarrow> do { i \<leftarrow> index m; clean_remove_node s [i] (mod_t m) }
    | MOD_SET_CURSOR \<Rightarrow> Some s
    | MOD_SET_METADATA \<Rightarrow> Some (copy_metadata (attrs (mod_t m)) s))"

definition ready :: "(nat \<Rightarrow> string) \<Rightarrow> tree \<Rightarrow> modification \<Rightarrow> bool" where
  "ready ids t m \<longleftrightarrow>
     is_applicable t m = Some True \<and> prepare_modification ids t m = Some m \<and> nonneg_remove m"

lemma at_path_id: "has_subtree t p \<Longrightarrow> at_path p Some t = Some t"
  by (induction p arbitrary: t) (auto simp: set_child_def is_compound_iff)

lemma path_one_arg:
  "mod_k m \<in> {MOD_INSERT, MOD_JOIN, MOD_REMOVE_NODE, MOD_SET_CURSOR} \<Longrightarrow> index m = Some i \<Longrightarrow>
   mod_p m = root m @ [i]"
  by (cases "mod_p m" rule: rev_cases) (auto simp: root_def index_def)

lemma path_two_args:
  "mod_k m \<in> {MOD_REMOVE, MOD_SPLIT} \<Longrightarrow> index m = Some i \<Longrightarrow> argument m = Some a \<Longrightarrow>
   mod_p m = root m @ [i, a]"
  by (cases "mod_p m" rule: rev_cases; cases "butlast (mod_p m)" rule: rev_cases)
    (auto simp: root_def index_def argument_def butlast_append)

lemma path_insert_node:
  "mod_k m = MOD_INSERT_NODE \<Longrightarrow> argument m = Some a \<Longrightarrow> mod_p m = root m @ [a]"
  by (cases "mod_p m" rule: rev_cases) (auto simp: root_def argument_def)

lemma path_no_arg: "mod_k m \<in> {MOD_ASSIGN, MOD_ASSIGN_NODE, MOD_SET_METADATA} \<Longrightarrow> root m = mod_p m"
  by (auto simp: root_def)

lemma insert_node_parts:
  "mod_k m = MOD_INSERT_NODE \<Longrightarrow>
   \<exists>u h. inserted_node_template m = Some u \<and>
     (if restores_child_header m then child (mod_t m) 1 else Some (mod_t m)) = Some h"
  by (auto simp: inserted_node_template_def restores_child_header_def)

lemma applicable_args:
  assumes "is_applicable t m = Some b"
  shows "mod_k m \<in> {MOD_INSERT, MOD_REMOVE, MOD_SPLIT, MOD_JOIN, MOD_REMOVE_NODE, MOD_SET_CURSOR} \<Longrightarrow> \<exists>i. index m = Some i"
    and "mod_k m \<in> {MOD_REMOVE, MOD_SPLIT, MOD_INSERT_NODE} \<Longrightarrow> \<exists>a. argument m = Some a"
  using assms by (cases "mod_k m"; simp add: is_applicable_def split: bind_splits)+

lemma applicable_root: "is_applicable t m = Some True \<Longrightarrow> has_subtree t (root m)"
  using path_no_arg [of m]
  by (cases "mod_k m")
    (auto simp: is_applicable_def can_assign_def can_insert_def can_remove_def can_split_def can_join_def
       can_assign_node_def can_insert_node_def can_remove_node_def can_set_cursor_def
       dest: has_subtree_prefix split: bind_splits if_splits)

lemma clean_apply_local:
  assumes ok: "is_applicable t m = Some True" and prep: "prepare_modification ids t m = Some m"
  shows "clean_apply ids t m = at_path (root m) (clean_local m) t"
proof -
  note args = applicable_args [OF ok]
  have c: "clean_apply ids t m = (case mod_k m of
           MOD_ASSIGN \<Rightarrow> clean_assign t (mod_p m) (mod_t m)
         | MOD_INSERT \<Rightarrow> clean_insert t (mod_p m) (mod_t m)
         | MOD_REMOVE \<Rightarrow> do { n \<leftarrow> last_item (mod_p m); clean_remove t (path_up (mod_p m)) n }
         | MOD_SPLIT \<Rightarrow> clean_split t (mod_p m) (mod_t m)
         | MOD_JOIN \<Rightarrow> clean_join t (mod_p m) (mod_t m)
         | MOD_ASSIGN_NODE \<Rightarrow> do { l \<leftarrow> label_of_mod m; clean_assign_node t (mod_p m) l }
         | MOD_INSERT_NODE \<Rightarrow>
             do { u \<leftarrow> inserted_node_template m;
               h \<leftarrow> (if restores_child_header m then child (mod_t m) 1 else Some (mod_t m));
               clean_insert_node t (mod_p m) u h (restores_child_header m) }
         | MOD_REMOVE_NODE \<Rightarrow> clean_remove_node t (mod_p m) (mod_t m)
         | MOD_SET_CURSOR \<Rightarrow> clean_set_cursor t (mod_p m) (mod_t m)
         | MOD_SET_METADATA \<Rightarrow> Some (clean_set_metadata t (mod_p m) (mod_t m)))"
    using assms by (simp add: clean_apply_def)
  show ?thesis
  proof (cases "mod_k m")
    case MOD_INSERT
    with args path_one_arg [of m] show ?thesis
      by (auto simp: c clean_local_def [abs_def] clean_insert_at)
  next
    case MOD_JOIN
    with args path_one_arg [of m] show ?thesis
      by (auto simp: c clean_local_def [abs_def] clean_join_at)
  next
    case MOD_REMOVE_NODE
    with args path_one_arg [of m] show ?thesis
      by (auto simp: c clean_local_def [abs_def] clean_remove_node_at)
  next
    case MOD_REMOVE
    with args obtain i n where "index m = Some i" "argument m = Some n" by auto
    with MOD_REMOVE path_two_args [of m i n] show ?thesis
      by (simp add: c clean_local_def [abs_def] clean_remove_at butlast_append)
  next
    case MOD_SPLIT
    with args path_two_args [of m] show ?thesis
      by (auto simp: c clean_local_def [abs_def] clean_split_at)
  next
    case MOD_INSERT_NODE
    with args obtain a where a: "argument m = Some a" by auto
    obtain u h where "inserted_node_template m = Some u"
      "(if restores_child_header m then child (mod_t m) 1 else Some (mod_t m)) = Some h"
      using insert_node_parts [OF MOD_INSERT_NODE] by blast
    with MOD_INSERT_NODE path_insert_node [OF MOD_INSERT_NODE a] a show ?thesis
      by (simp add: c clean_local_def [abs_def] clean_insert_node_at)
  next
    case MOD_SET_CURSOR
    then show ?thesis
      using applicable_root [OF ok] by (simp add: c clean_local_def [abs_def] clean_set_cursor_def at_path_id)
  next
    case MOD_SET_METADATA
    then show ?thesis
      using applicable_root [OF ok] by (simp add: c clean_local_def [abs_def] clean_set_metadata_at path_no_arg)
  qed (simp_all add: c clean_local_def [abs_def] clean_assign_at clean_assign_node_at path_no_arg label_of_mod_def)
qed

text \<open>The two agree at the node, kind by kind.\<close>

lemma local_insert:
  assumes "mod_k m = MOD_INSERT" "has_subtree t (root m)" "subtree t (root m) = Some s"
  shows "local_edit m s = (if ready ids t m then clean_local m s else None)"
  using assms
  by (cases "index m"; cases s; cases "mod_t m")
    (auto simp: ready_def nonneg_remove_def is_applicable_def can_insert_def prepare_modification_def
      local_edit_def clean_local_def splice_tree_def splice_at_def compound_children_def
      substr_prefix substr_suffix)

lemma local_remove:
  assumes "mod_k m = MOD_REMOVE" "has_subtree t (root m)" "subtree t (root m) = Some s"
  shows "local_edit m s = (if ready ids t m then clean_local m s else None)"
  using assms
  by (cases "index m"; cases "argument m"; cases s)
    (auto simp: ready_def nonneg_remove_def is_applicable_def can_remove_def prepare_modification_def
      local_edit_def clean_local_def splice_tree_def splice_at_def 
      substr_prefix substr_suffix)

lemma local_assign:
  assumes "mod_k m = MOD_ASSIGN" "has_subtree t (root m)" "subtree t (root m) = Some s"
  shows "local_edit m s = (if ready ids t m then clean_local m s else None)"
  using assms
  by (cases "index m"; cases s)
    (auto simp: ready_def nonneg_remove_def is_applicable_def prepare_modification_def
      local_edit_def clean_local_def root_def can_assign_def)

lemma local_assign_node:
  assumes "mod_k m = MOD_ASSIGN_NODE" "has_subtree t (root m)" "subtree t (root m) = Some s"
  shows "local_edit m s = (if ready ids t m then clean_local m s else None)"
  using assms
  by (cases "index m"; cases s)
    (auto simp: ready_def nonneg_remove_def is_applicable_def prepare_modification_def
      local_edit_def clean_local_def can_assign_node_def label_of_mod_def)

lemma local_set_cursor:
  assumes "mod_k m = MOD_SET_CURSOR" "has_subtree t (root m)" "subtree t (root m) = Some s"
  shows "local_edit m s = (if ready ids t m then clean_local m s else None)"
  using assms
  by (cases "index m"; cases s)
    (auto simp: ready_def nonneg_remove_def is_applicable_def prepare_modification_def
      local_edit_def clean_local_def can_set_cursor_def)

lemma local_set_metadata:
  assumes "mod_k m = MOD_SET_METADATA" "has_subtree t (root m)" "subtree t (root m) = Some s"
  shows "local_edit m s = (if ready ids t m then clean_local m s else None)"
  using assms
  by (cases "index m"; cases s)
    (auto simp: ready_def nonneg_remove_def is_applicable_def prepare_modification_def
      local_edit_def clean_local_def root_def)

lemma snoc_subtree:
  assumes "has_subtree t p" "subtree t p = Some s"
  shows "subtree t (p @ [i]) = (if i < N s then child s i else Some s)"
  using assms by (simp add: subtree_append)

lemma compatible_header_simps [simp]:
  "compatible_header (Atomic m s) h \<longleftrightarrow> (\<exists>m'. h = Atomic m' [])"
  "compatible_header (Compound m l ts) h \<longleftrightarrow> (\<exists>m' l'. 0 \<le> l' \<and> h = Compound m' l' [])"
  by (cases h; auto simp: compatible_header_def is_generic_def TMSTRING_def)+

lemma empty_header_payload_iff [simp]: "empty_header_payload h \<longleftrightarrow> h = Atomic None []"
  by (cases h) (auto simp: empty_header_payload_def)

lemma take_nth_drop: "0 \<le> i \<Longrightarrow> i < int (length xs) \<Longrightarrow> take (Suc 0) (drop (nat i) xs) = [xs ! nat i]"
  by (simp add: take_Suc_conv_app_nth)

lemma nat_plus_one: "0 \<le> i \<Longrightarrow> nat (i + 1) = Suc (nat i)"
  by simp

lemma update_payload_eq: "m\<lparr>mod_t := u\<rparr> = m \<longleftrightarrow> mod_t m = u"
  by (cases m) auto

lemma resolved_split:
  assumes "mod_k m = MOD_SPLIT" "index m = Some i" "argument m = Some a"
    "subtree t (root m @ [i]) = Some c"
  shows "prepare_modification ids t m = Some m \<longleftrightarrow> is_func (mod_t m) TUPLE 2 \<or> attrs c = None"
  using assms
  by (auto simp: prepare_modification_def has_node_headers_def update_payload_eq Let_def split: bind_splits)

lemma resolved_join:
  assumes "mod_k m = MOD_JOIN" "index m = Some i" "subtree t (root m) = Some s"
    "child s i = Some c1" "child s (i + 1) = Some c2"
  shows "prepare_modification ids t m = Some m \<longleftrightarrow>
    is_func (mod_t m) TUPLE 1 \<or> attrs c1 = None \<and> attrs c2 = None \<and> L c1 = L c2"
  using assms
  by (auto simp: prepare_modification_def has_node_headers_def update_payload_eq split: bind_splits)

lemma resolved_remove_node:
  assumes "mod_k m = MOD_REMOVE_NODE" "index m = Some i" "subtree t (root m) = Some s"
    "child s i = Some c" "is_applicable t m = Some True"
  shows "prepare_modification ids t m = Some m \<longleftrightarrow> is_func (mod_t m) TUPLE 1 \<or> attrs s = None"
  using assms
  by (auto simp: prepare_modification_def restores_child_header_def update_payload_eq Let_def split: bind_splits)

lemma is_func_Atomic_TUPLE [simp]: "\<not> is_func (Atomic m x) TUPLE n"
  by auto

lemma is_func_children:
  "is_func h l 1 \<Longrightarrow> child h 0 = Some (children h ! 0)"
  "is_func h l 2 \<Longrightarrow> child h 0 = Some (children h ! 0)"
  "is_func h l 2 \<Longrightarrow> child h 1 = Some (children h ! 1)"
  by (simp_all add: is_func_def)

lemma apply_header_with: "compatible_header c h \<Longrightarrow> is_atomic u = is_atomic c \<Longrightarrow> apply_node_header u h = Some (with_header h u)"
  by (cases c; cases u) (auto simp: apply_node_header_def)

lemma is_atomic_parts [simp]: "is_atomic (take_part a c) = is_atomic c" "is_atomic (drop_part a c) = is_atomic c"
  by (cases c; simp)+

lemma with_header_attrs_irrelevant [simp]: "with_header h (copy_metadata m t) = with_header h t"
  by (cases t) auto

lemma split_tree_parts:
  "0 \<le> a \<Longrightarrow> a \<le> content_length c \<Longrightarrow>
   split_tree c a h =
     (let s1 = copy_metadata None (take_part a c); s2 = copy_metadata None (drop_part a c) in
      if is_func h TUPLE 2 then
         do { h0 \<leftarrow> child h 0; s1 \<leftarrow> apply_node_header s1 h0;
              h1 \<leftarrow> child h 1; s2 \<leftarrow> apply_node_header s2 h1; Some (s1, s2) }
       else Some (s1, s2))"
  by (cases c) (auto simp: split_tree_def substr_prefix substr_suffix Let_def)

lemma copy_None [simp]: "attrs c = None \<Longrightarrow> copy_metadata None c = c"
  by (metis copy_metadata_attrs)

lemma attrs_parts [simp]: "attrs (take_part a c) = attrs c" "attrs (drop_part a c) = attrs c"
  by (cases c; simp)+

definition split_ok :: "int \<Rightarrow> tree \<Rightarrow> tree \<Rightarrow> bool" where
  "split_ok a h c \<longleftrightarrow> 0 \<le> a \<and> a \<le> content_length c \<and>
     (is_func h TUPLE 2 \<and> compatible_header c (children h ! 0) \<and> compatible_header c (children h ! 1) \<or>
      empty_header_payload h)"

lemma split_edit_tree:
  "split_edit a h [c] =
     (if split_ok a h c \<and> (is_func h TUPLE 2 \<or> attrs c = None)
      then map_option (\<lambda>(x, y). [x, y]) (split_tree c a h) else None)"
  by (cases "is_func h TUPLE 2")
    (auto simp: split_ok_def split_tree_parts apply_header_with is_func_children Let_def
      simp del: is_func_TUPLE compatible_header_simps)

lemma applicable_split:
  assumes "mod_k m = MOD_SPLIT" "has_subtree t (root m @ [i])" "subtree t (root m @ [i]) = Some c"
    "index m = Some i" "argument m = Some a"
  shows "is_applicable t m = Some (split_ok a (mod_t m) c)"
  using assms
  by (cases c) (auto simp: is_applicable_def can_split_def split_ok_def has_node_headers_def child_def)

lemma local_split:
  assumes k: "mod_k m = MOD_SPLIT" and t: "has_subtree t (root m)" "subtree t (root m) = Some s"
  shows "local_edit m s = (if ready ids t m then clean_local m s else None)"
proof (cases "index m \<noteq> None \<and> argument m \<noteq> None")
  case True
  then obtain i a where ia: "index m = Some i" "argument m = Some a" by auto
  show ?thesis
  proof (cases "is_compound s \<and> 0 \<le> i \<and> i < N s")
    case True
    then obtain m' l ts where s: "s = Compound m' l ts" and i: "0 \<le> i" "i < int (length ts)"
      by (auto simp: is_compound_iff)
    have h: "has_subtree t (root m @ [i])" "subtree t (root m @ [i]) = Some (ts ! nat i)"
      using t s i by (simp_all add: has_subtree_snoc snoc_subtree)
    note app = applicable_split [OF k h ia]
    have r: "ready ids t m \<longleftrightarrow> split_ok a (mod_t m) (ts ! nat i) \<and>
        (is_func (mod_t m) TUPLE 2 \<or> attrs (ts ! nat i) = None)"
      using k by (simp add: ready_def app resolved_split [OF k ia h(2)] nonneg_remove_def del: is_func_TUPLE)
    show ?thesis
      unfolding r using k ia s i
      by (cases "split_tree (ts ! nat i) a (mod_t m)")
        (auto simp: local_edit_def clean_local_def splice_tree_def splice_at_def take_nth_drop nat_plus_one
          split_edit_tree simp del: is_func_TUPLE split_edit.simps)
  qed (use k t ia in \<open>auto simp: ready_def is_applicable_def can_split_def has_subtree_snoc
     local_edit_def splice_tree_def splice_at_def no_text_def is_compound_iff split: tree.splits\<close>)
qed (use k t in \<open>auto simp: ready_def is_applicable_def local_edit_def\<close>)

lemma take_two_drop:
  "0 \<le> i \<Longrightarrow> i + 1 < int (length xs) \<Longrightarrow>
   take 2 (drop (nat i) xs) = [xs ! nat i, xs ! nat (i + 1)] \<and>
   drop (nat (i + 2)) xs = drop (Suc (Suc (nat i))) xs"
  by (simp add: take_Suc_conv_app_nth numeral_2_eq_2 nat_add_distrib)

definition join_ok :: "tree \<Rightarrow> tree \<Rightarrow> tree \<Rightarrow> bool" where
  "join_ok h c1 c2 \<longleftrightarrow> is_atomic c1 = is_atomic c2 \<and>
     (is_func h TUPLE 1 \<and> compatible_header c1 (children h ! 0) \<or> empty_header_payload h)"

lemma join_edit_trees:
  "join_edit h [c1, c2] =
     (if join_ok h c1 c2 \<and> (is_func h TUPLE 1 \<or> attrs c1 = None \<and> attrs c2 = None \<and> L c1 = L c2)
      then map_option (\<lambda>u. [u]) (join_trees c1 c2 h) else None)"
  by (cases "is_func h TUPLE 1"; cases c1; cases c2)
    (auto simp: join_ok_def join_trees_def is_func_children apply_node_header_def simp del: is_func_TUPLE)

lemma applicable_join:
  assumes k: "mod_k m = MOD_JOIN" and t: "has_subtree t (root m)" "subtree t (root m) = Some s"
    and i: "index m = Some i" and c: "child s i = Some c1" "child s (i + 1) = Some c2"
  shows "is_applicable t m = Some (join_ok (mod_t m) c1 c2)"
proof -
  have "0 \<le> i" "i + 1 < N s"
    using c by (auto simp: child_Some_iff)
  moreover have "subtree t (root m @ [i]) = Some c1"
    using t c by (auto simp: snoc_subtree child_Some_iff)
  ultimately show ?thesis
    using k t i c
    by (auto simp: is_applicable_def can_join_def join_ok_def has_node_headers_def single_node_header_def
          is_func_children is_compound_def simp del: is_func_TUPLE)
qed

lemma local_join:
  assumes k: "mod_k m = MOD_JOIN" and t: "has_subtree t (root m)" "subtree t (root m) = Some s"
  shows "local_edit m s = (if ready ids t m then clean_local m s else None)"
proof (cases "index m")
  case (Some i)
  show ?thesis
  proof (cases "0 \<le> i \<and> i + 1 < N s")
    case True
    then obtain m' l ts where s: "s = Compound m' l ts" and i: "0 \<le> i" "i + 1 < int (length ts)"
      by (cases s) auto
    have c: "child s i = Some (ts ! nat i)" "child s (i + 1) = Some (ts ! nat (i + 1))"
      using s i by simp_all
    note app = applicable_join [OF k t Some c]
    have r: "ready ids t m \<longleftrightarrow> join_ok (mod_t m) (ts ! nat i) (ts ! nat (i + 1)) \<and>
        (is_func (mod_t m) TUPLE 1 \<or> attrs (ts ! nat i) = None \<and> attrs (ts ! nat (i + 1)) = None \<and>
         L (ts ! nat i) = L (ts ! nat (i + 1)))"
      using k by (simp add: ready_def app resolved_join [OF k Some t(2) c] nonneg_remove_def del: is_func_TUPLE)
    show ?thesis
      unfolding r using k s i take_two_drop [OF i] Some
      by (cases "join_trees (ts ! nat i) (ts ! nat (i + 1)) (mod_t m)")
        (auto simp: local_edit_def clean_local_def splice_tree_def splice_at_def join_edit_trees
          simp del: is_func_TUPLE join_edit.simps)
  qed (use k t Some in \<open>auto simp: ready_def is_applicable_def can_join_def
     local_edit_def splice_tree_def splice_at_def no_text_def split: tree.splits\<close>)
qed (use k t in \<open>auto simp: ready_def is_applicable_def local_edit_def\<close>)

lemma local_insert_node:
  assumes k: "mod_k m = MOD_INSERT_NODE" and t: "has_subtree t (root m)" "subtree t (root m) = Some s"
  shows "local_edit m s = (if ready ids t m then clean_local m s else None)"
proof (cases "argument m")
  case (Some a)
  show ?thesis
    using k t Some
    by (cases s; cases "mod_t m")
      (auto simp: ready_def nonneg_remove_def is_applicable_def can_insert_node_def local_edit_def
        clean_local_def insert_node_edit_def prepare_modification_def inserted_node_template_def
        restores_child_header_def clean_with_header_def)
qed (use k in \<open>auto simp: ready_def is_applicable_def local_edit_def\<close>)

definition remove_node_ok :: "modification \<Rightarrow> tree \<Rightarrow> tree \<Rightarrow> bool" where
  "remove_node_ok m s c \<longleftrightarrow>
     (if restores_child_header m then compatible_header c (children (mod_t m) ! 0)
      else empty_header_payload (mod_t m) \<and> (attrs s = None \<or> N s = 1 \<and> attrs c = None))"

lemma clean_with_header_eq:
  "compatible_header c h \<Longrightarrow> clean_with_header c h = with_header h c"
  by (cases c) (auto simp: clean_with_header_def)

lemma local_remove_node:
  assumes k: "mod_k m = MOD_REMOVE_NODE" and t: "has_subtree t (root m)" "subtree t (root m) = Some s"
  shows "local_edit m s = (if ready ids t m then clean_local m s else None)"
proof (cases "index m")
  case (Some i)
  have rch: "restores_child_header m \<longleftrightarrow> is_func (mod_t m) TUPLE 1"
    using k by (simp add: restores_child_header_def)
  show ?thesis
  proof (cases "child s i")
    case c: (Some c)
    then have "is_compound s" "0 \<le> i" "i < N s"
      by (auto simp: child_Some_iff N_pos_compound)
    with t c have h: "has_subtree t (root m @ [i])" "subtree t (root m @ [i]) = Some c"
      by (simp_all add: has_subtree_snoc snoc_subtree)
    have app: "is_applicable t m = Some (remove_node_ok m s c)"
      using k h t Some c
      by (auto simp: is_applicable_def can_remove_node_def remove_node_ok_def rch single_node_header_def
          is_func_children simp del: is_func_TUPLE)
    have r: "ready ids t m \<longleftrightarrow> remove_node_ok m s c \<and> (is_func (mod_t m) TUPLE 1 \<or> attrs s = None)"
      using k resolved_remove_node [OF k Some t(2) c, of ids]
      by (auto simp: ready_def app nonneg_remove_def simp del: is_func_TUPLE)
    show ?thesis
      unfolding r using k Some c
      by (auto simp: local_edit_def clean_local_def remove_node_edit_def remove_node_ok_def rch
          clean_with_header_eq is_func_children simp del: is_func_TUPLE compatible_header_simps)
  next
    case None
    then have "\<not> (is_compound s \<and> 0 \<le> i \<and> i < N s)"
      by auto
    with None show ?thesis
      using k t Some by (auto simp: ready_def is_applicable_def can_remove_node_def has_subtree_snoc
        local_edit_def remove_node_edit_def)
  qed
qed (use k in \<open>auto simp: ready_def is_applicable_def local_edit_def\<close>)

lemma local_edit_ready:
  assumes "has_subtree t (root m)" "subtree t (root m) = Some s"
  shows "local_edit m s = (if ready ids t m then clean_local m s else None)"
  using assms
  by (cases "mod_k m"; simp only: local_insert local_remove local_split local_join local_insert_node
       local_remove_node local_assign local_assign_node local_set_cursor local_set_metadata)

lemma effect_eq: "effect m t = (if ready ids t m then clean_apply ids t m else None)"
proof (cases "has_subtree t (root m)")
  case True
  then obtain s where s: "subtree t (root m) = Some s"
    using has_subtree_subtree by blast
  show ?thesis
  proof (cases "ready ids t m")
    case r: True
    then have "effect m t = at_path (root m) (clean_local m) t"
      unfolding effect_def by (intro at_path_cong) (simp add: local_edit_ready [where ids = ids])
    with r show ?thesis by (simp add: clean_apply_local ready_def)
  next
    case False
    then have "local_edit m s = None"
      using local_edit_ready [OF True s, of ids] by simp
    then have "effect m t = None"
      using at_path_eq [of "root m" "local_edit m" t] s by (cases "effect m t") (auto simp: effect_def)
    with False show ?thesis by simp
  qed
next
  case False
  then have "effect m t = None"
    using at_path_eq [of "root m" "local_edit m" t] by (cases "effect m t") (auto simp: effect_def)
  with False show ?thesis
    using applicable_root by (auto simp: ready_def)
qed

lemma effect_iff:
  "effect m t = Some t' \<longleftrightarrow>
     nonneg_remove m \<and> prepare_modification ids t m = Some m \<and> clean_apply ids t m = Some t'"
  unfolding effect_eq [of m t ids]
  by (auto simp: ready_def clean_apply_def split: bind_splits if_splits)

section \<open>Well-formed trees\<close>

text \<open>
  The type invariant of trees: the label of a compound node is an operator, a number above
  \<open>STRING\<close> (\<open>is_atomic\<close> tests the label for \<open>STRING\<close>, negative labels are the generic
  nodes).
\<close>

fun wf_tree :: "tree \<Rightarrow> bool" where
  "wf_tree (Atomic m s) = True"
| "wf_tree (Compound m l ts) = (TMSTRING < l \<and> list_all wf_tree ts)"

lemma wf_tree_child: "wf_tree t \<Longrightarrow> child t i = Some c \<Longrightarrow> wf_tree c"
  by (cases t) (auto simp: list_all_iff)

lemma wf_tree_children: "wf_tree t \<Longrightarrow> list_all wf_tree (children t)"
  by (cases t) auto

lemma wf_tree_set_child: "wf_tree t \<Longrightarrow> wf_tree c \<Longrightarrow> child t j = Some d \<Longrightarrow> wf_tree (set_child t j c)"
  by (cases t) (auto simp: set_child_def list_all_iff dest: set_update_subset_insert [THEN subsetD])

lemma wf_tree_at_path:
  "at_path p f t = Some t' \<Longrightarrow> (\<And>s s'. wf_tree s \<Longrightarrow> f s = Some s' \<Longrightarrow> wf_tree s') \<Longrightarrow>
   wf_tree t \<Longrightarrow> wf_tree t'"
proof (induction p arbitrary: t t')
  case (Cons j p)
  obtain c r where c: "child t j = Some c" and r: "at_path p f c = Some r"
    and t': "t' = set_child t j r"
    using Cons.prems(1) by (auto split: bind_splits)
  have "wf_tree r"
    by (rule Cons.IH [OF r _ wf_tree_child [OF Cons.prems(3) c]]) (rule Cons.prems(2))
  then show ?case
    unfolding t' using c Cons.prems(3) by (blast intro: wf_tree_set_child)
qed (simp only: at_path.simps)

lemma wf_tree_subtree: "subtree t p = Some s \<Longrightarrow> wf_tree t \<Longrightarrow> wf_tree s"
  by (induction p arbitrary: t) (auto split: bind_splits if_splits dest: wf_tree_child)

lemma wf_tree_copy_metadata [simp]: "wf_tree (copy_metadata m t) = wf_tree t"
  by (cases t) auto

lemma wf_tree_with_header:
  "wf_tree t \<Longrightarrow> wf_tree h \<Longrightarrow> compatible_header t h \<Longrightarrow> wf_tree (with_header h t)"
  by (cases t) auto

lemma wf_tree_parts: "wf_tree t \<Longrightarrow> wf_tree (take_part a t) \<and> wf_tree (drop_part a t)"
  by (cases t) (auto simp: list_all_iff dest: in_set_takeD in_set_dropD)

lemma list_all_splice:
  assumes "splice_at b n F xs = Some ys" and "list_all P xs"
    and "\<And>S T. F S = Some T \<Longrightarrow> list_all P S \<Longrightarrow> list_all P T"
  shows "list_all P ys"
  using assms by (auto simp: splice_Some_iff)

lemma wf_tree_splice:
  assumes "splice_tree b n FA FC t = Some t'" and "wf_tree t"
    and "\<And>S T. FC S = Some T \<Longrightarrow> list_all wf_tree S \<Longrightarrow> list_all wf_tree T"
  shows "wf_tree t'"
  using assms(1, 2) list_all_splice [where P = wf_tree and F = FC, OF _ _ assms(3)]
  by (cases t) (auto simp: splice_tree_def)

lemma wf_tree_nth: "wf_tree h \<Longrightarrow> is_func h l n \<Longrightarrow> 0 \<le> i \<Longrightarrow> i < n \<Longrightarrow> wf_tree (children h ! nat i)"
  by (cases h) (auto simp: is_func_def list_all_iff)

lemma compatible_parts [simp]:
  "compatible_header (take_part a c) h = compatible_header c h"
  "compatible_header (drop_part a c) h = compatible_header c h"
  by (cases c; simp)+

lemma wf_split_edit:
  assumes "split_edit a h S = Some T" "list_all wf_tree S" "wf_tree h"
  shows "list_all wf_tree T"
proof -
  obtain c where S: "S = [c]"
    using assms(1) by (cases "(a, h, S)" rule: split_edit.cases) auto
  have "is_func h TUPLE 2 \<Longrightarrow> wf_tree (children h ! 0) \<and> wf_tree (children h ! 1)"
    using wf_tree_nth [OF assms(3), of TUPLE 2 0] wf_tree_nth [OF assms(3), of TUPLE 2 1] by simp
  with assms show ?thesis
    unfolding S using wf_tree_parts [of c a]
    by (auto simp: Let_def simp del: is_func_TUPLE compatible_header_simps split: if_splits
        intro!: wf_tree_with_header)
qed

lemma wf_join_parts: "join_parts c1 c2 = Some u \<Longrightarrow> wf_tree c1 \<Longrightarrow> wf_tree c2 \<Longrightarrow> wf_tree u"
  by (induction c1 c2 rule: join_parts.induct) auto

lemma compatible_join: "join_parts c1 c2 = Some u \<Longrightarrow> compatible_header u h = compatible_header c1 h"
  by (induction c1 c2 rule: join_parts.induct) auto

lemma wf_join_edit:
  assumes "join_edit h S = Some T" "list_all wf_tree S" "wf_tree h"
  shows "list_all wf_tree T"
proof -
  obtain c1 c2 where S: "S = [c1, c2]"
    using assms(1) by (cases "(h, S)" rule: join_edit.cases) auto
  have "is_func h TUPLE 1 \<Longrightarrow> wf_tree (children h ! 0)"
    using wf_tree_nth [OF assms(3), of TUPLE 1 0] by simp
  with assms show ?thesis
    unfolding S
    by (auto simp: compatible_join wf_join_parts simp del: is_func_TUPLE compatible_header_simps
        split: if_splits bind_splits intro!: wf_tree_with_header)
qed

lemma wf_insert_node_edit:
  assumes "insert_node_edit a m t = Some t'" "wf_tree t" "wf_tree (mod_t m)"
  shows "wf_tree t'"
proof -
  obtain w where w: "inserted_node_template m = Some w"
    using assms(1) by (auto simp: insert_node_edit_def split: bind_splits)
  then have rch: "restores_child_header m \<Longrightarrow> is_func (mod_t m) UNINIT 2"
    by (auto simp: inserted_node_template_def restores_child_header_def split: if_splits)
  then have h: "restores_child_header m \<Longrightarrow> wf_tree (children (mod_t m) ! 0) \<and> wf_tree (children (mod_t m) ! 1)"
    using wf_tree_nth [OF assms(3), of UNINIT 2 0] wf_tree_nth [OF assms(3), of UNINIT 2 1] by simp
  have "wf_tree w"
    using w h rch assms(3) 
    by (auto simp: inserted_node_template_def is_func_children simp del: is_func_UNINIT split: if_splits)
  with assms w h show ?thesis
    by (cases w) (auto simp: insert_node_edit_def list_all_iff split: if_splits bind_splits
       simp del: compatible_header_simps intro!: wf_tree_with_header dest!: in_set_takeD in_set_dropD)
qed

lemma wf_remove_node_edit:
  assumes "remove_node_edit i m t = Some t'" "wf_tree t" "wf_tree (mod_t m)" "mod_k m = MOD_REMOVE_NODE"
  shows "wf_tree t'"
proof -
  have "restores_child_header m \<Longrightarrow> is_func (mod_t m) TUPLE 1"
    using assms(4) by (simp add: restores_child_header_def)
  then have "restores_child_header m \<Longrightarrow> wf_tree (children (mod_t m) ! 0)"
    using wf_tree_nth [OF assms(3), of TUPLE 1 0] by simp
  with assms show ?thesis
    by (auto simp: remove_node_edit_def simp del: compatible_header_simps split: bind_splits if_splits
        intro!: wf_tree_with_header dest: wf_tree_child)
qed

lemma wf_local_edit:
  assumes "local_edit m t = Some t'" "wf_tree t" "wf_tree (mod_t m)"
    and "mod_k m = MOD_ASSIGN_NODE \<Longrightarrow> is_compound (mod_t m)"
  shows "wf_tree t'"
proof (cases "mod_k m")
  case MOD_INSERT
  with assms wf_tree_children [of "mod_t m"] show ?thesis
    by (auto simp: local_edit_def compound_children_def split: bind_splits if_splits elim!: wf_tree_splice)
next
  case MOD_REMOVE
  with assms show ?thesis
    by (auto simp: local_edit_def split: bind_splits elim!: wf_tree_splice)
next
  case MOD_SPLIT
  with assms show ?thesis
    by (auto simp: local_edit_def split: bind_splits elim!: wf_tree_splice dest: wf_split_edit)
next
  case MOD_JOIN
  with assms show ?thesis
    by (auto simp: local_edit_def split: bind_splits elim!: wf_tree_splice dest: wf_join_edit)
next
  case MOD_INSERT_NODE
  with assms show ?thesis
    by (auto simp: local_edit_def split: bind_splits dest: wf_insert_node_edit)
next
  case MOD_REMOVE_NODE
  with assms show ?thesis
    by (auto simp: local_edit_def split: bind_splits dest: wf_remove_node_edit)
next
  case MOD_ASSIGN_NODE
  with assms show ?thesis
    by (cases t; cases "mod_t m") (auto simp: local_edit_def)
qed (use assms in \<open>auto simp: local_edit_def split: bind_splits if_splits\<close>)

lemma wf_effect:
  "effect m t = Some t' \<Longrightarrow> wf_tree t \<Longrightarrow> wf_tree (mod_t m) \<Longrightarrow>
   (mod_k m = MOD_ASSIGN_NODE \<Longrightarrow> is_compound (mod_t m)) \<Longrightarrow> wf_tree t'"
  unfolding effect_def by (rule wf_tree_at_path) (auto intro: wf_local_edit)

section \<open>Preparation resolves a modification\<close>

text \<open>
  What \<open>prepare_modification\<close> returns is again applicable and is not changed by a second
  preparation, and the application of the original is the effect of the prepared one.
\<close>

lemma node_header_compatible: "wf_tree t \<Longrightarrow> compatible_header t (node_header t)"
  by (cases t) (auto simp: node_header_def TMSTRING_def)

lemma duplicate_compatible:
  assumes "duplicate ids (node_header t) = Some (u, r)" and "wf_tree t"
  shows "compatible_header t u"
  using duplicate_shape [OF assms(1)] assms(2)
  by (cases t; cases u) (auto simp: node_header_def TMSTRING_def)

lemma accessors_update_payload [simp]:
  "root (m\<lparr>mod_t := u\<rparr>) = root m" "index (m\<lparr>mod_t := u\<rparr>) = index m"
  "argument (m\<lparr>mod_t := u\<rparr>) = argument m" "nonneg_remove (m\<lparr>mod_t := u\<rparr>) = nonneg_remove m"
  by (cases "mod_k m"; simp add: root_def index_def argument_def nonneg_remove_def)+

lemma prepare_split:
  assumes k: "mod_k m = MOD_SPLIT" and ok: "is_applicable t m = Some True" and wf: "wf_tree t"
    and prep: "prepare_modification ids t m = Some pm"
  shows "is_applicable t pm = Some True \<and> prepare_modification ids t pm = Some pm"
proof (cases "pm = m")
  case False
  from applicable_args [OF ok] k obtain i a where ia: "index m = Some i" "argument m = Some a"
    by auto
  have cs: "can_split t (root m) i a = Some True"
    using ok k ia by (auto simp: is_applicable_def split: bind_splits if_splits)
  then obtain c where c: "subtree t (root m @ [i]) = Some c"
    by (auto simp: can_split_def split: bind_splits if_splits)
  with prep False k ia obtain f r where f: "duplicate ids (node_header c) = Some (f, r)"
    by (auto simp: prepare_modification_def Let_def simp del: not_None_eq split: bind_splits if_splits)
  with prep False k ia c obtain h0 h1 where pm: "pm = m\<lparr>mod_t := Compound None TUPLE [h0, h1]\<rparr>"
      and h: "(h0, h1) = (f, node_header c) \<or> (h0, h1) = (node_header c, f)"
    by (auto simp: prepare_modification_def Let_def simp del: not_None_eq split: if_splits)
  have "compatible_header c h0 \<and> compatible_header c h1"
    using h duplicate_compatible [OF f] node_header_compatible wf_tree_subtree [OF c wf] by auto
  then show ?thesis
    using k ia c cs by (auto simp: pm is_applicable_def has_node_headers_def prepare_modification_def)
qed (use assms in simp)

lemma prepare_join:
  assumes k: "mod_k m = MOD_JOIN" and ok: "is_applicable t m = Some True" and wf: "wf_tree t"
    and prep: "prepare_modification ids t m = Some pm"
  shows "is_applicable t pm = Some True \<and> prepare_modification ids t pm = Some pm"
proof (cases "pm = m")
  case False
  from applicable_args [OF ok] k obtain i where i: "index m = Some i" by auto
  from prep False k i obtain s c where s: "subtree t (root m) = Some s" and c: "child s i = Some c"
      and pm: "pm = m\<lparr>mod_t := Compound None TUPLE [node_header c]\<rparr>"
    by (auto simp: prepare_modification_def split: bind_splits if_splits)
  have "has_subtree t (root m)"
    using ok by (rule applicable_root)
  with s c have "subtree t (root m @ [i]) = Some c"
    by (auto simp: snoc_subtree child_Some_iff)
  moreover have "compatible_header c (node_header c)"
    using wf_tree_child [OF wf_tree_subtree [OF s wf] c] by (rule node_header_compatible)
  moreover have "can_join t (root m) i = Some True"
    using ok k i by (auto simp: is_applicable_def split: bind_splits if_splits)
  ultimately show ?thesis
    using k i by (auto simp: pm is_applicable_def has_node_headers_def single_node_header_def
        prepare_modification_def)
qed (use assms in simp)

lemma prepare_remove_node:
  assumes k: "mod_k m = MOD_REMOVE_NODE" and ok: "is_applicable t m = Some True" and wf: "wf_tree t"
    and prep: "prepare_modification ids t m = Some pm"
  shows "is_applicable t pm = Some True \<and> prepare_modification ids t pm = Some pm"
proof (cases "pm = m")
  case False
  from applicable_args [OF ok] k obtain i where i: "index m = Some i" by auto
  from prep False k i ok obtain s c h where s: "subtree t (root m) = Some s" and c: "child s i = Some c"
      and pm: "pm = m\<lparr>mod_t := Compound None TUPLE [h]\<rparr>" and h: "\<exists>m'. h = copy_metadata m' (node_header c)"
    by (auto simp: prepare_modification_def Let_def split: bind_splits if_splits)
      (metis copy_metadata_attrs)+
  have "has_subtree t (root m)"
    using ok by (rule applicable_root)
  with s c have "subtree t (root m @ [i]) = Some c" "has_subtree t (root m @ [i])"
    by (auto simp: snoc_subtree has_subtree_snoc child_Some_iff N_pos_compound)
  moreover have "compatible_header c h"
    using wf_tree_child [OF wf_tree_subtree [OF s wf] c] h
    by (cases c) (auto simp: node_header_def TMSTRING_def)
  ultimately show ?thesis
    using k i by (auto simp: pm is_applicable_def restores_child_header_def single_node_header_def
        prepare_modification_def)
qed (use assms in simp)

lemma prepare_resolves:
  assumes "is_applicable t m = Some True" "prepare_modification ids t m = Some pm" "wf_tree t"
  shows "is_applicable t pm = Some True \<and> prepare_modification ids t pm = Some pm"
proof (cases "mod_k m \<in> {MOD_SPLIT, MOD_JOIN, MOD_REMOVE_NODE}")
  case True
  then show ?thesis
    using assms prepare_split prepare_join prepare_remove_node by blast
next
  case False
  then have "pm = m"
    using assms(2) by (auto simp: prepare_modification_def)
  with assms show ?thesis by simp
qed

lemma prepare_shape:
  "prepare_modification ids t m = Some pm \<Longrightarrow> mod_k pm = mod_k m \<and> mod_p pm = mod_p m"
  by (auto simp: prepare_modification_def Let_def split: bind_splits if_splits)

lemma clean_apply_prepared:
  assumes "is_applicable t m = Some True" "prepare_modification ids t m = Some pm" "wf_tree t"
  shows "clean_apply ids t m = clean_apply ids t pm"
  using assms prepare_resolves [OF assms] by (simp add: clean_apply_def)

lemma clean_apply_effect:
  assumes "clean_apply ids t m = Some t'" "nonneg_remove m" "wf_tree t"
  obtains pm where "prepare_modification ids t m = Some pm" "effect pm t = Some t'"
proof -
  have ok: "is_applicable t m = Some True"
    using assms(1) by (auto simp: clean_apply_def split: bind_splits if_splits)
  then obtain pm where pm: "prepare_modification ids t m = Some pm"
    using assms(1) by (auto simp: clean_apply_def split: bind_splits)
  have "nonneg_remove pm"
    using prepare_shape [OF pm] assms(2) by (simp add: nonneg_remove_def argument_def)
  with prepare_resolves [OF ok pm assms(3)] have "effect pm t = clean_apply ids t pm"
    by (simp add: effect_eq [of pm t ids] ready_def)
  with clean_apply_prepared [OF ok pm assms(3)] assms(1) have "effect pm t = Some t'"
    by simp
  with pm show thesis by (rule that)
qed

text \<open>An applicable resolved modification can be applied: no assertion below fails.\<close>

lemma progress_split:
  assumes k: "mod_k m = MOD_SPLIT" and ok: "is_applicable t m = Some True"
    and prep: "prepare_modification ids t m = Some m" and s: "subtree t (root m) = Some s"
  shows "\<exists>s'. local_edit m s = Some s'"
proof -
  from applicable_args [OF ok] k obtain i a where ia: "index m = Some i" "argument m = Some a"
    by auto
  have h: "has_subtree t (root m @ [i])"
    using ok k ia by (auto simp: is_applicable_def can_split_def split: bind_splits if_splits)
  from h s have i: "is_compound s" "0 \<le> i" "i < N s"
    using has_subtree_prefix [OF h] by (auto simp: has_subtree_snoc)
  then obtain m' l ts where ts: "s = Compound m' l ts" and il: "i < int (length ts)"
    by (auto simp: is_compound_iff)
  have c: "subtree t (root m @ [i]) = Some (ts ! nat i)"
    using s i ts il has_subtree_prefix [OF h] by (simp add: snoc_subtree)
  have "split_ok a (mod_t m) (ts ! nat i)"
    using applicable_split [OF k h c ia] ok by simp
  moreover have "is_func (mod_t m) TUPLE 2 \<or> attrs (ts ! nat i) = None"
    by (rule iffD1 [OF resolved_split [OF k ia c, of ids] prep])
  ultimately have "\<exists>T. split_edit a (mod_t m) [ts ! nat i] = Some T"
    by (auto simp: split_ok_def Let_def simp del: is_func_TUPLE compatible_header_simps)
  then show ?thesis
    using k ia i ts il
    by (auto simp: local_edit_def splice_tree_def splice_at_def take_nth_drop simp del: split_edit.simps)
qed

lemma progress_join:
  assumes k: "mod_k m = MOD_JOIN" and ok: "is_applicable t m = Some True"
    and prep: "prepare_modification ids t m = Some m" and s: "subtree t (root m) = Some s"
  shows "\<exists>s'. local_edit m s = Some s'"
proof -
  from applicable_args [OF ok] k obtain i where i: "index m = Some i" by auto
  have "can_join t (root m) i = Some True"
    using ok k i by (auto simp: is_applicable_def split: bind_splits if_splits)
  then obtain c1 c2 where c: "child s i = Some c1" "child s (i + 1) = Some c2"
    using s by (auto simp: can_join_def split: bind_splits if_splits)
  then obtain m' l ts where ts: "s = Compound m' l ts" and il: "0 \<le> i" "i + 1 < int (length ts)"
    by (cases s) auto
  have "join_ok (mod_t m) c1 c2"
    using applicable_join [OF k applicable_root [OF ok] s i c] ok by simp
  moreover have "is_func (mod_t m) TUPLE 1 \<or> attrs c1 = None \<and> attrs c2 = None \<and> L c1 = L c2"
    by (rule iffD1 [OF resolved_join [OF k i s c, of ids] prep])
  ultimately have "\<exists>T. join_edit (mod_t m) [c1, c2] = Some T"
    by (cases c1; cases c2) (auto simp: join_ok_def simp del: is_func_TUPLE compatible_header_simps)
  then show ?thesis
    using k i c ts take_two_drop [OF il]
    by (auto simp: local_edit_def splice_tree_def splice_at_def simp del: join_edit.simps)
qed

lemma progress_insert_node:
  assumes k: "mod_k m = MOD_INSERT_NODE" and ok: "is_applicable t m = Some True"
    and s: "subtree t (root m) = Some s"
  shows "\<exists>s'. local_edit m s = Some s'"
proof -
  from applicable_args [OF ok] k obtain a where a: "argument m = Some a" by auto
  obtain u where u: "inserted_node_template m = Some u"
    using insert_node_parts [OF k] by blast
  have "is_compound u \<and> 0 \<le> a \<and> a \<le> N u"
    using ok k a u by (auto simp: is_applicable_def can_insert_node_def split: if_splits)
  moreover have "restores_child_header m \<Longrightarrow> child (mod_t m) 1 = Some (children (mod_t m) ! 1)"
    using k by (auto simp: restores_child_header_def)
  then have "restores_child_header m \<Longrightarrow> compatible_header s (children (mod_t m) ! 1)"
    using ok k a u s by (auto simp: is_applicable_def simp del: compatible_header_simps split: if_splits)
  ultimately show ?thesis
    using k a u by (auto simp: local_edit_def insert_node_edit_def simp del: compatible_header_simps)
qed

lemma progress_remove_node:
  assumes k: "mod_k m = MOD_REMOVE_NODE" and ok: "is_applicable t m = Some True"
    and prep: "prepare_modification ids t m = Some m" and s: "subtree t (root m) = Some s"
  shows "\<exists>s'. local_edit m s = Some s'"
proof -
  from applicable_args [OF ok] k obtain i where i: "index m = Some i" by auto
  have h: "has_subtree t (root m @ [i])"
    using ok k i by (auto simp: is_applicable_def can_remove_node_def split: bind_splits if_splits)
  then obtain c where c: "child s i = Some c" "subtree t (root m @ [i]) = Some c"
    using s has_subtree_prefix [OF h] by (auto simp: has_subtree_snoc snoc_subtree)
  have "restores_child_header m \<Longrightarrow> compatible_header c (children (mod_t m) ! 0)"
    using ok k i c
    by (auto simp: is_applicable_def single_node_header_def is_func_children simp del: compatible_header_simps
        split: if_splits bind_splits)
  moreover have "\<not> restores_child_header m \<Longrightarrow> empty_header_payload (mod_t m) \<and> attrs s = None"
    using ok k i resolved_remove_node [OF k i s c(1) ok] prep
    by (auto simp: is_applicable_def restores_child_header_def split: if_splits)
  ultimately show ?thesis
    using k i c by (auto simp: local_edit_def remove_node_edit_def simp del: compatible_header_simps)
qed

lemma ready_progress:
  assumes "ready ids t m"
  shows "\<exists>t'. effect m t = Some t'"
proof -
  have ok: "is_applicable t m = Some True" and prep: "prepare_modification ids t m = Some m"
    and nn: "nonneg_remove m"
    using assms by (simp_all add: ready_def)
  have h: "has_subtree t (root m)"
    using ok by (rule applicable_root)
  then obtain s where s: "subtree t (root m) = Some s"
    using has_subtree_subtree by blast
  have "\<exists>s'. local_edit m s = Some s'"
  proof (cases "mod_k m \<in> {MOD_SPLIT, MOD_JOIN, MOD_INSERT_NODE, MOD_REMOVE_NODE}")
    case True
    then show ?thesis
      using ok prep s progress_split progress_join progress_insert_node progress_remove_node by blast
  next
    case False
    then show ?thesis
      using ok nn h s path_no_arg [of m]
      by (cases "mod_k m"; cases s)
        (auto simp: local_edit_def is_applicable_def can_insert_def can_remove_def can_assign_node_def
          can_set_cursor_def nonneg_remove_def splice_tree_def splice_at_def compound_children_def is_atomic_iff
          split: bind_splits)
  qed
  then show ?thesis
    unfolding effect_def using h s at_path_Some by blast
qed

section \<open>Properties of the application\<close>

text \<open>
  Claim C5. The applicability test is sound except for removals with a negative count: on a well-formed tree, a
  modification that \<open>is_applicable\<close> accepts, that is not a removal of a negative number of items, and whose
  preparation returns, is applied by \<open>clean_apply\<close> without a failing assertion or an access out of range. A
  removal with a negative count may be accepted as well, since only the end of the range is tested; see
  \<open>negative_remove_not_undone\<close> in \<open>Athena_Invert\<close>.
\<close>

theorem applicable_progress:
  assumes "wf_tree t" and "is_applicable t m = Some True" and "nonneg_remove m"
    and "prepare_modification ids t m = Some pm"
  shows "\<exists>t'. clean_apply ids t m = Some t'"
proof -
  have "ready ids t pm"
    using assms(3) prepare_resolves [OF assms(2, 4, 1)] prepare_shape [OF assms(4)]
    by (simp add: ready_def nonneg_remove_def argument_def)
  then obtain t' where "effect pm t = Some t'"
    using ready_progress by blast
  then have "clean_apply ids t m = Some t'"
    using clean_apply_prepared [OF assms(2, 4, 1)] by (simp add: effect_iff [of _ _ _ ids])
  then show ?thesis by blast
qed

definition sample_tree :: tree where
  "sample_tree =
     Compound None DOCUMENT
       [Atomic (Some (Metadata ''n1'' [])) ''hello'', Atomic None ''world'', Compound None CONCAT []]"

theorem applicable_progress_witness:
  "wf_tree sample_tree \<and> is_applicable sample_tree (mod_split [] 0 2) = Some True \<and>
   nonneg_remove (mod_split [] 0 2) \<and>
   prepare_modification (\<lambda>n. ''n2'') sample_tree (mod_split [] 0 2) =
     Some (mod_split_headers [] 0 2 (Compound None TUPLE
       [Atomic (Some (Metadata ''n1'' [])) [], Atomic (Some (Metadata ''n2'' [])) []])) \<and>
   (\<exists>t'. clean_apply (\<lambda>n. ''n2'') sample_tree (mod_split [] 0 2) = Some t')"
proof -
  have 1: "wf_tree sample_tree" by code_simp
  have 2: "is_applicable sample_tree (mod_split [] 0 2) = Some True" by code_simp
  have 3: "nonneg_remove (mod_split [] 0 2)" by code_simp
  have 4: "prepare_modification (\<lambda>n. ''n2'') sample_tree (mod_split [] 0 2) =
     Some (mod_split_headers [] 0 2 (Compound None TUPLE
       [Atomic (Some (Metadata ''n1'' [])) [], Atomic (Some (Metadata ''n2'' [])) []]))"
    by code_simp
  from 1 2 3 4 applicable_progress [OF 1 2 3 4] show ?thesis by blast
qed

end
