(* ===== verification/Athena_Commute.thy ===== *)
theory Athena_Commute
  imports Athena_Effect
begin

text \<open>
  Inversion and commutation of modifications: \<open>src/src/Document/History/commute.cpp\<close>. The
  undo history is rewritten with these two operations: \<open>invert\<close> gives the modification that
  undoes another one, and \<open>swap\<close> exchanges two consecutive modifications, changing their
  positions so that both orders have the same result.

  \<open>swap\<close> changes its arguments in place and reports success; here it returns the flag with
  the two modifications, \<open>None\<close> being an access out of range or the final \<open>FAILED\<close>.
\<close>

section \<open>Subroutines\<close>

definition insert_length :: "tree \<Rightarrow> int" where
  "insert_length t = (case t of Atomic m s \<Rightarrow> int (length s) | Compound m l ts \<Rightarrow> N t)"

definition insert_range :: "tree \<Rightarrow> int \<Rightarrow> int \<Rightarrow> tree option" where
  "insert_range t i len =
     (case t of Atomic m s \<Rightarrow> Some (Atomic None (substr s i (i + len)))
      | Compound m l ts \<Rightarrow> tree_range t i (i + len))"

definition item :: "path \<Rightarrow> int option" where
  "item p = (case p of [] \<Rightarrow> None | i # q \<Rightarrow> Some i)"

definition next_of :: "path \<Rightarrow> path option" where
  "next_of p = (case p of [] \<Rightarrow> None | i # q \<Rightarrow> Some q)"

text \<open>\<open>m->p->item += d\<close> on a copy of \<open>m\<close> whose path is not empty.\<close>

definition add_item :: "modification \<Rightarrow> int \<Rightarrow> modification" where
  "add_item m d = m\<lparr>mod_p := (case mod_p m of [] \<Rightarrow> [] | i # q \<Rightarrow> (i + d) # q)\<rparr>"

section \<open>Inversion\<close>

definition invert :: "modification \<Rightarrow> tree \<Rightarrow> modification option" where
  "invert m t =
     do { ok \<leftarrow> is_applicable t m;
       if \<not> ok then None
       else let rp = root m in (case mod_k m of
           MOD_ASSIGN \<Rightarrow> do { s \<leftarrow> subtree t rp; Some (mod_assign rp (copy_tree s)) }
         | MOD_INSERT \<Rightarrow> do { i \<leftarrow> index m; Some (mod_remove rp i (insert_length (mod_t m))) }
         | MOD_REMOVE \<Rightarrow> do { i \<leftarrow> index m; n \<leftarrow> argument m; s \<leftarrow> subtree t rp;
             u \<leftarrow> insert_range s i n; Some (mod_insert rp i (copy_tree u)) }
         | MOD_SPLIT \<Rightarrow> do { i \<leftarrow> index m; source \<leftarrow> subtree t (rp @ [i]);
             Some (if attrs source = None \<and> \<not> has_node_headers m then mod_join rp i
                   else mod_join_header rp i (node_header source)) }
         | MOD_JOIN \<Rightarrow> do { i \<leftarrow> index m;
             left \<leftarrow> subtree t (rp @ [i]); right \<leftarrow> subtree t (rp @ [i + 1]);
             Some (if attrs left = None \<and> attrs right = None \<and> L left = L right \<and> \<not> has_node_headers m
                   then mod_split rp i (insert_length left)
                   else mod_split_headers rp i (insert_length left)
                          (Compound None TUPLE [node_header left, node_header right])) }
         | MOD_ASSIGN_NODE \<Rightarrow> do { s \<leftarrow> subtree t rp; Some (mod_assign_node rp (L s)) }
         | MOD_INSERT_NODE \<Rightarrow> do { w \<leftarrow> inserted_node_template m; a \<leftarrow> argument m;
             if attrs w = None \<and> \<not> restores_child_header m then Some (mod_remove_node rp a)
             else do { s \<leftarrow> subtree t rp; Some (mod_remove_node_header rp a (node_header s)) } }
         | MOD_REMOVE_NODE \<Rightarrow> do { u \<leftarrow> subtree t rp; i \<leftarrow> index m;
             a \<leftarrow> tree_range u 0 i; b \<leftarrow> tree_range u (i + 1) (N u);
             let wrapper = copy_metadata (attrs u) (copy_tree (tree_times a b));
             if attrs u = None \<and> \<not> restores_child_header m then Some (mod_insert_node rp i wrapper)
             else do { c \<leftarrow> child u i; Some (mod_insert_node_header rp i wrapper (node_header c)) } }
         | MOD_SET_CURSOR \<Rightarrow> Some m
         | MOD_SET_METADATA \<Rightarrow> do { s \<leftarrow> subtree t rp; Some (mod_set_metadata rp s) }) }"

section \<open>Commutation\<close>

type_synonym swap_result = "(bool \<times> modification \<times> modification) option"

definition swap1 :: "modification \<Rightarrow> modification \<Rightarrow> int \<Rightarrow> int \<Rightarrow> swap_result" where
  "swap1 m1 m2 i d =
     do { x2 \<leftarrow> item (mod_p m2);
       let r1 = (if x2 \<ge> i \<and> (x2 \<noteq> i \<or> root m2 \<noteq> [] \<or> mod_k m2 \<noteq> MOD_INSERT)
                 then add_item m2 (- d) else m2);
       if root m2 \<noteq> [] then Some (True, r1, m1)
       else (case mod_k m2 of
           MOD_INSERT \<Rightarrow>
             (let e2 = x2 + insert_length (mod_t m2) in
              Some (True, r1, if x2 \<le> i then add_item m1 (e2 - x2) else m1))
         | MOD_REMOVE \<Rightarrow> do { q \<leftarrow> next_of (mod_p m2); n \<leftarrow> item q;
             let e2 = x2 + n;
             if x2 \<le> i \<and> i < e2 \<and> (x2 \<noteq> i \<or> mod_k m1 \<noteq> MOD_REMOVE) then Some (False, m1, m2)
             else Some (True, r1, if x2 < i then add_item m1 (- (e2 - x2)) else m1) }
         | MOD_SPLIT \<Rightarrow> Some (True, r1, if x2 < i then add_item m1 1 else m1)
         | MOD_JOIN \<Rightarrow>
             (if x2 = i - 1 then Some (False, m1, m2)
              else Some (True, r1, if x2 < i then add_item m1 (- 1) else m1))
         | MOD_INSERT_NODE \<Rightarrow>
             Some (True, m2, modification3 (mod_k m1) (x2 # mod_p m1) (mod_t m1))
         | MOD_REMOVE_NODE \<Rightarrow> Some (False, m1, m2)
         | MOD_SET_CURSOR \<Rightarrow> Some (False, m1, m2)
         | _ \<Rightarrow> Some (True, r1, m1)) }"

definition swap2 :: "modification \<Rightarrow> modification \<Rightarrow> int \<Rightarrow> int \<Rightarrow> swap_result" where
  "swap2 m1 m2 i d =
     do { x1 \<leftarrow> item (mod_p m1);
          Some (True, m2, if x1 \<ge> i then add_item m1 d else m1) }"

definition swap_basic :: "modification \<Rightarrow> modification \<Rightarrow> swap_result" where
  "swap_basic m1 m2 = Some (True, m2, m1)"

text \<open>The switch of \<open>swap\<close> for a first modification at the root.\<close>

definition swap_first_at_root :: "modification \<Rightarrow> modification \<Rightarrow> swap_result" where
  "swap_first_at_root m1 m2 = (case mod_k m1 of
      MOD_ASSIGN \<Rightarrow>
        (if m1 = m2 then Some (True, m1, m2)
         else if root m2 \<noteq> [] \<or> mod_k m2 \<noteq> MOD_INSERT_NODE then Some (False, m1, m2)
         else do { x2 \<leftarrow> item (mod_p m2);
           Some (True, m2, modification3 (mod_k m1) (x2 # mod_p m1) (mod_t m1)) })
    | MOD_INSERT \<Rightarrow>
        (if mod_p m2 = [] then Some (False, m1, m2)
         else do { b \<leftarrow> item (mod_p m1); x2 \<leftarrow> item (mod_p m2);
           let e = b + insert_length (mod_t m1);
           if x2 \<ge> b \<and> x2 < e \<and> (root m2 \<noteq> [] \<or> x2 \<noteq> b \<or> mod_k m2 \<noteq> MOD_INSERT) \<and>
              (root m2 \<noteq> [] \<or> mod_k m2 \<noteq> MOD_INSERT_NODE)
           then Some (False, m1, m2)
           else swap1 m1 m2 b (e - b) })
    | MOD_REMOVE \<Rightarrow>
        (if mod_p m2 = [] then Some (False, m1, m2)
         else do { i \<leftarrow> item (mod_p m1); q \<leftarrow> next_of (mod_p m1); d \<leftarrow> item q;
           swap1 m1 m2 i (- d) })
    | MOD_SPLIT \<Rightarrow>
        (if mod_p m2 = [] then Some (False, m1, m2)
         else do { i \<leftarrow> item (mod_p m1); x2 \<leftarrow> item (mod_p m2);
           if (x2 = i \<or> x2 = i + 1) \<and> (root m2 \<noteq> [] \<or> x2 \<noteq> i \<or> mod_k m2 \<noteq> MOD_INSERT) \<and>
              (root m2 \<noteq> [] \<or> mod_k m2 \<noteq> MOD_INSERT_NODE)
           then Some (False, m1, m2)
           else swap1 m1 m2 i 1 })
    | MOD_JOIN \<Rightarrow>
        (if mod_p m2 = [] then Some (False, m1, m2)
         else do { i \<leftarrow> item (mod_p m1); x2 \<leftarrow> item (mod_p m2);
           if x2 = i \<and> (root m2 \<noteq> [] \<or> mod_k m2 \<noteq> MOD_INSERT) then Some (False, m1, m2)
           else swap1 m1 m2 i (- 1) })
    | MOD_ASSIGN_NODE \<Rightarrow>
        (if root m2 \<noteq> [] then swap_basic m1 m2
         else if m1 = m2 then Some (True, m1, m2)
         else if root m2 \<noteq> [] \<or> mod_k m2 \<noteq> MOD_INSERT_NODE then Some (False, m1, m2)
         else do { x2 \<leftarrow> item (mod_p m2);
           Some (True, m2, modification3 (mod_k m1) (x2 # mod_p m1) (mod_t m1)) })
    | MOD_INSERT_NODE \<Rightarrow>
        (if root m2 = [] then Some (False, m1, m2)
         else do { x1 \<leftarrow> item (mod_p m1); x2 \<leftarrow> item (mod_p m2);
           if x2 \<noteq> x1 then Some (False, m1, m2)
           else do { q \<leftarrow> next_of (mod_p m2);
             let r1 = modification3 (mod_k m2) q (mod_t m2);
             if mod_k m2 \<noteq> MOD_INSERT_NODE \<or> root r1 \<noteq> [] then Some (True, r1, m1)
             else do { y \<leftarrow> item (mod_p r1);
               Some (True, r1, modification3 (mod_k m1) (y # mod_p m1) (mod_t m1)) } } })
    | MOD_REMOVE_NODE \<Rightarrow>
        do { x1 \<leftarrow> item (mod_p m1);
          Some (True, modification3 (mod_k m2) (x1 # mod_p m2) (mod_t m2), m1) }
    | MOD_SET_CURSOR \<Rightarrow>
        (if root m2 \<noteq> [] \<or> mod_k m2 = MOD_JOIN \<or> mod_k m2 = MOD_SPLIT \<or> mod_k m2 = MOD_ASSIGN_NODE
         then swap_basic m1 m2 else Some (False, m1, m2))
    | MOD_SET_METADATA \<Rightarrow> None)"

text \<open>The switch for a second modification at the root, the first one being deeper.\<close>

definition swap_second_at_root :: "modification \<Rightarrow> modification \<Rightarrow> swap_result" where
  "swap_second_at_root m1 m2 = (case mod_k m2 of
      MOD_ASSIGN \<Rightarrow> Some (False, m1, m2)
    | MOD_INSERT \<Rightarrow> do { b \<leftarrow> item (mod_p m2);
        let e = b + insert_length (mod_t m2);
        swap2 m1 m2 b (e - b) }
    | MOD_REMOVE \<Rightarrow> do { b \<leftarrow> item (mod_p m2); q \<leftarrow> next_of (mod_p m2); n \<leftarrow> item q; x1 \<leftarrow> item (mod_p m1);
        let e = b + n;
        if x1 \<ge> b \<and> x1 < e then Some (False, m1, m2) else swap2 m1 m2 b (b - e) }
    | MOD_SPLIT \<Rightarrow> do { i \<leftarrow> item (mod_p m2); x1 \<leftarrow> item (mod_p m1);
        if x1 = i then Some (False, m1, m2) else swap2 m1 m2 i 1 }
    | MOD_JOIN \<Rightarrow> do { i \<leftarrow> item (mod_p m2); x1 \<leftarrow> item (mod_p m1);
        if x1 = i \<or> x1 = i + 1 then Some (False, m1, m2) else swap2 m1 m2 i (- 1) }
    | MOD_ASSIGN_NODE \<Rightarrow> swap_basic m1 m2
    | MOD_INSERT_NODE \<Rightarrow> do { x2 \<leftarrow> item (mod_p m2);
        Some (True, m2, modification3 (mod_k m1) (x2 # mod_p m1) (mod_t m1)) }
    | MOD_REMOVE_NODE \<Rightarrow> do { x1 \<leftarrow> item (mod_p m1); x2 \<leftarrow> item (mod_p m2);
        if x1 \<noteq> x2 then Some (False, m1, m2)
        else do { q \<leftarrow> next_of (mod_p m1); Some (True, m2, modification3 (mod_k m1) q (mod_t m1)) } }
    | MOD_SET_CURSOR \<Rightarrow>
        (if root m1 \<noteq> [] \<or> mod_k m1 = MOD_JOIN \<or> mod_k m1 = MOD_SPLIT \<or> mod_k m1 = MOD_ASSIGN_NODE
         then swap_basic m1 m2 else Some (False, m1, m2))
    | MOD_SET_METADATA \<Rightarrow> None)"

lemma mod_div_path_length: "mod_div_path m [h] = Some s \<Longrightarrow> length (mod_p s) < length (mod_p m)"
  by (auto simp: mod_div_path_def modification3_def split: bind_splits)

function swap :: "modification \<Rightarrow> modification \<Rightarrow> swap_result" where
  "swap m1 m2 =
     (if mod_k m1 = MOD_SET_METADATA \<or> mod_k m2 = MOD_SET_METADATA \<or>
         restores_child_header m1 \<or> restores_child_header m2
      then (if list_leq (root m1) (root m2) \<or> list_leq (root m2) (root m1)
            then Some (False, m1, m2) else swap_basic m1 m2)
      else if root m1 = [] then swap_first_at_root m1 m2
      else if root m2 = [] then swap_second_at_root m1 m2
      else if hd (root m1) = hd (root m2) then
        (case mod_div_path m1 [hd (root m1)] of None \<Rightarrow> None | Some s1 \<Rightarrow>
         (case mod_div_path m2 [hd (root m1)] of None \<Rightarrow> None | Some s2 \<Rightarrow>
           do { (r, s1, s2) \<leftarrow> swap s1 s2;
                Some (r, path_times_mod [hd (root m1)] s1, path_times_mod [hd (root m1)] s2) }))
      else swap_basic m1 m2)"
  by pat_completeness auto
termination
  by (relation "measure (\<lambda>(m1, m2). length (mod_p m1))") (auto dest: mod_div_path_length)

declare swap.simps [simp del]

definition commute :: "modification \<Rightarrow> modification \<Rightarrow> bool option" where
  "commute m1 m2 = do { (r, s1, s2) \<leftarrow> swap m1 m2; Some r }"

definition can_pull :: "modification \<Rightarrow> modification \<Rightarrow> bool option" where
  "can_pull m1 m2 = commute m2 m1"

definition pull :: "modification \<Rightarrow> modification \<Rightarrow> modification option" where
  "pull m1 m2 = do { (r, s1, s2) \<leftarrow> swap m2 m1; if r then Some s1 else None }"

definition co_pull :: "modification \<Rightarrow> modification \<Rightarrow> modification option" where
  "co_pull m1 m2 = do { (r, s1, s2) \<leftarrow> swap m2 m1; if r then Some s2 else None }"

section \<open>Joining\<close>

text \<open>
  \<open>join\<close> merges a modification into the preceding one; \<open>None\<close> inside the result is the
  answer \<open>false\<close>.
\<close>

definition join :: "modification \<Rightarrow> modification \<Rightarrow> tree \<Rightarrow> modification option option" where
  "join m1 m2 t =
     (if mod_k m1 = MOD_INSERT \<and> mod_k m2 = MOD_INSERT \<and> is_atomic (mod_t m1) \<and> root m1 = root m2
      then do { i1 \<leftarrow> index m1; i2 \<leftarrow> index m2; l1 \<leftarrow> label_of (mod_t m1);
        if i2 = i1 \<or> i2 = i1 + int (length l1)
        then do { l2 \<leftarrow> label_of (mod_t m2);
          let s = (if i2 = i1 then l2 @ l1 else l1 @ l2);
          Some (Some (mod_insert (root m1) i1 (Atomic None s))) }
        else Some None }
      else if mod_k m1 = MOD_REMOVE \<and> mod_k m2 = MOD_REMOVE then
        do { s \<leftarrow> subtree t (root m1);
          if is_atomic s \<and> root m1 = root m2
          then do { i1 \<leftarrow> index m1; i2 \<leftarrow> index m2; n1 \<leftarrow> argument m1; n2 \<leftarrow> argument m2;
            if i1 = i2 \<or> i1 = i2 + n2
            then Some (Some (mod_remove (root m2) i2 (n1 + n2)))
            else Some None }
          else Some None }
      else Some None)"

end
