(* ===== verification/Athena_Invert.thy ===== *)
theory Athena_Invert
  imports Athena_Commute
begin

text \<open>
  Inversion is correct: the modification that \<open>invert\<close> computes from the document before an
  edit takes the edited document back to it. The proof has one lemma for each kind of edit at
  the node it changes; the descent to that node is inverted once and for all.
\<close>

section \<open>Inverting a splice\<close>

lemma at_path_inverse:
  assumes "at_path p f t = Some t'"
    and "\<And>s s'. subtree t p = Some s \<Longrightarrow> f s = Some s' \<Longrightarrow> g s' = Some s"
  shows "at_path p g t' = Some t"
  using assms
proof (induction p arbitrary: t t')
  case (Cons j p)
  obtain c r where c: "child t j = Some c" and r: "at_path p f c = Some r"
    and t': "t' = set_child t j r"
    using Cons.prems(1) by (auto split: bind_splits)
  have "subtree t (j # p) = subtree c p"
    using c by (auto simp: child_Some_iff)
  then have "at_path p g r = Some c"
    using Cons.IH [OF r] Cons.prems(2) by auto
  moreover have "child t' j = Some r" "set_child t' j c = t"
    using c unfolding t' by (cases t; auto simp: set_child_def child_Some_iff)+
  ultimately show ?case by simp
qed auto

lemma splice_at_inverse:
  assumes "splice_at b n F xs = Some ys"
    and "\<And>T. F (take (nat n) (drop (nat b) xs)) = Some T \<Longrightarrow>
           int (length T) = n' \<and> G T = Some (take (nat n) (drop (nat b) xs))"
  shows "splice_at b n' G ys = Some xs"
proof -
  obtain A S C T where xs: "xs = A @ S @ C" and A: "int (length A) = b" and S: "int (length S) = n"
    and F: "F S = Some T" and ys: "ys = A @ T @ C"
    using assms(1) by (auto simp: splice_Some_iff)
  have "take (nat n) (drop (nat b) xs) = S"
    using xs A S by auto
  with assms(2) F have "int (length T) = n'" "G T = Some S"
    by auto
  then show ?thesis
    by (intro spliceI [where F = G, OF A _ _ ys xs])
qed

lemma splice_tree_inverse:
  assumes "splice_tree b n FA FC t = Some t'"
    and "\<And>m s T. t = Atomic m s \<Longrightarrow> FA (take (nat n) (drop (nat b) s)) = Some T \<Longrightarrow>
           int (length T) = n' \<and> GA T = Some (take (nat n) (drop (nat b) s))"
    and "\<And>m l ts T. t = Compound m l ts \<Longrightarrow> FC (take (nat n) (drop (nat b) ts)) = Some T \<Longrightarrow>
           int (length T) = n' \<and> GC T = Some (take (nat n) (drop (nat b) ts))"
  shows "splice_tree b n' GA GC t' = Some t"
proof (cases t)
  case (Atomic m s)
  with assms(1) obtain s' where s': "splice_at b n FA s = Some s'" "t' = Atomic m s'"
    by (auto simp: splice_tree_def)
  then have "splice_at b n' GA s' = Some s"
    using splice_at_inverse [OF s'(1)] assms(2) [OF Atomic] by blast
  with s' Atomic show ?thesis by (simp add: splice_tree_def)
next
  case (Compound m l ts)
  with assms(1) obtain ts' where ts': "splice_at b n FC ts = Some ts'" "t' = Compound m l ts'"
    by (auto simp: splice_tree_def)
  then have "splice_at b n' GC ts' = Some ts"
    using splice_at_inverse [OF ts'(1)] assms(3) [OF Compound] by blast
  with ts' Compound show ?thesis by (simp add: splice_tree_def)
qed

section \<open>Inverting the edits of single nodes\<close>

lemma insert_length_eq: "insert_length t = content_length t"
  by (cases t) (auto simp: insert_length_def)

lemma with_own_header [simp]: "with_header (node_header c) (with_header h c) = c"
  by (cases c) (auto simp: node_header_def)

lemma with_node_header [simp]: "with_header (node_header c) c = c"
  by (cases c) (auto simp: node_header_def)

lemma node_header_simps [simp]:
  "node_header (Atomic m s) = Atomic m []" "node_header (Compound m l ts) = Compound m l []"
  by (simp_all add: node_header_def)

lemma split_inverse:
  assumes "split_edit a h [c] = Some T" "wf_tree c"
  shows "int (length T) = 2 \<and>
    join_edit (if attrs c = None \<and> \<not> is_func h TUPLE 2 then Atomic None []
               else Compound None TUPLE [node_header c]) T = Some [c]"
  using assms
  by (cases c) (auto simp: Let_def TMSTRING_def simp del: is_func_TUPLE split: if_splits)

lemma join_inverse:
  assumes "join_edit h [c1, c2] = Some T" "wf_tree c1" "wf_tree c2"
  shows "int (length T) = 1 \<and>
    split_edit (content_length c1)
      (if attrs c1 = None \<and> attrs c2 = None \<and> L c1 = L c2 \<and> \<not> is_func h TUPLE 1 then Atomic None []
       else Compound None TUPLE [node_header c1, node_header c2]) T = Some [c1, c2]"
  using assms
  by (cases c1; cases c2) (auto simp: TMSTRING_def simp del: is_func_TUPLE split: if_splits)

lemma insert_node_inverse:
  assumes "insert_node_edit a m t = Some t'" "wf_tree t" "inserted_node_template m = Some w"
    and mi: "mod_k mi = MOD_REMOVE_NODE"
      "mod_t mi = (if attrs w = None \<and> \<not> restores_child_header m then Atomic None []
                   else Compound None TUPLE [node_header t])"
  shows "remove_node_edit a mi t' = Some t"
proof -
  have r: "restores_child_header mi \<longleftrightarrow> \<not> (attrs w = None \<and> \<not> restores_child_header m)"
    using mi by (auto simp: restores_child_header_def)
  obtain c where a: "is_compound w" "0 \<le> a" "a \<le> N w"
    and c: "c = (if restores_child_header m then with_header (children (mod_t m) ! 1) t else t)"
    and comp: "restores_child_header m \<Longrightarrow> compatible_header t (children (mod_t m) ! 1)"
    and t': "t' = Compound (attrs w) (L w) (take (nat a) (children w) @ [c] @ drop (nat a) (children w))"
    using assms(1, 3) by (auto simp: insert_node_edit_def simp del: compatible_header_simps split: if_splits)
  have "nat a \<le> length (children w)"
    using a by (simp add: N_def)
  then have "child t' a = Some c"
    unfolding t' using a by (simp add: N_def nth_append)
  moreover have "compatible_header c (node_header t)"
    using comp c assms(2) by (cases t) (auto simp: TMSTRING_def split: if_splits)
  moreover have "with_header (node_header t) c = t"
    using c by simp
  ultimately show ?thesis
    using r mi c by (auto simp: remove_node_edit_def t' simp del: compatible_header_simps split: if_splits)
qed

lemma remove_node_inverse:
  assumes "remove_node_edit i m u = Some t'" "wf_tree u"
    and w: "w = Compound (attrs u) (L u) (take (nat i) (children u) @ drop (Suc (nat i)) (children u))"
    and c: "child u i = Some c"
    and mi: "mod_k mi = MOD_INSERT_NODE"
      "mod_t mi = (if attrs u = None \<and> \<not> restores_child_header m then w
                   else Compound None UNINIT [w, node_header c])"
    and amb: "attrs u = None \<Longrightarrow> \<not> restores_child_header m \<Longrightarrow> \<not> is_func w UNINIT 2"
  shows "insert_node_edit i mi t' = Some u"
proof -
  have r: "restores_child_header mi \<longleftrightarrow> \<not> (attrs u = None \<and> \<not> restores_child_header m)"
    using mi amb
    by (cases "attrs u = None \<and> \<not> restores_child_header m")
      (simp_all add: restores_child_header_def [of mi] del: is_func_UNINIT is_func_TUPLE)
  have tm: "inserted_node_template mi = Some w"
    using mi r by (auto simp: inserted_node_template_def split: if_splits)
  from c have i: "0 \<le> i" "nat i < length (children u)" "i \<le> N w" "is_compound u"
    and cu: "c = children u ! nat i"
    by (auto simp: child_Some_iff N_def w N_pos_compound)
  have wfc: "wf_tree c"
    using assms(2) c by (rule wf_tree_child)
  have wrap: "Compound (attrs w) (L w) (take (nat i) (children w) @ [c] @ drop (nat i) (children w)) = u"
    using i by (cases u) (auto simp: w cu id_take_nth_drop [symmetric])
  have t': "t' = (if restores_child_header m then with_header (children (mod_t m) ! 0) c else c)"
    and comp: "restores_child_header m \<Longrightarrow> compatible_header c (children (mod_t m) ! 0)"
    using assms(1) c by (auto simp: remove_node_edit_def simp del: compatible_header_simps split: if_splits)
  have "compatible_header t' (node_header c)" "with_header (node_header c) t' = c"
    using t' comp wfc by (cases c; auto simp: TMSTRING_def split: if_splits)+
  moreover have "restores_child_header mi \<Longrightarrow> children (mod_t mi) ! 1 = node_header c"
    using mi r by auto
  moreover have "\<not> restores_child_header mi \<Longrightarrow> t' = c"
    using t' r by simp
  ultimately show ?thesis
    using i tm wrap by (auto simp: insert_node_edit_def w simp del: compatible_header_simps)
qed

section \<open>Inverting a modification\<close>

text \<open>
  A removed wrapper that is an \<open>UNINIT\<close> node with two remaining children is taken for the
  pair of a template and a header when it is inserted again, see \<open>restores_child_header\<close>.
\<close>

definition ambiguous_wrapper :: "tree \<Rightarrow> modification \<Rightarrow> bool" where
  "ambiguous_wrapper t m \<longleftrightarrow>
     mod_k m = MOD_REMOVE_NODE \<and>
     (case subtree t (root m) of None \<Rightarrow> False | Some s \<Rightarrow> is_func s UNINIT 3)"

lemma inverse_insert:
  assumes k: "mod_k m = MOD_INSERT" and eff: "local_edit m s = Some s'"
    and t: "has_subtree t (root m)" "subtree t (root m) = Some s" "is_applicable t m = Some True"
    and wf: "wf_tree s"
  shows "\<exists>mi. invert m t = Some mi \<and> root mi = root m \<and> local_edit mi s' = Some s"
proof -
  from k eff obtain i where i: "index m = Some i" by (auto simp: local_edit_def split: bind_splits)
  with k eff have sp: "splice_tree i 0 (\<lambda>_. label_of (mod_t m)) (\<lambda>_. compound_children (mod_t m)) s = Some s'"
    by (simp add: local_edit_def)
  have "splice_tree i (insert_length (mod_t m)) (\<lambda>_. Some []) (\<lambda>_. Some []) s' = Some s"
    by (rule splice_tree_inverse [OF sp]; cases "mod_t m")
      (auto simp: insert_length_def compound_children_def)
  with k t i show ?thesis
    by (simp add: invert_def local_edit_def Let_def)
qed

lemma inverse_remove:
  assumes k: "mod_k m = MOD_REMOVE" and eff: "local_edit m s = Some s'"
    and t: "has_subtree t (root m)" "subtree t (root m) = Some s" "is_applicable t m = Some True"
    and wf: "wf_tree s"
  shows "\<exists>mi. invert m t = Some mi \<and> root mi = root m \<and> local_edit mi s' = Some s"
proof -
  from k eff obtain i n where i: "index m = Some i" "argument m = Some n"
    and sp: "splice_tree i n (\<lambda>_. Some []) (\<lambda>_. Some []) s = Some s'"
    by (auto simp: local_edit_def split: bind_splits)
  then have r: "0 \<le> i" "0 \<le> n" "i + n \<le> content_length s"
    by (cases s; auto simp: splice_tree_def splice_at_def split: if_splits)+
  then obtain u where u: "insert_range s i n = Some u"
    by (cases s) (auto simp: insert_range_def tree_range_def range_of_def)
  have "splice_tree i 0 (\<lambda>_. label_of u) (\<lambda>_. compound_children u) s' = Some s"
    by (rule splice_tree_inverse [OF sp])
     (use u r in \<open>auto simp: insert_range_def tree_range_def range_of_def compound_children_def substr_slice\<close>)
  with k t i u show ?thesis
    by (simp add: invert_def local_edit_def Let_def)
qed

lemma inverse_split:
  assumes k: "mod_k m = MOD_SPLIT" and eff: "local_edit m s = Some s'"
    and t: "has_subtree t (root m)" "subtree t (root m) = Some s" "is_applicable t m = Some True"
    and wf: "wf_tree s"
  shows "\<exists>mi. invert m t = Some mi \<and> root mi = root m \<and> local_edit mi s' = Some s"
proof -
  from k eff obtain i a where ia: "index m = Some i" "argument m = Some a"
    and sp: "splice_tree i 1 no_text (split_edit a (mod_t m)) s = Some s'"
    by (auto simp: local_edit_def split: bind_splits)
  then obtain m' l ts where s: "s = Compound m' l ts" and i: "0 \<le> i" "i < int (length ts)"
    by (cases s) (auto simp: splice_tree_def splice_at_def no_text_def split: if_splits)
  define c where "c = ts ! nat i"
  have h: "subtree t (root m @ [i]) = Some c"
    using t s i by (simp add: snoc_subtree c_def)
  let ?h = "if attrs c = None \<and> \<not> is_func (mod_t m) TUPLE 2 then Atomic None []
               else Compound None TUPLE [node_header c]"
  have "wf_tree c"
    using wf s i by (simp add: list_all_iff c_def)
  then have "splice_tree i 2 no_text (join_edit ?h) s' = Some s"
    using s i split_inverse [of a "mod_t m" c]
    by (intro splice_tree_inverse [OF sp]) (auto simp: take_nth_drop c_def simp del: split_edit.simps)
  with k t ia h show ?thesis
    by (auto simp: invert_def has_node_headers_def local_edit_def Let_def simp del: is_func_TUPLE
        split: if_splits)
qed

lemma inverse_join:
  assumes k: "mod_k m = MOD_JOIN" and eff: "local_edit m s = Some s'"
    and t: "has_subtree t (root m)" "subtree t (root m) = Some s" "is_applicable t m = Some True"
    and wf: "wf_tree s"
  shows "\<exists>mi. invert m t = Some mi \<and> root mi = root m \<and> local_edit mi s' = Some s"
proof -
  from k eff obtain i where ia: "index m = Some i"
    and sp: "splice_tree i 2 no_text (join_edit (mod_t m)) s = Some s'"
    by (auto simp: local_edit_def split: bind_splits)
  then obtain m' l ts where s: "s = Compound m' l ts" and i: "0 \<le> i" "i + 1 < int (length ts)"
    by (cases s) (auto simp: splice_tree_def splice_at_def no_text_def split: if_splits)
  define c1 c2 where c: "c1 = ts ! nat i" "c2 = ts ! nat (i + 1)"
  have h: "subtree t (root m @ [i]) = Some c1" "subtree t (root m @ [i + 1]) = Some c2"
    using t s i by (simp_all add: snoc_subtree c)
  let ?h = "if attrs c1 = None \<and> attrs c2 = None \<and> L c1 = L c2 \<and> \<not> is_func (mod_t m) TUPLE 1
      then Atomic None [] else Compound None TUPLE [node_header c1, node_header c2]"
  have "wf_tree c1" "wf_tree c2"
    using wf s i by (simp_all add: list_all_iff c)
  then have "splice_tree i 1 no_text (split_edit (content_length c1) ?h) s' = Some s"
    using s i take_two_drop [OF i] join_inverse [of "mod_t m" c1 c2]
    by (intro splice_tree_inverse [OF sp]) (auto simp: c simp del: join_edit.simps)
  with k t ia h show ?thesis
    by (auto simp: invert_def has_node_headers_def local_edit_def insert_length_eq Let_def
        simp del: is_func_TUPLE split: if_splits)
qed

lemma inverse_insert_node:
  assumes k: "mod_k m = MOD_INSERT_NODE" and eff: "local_edit m s = Some s'"
    and t: "has_subtree t (root m)" "subtree t (root m) = Some s" "is_applicable t m = Some True"
    and wf: "wf_tree s"
  shows "\<exists>mi. invert m t = Some mi \<and> root mi = root m \<and> local_edit mi s' = Some s"
proof -
  from k eff obtain a w where a: "argument m = Some a" "insert_node_edit a m s = Some s'"
    and w: "inserted_node_template m = Some w"
    by (auto simp: local_edit_def insert_node_edit_def split: bind_splits)
  let ?mi = "if attrs w = None \<and> \<not> restores_child_header m then mod_remove_node (root m) a
     else mod_remove_node_header (root m) a (node_header s)"
  have "remove_node_edit a ?mi s' = Some s"
    by (rule insert_node_inverse [OF a(2) wf w])
      simp_all
  moreover have "invert m t = Some ?mi"
    using k t a w by (simp add: invert_def Let_def)
  ultimately show ?thesis
    by (auto simp: local_edit_def)
qed

lemma inverse_remove_node:
  assumes k: "mod_k m = MOD_REMOVE_NODE" and eff: "local_edit m s = Some s'"
    and t: "has_subtree t (root m)" "subtree t (root m) = Some s" "is_applicable t m = Some True"
    and wf: "wf_tree s" and amb: "\<not> ambiguous_wrapper t m"
  shows "\<exists>mi. invert m t = Some mi \<and> root mi = root m \<and> local_edit mi s' = Some s"
proof -
  from k eff obtain i c where i: "index m = Some i" "remove_node_edit i m s = Some s'" and c: "child s i = Some c"
    by (auto simp: local_edit_def remove_node_edit_def split: bind_splits)
  let ?w = "Compound (attrs s) (L s) (take (nat i) (children s) @ drop (Suc (nat i)) (children s))"
  let ?mi = "if attrs s = None \<and> \<not> restores_child_header m then mod_insert_node (root m) i ?w
     else mod_insert_node_header (root m) i ?w (node_header c)"
  from c have ic: "0 \<le> i" "i < int (length (children s))"
    by (auto simp: child_Some_iff N_def)
  have nf: "\<not> is_func ?w UNINIT 2"
    using amb t ic k by (auto simp: ambiguous_wrapper_def is_func_def N_def simp del: is_func_UNINIT)
  have "insert_node_edit i ?mi s' = Some s"
    by (rule remove_node_inverse [OF i(2) wf refl c])
      (use nf in \<open>simp_all del: is_func_UNINIT is_func_Compound\<close>)
  moreover have "invert m t = Some ?mi"
    using k t i c ic
    by (auto simp: invert_def tree_range_def range_of_def tree_times_def Let_def N_def nat_plus_one)
  ultimately show ?thesis
    by (auto simp: local_edit_def)
qed

lemma inverse_set_cursor:
  assumes k: "mod_k m = MOD_SET_CURSOR" and eff: "local_edit m s = Some s'"
    and t: "has_subtree t (root m)" "subtree t (root m) = Some s" "is_applicable t m = Some True"
    and wf: "wf_tree s"
  shows "\<exists>mi. invert m t = Some mi \<and> root mi = root m \<and> local_edit mi s' = Some s"
proof -
  from k eff t show ?thesis
    by (auto simp: invert_def local_edit_def split: bind_splits if_splits)
qed

lemma inverse_set_metadata:
  assumes k: "mod_k m = MOD_SET_METADATA" and eff: "local_edit m s = Some s'"
    and t: "has_subtree t (root m)" "subtree t (root m) = Some s" "is_applicable t m = Some True"
    and wf: "wf_tree s"
  shows "\<exists>mi. invert m t = Some mi \<and> root mi = root m \<and> local_edit mi s' = Some s"
proof -
  from k eff t have "s' = copy_metadata (attrs (mod_t m)) s" "\<not> is_generic s \<and> L s \<noteq> UNINIT"
    by (auto simp: local_edit_def split: if_splits)
  then show ?thesis
    using k t by (cases s) (auto simp: invert_def local_edit_def is_generic_def Let_def)
qed

lemma inverse_assign:
  assumes k: "mod_k m = MOD_ASSIGN" and eff: "local_edit m s = Some s'"
    and t: "has_subtree t (root m)" "subtree t (root m) = Some s" "is_applicable t m = Some True"
    and wf: "wf_tree s"
  shows "\<exists>mi. invert m t = Some mi \<and> root mi = root m \<and> local_edit mi s' = Some s"
proof -
  from k eff t show ?thesis
    by (auto simp: invert_def local_edit_def Let_def)
qed

lemma inverse_assign_node:
  assumes k: "mod_k m = MOD_ASSIGN_NODE" and eff: "local_edit m s = Some s'"
    and t: "has_subtree t (root m)" "subtree t (root m) = Some s" "is_applicable t m = Some True"
    and wf: "wf_tree s"
  shows "\<exists>mi. invert m t = Some mi \<and> root mi = root m \<and> local_edit mi s' = Some s"
proof -
  from k eff t show ?thesis
    by (cases s) (auto simp: invert_def local_edit_def Let_def)
qed

lemma local_inverse:
  assumes "local_edit m s = Some s'"
    and "has_subtree t (root m)" "subtree t (root m) = Some s" "is_applicable t m = Some True"
    and "wf_tree s" and "\<not> ambiguous_wrapper t m"
  shows "\<exists>mi. invert m t = Some mi \<and> root mi = root m \<and> local_edit mi s' = Some s"
  using assms
  by (cases "mod_k m"; simp only: inverse_assign inverse_insert inverse_remove inverse_split inverse_join
      inverse_assign_node inverse_insert_node inverse_remove_node inverse_set_cursor inverse_set_metadata)

lemma invert_effect:
  assumes eff: "effect m t = Some t'" and wf: "wf_tree t" and amb: "\<not> ambiguous_wrapper t m"
  shows "\<exists>mi. invert m t = Some mi \<and> effect mi t' = Some t"
proof -
  have ok: "is_applicable t m = Some True"
    using eff effect_eq [of m t "\<lambda>_. []"] by (auto simp: ready_def split: if_splits)
  from eff obtain s s' where s: "subtree t (root m) = Some s" "local_edit m s = Some s'"
    using at_path_eq unfolding effect_def by blast
  obtain mi where mi: "invert m t = Some mi" "root mi = root m" "local_edit mi s' = Some s"
    using local_inverse [OF s(2) applicable_root [OF ok] s(1) ok wf_tree_subtree [OF s(1) wf] amb] by blast
  have "effect mi t' = Some t"
    unfolding effect_def mi(2)
    by (rule at_path_inverse [OF eff [unfolded effect_def]]) (use s mi in simp)
  with mi show ?thesis by blast
qed

section \<open>Properties of inversion\<close>

text \<open>
  Claim C1. Undo is correct for single edits: let \<open>pm\<close> be the prepared form of a
  modification that \<open>clean_apply\<close> applies to a well-formed document \<open>t\<close>. If the modification is not a removal
  with a negative count, and does not remove an ambiguous wrapper (an \<open>UNINIT\<close> node with three children), then
  \<open>invert pm t\<close> returns a modification, and applying it to the result gives back \<open>t\<close>
  exactly, text, structure, identities and properties included. A removal with a negative count may be
  applied and is not undone, see \<open>negative_remove_not_undone\<close>.
\<close>

theorem invert_correct:
  assumes "wf_tree t" and "nonneg_remove m" and "clean_apply ids t m = Some t'"
    and "prepare_modification ids t m = Some pm" and "\<not> ambiguous_wrapper t pm"
  shows "\<exists>mi. invert pm t = Some mi \<and> clean_apply ids' t' mi = Some t"
proof -
  have "effect pm t = Some t'"
    using clean_apply_effect [OF assms(3, 2, 1)] assms(4) by (metis option.inject)
  then obtain mi where "invert pm t = Some mi" "effect mi t' = Some t"
    using invert_effect assms(1, 5) by blast
  then show ?thesis
    by (auto simp: effect_iff [of _ _ _ ids'])
qed

theorem invert_correct_witness:
  "wf_tree sample_tree \<and> nonneg_remove (mod_split [] 0 2) \<and>
   clean_apply (\<lambda>n. ''n2'') sample_tree (mod_split [] 0 2) =
     Some (Compound None DOCUMENT
       [Atomic (Some (Metadata ''n1'' [])) ''he'', Atomic (Some (Metadata ''n2'' [])) ''llo'',
        Atomic None ''world'', Compound None CONCAT []]) \<and>
   (\<exists>mi. invert (mod_split_headers [] 0 2 (Compound None TUPLE
          [Atomic (Some (Metadata ''n1'' [])) [], Atomic (Some (Metadata ''n2'' [])) []])) sample_tree = Some mi \<and>
      clean_apply (\<lambda>n. ''n3'') (Compound None DOCUMENT
       [Atomic (Some (Metadata ''n1'' [])) ''he'', Atomic (Some (Metadata ''n2'' [])) ''llo'',
        Atomic None ''world'', Compound None CONCAT []]) mi = Some sample_tree)"
proof -
  have 1: "wf_tree sample_tree" by code_simp
  have 2: "nonneg_remove (mod_split [] 0 2)" by code_simp
  have 3: "clean_apply (\<lambda>n. ''n2'') sample_tree (mod_split [] 0 2) =
     Some (Compound None DOCUMENT
       [Atomic (Some (Metadata ''n1'' [])) ''he'', Atomic (Some (Metadata ''n2'' [])) ''llo'',
        Atomic None ''world'', Compound None CONCAT []])" by code_simp
  have 4: "prepare_modification (\<lambda>n. ''n2'') sample_tree (mod_split [] 0 2) =
     Some (mod_split_headers [] 0 2 (Compound None TUPLE
       [Atomic (Some (Metadata ''n1'' [])) [], Atomic (Some (Metadata ''n2'' [])) []]))"
    by code_simp
  have 5: "\<not> ambiguous_wrapper sample_tree (mod_split_headers [] 0 2 (Compound None TUPLE
       [Atomic (Some (Metadata ''n1'' [])) [], Atomic (Some (Metadata ''n2'' [])) []]))"
    by code_simp
  show ?thesis
    using 1 2 3 invert_correct [OF 1 2 3 4 5, of "\<lambda>n. ''n3''"] by blast
qed

text \<open>
  A removal with a negative count shows why the bound on the count is needed: the
  applicability test of \<open>can_remove\<close> checks only the end of the range, so the removal of
  \<open>-1\<close> characters at position 1 of \<open>"ab"\<close> is accepted, it duplicates a character, and
  the inverse that \<open>invert\<close> computes does not restore the text.
\<close>

theorem negative_remove_not_undone:
  "is_applicable (Atomic None ''ab'') (mod_remove [] 1 (- 1)) = Some True \<and>
   clean_apply ids (Atomic None ''ab'') (mod_remove [] 1 (- 1)) = Some (Atomic None ''aab'') \<and>
   invert (mod_remove [] 1 (- 1)) (Atomic None ''ab'') = Some (mod_insert [] 1 (Atomic None [])) \<and>
   clean_apply ids (Atomic None ''aab'') (mod_insert [] 1 (Atomic None [])) = Some (Atomic None ''aab'')"
  by (simp add: clean_apply_def is_applicable_def can_remove_def can_insert_def prepare_modification_def
      invert_def insert_range_def substr_def mod_remove_def mod_insert_def modification2_def
      modification3_def root_def index_def argument_def empty_tree_def)

end
