(* ===== verification/Athena_Swap.thy ===== *)
theory Athena_Swap
  imports Athena_Invert
begin

text \<open>
  Commutation is correct: when \<open>swap\<close> succeeds on two consecutive modifications, the two it
  returns can be applied in their order to the same document and give the same result. All
  edits inside the children of one node are splices, so that one pair of lemmas on splices
  carries the positional cases; the others wrap or unwrap a node.
\<close>

section \<open>Sequences of two modifications\<close>

definition seq2 :: "modification \<Rightarrow> modification \<Rightarrow> tree \<Rightarrow> tree option" where
  "seq2 m1 m2 t = do { u \<leftarrow> effect m1 t; effect m2 u }"

lemma seq2_Some: "seq2 m1 m2 t = Some t2 \<longleftrightarrow> (\<exists>u. effect m1 t = Some u \<and> effect m2 u = Some t2)"
  by (auto simp: seq2_def split: bind_splits)

section \<open>Well-formed modifications and their first path item\<close>

definition arity :: "modification_type \<Rightarrow> nat" where
  "arity k = (case k of MOD_ASSIGN \<Rightarrow> 0 | MOD_ASSIGN_NODE \<Rightarrow> 0 | MOD_SET_METADATA \<Rightarrow> 0
     | MOD_REMOVE \<Rightarrow> 2 | MOD_SPLIT \<Rightarrow> 2 | _ \<Rightarrow> 1)"

definition wf_mod :: "modification \<Rightarrow> bool" where
  "wf_mod m \<longleftrightarrow> arity (mod_k m) \<le> length (mod_p m)"

definition cons_mod :: "int \<Rightarrow> modification \<Rightarrow> modification" where
  "cons_mod i m = m\<lparr>mod_p := i # mod_p m\<rparr>"

lemma modification3_cons [simp]:
  "modification3 (mod_k m) (i # mod_p m) (mod_t m) = cons_mod i m"
  by (cases m) (simp add: modification3_def cons_mod_def)

lemma modification3_cons_kind:
  "mod_k m = k \<Longrightarrow> modification3 k (i # mod_p m) (mod_t m) = cons_mod i m"
  using modification3_cons by blast

lemma path_times_single [simp]: "path_times_mod [i] m = cons_mod i m"
  by (simp add: path_times_mod_def)

lemma cons_mod_fields [simp]:
  "mod_k (cons_mod i m) = mod_k m" "mod_t (cons_mod i m) = mod_t m" "mod_p (cons_mod i m) = i # mod_p m"
  "restores_child_header (cons_mod i m) = restores_child_header m"
  "inserted_node_template (cons_mod i m) = inserted_node_template m"
  by (simp_all add: cons_mod_def restores_child_header_def inserted_node_template_def del: is_func_UNINIT)

lemma root_length: "length (root m) = length (mod_p m) - arity (mod_k m)"
  by (cases "mod_k m") (auto simp: root_def arity_def)

lemma cons_mod_accessors [simp]:
  assumes "wf_mod m"
  shows "root (cons_mod i m) = i # root m" "index (cons_mod i m) = index m"
    "argument (cons_mod i m) = argument m" "wf_mod (cons_mod i m)"
proof -
  show "root (cons_mod i m) = i # root m" "index (cons_mod i m) = index m" "argument (cons_mod i m) = argument m"
    using assms
    by (cases "mod_k m"; cases "mod_p m" rule: rev_cases;
        auto simp: wf_mod_def arity_def root_def index_def argument_def)+
  show "wf_mod (cons_mod i m)"
    using assms by (simp add: wf_mod_def)
qed

lemma local_edit_cons [simp]:
  assumes "wf_mod m"
  shows "local_edit (cons_mod i m) = local_edit m"
  unfolding local_edit_def [abs_def] insert_node_edit_def remove_node_edit_def cons_mod_fields
    cons_mod_accessors [OF assms] by (rule refl)

lemma effect_cons: "wf_mod m \<Longrightarrow> effect (cons_mod i m) t = at_path [i] (effect m) t"
  by (simp add: effect_def [abs_def])

lemma effect_wf_mod: "effect m t = Some t' \<Longrightarrow> wf_mod m"
proof -
  assume "effect m t = Some t'"
  then obtain s s' where "local_edit m s = Some s'"
    using at_path_eq unfolding effect_def by blast
  then show "wf_mod m"
    by (cases "mod_k m"; cases "mod_p m"; cases "tl (mod_p m)")
      (auto simp: wf_mod_def arity_def local_edit_def index_def argument_def split: bind_splits if_splits)
qed

lemma deeper_mod:
  assumes "wf_mod m" "root m \<noteq> []"
  obtains i m' where "m = cons_mod i m'" "wf_mod m'" "root m = i # root m'"
proof -
  have "arity (mod_k m) < length (mod_p m)"
    using assms(2) root_length [of m] by (cases "root m") auto
  then obtain i q where q: "mod_p m = i # q"
    by (cases "mod_p m") auto
  let ?m = "m\<lparr>mod_p := q\<rparr>"
  have "m = cons_mod i ?m"
    by (cases m) (use q in \<open>simp add: cons_mod_def\<close>)
  moreover have "wf_mod ?m"
    using \<open>arity (mod_k m) < length (mod_p m)\<close> q by (simp add: wf_mod_def)
  ultimately show thesis
    using that cons_mod_accessors(1) by metis
qed

section \<open>Edits inside the children of a node are splices\<close>

definition positional :: "modification \<Rightarrow> bool" where
  "positional m \<longleftrightarrow> wf_mod m \<and>
     (root m \<noteq> [] \<or> mod_k m \<in> {MOD_INSERT, MOD_REMOVE, MOD_SPLIT, MOD_JOIN})"

definition width :: "modification \<Rightarrow> int" where
  "width m = (if root m \<noteq> [] then 1 else (case mod_k m of
      MOD_INSERT \<Rightarrow> 0 | MOD_REMOVE \<Rightarrow> hd (tl (mod_p m)) | MOD_SPLIT \<Rightarrow> 1 | _ \<Rightarrow> 2))"

definition growth :: "modification \<Rightarrow> int" where
  "growth m = (if root m \<noteq> [] then 0 else (case mod_k m of
      MOD_INSERT \<Rightarrow> insert_length (mod_t m) | MOD_REMOVE \<Rightarrow> - hd (tl (mod_p m)) | MOD_SPLIT \<Rightarrow> 1 | _ \<Rightarrow> - 1))"

text \<open>The shift of the first item, \<open>add_item\<close>, moves the splice and leaves the rest alone.\<close>

lemma positional_path: "positional m \<Longrightarrow> mod_p m \<noteq> []"
  using root_length [of m] by (auto simp: positional_def wf_mod_def arity_def)

lemma bind_Some_map: "Option.bind x (\<lambda>r. Some (g r)) = map_option g x"
  by (cases x) auto

lemma at_single_splice:
  "at_path [i] f t = splice_tree i 1 no_text (\<lambda>S. case S of [c] \<Rightarrow> map_option (\<lambda>x. [x]) (f c) | _ \<Rightarrow> None) t"
  by (cases t)
    (auto simp: splice_tree_def splice_at_def no_text_def set_child_def take_nth_drop array_ref_def
      nat_plus_one upd_conv_take_nth_drop option.map_comp comp_def bind_Some_map)

lemma add_item_cons [simp]: "add_item (cons_mod i m) d = cons_mod (i + d) m"
  by (cases m) (simp add: add_item_def cons_mod_def)

lemma add_item_0 [simp]: "add_item m 0 = m"
  by (cases m) (simp add: add_item_def split: list.splits)

lemma root_nil_path:
  assumes "wf_mod m" "root m = []"
  shows "length (mod_p m) = arity (mod_k m)"
  using assms root_length [of m] by (simp add: wf_mod_def)

lemma positional_splice:
  assumes "positional m"
  shows "\<exists>FA FC. \<forall>d t. effect (add_item m d) t = splice_tree (hd (mod_p m) + d) (width m) FA FC t"
proof (cases "root m = []")
  case True
  with assms have len: "length (mod_p m) = arity (mod_k m)"
    and k: "mod_k m \<in> {MOD_INSERT, MOD_REMOVE, MOD_SPLIT, MOD_JOIN}"
    using root_nil_path by (auto simp: positional_def)
  note defs = effect_def local_edit_def root_def index_def argument_def add_item_def width_def arity_def
    length_Suc_conv numeral_2_eq_2
  from k consider "mod_k m = MOD_INSERT" | "mod_k m = MOD_REMOVE" | "mod_k m = MOD_SPLIT" | "mod_k m = MOD_JOIN"
    by auto
  then show ?thesis
  proof cases
    case 1
    then show ?thesis
      using len True by (intro exI [of _ "\<lambda>_. label_of (mod_t m)"] exI [of _ "\<lambda>_. compound_children (mod_t m)"])
        (auto simp: defs)
  next
    case 2
    then show ?thesis
      using len True by (intro exI [of _ "\<lambda>_. Some []"]) (auto simp: defs)
  next
    case 3
    then show ?thesis
      using len True by (intro exI [of _ no_text] exI [of _ "split_edit (last (mod_p m)) (mod_t m)"]) (auto simp: defs)
  next
    case 4
    then show ?thesis
      using len True by (intro exI [of _ no_text] exI [of _ "join_edit (mod_t m)"]) (auto simp: defs)
  qed
next
  case False
  with assms obtain i m' where m: "m = cons_mod i m'" "wf_mod m'" "root m = i # root m'"
    by (auto simp: positional_def elim: deeper_mod)
  then show ?thesis
    unfolding m(1) add_item_cons effect_cons [OF m(2)] at_single_splice
    by (auto simp: width_def)
qed

lemma splice_growth:
  assumes "splice_tree b n FA FC t = Some t'"
    and "\<And>S T. FA S = Some T \<Longrightarrow> length S = nat n \<Longrightarrow> int (length T) = n + d"
    and "\<And>S T. FC S = Some T \<Longrightarrow> length S = nat n \<Longrightarrow> int (length T) = n + d"
  shows "content_length t' = content_length t + d"
  using assms(1) splice_length [where F = FA, OF _ assms(2)] splice_length [where F = FC, OF _ assms(3)]
  by (cases t) (auto simp: splice_tree_def)

lemma split_edit_length: "split_edit a h S = Some T \<Longrightarrow> length T = 2"
  by (cases "(a, h, S)" rule: split_edit.cases) (auto simp: Let_def split: if_splits)

lemma join_edit_length: "join_edit h S = Some T \<Longrightarrow> length T = 1"
  by (cases "(h, S)" rule: join_edit.cases) (auto split: if_splits bind_splits)

lemma positional_growth:
  assumes "positional m" "effect m t = Some t'"
  shows "content_length t' = content_length t + growth m"
proof (cases "root m = []")
  case True
  with assms have len: "length (mod_p m) = arity (mod_k m)"
    and k: "mod_k m \<in> {MOD_INSERT, MOD_REMOVE, MOD_SPLIT, MOD_JOIN}"
    using root_nil_path by (auto simp: positional_def)
  note defs = effect_def local_edit_def index_def argument_def growth_def arity_def length_Suc_conv numeral_2_eq_2
  from k consider "mod_k m = MOD_INSERT" | "mod_k m = MOD_REMOVE" | "mod_k m = MOD_SPLIT" | "mod_k m = MOD_JOIN"
    by auto
  then show ?thesis
  proof cases
    case 1
    with True assms(2) len show ?thesis
      by (cases "mod_t m")
        (auto simp: defs insert_length_def compound_children_def elim!: splice_growth)
  next
    case 2
    then obtain i n where p: "mod_p m = [i, n]"
      using len by (auto simp: arity_def numeral_2_eq_2 length_Suc_conv)
    with 2 True assms(2) have sp: "splice_tree i n (\<lambda>_. Some []) (\<lambda>_. Some []) t = Some t'"
      by (simp add: defs)
    have "content_length t' = content_length t + - n"
      by (rule splice_growth [OF sp]) auto
    with 2 True p show ?thesis by (simp add: growth_def)
  next
    case 3
    with True assms(2) len show ?thesis
      by (auto simp: defs no_text_def elim!: splice_growth dest!: split_edit_length)
  next
    case 4
    with True assms(2) len show ?thesis
      by (auto simp: defs no_text_def dest!: join_edit_length splice_growth [where d = "- 1"])
  qed
next
  case False
  with assms obtain i m' where m: "m = cons_mod i m'" "wf_mod m'" "root m = i # root m'"
    by (auto simp: positional_def elim: deeper_mod)
  with assms(2) have "at_path [i] (effect m') t = Some t'"
    by (simp add: effect_cons)
  then show ?thesis
    using m by (cases t) (auto simp: set_child_def growth_def split: bind_splits)
qed

text \<open>Two positional edits at one node, the second to the right or to the left of the first.\<close>

lemma splice_tree_right:
  assumes "splice_tree b1 n1 FA1 FC1 t = Some t1" "splice_tree b2 n2 FA2 FC2 t1 = Some t2"
    and "content_length t1 = content_length t + d" "b1 + n1 + d \<le> b2"
  shows "\<exists>u. splice_tree (b2 - d) n2 FA2 FC2 t = Some u \<and> splice_tree b1 n1 FA1 FC1 u = Some t2"
proof (cases t)
  case (Atomic m s)
  with assms obtain s1 s2 where 1: "splice_at b1 n1 FA1 s = Some s1" "splice_at b2 n2 FA2 s1 = Some s2"
    "int (length s1) = int (length s) + d" and t2: "t2 = Atomic m s2"
    by (auto simp: splice_tree_def)
  show ?thesis
    using splice_commute_right [OF 1 assms(4)] Atomic t2 by (auto simp: splice_tree_def)
next
  case (Compound m l ts)
  with assms obtain s1 s2 where 1: "splice_at b1 n1 FC1 ts = Some s1" "splice_at b2 n2 FC2 s1 = Some s2"
    "int (length s1) = int (length ts) + d" and t2: "t2 = Compound m l s2"
    by (auto simp: splice_tree_def)
  show ?thesis
    using splice_commute_right [OF 1 assms(4)] Compound t2 by (auto simp: splice_tree_def)
qed

lemma splice_tree_left:
  assumes "splice_tree b1 n1 FA1 FC1 t = Some t1" "splice_tree b2 n2 FA2 FC2 t1 = Some t2"
    and "content_length t2 = content_length t1 + d" "b2 + n2 \<le> b1"
  shows "\<exists>u. splice_tree b2 n2 FA2 FC2 t = Some u \<and> splice_tree (b1 + d) n1 FA1 FC1 u = Some t2"
proof (cases t)
  case (Atomic m s)
  with assms obtain s1 s2 where 1: "splice_at b1 n1 FA1 s = Some s1" "splice_at b2 n2 FA2 s1 = Some s2"
    "int (length s2) = int (length s1) + d" and t2: "t2 = Atomic m s2"
    by (auto simp: splice_tree_def)
  show ?thesis
    using splice_commute_left [OF 1 assms(4)] Atomic t2 by (auto simp: splice_tree_def)
next
  case (Compound m l ts)
  with assms obtain s1 s2 where 1: "splice_at b1 n1 FC1 ts = Some s1" "splice_at b2 n2 FC2 s1 = Some s2"
    "int (length s2) = int (length s1) + d" and t2: "t2 = Compound m l s2"
    by (auto simp: splice_tree_def)
  show ?thesis
    using splice_commute_left [OF 1 assms(4)] Compound t2 by (auto simp: splice_tree_def)
qed

lemma swap_right:
  assumes pos: "positional m1" "positional m2" and seq: "seq2 m1 m2 t = Some t2"
    and right: "hd (mod_p m1) + width m1 + growth m1 \<le> hd (mod_p m2)"
  shows "seq2 (add_item m2 (- growth m1)) m1 t = Some t2"
proof -
  obtain t1 where e: "effect m1 t = Some t1" "effect m2 t1 = Some t2"
    using seq by (auto simp: seq2_Some)
  obtain FA1 FC1 where 1: "\<And>d t. effect (add_item m1 d) t = splice_tree (hd (mod_p m1) + d) (width m1) FA1 FC1 t"
    using positional_splice [OF pos(1)] by blast
  obtain FA2 FC2 where 2: "\<And>d t. effect (add_item m2 d) t = splice_tree (hd (mod_p m2) + d) (width m2) FA2 FC2 t"
    using positional_splice [OF pos(2)] by blast
  show ?thesis
    using splice_tree_right [OF _ _ positional_growth [OF pos(1) e(1)] right] e 1 [of 0] 2 [of 0]
      1 [of 0] 2 [of "- growth m1"]
    by (simp add: seq2_Some)
qed

lemma swap_left:
  assumes pos: "positional m1" "positional m2" and seq: "seq2 m1 m2 t = Some t2"
    and left: "hd (mod_p m2) + width m2 \<le> hd (mod_p m1)"
  shows "seq2 m2 (add_item m1 (growth m2)) t = Some t2"
proof -
  obtain t1 where e: "effect m1 t = Some t1" "effect m2 t1 = Some t2"
    using seq by (auto simp: seq2_Some)
  obtain FA1 FC1 where 1: "\<And>d t. effect (add_item m1 d) t = splice_tree (hd (mod_p m1) + d) (width m1) FA1 FC1 t"
    using positional_splice [OF pos(1)] by blast
  obtain FA2 FC2 where 2: "\<And>d t. effect (add_item m2 d) t = splice_tree (hd (mod_p m2) + d) (width m2) FA2 FC2 t"
    using positional_splice [OF pos(2)] by blast
  show ?thesis
    using splice_tree_left [OF _ _ positional_growth [OF pos(2) e(2)] left] e 1 [of 0] 2 [of 0]
      1 [of "growth m2"]
    by (simp add: seq2_Some)
qed

lemma swap1_positional:
  assumes pos: "positional m1" "root m1 = []" "positional m2" and seq: "seq2 m1 m2 t = Some t2"
    and sw: "swap1 m1 m2 (hd (mod_p m1)) (growth m1) = Some (True, r1, r2)"
    and guard: "hd (mod_p m2) < hd (mod_p m1) \<or> hd (mod_p m1) + width m1 + growth m1 \<le> hd (mod_p m2) \<or>
      (root m2 = [] \<and> mod_k m2 = MOD_INSERT \<and> hd (mod_p m2) = hd (mod_p m1))"
  shows "seq2 r1 r2 t = Some t2"
proof -
  let ?i = "hd (mod_p m1)" and ?x = "hd (mod_p m2)"
  have x: "item (mod_p m2) = Some ?x"
    using positional_path [OF pos(3)] by (cases "mod_p m2") (auto simp: item_def)
  have len: "root m2 = [] \<Longrightarrow> length (mod_p m2) = arity (mod_k m2)"
    using pos(3) root_nil_path by (auto simp: positional_def)
  have n: "root m2 = [] \<Longrightarrow> mod_k m2 = MOD_REMOVE \<Longrightarrow> next_of (mod_p m2) = Some [width m2]"
    using len by (auto simp: arity_def numeral_2_eq_2 length_Suc_conv next_of_def width_def)
  consider (left) "?x < ?i \<or> (root m2 = [] \<and> mod_k m2 = MOD_INSERT \<and> ?x = ?i)"
    | (right) "?i \<le> ?x" "\<not> (root m2 = [] \<and> mod_k m2 = MOD_INSERT \<and> ?x = ?i)"
    by linarith
  then show ?thesis
  proof cases
    case left
    have "?x + width m2 \<le> ?i \<and> r1 = m2 \<and> r2 = add_item m1 (growth m2)"
    proof (cases "root m2 = []")
      case True
      with pos(3) consider "mod_k m2 = MOD_INSERT" | "mod_k m2 = MOD_REMOVE" | "mod_k m2 = MOD_SPLIT"
        | "mod_k m2 = MOD_JOIN"
        by (auto simp: positional_def)
      then show ?thesis
        using left sw x n True
        by cases (auto simp: swap1_def width_def growth_def item_def Let_def split: if_splits)
    next
      case False
      with left sw x show ?thesis
        by (auto simp: swap1_def width_def growth_def Let_def split: if_splits)
    qed
    then show ?thesis
      using swap_left [OF pos(1, 3) seq] by simp
  next
    case right
    with guard have g: "?i + width m1 + growth m1 \<le> ?x" by auto
    have "r1 = add_item m2 (- growth m1) \<and> r2 = m1"
    proof (cases "root m2 = []")
      case True
      with pos(3) consider "mod_k m2 = MOD_INSERT" | "mod_k m2 = MOD_REMOVE" | "mod_k m2 = MOD_SPLIT"
        | "mod_k m2 = MOD_JOIN"
        by (auto simp: positional_def)
      then show ?thesis
        using right sw x n True
        by cases (auto simp: swap1_def item_def Let_def split: if_splits)
    next
      case False
      with right sw x show ?thesis
        by (auto simp: swap1_def Let_def split: if_splits)
    qed
    then show ?thesis
      using swap_right [OF pos(1, 3) seq g] by simp
  qed
qed

lemma swap2_positional:
  assumes pos: "positional m1" "root m1 \<noteq> []" "positional m2" and seq: "seq2 m1 m2 t = Some t2"
    and sw: "swap2 m1 m2 (hd (mod_p m2)) (growth m2) = Some (True, r1, r2)"
    and guard: "hd (mod_p m1) < hd (mod_p m2) \<or> hd (mod_p m2) + width m2 \<le> hd (mod_p m1)"
  shows "seq2 r1 r2 t = Some t2"
proof -
  have x: "item (mod_p m1) = Some (hd (mod_p m1))"
    using positional_path [OF pos(1)] by (cases "mod_p m1") (auto simp: item_def)
  have w: "width m1 = 1" "growth m1 = 0"
    using pos(2) by (simp_all add: width_def growth_def)
  show ?thesis
  proof (cases "hd (mod_p m1) < hd (mod_p m2)")
    case True
    then have "r1 = m2" "r2 = m1"
      using sw x by (auto simp: swap2_def)
    with True w show ?thesis
      using swap_right [OF pos(1, 3) seq] by simp
  next
    case False
    then have "r1 = m2" "r2 = add_item m1 (growth m2)"
      using sw x by (auto simp: swap2_def)
    with False guard show ?thesis
      using swap_left [OF pos(1, 3) seq] by simp
  qed
qed

section \<open>Edits that wrap or unwrap the node\<close>

definition wrap :: "tree \<Rightarrow> int \<Rightarrow> tree \<Rightarrow> tree" where
  "wrap w a t = Compound (attrs w) (L w) (take (nat a) (children w) @ [t] @ drop (nat a) (children w))"

lemma single_path:
  assumes "wf_mod m" "root m = []" "arity (mod_k m) = 1"
  shows "\<exists>i. mod_p m = [i]"
  using root_nil_path [OF assms(1, 2)] assms(3) by (auto simp: length_Suc_conv)

lemma effect_insert_node:
  assumes "mod_k m = MOD_INSERT_NODE" "root m = []" "wf_mod m" "\<not> restores_child_header m"
  shows "effect m t =
    (if is_compound (mod_t m) \<and> 0 \<le> hd (mod_p m) \<and> hd (mod_p m) \<le> N (mod_t m)
     then Some (wrap (mod_t m) (hd (mod_p m)) t) else None)"
proof -
  obtain i where p: "mod_p m = [i]"
    using single_path [OF assms(3, 2)] assms(1) by (auto simp: arity_def)
  have "argument m = Some (hd (mod_p m))"
    using assms(1) by (simp add: argument_def p)
  then show ?thesis
    using assms by (simp add: effect_def local_edit_def insert_node_edit_def inserted_node_template_def wrap_def)
qed

lemma at_path_wrap:
  "0 \<le> a \<Longrightarrow> a \<le> N w \<Longrightarrow> at_path [a] f (wrap w a t) = map_option (wrap w a) (f t)"
  by (cases "f t") (auto simp: wrap_def set_child_def N_def nth_append list_update_append)

lemma swap_insert_node:
  assumes "mod_k w = MOD_INSERT_NODE" "root w = []" "wf_mod w" "\<not> restores_child_header w" "wf_mod m"
  shows "seq2 m w t = seq2 w (cons_mod (hd (mod_p w)) m) t"
  using assms by (auto simp: seq2_def effect_insert_node effect_cons at_path_wrap bind_Some_map simp del: at_path.simps)

lemma effect_remove_node:
  assumes "mod_k m = MOD_REMOVE_NODE" "root m = []" "wf_mod m" "\<not> restores_child_header m"
  shows "effect m t =
    (if empty_header_payload (mod_t m) \<and> attrs t = None then child t (hd (mod_p m)) else None)"
proof -
  obtain i where p: "mod_p m = [i]"
    using single_path [OF assms(3, 2)] assms(1) by (auto simp: arity_def)
  have "index m = Some (hd (mod_p m))"
    using assms(1) by (simp add: index_def p)
  then show ?thesis
    using assms by (auto simp: effect_def local_edit_def remove_node_edit_def split: bind_splits)
qed

lemma attrs_set_child [simp]: "attrs (set_child t j c) = attrs t"
  by (simp add: set_child_def)

lemma child_set_child [simp]: "child t j = Some d \<Longrightarrow> child (set_child t j c) j = Some c"
  by (auto simp: set_child_def child_Some_iff N_def)

lemma swap_remove_node:
  assumes "mod_k w = MOD_REMOVE_NODE" "root w = []" "wf_mod w" "\<not> restores_child_header w" "wf_mod m"
  shows "seq2 w m t = seq2 (cons_mod (hd (mod_p w)) m) w t"
  using assms
  by (cases "child t (hd (mod_p w))"; cases "effect m (the (child t (hd (mod_p w))))")
    (auto simp: seq2_def effect_remove_node effect_cons)

lemma effect_assign_node:
  assumes "mod_k m = MOD_ASSIGN_NODE" "root m = []"
  shows "effect m t = (if is_compound t then Some (Compound (attrs t) (L (mod_t m)) (children t)) else None)"
  using assms by (cases t) (auto simp: effect_def local_edit_def)

lemma child_compound: "child t i = Some c \<Longrightarrow> is_compound t"
  by (auto simp: child_Some_iff N_pos_compound)

lemma swap_assign_node:
  assumes "mod_k a = MOD_ASSIGN_NODE" "root a = []" "wf_mod m"
  shows "seq2 a (cons_mod i m) t = seq2 (cons_mod i m) a t"
proof (cases t)
  case (Compound m' l ts)
  with assms show ?thesis
    by (cases "array_ref ts i"; cases "effect m (the (array_ref ts i))")
      (auto simp: seq2_def effect_assign_node effect_cons set_child_def)
qed (use assms in \<open>simp add: seq2_def effect_assign_node effect_cons\<close>)

lemma effect_set_cursor:
  assumes "mod_k m = MOD_SET_CURSOR" "root m = []" "wf_mod m"
  shows "effect m t = (if 0 \<le> hd (mod_p m) \<and> hd (mod_p m) \<le> right_index t then Some t else None)"
proof -
  obtain i where p: "mod_p m = [i]"
    using single_path [OF assms(3, 2)] assms(1) by (auto simp: arity_def)
  have "index m = Some (hd (mod_p m))"
    using assms(1) by (simp add: index_def p)
  then show ?thesis
    using assms by (simp add: effect_def local_edit_def)
qed

lemma keeps_compound:
  assumes "effect m t = Some t'" "root m \<noteq> [] \<or> mod_k m \<in> {MOD_JOIN, MOD_SPLIT, MOD_ASSIGN_NODE}"
  shows "right_index t = 1 \<and> right_index t' = 1"
proof (cases "root m = []")
  case False
  with assms(1) obtain i m' where "m = cons_mod i m'" "wf_mod m'"
    by (meson deeper_mod effect_wf_mod)
  with assms(1) show ?thesis
    by (cases t) (auto simp: effect_cons set_child_def split: bind_splits)
next
  case True
  with assms have "local_edit m t = Some t'" by (simp add: effect_def)
  with True assms(2) show ?thesis
    by (cases t) (auto simp: local_edit_def splice_tree_def no_text_def splice_at_def split: bind_splits if_splits)
qed

lemma swap_set_cursor:
  assumes "mod_k c = MOD_SET_CURSOR" "root c = []" "wf_mod c"
    and "root m \<noteq> [] \<or> mod_k m \<in> {MOD_JOIN, MOD_SPLIT, MOD_ASSIGN_NODE}"
  shows "seq2 c m t = seq2 m c t"
  using assms keeps_compound [OF _ assms(4)]
  by (cases "effect m t") (auto simp: seq2_def effect_set_cursor)

section \<open>Edits of disjoint subtrees\<close>

lemma set_child_commute:
  "i \<noteq> j \<Longrightarrow> 0 \<le> i \<Longrightarrow> 0 \<le> j \<Longrightarrow> set_child (set_child t i c) j d = set_child (set_child t j d) i c"
  by (simp add: set_child_def list_update_swap)

lemma child_set_child_other:
  "i \<noteq> j \<Longrightarrow> 0 \<le> i \<Longrightarrow> child t i \<noteq> None \<Longrightarrow> child (set_child t i c) j = child t j"
  by (auto simp: set_child_def child_def array_ref_def)

lemma at_path_disjoint:
  assumes "at_path p f t = Some t1" "at_path q g t1 = Some t2" "\<not> prefix p q" "\<not> prefix q p"
  shows "\<exists>u. at_path q g t = Some u \<and> at_path p f u = Some t2"
  using assms
proof (induction p arbitrary: q t t1 t2)
  case (Cons i p)
  then obtain j q' where q: "q = j # q'" by (cases q) auto
  from Cons.prems(1) obtain c r where c: "child t i = Some c" "at_path p f c = Some r" "t1 = set_child t i r"
    by (auto split: bind_splits)
  from Cons.prems(2) q obtain d e where d: "child t1 j = Some d" "at_path q' g d = Some e" "t2 = set_child t1 j e"
    by (auto split: bind_splits)
  have ij: "0 \<le> i" "0 \<le> j"
    using c d by (auto simp: child_Some_iff)
  show ?case
  proof (cases "i = j")
    case True
    with c d have "d = r" by auto
    moreover have "\<not> prefix p q'" "\<not> prefix q' p"
      using Cons.prems(3, 4) q True by auto
    ultimately obtain u where "at_path q' g c = Some u" "at_path p f u = Some e"
      using Cons.IH c(2) d(2) by blast
    with c d True q ij show ?thesis
      by (auto simp: set_child_def child_Some_iff N_def)
  next
    case False
    with c d ij have "child t j = Some d" "child (set_child t j e) i = Some c"
      using child_set_child_other [of i j t r] child_set_child_other [of j i t e] by auto
    with c d ij False q show ?thesis
      by (auto simp: set_child_commute)
  qed
qed simp

lemma swap_disjoint:
  assumes "seq2 m1 m2 t = Some t2" "\<not> prefix (root m1) (root m2)" "\<not> prefix (root m2) (root m1)"
  shows "seq2 m2 m1 t = Some t2"
  using assms at_path_disjoint unfolding seq2_Some effect_def by blast

section \<open>Swapping two modifications\<close>

text \<open>
  The one pair that \<open>swap\<close> exchanges wrongly: two insertions of nodes, the second one around
  the node that the first one has just wrapped.
\<close>

definition nested_insert :: "modification \<Rightarrow> modification \<Rightarrow> bool" where
  "nested_insert m1 m2 \<longleftrightarrow>
     mod_k m1 = MOD_INSERT_NODE \<and> mod_k m2 = MOD_INSERT_NODE \<and>
     (case argument m1 of None \<Rightarrow> False | Some a \<Rightarrow> root m2 = root m1 @ [a])"

lemma item_Cons [simp]: "item (i # p) = Some i" "next_of (i # p) = Some p"
  by (simp_all add: item_def next_of_def)

lemma item_hd: "p \<noteq> [] \<Longrightarrow> item p = Some (hd p)"
  by (cases p) (auto simp: item_def)

lemma next_tl: "p \<noteq> [] \<Longrightarrow> next_of p = Some (tl p)"
  by (cases p) (auto simp: next_of_def)

lemma seq2_wf: "seq2 m1 m2 t = Some t2 \<Longrightarrow> wf_mod m1 \<and> wf_mod m2"
  by (auto simp: seq2_Some dest: effect_wf_mod)

lemma swap1_correct:
  assumes pos: "positional m1" "root m1 = []"
    and m2: "mod_p m2 \<noteq> []" "mod_k m2 \<noteq> MOD_SET_METADATA" "\<not> restores_child_header m2"
    and seq: "seq2 m1 m2 t = Some t2"
    and sw: "swap1 m1 m2 (hd (mod_p m1)) (growth m1) = Some (True, r1, r2)"
    and guard: "\<not> (root m2 = [] \<and> mod_k m2 = MOD_INSERT_NODE) \<Longrightarrow>
      hd (mod_p m2) < hd (mod_p m1) \<or> hd (mod_p m1) + width m1 + growth m1 \<le> hd (mod_p m2) \<or>
      (root m2 = [] \<and> mod_k m2 = MOD_INSERT \<and> hd (mod_p m2) = hd (mod_p m1))"
  shows "seq2 r1 r2 t = Some t2"
proof -
  note wf = seq2_wf [OF seq]
  consider "root m2 = []" "mod_k m2 = MOD_INSERT_NODE" | "positional m2"
    | "root m2 = []" "mod_k m2 \<notin> {MOD_INSERT, MOD_REMOVE, MOD_SPLIT, MOD_JOIN, MOD_INSERT_NODE}"
    using wf by (auto simp: positional_def)
  then show ?thesis
  proof cases
    case 1
    with sw m2 have "r1 = m2" "r2 = cons_mod (hd (mod_p m2)) m1"
      by (auto simp: swap1_def item_hd Let_def)
    with 1 seq wf m2 show ?thesis
      using swap_insert_node [of m2 m1 t] by simp
  next
    case 2
    then have "\<not> (root m2 = [] \<and> mod_k m2 = MOD_INSERT_NODE)"
      by (auto simp: positional_def)
    with guard show ?thesis
      using swap1_positional [OF pos 2 seq sw] by blast
  next
    case 3
    then have "mod_k m2 \<in> {MOD_REMOVE_NODE, MOD_SET_CURSOR}"
      using m2 root_nil_path [of m2] wf by (cases "mod_k m2") (auto simp: arity_def)
    with 3 sw m2 show ?thesis
      by (auto simp: swap1_def item_hd Let_def)
  qed
qed

lemma swap_first_positional:
  assumes k: "mod_k m1 \<in> {MOD_INSERT, MOD_REMOVE, MOD_SPLIT, MOD_JOIN}" and rt: "root m1 = []"
    and m2: "mod_k m2 \<noteq> MOD_SET_METADATA" "\<not> restores_child_header m2"
    and seq: "seq2 m1 m2 t = Some t2" and sw: "swap_first_at_root m1 m2 = Some (True, r1, r2)"
  shows "seq2 r1 r2 t = Some t2"
proof -
  note wf = seq2_wf [OF seq]
  have p2: "mod_p m2 \<noteq> []"
    using k sw by (auto simp: swap_first_at_root_def)
  have len: "length (mod_p m1) = arity (mod_k m1)"
    using root_nil_path wf rt by blast
  then have p1: "mod_p m1 \<noteq> []"
    using k by (auto simp: arity_def)
  have pos: "positional m1"
    using wf k by (auto simp: positional_def)
  note step = swap1_correct [OF pos rt p2 m2 seq]
  note defs = swap_first_at_root_def item_hd [OF p1] item_hd [OF p2] next_tl [OF p1] Let_def width_def growth_def
  from k consider "mod_k m1 = MOD_INSERT" | "mod_k m1 = MOD_REMOVE" | "mod_k m1 = MOD_SPLIT" | "mod_k m1 = MOD_JOIN"
    by auto
  then show ?thesis
  proof cases
    case 1
    with sw p2 rt show ?thesis
      by (intro step) (auto simp: defs split: if_splits)
  next
    case 2
    with len obtain i d where "mod_p m1 = [i, d]"
      by (auto simp: arity_def numeral_2_eq_2 length_Suc_conv)
    with 2 sw p2 rt show ?thesis
      by (intro step) (auto simp: swap_first_at_root_def width_def growth_def)
  next
    case 3
    with sw p2 rt show ?thesis
      by (intro step) (auto simp: defs split: if_splits)
  next
    case 4
    with sw p2 rt show ?thesis
      by (intro step) (auto simp: defs split: if_splits)
  qed
qed

lemma swap_first_correct:
  assumes rt: "root m1 = []"
    and g: "mod_k m1 \<noteq> MOD_SET_METADATA" "mod_k m2 \<noteq> MOD_SET_METADATA"
      "\<not> restores_child_header m1" "\<not> restores_child_header m2"
    and seq: "seq2 m1 m2 t = Some t2" and sw: "swap_first_at_root m1 m2 = Some (True, r1, r2)"
    and nest: "\<not> nested_insert m1 m2"
  shows "seq2 r1 r2 t = Some t2"
proof -
  have wf1: "wf_mod m1" and wf2: "wf_mod m2"
    using seq2_wf [OF seq] by auto
  note defs = swap_first_at_root_def swap_basic_def
  show ?thesis
  proof (cases "mod_k m1")
    case MOD_ASSIGN
    show ?thesis
    proof (cases "m1 = m2")
      case False
      with MOD_ASSIGN sw have 2: "root m2 = []" "mod_k m2 = MOD_INSERT_NODE"
        by (auto simp: defs split: if_splits)
      then obtain x where "mod_p m2 = [x]"
        using single_path [OF wf2] by (auto simp: arity_def)
      with MOD_ASSIGN False 2 sw have "r1 = m2" "r2 = cons_mod (hd (mod_p m2)) m1"
        by (auto simp: defs modification3_cons_kind)
      with seq show ?thesis
        using swap_insert_node [OF 2(2, 1) wf2 g(4) wf1] by simp
    qed (use MOD_ASSIGN sw seq in \<open>auto simp: defs\<close>)
  next
    case MOD_ASSIGN_NODE
    show ?thesis
    proof (cases "root m2 = []")
      case False
      then obtain i m' where "m2 = cons_mod i m'" "wf_mod m'"
        using deeper_mod [OF wf2] by blast
      with MOD_ASSIGN_NODE False sw seq rt show ?thesis
        using swap_assign_node [of m1 m' i t] by (auto simp: defs)
    next
      case True
      show ?thesis
      proof (cases "m1 = m2")
        case False
        with True MOD_ASSIGN_NODE sw have 2: "mod_k m2 = MOD_INSERT_NODE"
          by (auto simp: defs split: if_splits)
        then obtain x where "mod_p m2 = [x]"
          using single_path [OF wf2 True] by (auto simp: arity_def)
        with MOD_ASSIGN_NODE False 2 sw True have "r1 = m2" "r2 = cons_mod (hd (mod_p m2)) m1"
          by (auto simp: defs modification3_cons_kind)
        with seq show ?thesis
          using swap_insert_node [OF 2 True wf2 g(4) wf1] by simp
      qed (use MOD_ASSIGN_NODE True sw seq in \<open>auto simp: defs\<close>)
    qed
  next
    case MOD_INSERT_NODE
    then obtain x where x: "mod_p m1 = [x]"
      using single_path [OF wf1 rt] by (auto simp: arity_def)
    from MOD_INSERT_NODE sw have r2: "root m2 \<noteq> []"
      by (auto simp: defs)
    then obtain i m' where m': "m2 = cons_mod i m'" "wf_mod m'" "root m2 = i # root m'"
      using deeper_mod [OF wf2] by blast
    then have "modification3 (mod_k m2) (mod_p m') (mod_t m2) = m'"
      by (cases m') (simp add: modification3_def)
    moreover have "\<not> (mod_k m2 = MOD_INSERT_NODE \<and> i = x \<and> root m' = [])"
      using nest MOD_INSERT_NODE rt m' x by (auto simp: nested_insert_def argument_def)
    ultimately have "i = x" "r1 = m'" "r2 = m1"
      using MOD_INSERT_NODE sw x m' r2 by (auto simp: defs item_def next_of_def Let_def split: if_splits)
    with seq m' x show ?thesis
      using swap_insert_node [OF MOD_INSERT_NODE rt wf1 g(3), of m' t] by simp
  next
    case MOD_REMOVE_NODE
    then obtain x where x: "mod_p m1 = [x]"
      using single_path [OF wf1 rt] by (auto simp: arity_def)
    with MOD_REMOVE_NODE sw have "r1 = cons_mod x m2" "r2 = m1"
      by (auto simp: defs item_def)
    with seq x show ?thesis
      using swap_remove_node [OF MOD_REMOVE_NODE rt wf1 g(3) wf2, of t] by simp
  next
    case MOD_SET_CURSOR
    with sw have "root m2 \<noteq> [] \<or> mod_k m2 \<in> {MOD_JOIN, MOD_SPLIT, MOD_ASSIGN_NODE}" "r1 = m2" "r2 = m1"
      by (auto simp: defs split: if_splits)
    with seq show ?thesis
      using swap_set_cursor [OF MOD_SET_CURSOR rt wf1] by simp
  qed (use swap_first_positional [OF _ rt g(2, 4) seq sw] g(1) in auto)
qed

lemma swap_second_correct:
  assumes rt: "root m1 \<noteq> []" "root m2 = []"
    and g: "mod_k m2 \<noteq> MOD_SET_METADATA" "\<not> restores_child_header m2"
    and seq: "seq2 m1 m2 t = Some t2" and sw: "swap_second_at_root m1 m2 = Some (True, r1, r2)"
  shows "seq2 r1 r2 t = Some t2"
proof -
  have wf1: "wf_mod m1" and wf2: "wf_mod m2"
    using seq2_wf [OF seq] by auto
  obtain i m' where m': "m1 = cons_mod i m'" "wf_mod m'" "root m1 = i # root m'"
    using deeper_mod [OF wf1 rt(1)] by blast
  have pos1: "positional m1"
    using wf1 rt by (simp add: positional_def)
  have len: "length (mod_p m2) = arity (mod_k m2)"
    using root_nil_path wf2 rt by blast
  have p1: "mod_p m1 \<noteq> []" using m' by simp
  note defs = swap_second_at_root_def swap_basic_def Let_def item_hd [OF p1] item_hd [of "mod_p m2"]
    width_def growth_def
  note step = swap2_positional [OF pos1 rt(1) _ seq]
  show ?thesis
  proof (cases "mod_k m2")
    case MOD_INSERT
    then have "positional m2" "mod_p m2 \<noteq> []"
      using wf2 len by (auto simp: positional_def arity_def)
    with MOD_INSERT sw rt show ?thesis
      by (intro step) (auto simp: defs)
  next
    case MOD_REMOVE
    then obtain b n where p: "mod_p m2 = [b, n]"
      using len by (auto simp: arity_def numeral_2_eq_2 length_Suc_conv)
    with MOD_REMOVE have "positional m2"
      using wf2 by (auto simp: positional_def)
    with MOD_REMOVE sw rt p show ?thesis
      by (intro step) (auto simp: defs next_of_def item_def split: if_splits list.splits)
  next
    case MOD_SPLIT
    then have "positional m2" "mod_p m2 \<noteq> []"
      using wf2 len by (auto simp: positional_def arity_def)
    with MOD_SPLIT sw rt show ?thesis
      by (intro step) (auto simp: defs split: if_splits)
  next
    case MOD_JOIN
    then have "positional m2" "mod_p m2 \<noteq> []"
      using wf2 len by (auto simp: positional_def arity_def)
    with MOD_JOIN sw rt show ?thesis
      by (intro step) (auto simp: defs split: if_splits)
  next
    case MOD_ASSIGN_NODE
    with sw have "r1 = m2" "r2 = m1" by (auto simp: defs)
    with seq m' show ?thesis
      using swap_assign_node [OF MOD_ASSIGN_NODE rt(2) m'(2)] by simp
  next
    case MOD_INSERT_NODE
    then obtain x where "mod_p m2 = [x]"
      using single_path [OF wf2 rt(2)] by (auto simp: arity_def)
    with MOD_INSERT_NODE sw have "r1 = m2" "r2 = cons_mod (hd (mod_p m2)) m1"
      by (auto simp: swap_second_at_root_def)
    with seq show ?thesis
      using swap_insert_node [OF MOD_INSERT_NODE rt(2) wf2 g(2) wf1] by simp
  next
    case MOD_REMOVE_NODE
    then obtain x where x: "mod_p m2 = [x]"
      using single_path [OF wf2 rt(2)] by (auto simp: arity_def)
    have "modification3 (mod_k m1) (mod_p m') (mod_t m1) = m'"
      using m' by (cases m') (simp add: modification3_def)
    with MOD_REMOVE_NODE sw x m' have "i = x" "r1 = m2" "r2 = m'"
      by (auto simp: defs next_of_def split: if_splits)
    with seq m' x show ?thesis
      using swap_remove_node [OF MOD_REMOVE_NODE rt(2) wf2 g(2) m'(2), of t] by simp
  next
    case MOD_SET_CURSOR
    with sw rt have "r1 = m2" "r2 = m1" by (auto simp: defs)
    with seq show ?thesis
      using swap_set_cursor [OF MOD_SET_CURSOR rt(2) wf2, of m1 t] rt by simp
  qed (use g sw in \<open>auto simp: defs\<close>)
qed

lemma nested_insert_cons:
  "wf_mod m1 \<Longrightarrow> wf_mod m2 \<Longrightarrow> nested_insert (cons_mod i m1) (cons_mod i m2) = nested_insert m1 m2"
  by (auto simp: nested_insert_def split: option.splits)

lemma seq2_cons:
  assumes "wf_mod m1" "wf_mod m2"
  shows "seq2 (cons_mod i m1) (cons_mod i m2) t = at_path [i] (seq2 m1 m2) t"
proof (cases "child t i")
  case (Some c)
  then have "set_child (set_child t i r) i r' = set_child t i r'" for r r'
    by (simp add: set_child_def)
  with Some assms show ?thesis
    by (cases "effect m1 c") (auto simp: seq2_def effect_cons)
qed (use assms in \<open>simp add: seq2_def effect_cons\<close>)

lemma mod_div_cons: "mod_div_path (cons_mod i m) [i] = Some m"
  by (cases m) (simp add: mod_div_path_def cons_mod_def modification3_def)

lemma swap_cons:
  assumes "wf_mod m1" "wf_mod m2" "root m1 \<noteq> []" "root m2 \<noteq> []" "hd (root m1) = hd (root m2)"
    "mod_k m1 \<noteq> MOD_SET_METADATA" "mod_k m2 \<noteq> MOD_SET_METADATA"
    "\<not> restores_child_header m1" "\<not> restores_child_header m2"
  obtains i n1 n2 where "m1 = cons_mod i n1" "m2 = cons_mod i n2" "wf_mod n1" "wf_mod n2"
    "swap m1 m2 = do { (r, s1, s2) \<leftarrow> swap n1 n2; Some (r, cons_mod i s1, cons_mod i s2) }"
proof -
  obtain i n1 where 1: "m1 = cons_mod i n1" "wf_mod n1" "root m1 = i # root n1"
    using deeper_mod [OF assms(1, 3)] by blast
  obtain j n2 where 2: "m2 = cons_mod j n2" "wf_mod n2" "root m2 = j # root n2"
    using deeper_mod [OF assms(2, 4)] by blast
  have "j = i"
    using 1 2 assms(5) by simp
  moreover have "swap m1 m2 = do { (r, s1, s2) \<leftarrow> swap n1 n2; Some (r, cons_mod i s1, cons_mod i s2) }"
    using assms 1 2 \<open>j = i\<close> by (subst swap.simps) (simp add: mod_div_cons)
  ultimately show thesis
    using that 1 2 by blast
qed

lemma seq2_at_cons:
  assumes "seq2 (cons_mod i m1) (cons_mod i m2) t = Some t2" "wf_mod m1" "wf_mod m2"
    and "\<And>c c2. seq2 m1 m2 c = Some c2 \<Longrightarrow> seq2 r1 r2 c = Some c2"
  shows "seq2 (cons_mod i r1) (cons_mod i r2) t = Some t2"
proof -
  obtain c c2 where c: "child t i = Some c" "seq2 m1 m2 c = Some c2" "t2 = set_child t i c2"
    using assms(1-3) by (auto simp: seq2_cons split: bind_splits)
  then have r: "seq2 r1 r2 c = Some c2"
    using assms(4) by blast
  from seq2_wf [OF r] r c show ?thesis
    by (simp add: seq2_cons)
qed

lemma swap_cases:
  assumes "swap m1 m2 = Some (True, r1, r2)"
  obtains (disjoint) "\<not> prefix (root m1) (root m2)" "\<not> prefix (root m2) (root m1)" "r1 = m2" "r2 = m1"
    | (first) "root m1 = []" "mod_k m1 \<noteq> MOD_SET_METADATA" "mod_k m2 \<noteq> MOD_SET_METADATA"
      "\<not> restores_child_header m1" "\<not> restores_child_header m2"
      "swap_first_at_root m1 m2 = Some (True, r1, r2)"
    | (second) "root m1 \<noteq> []" "root m2 = []" "mod_k m2 \<noteq> MOD_SET_METADATA" "\<not> restores_child_header m2"
      "swap_second_at_root m1 m2 = Some (True, r1, r2)"
    | (deeper) "root m1 \<noteq> []" "root m2 \<noteq> []" "hd (root m1) = hd (root m2)"
      "mod_k m1 \<noteq> MOD_SET_METADATA" "mod_k m2 \<noteq> MOD_SET_METADATA"
      "\<not> restores_child_header m1" "\<not> restores_child_header m2"
proof (cases "mod_k m1 = MOD_SET_METADATA \<or> mod_k m2 = MOD_SET_METADATA \<or>
    restores_child_header m1 \<or> restores_child_header m2")
  case True
  with assms show thesis
    by (subst (asm) swap.simps) (auto simp: swap_basic_def split: if_splits intro: disjoint)
next
  case False
  consider "root m1 = []" | "root m1 \<noteq> []" "root m2 = []" | "root m1 \<noteq> []" "root m2 \<noteq> []" by blast
  then show thesis
  proof cases
    case 1
    with False assms show thesis
      by (subst (asm) swap.simps) (auto intro: first)
  next
    case 2
    with False assms show thesis
      by (subst (asm) swap.simps) (auto intro: second)
  next
    case 3
    show thesis
    proof (cases "hd (root m1) = hd (root m2)")
      case True
      with 3 False show thesis by (auto intro: deeper)
    next
      case hd: False
      with 3 False assms have "r1 = m2" "r2 = m1"
        by (subst (asm) swap.simps, simp add: swap_basic_def)+
      with hd 3 show thesis
        by (cases "root m1"; cases "root m2") (auto intro: disjoint)
    qed
  qed
qed

lemma swap_effect:
  "swap m1 m2 = Some (True, r1, r2) \<Longrightarrow> seq2 m1 m2 t = Some t2 \<Longrightarrow>
   \<not> nested_insert m1 m2 \<Longrightarrow> seq2 r1 r2 t = Some t2"
proof (induction "length (mod_p m1)" arbitrary: m1 m2 r1 r2 t t2 rule: less_induct)
  case less
  note sw = \<open>swap m1 m2 = Some (True, r1, r2)\<close> and seq = \<open>seq2 m1 m2 t = Some t2\<close>
    and nest = \<open>\<not> nested_insert m1 m2\<close>
  from sw show ?case
  proof (cases rule: swap_cases)
    case disjoint
    then show ?thesis
      using swap_disjoint [OF seq] by simp
  next
    case first
    then show ?thesis
      using swap_first_correct [OF first(1-5) seq first(6) nest] by blast
  next
    case second
    then show ?thesis
      using swap_second_correct [OF second(1-4) seq second(5)] by blast
  next
    case deeper
    obtain i n1 n2 where m: "m1 = cons_mod i n1" "m2 = cons_mod i n2" "wf_mod n1" "wf_mod n2"
      and s: "swap m1 m2 = do { (r, s1, s2) \<leftarrow> swap n1 n2; Some (r, cons_mod i s1, cons_mod i s2) }"
      using swap_cons [OF seq2_wf [OF seq, THEN conjunct1] seq2_wf [OF seq, THEN conjunct2] deeper] by blast
    from s sw obtain s1 s2 where s12: "swap n1 n2 = Some (True, s1, s2)" "r1 = cons_mod i s1" "r2 = cons_mod i s2"
      by (auto split: bind_splits)
    have "\<not> nested_insert n1 n2"
      using nest m by (simp add: nested_insert_cons)
    then have IH: "seq2 s1 s2 c = Some c2" if "seq2 n1 n2 c = Some c2" for c c2
      using less.hyps [OF _ s12(1) that] m(1) by simp
    show ?thesis
      unfolding s12(2, 3) by (rule seq2_at_cons [OF seq [unfolded m(1, 2)] m(3, 4) IH])
  qed
qed

section \<open>Joining two edits of a string\<close>

lemma splice_insert_twice:
  assumes "splice_at i 0 (\<lambda>_. Some a) xs = Some ys" "splice_at j 0 (\<lambda>_. Some b) ys = Some zs"
  shows "j = i \<Longrightarrow> splice_at i 0 (\<lambda>_. Some (b @ a)) xs = Some zs"
    and "j = i + int (length a) \<Longrightarrow> splice_at i 0 (\<lambda>_. Some (a @ b)) xs = Some zs"
proof -
  obtain A C where 1: "xs = A @ C" "int (length A) = i" "ys = A @ a @ C"
    using assms(1) by (auto simp: splice_Some_iff)
  obtain A' C' where 2: "ys = A' @ C'" "int (length A') = j" "zs = A' @ b @ C'"
    using assms(2) by (auto simp: splice_Some_iff)
  show "splice_at i 0 (\<lambda>_. Some (b @ a)) xs = Some zs" if "j = i"
  proof -
    have "A' = A" "C' = a @ C"
      using that 1 2 append_eq_append_conv [of A' A C' "a @ C"] by auto
    with 1 2 show ?thesis
      by (intro spliceI [where S = "[]" and A = A and C = C and T = "b @ a"]) auto
  qed
  show "splice_at i 0 (\<lambda>_. Some (a @ b)) xs = Some zs" if "j = i + int (length a)"
  proof -
    have "A' = A @ a" "C' = C"
      using that 1 2 append_eq_append_conv [of A' "A @ a" C' C] by auto
    with 1 2 show ?thesis
      by (intro spliceI [where S = "[]" and A = A and C = C and T = "a @ b"]) auto
  qed
qed

lemma splice_remove_twice:
  assumes "splice_at i n (\<lambda>_. Some []) xs = Some ys" "splice_at j k (\<lambda>_. Some []) ys = Some zs"
    and "i = j \<or> i = j + k"
  shows "splice_at j (n + k) (\<lambda>_. Some []) xs = Some zs"
proof -
  obtain A S C where 1: "xs = A @ S @ C" "int (length A) = i" "int (length S) = n" "ys = A @ C"
    using assms(1) by (auto simp: splice_Some_iff)
  obtain A' S' C' where 2: "ys = A' @ S' @ C'" "int (length A') = j" "int (length S') = k" "zs = A' @ C'"
    using assms(2) by (auto simp: splice_Some_iff)
  from assms(3) show ?thesis
  proof
    assume "i = j"
    with 1 2 have "A' = A" "C = S' @ C'"
      using append_eq_append_conv [of A A' C "S' @ C'"] by auto
    with 1 2 \<open>i = j\<close> show ?thesis
      by (intro spliceI [where S = "S @ S'" and C = C' and T = "[]" and A = A]) auto
  next
    assume i: "i = j + k"
    with 1 2 have "A = A' @ S'" "C = C'"
      using append_eq_append_conv [of A "A' @ S'" C C'] by auto
    with 1 2 i show ?thesis
      by (intro spliceI [where S = "S' @ S" and C = C and T = "[]" and A = A']) auto
  qed
qed

lemma at_path_seq:
  assumes "at_path p f t = Some t1" "at_path p g t1 = Some t2"
    and "\<And>s s1 s2. f s = Some s1 \<Longrightarrow> g s1 = Some s2 \<Longrightarrow> h s = Some s2"
  shows "at_path p h t = Some t2"
  using assms(1, 2)
proof (induction p arbitrary: t t1 t2)
  case (Cons j p)
  then obtain c r d e where "child t j = Some c" "at_path p f c = Some r" "t1 = set_child t j r"
    "child t1 j = Some d" "at_path p g d = Some e" "t2 = set_child t1 j e"
    by (auto split: bind_splits)
  moreover from this have "d = r" by simp
  ultimately show ?case
    using Cons.IH by (auto simp: set_child_def)
qed (use assms(3) in auto)

lemma join_effect:
  assumes j: "join m1 m2 t0 = Some (Some m)" and seq: "seq2 m1 m2 t = Some t2"
  shows "effect m t = Some t2"
proof -
  obtain t1 where e: "at_path (root m1) (local_edit m1) t = Some t1" "at_path (root m2) (local_edit m2) t1 = Some t2"
    using seq by (auto simp: seq2_Some effect_def)
  consider (ins) "mod_k m1 = MOD_INSERT" "mod_k m2 = MOD_INSERT" | (rem) "mod_k m1 = MOD_REMOVE" "mod_k m2 = MOD_REMOVE"
    using j by (auto simp: join_def split: if_splits)
  then show ?thesis
  proof cases
    case ins
    from j ins obtain i1 i2 l1 l2 where i: "index m1 = Some i1" "index m2 = Some i2"
      and l: "label_of (mod_t m1) = Some l1" "label_of (mod_t m2) = Some l2" and r: "root m2 = root m1"
      and m: "m = mod_insert (root m1) i1 (Atomic None (if i2 = i1 then l2 @ l1 else l1 @ l2))"
      and ij: "i2 = i1 \<or> i2 = i1 + int (length l1)"
      by (auto simp: join_def Let_def split: if_splits bind_splits)
    have u: "compound_children (mod_t m1) = None" "compound_children (mod_t m2) = None"
      using l by (cases "mod_t m1"; cases "mod_t m2"; simp add: compound_children_def)+
    have "at_path (root m1) (local_edit m) t = Some t2"
    proof (rule at_path_seq [OF e(1) e(2) [unfolded r]])
      fix s s1 s2
      assume "local_edit m1 s = Some s1" "local_edit m2 s1 = Some s2"
      with ins i l u obtain m' x y z where s: "s = Atomic m' x" "s2 = Atomic m' z"
        and sp: "splice_at i1 0 (\<lambda>_. Some l1) x = Some y" "splice_at i2 0 (\<lambda>_. Some l2) y = Some z"
        by (cases s) (auto simp: local_edit_def splice_tree_def splice_at_def split: if_splits)
      show "local_edit m s = Some s2"
        using splice_insert_twice [OF sp] ij s m
        by (auto simp: local_edit_def splice_tree_def)
    qed
    then show ?thesis by (simp add: effect_def m)
  next
    case rem
    from j rem obtain i1 i2 n1 n2 where i: "index m1 = Some i1" "index m2 = Some i2"
      and n: "argument m1 = Some n1" "argument m2 = Some n2" and r: "root m2 = root m1"
      and m: "m = mod_remove (root m2) i2 (n1 + n2)" and ij: "i1 = i2 \<or> i1 = i2 + n2"
      by (auto simp: join_def split: if_splits bind_splits)
    have "at_path (root m1) (local_edit m) t = Some t2"
    proof (rule at_path_seq [OF e(1) e(2) [unfolded r]])
      fix s s1 s2
      assume "local_edit m1 s = Some s1" "local_edit m2 s1 = Some s2"
      with rem i n show "local_edit m s = Some s2"
        by (cases s) (auto simp: local_edit_def splice_tree_def m splice_remove_twice [OF _ _ ij])
    qed
    then show ?thesis by (simp add: effect_def m r)
  qed
qed

section \<open>Swapping returns\<close>

lemma swap1_returns: "mod_p m2 \<noteq> [] \<Longrightarrow> wf_mod m2 \<Longrightarrow> swap1 m1 m2 i d \<noteq> None"
  by (cases "mod_k m2"; cases "mod_p m2"; cases "tl (mod_p m2)")
    (auto simp: swap1_def Let_def wf_mod_def arity_def)

lemma wf_path:
  "wf_mod m \<Longrightarrow> arity (mod_k m) \<ge> 1 \<Longrightarrow> mod_p m \<noteq> []"
  "wf_mod m \<Longrightarrow> arity (mod_k m) = 2 \<Longrightarrow> tl (mod_p m) \<noteq> []"
  by (auto simp: wf_mod_def) (cases "mod_p m"; auto)

lemma swap_first_returns:
  assumes "wf_mod m1" "wf_mod m2" "mod_k m1 \<noteq> MOD_SET_METADATA" "root m1 = []"
  shows "swap_first_at_root m1 m2 \<noteq> None"
proof -
  have p2: "root m2 \<noteq> [] \<Longrightarrow> mod_p m2 \<noteq> []"
    using root_length [of m2] by auto
  have q2: "root m2 \<noteq> [] \<Longrightarrow> mod_k m2 = MOD_INSERT_NODE \<Longrightarrow> tl (mod_p m2) \<noteq> []"
    using root_length [of m2] by (cases "mod_p m2") (auto simp: arity_def)
  have i2: "mod_k m2 = MOD_INSERT_NODE \<Longrightarrow> mod_p m2 \<noteq> []"
    using wf_path(1) [OF assms(2)] by (simp add: arity_def)
  note facts = wf_path [OF assms(1)] swap1_returns [OF _ assms(2)]
  show ?thesis
    using assms facts p2 q2 i2
    by (cases "mod_k m1")
      (auto simp: swap_first_at_root_def swap_basic_def Let_def arity_def item_hd next_tl modification3_def
        split: if_splits)
qed

lemma swap_second_returns:
  assumes "wf_mod m1" "wf_mod m2" "mod_k m2 \<noteq> MOD_SET_METADATA" "root m1 \<noteq> []"
  shows "swap_second_at_root m1 m2 \<noteq> None"
proof -
  have "mod_p m1 \<noteq> []"
    using assms(4) root_length [of m1] by auto
  then show ?thesis
    using assms wf_path [OF assms(2)]
    by (cases "mod_k m2")
      (auto simp: swap_second_at_root_def swap2_def swap_basic_def Let_def arity_def item_hd next_tl)
qed

lemma swap_returns:
  "wf_mod m1 \<Longrightarrow> wf_mod m2 \<Longrightarrow> swap m1 m2 \<noteq> None"
proof (induction "length (mod_p m1)" arbitrary: m1 m2 rule: less_induct)
  case less
  let ?g = "mod_k m1 = MOD_SET_METADATA \<or> mod_k m2 = MOD_SET_METADATA \<or>
    restores_child_header m1 \<or> restores_child_header m2"
  show ?case
  proof (cases "\<not> ?g \<and> root m1 \<noteq> [] \<and> root m2 \<noteq> [] \<and> hd (root m1) = hd (root m2)")
    case True
    then obtain i n1 n2 where m: "m1 = cons_mod i n1" "m2 = cons_mod i n2" "wf_mod n1" "wf_mod n2"
      and s: "swap m1 m2 = do { (r, s1, s2) \<leftarrow> swap n1 n2; Some (r, cons_mod i s1, cons_mod i s2) }"
      using swap_cons [OF less.prems] by blast
    then show ?thesis
      using less.hyps [of n1 n2] by (auto split: bind_splits)
  next
    case False
    then show ?thesis
      using swap_first_returns [OF less.prems] swap_second_returns [OF less.prems]
      by (subst swap.simps) (auto simp: swap_basic_def)
  qed
qed

section \<open>Properties of commutation\<close>

lemma clean_apply_wf_mod: "clean_apply ids t m = Some t' \<Longrightarrow> wf_mod m"
proof -
  assume "clean_apply ids t m = Some t'"
  then have ok: "is_applicable t m = Some True"
    by (auto simp: clean_apply_def split: bind_splits if_splits)
  show ?thesis
    using applicable_args [OF ok]
    by (cases "mod_k m"; cases "mod_p m"; cases "tl (mod_p m)")
      (auto simp: wf_mod_def arity_def index_def argument_def)
qed

text \<open>
  Claim C2. Commutation is correct except for nested insertions of nodes: let \<open>m1\<close> and then \<open>m2\<close>, both in prepared
  form and neither a removal with a negative count, be applied to a document. When \<open>swap\<close> reports success, and
  the two are not insertions of nodes of which the second wraps the node that the first has just wrapped
  (\<open>nested_insert\<close>), the two modifications it returns can be applied to the same document in their order
  and lead to the same result. For nested insertions \<open>swap\<close> reports success too, and the result
  differs, see \<open>nested_insert_swap_wrong\<close>.
\<close>

theorem swap_correct:
  assumes "swap m1 m2 = Some (True, r1, r2)" and "\<not> nested_insert m1 m2"
    and "nonneg_remove m1" and "prepare_modification ids t m1 = Some m1" and "clean_apply ids t m1 = Some t1"
    and "nonneg_remove m2" and "prepare_modification ids t1 m2 = Some m2" and "clean_apply ids t1 m2 = Some t2"
  shows "\<exists>u. clean_apply ids t r1 = Some u \<and> clean_apply ids u r2 = Some t2"
proof -
  have "effect m1 t = Some t1" "effect m2 t1 = Some t2"
    using assms by (auto simp: effect_iff [of _ _ _ ids])
  then have "seq2 m1 m2 t = Some t2"
    by (simp add: seq2_def)
  then have "seq2 r1 r2 t = Some t2"
    using swap_effect assms(1, 2) by blast
  then show ?thesis
    by (auto simp: seq2_Some effect_iff [of _ _ _ ids])
qed

theorem swap_correct_witness:
  "swap (mod_insert [0] 1 (Atomic None ''XY'')) (mod_remove [0] 3 2) =
     Some (True, mod_remove [0] 1 2, mod_insert [0] 1 (Atomic None ''XY'')) \<and>
   clean_apply (\<lambda>n. []) sample_tree (mod_insert [0] 1 (Atomic None ''XY'')) =
     Some (Compound None DOCUMENT
       [Atomic (Some (Metadata ''n1'' [])) ''hXYello'', Atomic None ''world'', Compound None CONCAT []]) \<and>
   (\<exists>u. clean_apply (\<lambda>n. []) sample_tree (mod_remove [0] 1 2) = Some u \<and>
      clean_apply (\<lambda>n. []) u (mod_insert [0] 1 (Atomic None ''XY'')) =
       Some (Compound None DOCUMENT
         [Atomic (Some (Metadata ''n1'' [])) ''hXYlo'', Atomic None ''world'', Compound None CONCAT []]))"
proof -
  let ?m1 = "mod_insert [0] 1 (Atomic None ''XY'')" and ?m2 = "mod_remove [0] 3 2"
  let ?t1 = "Compound None DOCUMENT
       [Atomic (Some (Metadata ''n1'' [])) ''hXYello'', Atomic None ''world'', Compound None CONCAT []]"
  let ?t2 = "Compound None DOCUMENT
         [Atomic (Some (Metadata ''n1'' [])) ''hXYlo'', Atomic None ''world'', Compound None CONCAT []]"
  have 1: "swap ?m1 ?m2 = Some (True, mod_remove [0] 1 2, ?m1)" by code_simp
  have 2: "\<not> nested_insert ?m1 ?m2" by code_simp
  have 3: "nonneg_remove ?m1" by code_simp
  have 4: "prepare_modification (\<lambda>n. []) sample_tree ?m1 = Some ?m1" by code_simp
  have 5: "clean_apply (\<lambda>n. []) sample_tree ?m1 = Some ?t1" by code_simp
  have 6: "nonneg_remove ?m2" by code_simp
  have 7: "prepare_modification (\<lambda>n. []) ?t1 ?m2 = Some ?m2" by code_simp
  have 8: "clean_apply (\<lambda>n. []) ?t1 ?m2 = Some ?t2" by code_simp
  show ?thesis
    using 1 5 swap_correct [OF 1 2 3 4 5 6 7 8] by blast
qed

text \<open>
  The commutation routine is total on edits of a document: for two modifications that
  can be applied one after the other, \<open>swap\<close> terminates with an answer, it never reaches the
  final \<open>FAILED\<close> and never follows an empty path.
\<close>

theorem swap_total:
  assumes "clean_apply ids t m1 = Some t1" and "clean_apply ids t1 m2 = Some t2"
  shows "\<exists>b r1 r2. swap m1 m2 = Some (b, r1, r2)"
  using swap_returns [OF clean_apply_wf_mod [OF assms(1)] clean_apply_wf_mod [OF assms(2)]] by auto

theorem swap_total_witness:
  "clean_apply (\<lambda>n. []) (Atomic None ''ab'') (mod_remove [] 0 1) = Some (Atomic None ''b'') \<and>
   clean_apply (\<lambda>n. []) (Atomic None ''b'') (mod_assign [] (Atomic None [])) = Some (Atomic None []) \<and>
   (\<exists>b r1 r2. swap (mod_remove [] 0 1) (mod_assign [] (Atomic None [])) = Some (b, r1, r2))"
proof -
  have 1: "clean_apply (\<lambda>n. []) (Atomic None ''ab'') (mod_remove [] 0 1) = Some (Atomic None ''b'')"
    by code_simp
  have 2: "clean_apply (\<lambda>n. []) (Atomic None ''b'') (mod_assign [] (Atomic None [])) = Some (Atomic None [])"
    by code_simp
  show ?thesis
    using 1 2 swap_total [OF 1 2] by blast
qed

text \<open>
  The excluded pair is exchanged wrongly: wrapping a string in a \<open>CONCAT\<close> and then the
  string inside it in a \<open>DOCUMENT\<close> gives \<open>CONCAT (DOCUMENT "")\<close>, but applying what \<open>swap\<close>
  returns gives \<open>DOCUMENT (CONCAT "")\<close>.
\<close>

theorem nested_insert_swap_wrong:
  "swap (mod_insert_node [] 0 (Compound None CONCAT [])) (mod_insert_node [0] 0 (Compound None DOCUMENT [])) =
     Some (True, mod_insert_node [] 0 (Compound None DOCUMENT []),
           mod_insert_node [0] 0 (Compound None CONCAT [])) \<and>
   (do { u \<leftarrow> clean_apply (\<lambda>n. []) (Atomic None []) (mod_insert_node [] 0 (Compound None CONCAT []));
         clean_apply (\<lambda>n. []) u (mod_insert_node [0] 0 (Compound None DOCUMENT [])) }) =
     Some (Compound None CONCAT [Compound None DOCUMENT [Atomic None []]]) \<and>
   (do { u \<leftarrow> clean_apply (\<lambda>n. []) (Atomic None []) (mod_insert_node [] 0 (Compound None DOCUMENT []));
         clean_apply (\<lambda>n. []) u (mod_insert_node [0] 0 (Compound None CONCAT [])) }) =
     Some (Compound None DOCUMENT [Compound None CONCAT [Atomic None []]])"
proof -
  have 1: "swap (mod_insert_node [] 0 (Compound None CONCAT [])) (mod_insert_node [0] 0 (Compound None DOCUMENT [])) =
     Some (True, mod_insert_node [] 0 (Compound None DOCUMENT []),
           mod_insert_node [0] 0 (Compound None CONCAT []))" by code_simp
  have 2: "(do { u \<leftarrow> clean_apply (\<lambda>n. []) (Atomic None []) (mod_insert_node [] 0 (Compound None CONCAT []));
         clean_apply (\<lambda>n. []) u (mod_insert_node [0] 0 (Compound None DOCUMENT [])) }) =
     Some (Compound None CONCAT [Compound None DOCUMENT [Atomic None []]])" by code_simp
  have 3: "(do { u \<leftarrow> clean_apply (\<lambda>n. []) (Atomic None []) (mod_insert_node [] 0 (Compound None DOCUMENT []));
         clean_apply (\<lambda>n. []) u (mod_insert_node [0] 0 (Compound None CONCAT [])) }) =
     Some (Compound None DOCUMENT [Compound None CONCAT [Atomic None []]])" by code_simp
  from 1 2 3 show ?thesis by blast
qed



end
