(* ===== verification/Athena_Observer.thy ===== *)
theory Athena_Observer
  imports Athena_Effect
begin

text \<open>
  In-place modification: \<open>src/src/Core/Abstractions/observer.cpp\<close>. The \<open>raw_\<close> functions
  change the node a reference points to, moving the entries of its child array with loops;
  \<open>raw_apply\<close> prepares a modification and dispatches to them. The document is a value here, so
  a function that changes \<open>ref\<close> returns the new node, and a change of \<open>subtree (t, p)\<close> by
  reference is \<open>at_path p\<close>.

  The calls of the observers (\<open>announce\<close>, \<open>notify_...\<close>, \<open>done\<close>, \<open>detach\<close>) do not change
  the tree and are left out. The security code of \<open>raw_join\<close> for an atomic and a compound
  neighbour has no value here (\<open>None\<close>): the applicability test excludes that case, as the
  theorem below shows.
\<close>

section \<open>Arrays\<close>

text \<open>\<open>resize\<close> truncates or fills with fresh elements; a loop is a fold over its index range.\<close>

definition resize :: "'a \<Rightarrow> nat \<Rightarrow> 'a list \<Rightarrow> 'a list" where
  "resize x n xs = take n xs @ replicate (n - length xs) x"

text \<open>\<open>for (i = n - 1; i >= pos; i--) a[i + nr] = a[i]\<close>\<close>

definition shift_up :: "nat \<Rightarrow> nat \<Rightarrow> nat \<Rightarrow> 'a list \<Rightarrow> 'a list" where
  "shift_up pos nr n xs = fold (\<lambda>i xs. xs[i + nr := xs ! i]) (rev [pos..<n]) xs"

text \<open>\<open>for (i = 0; i < nr; i++) a[pos + i] = b[i]\<close>\<close>

definition store_at :: "nat \<Rightarrow> 'a list \<Rightarrow> 'a list \<Rightarrow> 'a list" where
  "store_at pos ys xs = fold (\<lambda>i xs. xs[pos + i := ys ! i]) [0..<length ys] xs"

text \<open>\<open>for (i = pos; i < n; i++) a[i] = a[i + nr]\<close>\<close>

definition shift_down :: "nat \<Rightarrow> nat \<Rightarrow> nat \<Rightarrow> 'a list \<Rightarrow> 'a list" where
  "shift_down pos nr n xs = fold (\<lambda>i xs. xs[i := xs ! (i + nr)]) [pos..<n] xs"

section \<open>Modifying a node\<close>

definition raw_assign :: "tree \<Rightarrow> tree \<Rightarrow> tree" where
  "raw_assign ref t = t"

definition raw_insert :: "tree \<Rightarrow> int \<Rightarrow> tree \<Rightarrow> tree option" where
  "raw_insert ref pos t =
     (case ref of
        Atomic m s \<Rightarrow>
          do { l \<leftarrow> label_of t; Some (Atomic m (substr s 0 pos @ l @ substr s pos (int (length s)))) }
      | Compound m l ts \<Rightarrow>
          (if pos < 0 \<or> pos > int (length ts) then None
           else (let n = length ts; nr = length (children t);
                     a = resize empty_tree (n + nr) ts;
                     a = shift_up (nat pos) nr n a;
                     a = store_at (nat pos) (children t) a
                 in Some (Compound m l a))))"

definition raw_remove :: "tree \<Rightarrow> int \<Rightarrow> int \<Rightarrow> tree option" where
  "raw_remove ref pos nr =
     (if nr = 0 then Some ref
      else (case ref of
        Atomic m s \<Rightarrow> Some (Atomic m (substr s 0 pos @ substr s (pos + nr) (int (length s))))
      | Compound m l ts \<Rightarrow>
          (if pos < 0 \<or> nr < 0 \<or> pos + nr > int (length ts) then None
           else (let n = length ts - nat nr
                 in Some (Compound m l (resize empty_tree n (shift_down (nat pos) (nat nr) n ts)))))))"

definition raw_split :: "tree \<Rightarrow> int \<Rightarrow> int \<Rightarrow> tree \<Rightarrow> tree option" where
  "raw_split ref pos a headers =
     do { t \<leftarrow> child ref pos;
       (t1, t2) \<leftarrow> (case t of
           Atomic m s \<Rightarrow> Some (Atomic None (substr s 0 a), Atomic None (substr s a (int (length s))))
         | Compound m l ts \<Rightarrow> do { u \<leftarrow> tree_range t 0 a; v \<leftarrow> tree_range t a (N t); Some (u, v) });
       (t1, t2) \<leftarrow> (if is_func headers TUPLE 2
           then do { h0 \<leftarrow> child headers 0; t1 \<leftarrow> apply_node_header t1 h0;
                     h1 \<leftarrow> child headers 1; t2 \<leftarrow> apply_node_header t2 h1; Some (t1, t2) }
           else Some (t1, t2));
       let n = length (children ref);
       let b = shift_up (nat pos + 1) 1 n (resize empty_tree (n + 1) (children ref));
       Some (Compound (attrs ref) (L ref) (b[nat pos := t1, nat pos + 1 := t2])) }"

definition raw_join :: "tree \<Rightarrow> modification \<Rightarrow> tree option" where
  "raw_join ref m =
     do { pos \<leftarrow> index m; t1 \<leftarrow> child ref pos; t2 \<leftarrow> child ref (pos + 1);
       if is_atomic t1 \<noteq> is_atomic t2 then None
       else do {
         t \<leftarrow> (if is_atomic t1 \<and> is_atomic t2
               then do { l1 \<leftarrow> label_of t1; l2 \<leftarrow> label_of t2; Some (Atomic None (l1 @ l2)) }
               else Some (tree_times t1 t2));
         t \<leftarrow> (if has_node_headers m then do { h \<leftarrow> single_node_header m; apply_node_header t h } else Some t);
         let n = length (children ref) - 1;
         let b = shift_down (nat pos + 1) 1 n ((children ref)[nat pos := t]);
         Some (Compound (attrs ref) (L ref) (resize empty_tree n b)) } }"

definition raw_assign_node :: "tree \<Rightarrow> tree_label \<Rightarrow> tree option" where
  "raw_assign_node ref lab =
     (case ref of Atomic m s \<Rightarrow> None | Compound m l ts \<Rightarrow> Some (Compound m lab ts))"

definition restore_child_header :: "tree \<Rightarrow> tree \<Rightarrow> tree option" where
  "restore_child_header ref header = apply_node_header ref header"

definition raw_insert_node :: "tree \<Rightarrow> modification \<Rightarrow> tree option" where
  "raw_insert_node ref m =
     do { pos \<leftarrow> argument m; t \<leftarrow> inserted_node_template m;
       if pos < 0 \<or> pos > N t then None
       else do {
         c \<leftarrow> (if restores_child_header m
               then do { h \<leftarrow> child (mod_t m) 1; restore_child_header ref h } else Some ref);
         let n = length (children t);
         let r = replicate (n + 1) empty_tree;
         let r = fold (\<lambda>i r. r[i := children t ! i]) [0..<nat pos] r;
         let r = r[nat pos := c];
         let r = fold (\<lambda>i r. r[i + 1 := children t ! i]) [nat pos..<n] r;
         Some (Compound (attrs t) (L t) r) } }"

definition raw_remove_node :: "tree \<Rightarrow> modification \<Rightarrow> tree option" where
  "raw_remove_node ref m =
     do { pos \<leftarrow> index m; c \<leftarrow> child ref pos;
       if restores_child_header m
       then do { h \<leftarrow> single_node_header m; restore_child_header c h }
       else Some c }"

definition raw_set_cursor :: "tree \<Rightarrow> int \<Rightarrow> tree \<Rightarrow> tree" where
  "raw_set_cursor ref pos data = ref"

definition raw_set_metadata :: "tree \<Rightarrow> tree \<Rightarrow> tree" where
  "raw_set_metadata ref carrier =
     (if attrs ref = attrs carrier then ref
      else copy_metadata (attrs (mod_t (mod_set_metadata [] carrier))) ref)"

definition raw_apply :: "(nat \<Rightarrow> string) \<Rightarrow> tree \<Rightarrow> modification \<Rightarrow> tree option" where
  "raw_apply ids t m =
     do { ok \<leftarrow> is_applicable t m;
       if \<not> ok then None
       else do { m \<leftarrow> prepare_modification ids t m;
         let p = root m;
         case mod_k m of
           MOD_ASSIGN \<Rightarrow> at_path p (\<lambda>s. Some (raw_assign s (mod_t m))) t
         | MOD_INSERT \<Rightarrow> do { i \<leftarrow> index m; at_path p (\<lambda>s. raw_insert s i (mod_t m)) t }
         | MOD_REMOVE \<Rightarrow> do { i \<leftarrow> index m; n \<leftarrow> argument m; at_path p (\<lambda>s. raw_remove s i n) t }
         | MOD_SPLIT \<Rightarrow> do { i \<leftarrow> index m; a \<leftarrow> argument m; at_path p (\<lambda>s. raw_split s i a (mod_t m)) t }
         | MOD_JOIN \<Rightarrow> do { r \<leftarrow> mod_div_path m p; at_path p (\<lambda>s. raw_join s r) t }
         | MOD_ASSIGN_NODE \<Rightarrow> do { l \<leftarrow> label_of_mod m; at_path p (\<lambda>s. raw_assign_node s l) t }
         | MOD_INSERT_NODE \<Rightarrow> do { r \<leftarrow> mod_div_path m p; at_path p (\<lambda>s. raw_insert_node s r) t }
         | MOD_REMOVE_NODE \<Rightarrow> do { r \<leftarrow> mod_div_path m p; at_path p (\<lambda>s. raw_remove_node s r) t }
         | MOD_SET_CURSOR \<Rightarrow> do { i \<leftarrow> index m; at_path p (\<lambda>s. Some (raw_set_cursor s i (mod_t m))) t }
         | MOD_SET_METADATA \<Rightarrow> at_path p (\<lambda>s. Some (raw_set_metadata s (mod_t m))) t } }"

section \<open>The loops\<close>

lemma length_fold_update [simp]: "length (fold (\<lambda>i xs. xs[f i := g i xs]) is xs) = length xs"
  by (induction "is" arbitrary: xs) auto

lemma length_resize [simp]: "length (resize x n xs) = n"
  by (simp add: resize_def)

lemma resize_nth: "k < n \<Longrightarrow> resize x n xs ! k = (if k < length xs then xs ! k else x)"
  by (simp add: resize_def nth_append)

lemma shift_up_nth:
  "pos \<le> n \<Longrightarrow> n + nr \<le> length xs \<Longrightarrow> k < length xs \<Longrightarrow>
   shift_up pos nr n xs ! k = (if pos + nr \<le> k \<and> k < n + nr then xs ! (k - nr) else xs ! k)"
proof (induction n arbitrary: xs)
  case (Suc n)
  show ?case
  proof (cases "pos = Suc n")
    case False
    with Suc.prems have "shift_up pos nr (Suc n) xs = shift_up pos nr n (xs[n + nr := xs ! n])"
      by (simp add: shift_up_def)
    with Suc False show ?thesis
      by (auto simp: nth_list_update)
  qed (use Suc.prems in \<open>auto simp: shift_up_def\<close>)
qed (auto simp: shift_up_def)

lemma shift_up_length [simp]: "length (shift_up pos nr n xs) = length xs"
  by (simp add: shift_up_def)

lemma store_at_nth:
  "pos + length ys \<le> length xs \<Longrightarrow> k < length xs \<Longrightarrow>
   store_at pos ys xs ! k = (if pos \<le> k \<and> k < pos + length ys then ys ! (k - pos) else xs ! k)"
proof -
  have "n \<le> length ys \<Longrightarrow> pos + n \<le> length xs \<Longrightarrow> k < length xs \<Longrightarrow>
      fold (\<lambda>i xs. xs[pos + i := ys ! i]) [0..<n] xs ! k =
      (if pos \<le> k \<and> k < pos + n then ys ! (k - pos) else xs ! k)" for n
    by (induction n) (auto simp: nth_list_update)
  then show "pos + length ys \<le> length xs \<Longrightarrow> k < length xs \<Longrightarrow>
     store_at pos ys xs ! k = (if pos \<le> k \<and> k < pos + length ys then ys ! (k - pos) else xs ! k)"
    by (simp add: store_at_def)
qed

lemma store_at_length [simp]: "length (store_at pos ys xs) = length xs"
  by (simp add: store_at_def)

lemma shift_down_nth:
  "pos \<le> n \<Longrightarrow> n + nr \<le> length xs \<Longrightarrow> k < length xs \<Longrightarrow>
   shift_down pos nr n xs ! k = (if pos \<le> k \<and> k < n then xs ! (k + nr) else xs ! k)"
proof (induction n arbitrary: k)
  case (Suc n)
  show ?case
  proof (cases "pos = Suc n")
    case False
    with Suc.prems have "shift_down pos nr (Suc n) xs = (shift_down pos nr n xs)[n := shift_down pos nr n xs ! (n + nr)]"
      by (simp add: shift_down_def)
    moreover have "length (shift_down pos nr n xs) = length xs"
      by (simp add: shift_down_def)
    ultimately show ?thesis
      using Suc False by (auto simp: nth_list_update)
  qed (use Suc.prems in \<open>auto simp: shift_down_def\<close>)
qed (simp add: shift_down_def)

lemma shift_down_length [simp]: "length (shift_down pos nr n xs) = length xs"
  by (simp add: shift_down_def)

lemma insert_loops:
  assumes "pos \<le> length xs"
  shows "store_at pos ys (shift_up pos (length ys) (length xs) (resize x (length xs + length ys) xs)) =
    take pos xs @ ys @ drop pos xs"
  by (rule nth_equalityI)
    (use assms in \<open>auto simp: resize_nth store_at_nth shift_up_nth nth_append\<close>)

lemma remove_loop:
  assumes "pos + nr \<le> length xs"
  shows "resize x (length xs - nr) (shift_down pos nr (length xs - nr) xs) = take pos xs @ drop (pos + nr) xs"
proof (rule nth_equalityI)
  show "length (resize x (length xs - nr) (shift_down pos nr (length xs - nr) xs)) =
      length (take pos xs @ drop (pos + nr) xs)"
    using assms by (simp add: resize_def)
  fix k assume "k < length (resize x (length xs - nr) (shift_down pos nr (length xs - nr) xs))"
  then have "k < length xs - nr" by (simp add: resize_def)
  with assms show "resize x (length xs - nr) (shift_down pos nr (length xs - nr) xs) ! k =
      (take pos xs @ drop (pos + nr) xs) ! k"
    by (auto simp: resize_def nth_append shift_down_nth add.commute)
qed

lemma split_loops:
  assumes "pos < length xs"
  shows "(shift_up (pos + 1) 1 (length xs) (resize x (length xs + 1) xs)) [pos := t1, pos + 1 := t2] =
    take pos xs @ [t1, t2] @ drop (Suc pos) xs"
  by (rule nth_equalityI)
    (use assms in \<open>auto simp: resize_nth shift_up_nth nth_append nth_list_update nth_Cons' Suc_diff_Suc numeral_2_eq_2\<close>)

lemma join_loop:
  assumes "pos + 1 < length xs"
  shows "resize x (length xs - 1) (shift_down (pos + 1) 1 (length xs - 1) (xs[pos := t])) =
    take pos xs @ [t] @ drop (pos + 2) xs"
  using assms remove_loop [of "pos + 1" 1 "xs[pos := t]" x]
  by (simp add: take_Suc_conv_app_nth drop_update_cancel)

lemma insert_node_loops:
  assumes "pos \<le> length xs"
  shows "fold (\<lambda>i r. r[i + 1 := xs ! i]) [pos..<length xs]
      ((fold (\<lambda>i r. r[i := xs ! i]) [0..<pos] (replicate (length xs + 1) x)) [pos := c]) =
    take pos xs @ [c] @ drop pos xs"
proof -
  have 1: "n \<le> length xs \<Longrightarrow> k < length r \<Longrightarrow> length r = length xs + 1 \<Longrightarrow>
      fold (\<lambda>i r. r[i := xs ! i]) [0..<n] r ! k = (if k < n then xs ! k else r ! k)" for n k and r :: "'a list"
    by (induction n) (auto simp: nth_list_update)
  have 2: "pos \<le> n \<Longrightarrow> n \<le> length xs \<Longrightarrow> k < length r \<Longrightarrow> length r = length xs + 1 \<Longrightarrow>
      fold (\<lambda>i r. r[Suc i := xs ! i]) [pos..<n] r ! k =
      (if pos < k \<and> k \<le> n then xs ! (k - 1) else r ! k)" for n k and r :: "'a list"
    by (induction n) (auto simp: nth_list_update le_Suc_eq)
  show ?thesis
    by (rule nth_equalityI) (use assms in \<open>auto simp: 1 2 nth_append nth_Cons' nth_list_update\<close>)
qed

section \<open>In-place application implements the functional one\<close>

text \<open>The change that \<open>raw_apply\<close> makes at the node of a modification.\<close>

definition raw_local :: "modification \<Rightarrow> tree \<Rightarrow> tree option" where
  "raw_local m s = (case mod_k m of
      MOD_ASSIGN \<Rightarrow> Some (raw_assign s (mod_t m))
    | MOD_INSERT \<Rightarrow> do { i \<leftarrow> index m; raw_insert s i (mod_t m) }
    | MOD_REMOVE \<Rightarrow> do { i \<leftarrow> index m; n \<leftarrow> argument m; raw_remove s i n }
    | MOD_SPLIT \<Rightarrow> do { i \<leftarrow> index m; a \<leftarrow> argument m; raw_split s i a (mod_t m) }
    | MOD_JOIN \<Rightarrow> raw_join s m
    | MOD_ASSIGN_NODE \<Rightarrow> do { l \<leftarrow> label_of_mod m; raw_assign_node s l }
    | MOD_INSERT_NODE \<Rightarrow> raw_insert_node s m
    | MOD_REMOVE_NODE \<Rightarrow> raw_remove_node s m
    | MOD_SET_CURSOR \<Rightarrow> do { i \<leftarrow> index m; Some (raw_set_cursor s i (mod_t m)) }
    | MOD_SET_METADATA \<Rightarrow> Some (raw_set_metadata s (mod_t m)))"

lemma raw_insert_local:
  assumes "splice_tree i 0 (\<lambda>_. label_of u) (\<lambda>_. compound_children u) s = Some s'"
  shows "raw_insert s i u = Some s'"
  using assms
  by (cases s; cases u)
    (auto simp: raw_insert_def splice_tree_def splice_at_def compound_children_def substr_prefix
      substr_suffix Let_def insert_loops split: if_splits)

lemma raw_remove_local:
  assumes "splice_tree i n (\<lambda>_. Some []) (\<lambda>_. Some []) s = Some s'"
  shows "raw_remove s i n = Some s'"
  using assms
  by (cases s)
    (auto simp: raw_remove_def splice_tree_def splice_at_def substr_prefix substr_suffix Let_def
      remove_loop nat_add_distrib split: if_splits)

lemma raw_split_local:
  assumes "splice_tree i 1 no_text (split_edit a h) s = Some s'"
  shows "raw_split s i a h = Some s'"
proof -
  obtain m l ts where s: "s = Compound m l ts" and i: "0 \<le> i" "i < int (length ts)"
    using assms by (cases s) (auto simp: splice_tree_def splice_at_def no_text_def split: if_splits)
  from assms s i obtain T where T: "split_edit a h [ts ! nat i] = Some T"
    "s' = Compound m l (take (nat i) ts @ T @ drop (Suc (nat i)) ts)"
    by (auto simp: splice_tree_def splice_at_def take_nth_drop nat_plus_one simp del: split_edit.simps
        split: if_splits)
  then obtain x y where xy: "split_tree (ts ! nat i) a h = Some (x, y)" "T = [x, y]"
    by (auto simp: split_edit_tree simp del: split_edit.simps split: if_splits)
  have b: "(shift_up (Suc (nat i)) (Suc 0) (length ts) (resize e (Suc (length ts)) ts))
      [nat i := t1, Suc (nat i) := t2] = take (nat i) ts @ t1 # t2 # drop (Suc (nat i)) ts" for t1 t2 e
    using split_loops [of "nat i" ts e t1 t2] i by simp
  show ?thesis
    using xy T s i
    by (cases "ts ! nat i")
      (auto simp: raw_split_def split_tree_def tree_range_def range_of_def b Let_def simp del: is_func_TUPLE
        split: if_splits bind_splits)
qed

lemma raw_join_local:
  assumes "splice_tree i 2 no_text (join_edit (mod_t m)) s = Some s'" "index m = Some i" "mod_k m = MOD_JOIN"
  shows "raw_join s m = Some s'"
proof -
  obtain m' l ts where s: "s = Compound m' l ts" and i: "0 \<le> i" "i + 1 < int (length ts)"
    using assms by (cases s) (auto simp: splice_tree_def splice_at_def no_text_def split: if_splits)
  from assms s i obtain T where T: "join_edit (mod_t m) [ts ! nat i, ts ! nat (i + 1)] = Some T"
    "s' = Compound m' l (take (nat i) ts @ T @ drop (Suc (Suc (nat i))) ts)"
    using take_two_drop [OF i] by (auto simp: splice_tree_def splice_at_def simp del: join_edit.simps)
  then obtain x where x: "join_trees (ts ! nat i) (ts ! nat (i + 1)) (mod_t m) = Some x" "T = [x]"
    and ok: "join_ok (mod_t m) (ts ! nat i) (ts ! nat (i + 1))"
    by (auto simp: join_edit_trees simp del: join_edit.simps split: if_splits)
  have b: "resize e (length ts - Suc 0) (shift_down (Suc (nat i)) (Suc 0) (length ts - Suc 0) (ts[nat i := t])) =
      take (nat i) ts @ t # drop (Suc (Suc (nat i))) ts" for t e
    using join_loop [of "nat i" ts e t] i by simp
  show ?thesis
    using x T s i ok assms(2, 3)
    by (cases "ts ! nat i"; cases "ts ! nat (i + 1)")
      (auto simp: raw_join_def join_trees_def join_ok_def has_node_headers_def single_node_header_def b Let_def
        is_func_children tree_times_def simp del: is_func_TUPLE split: if_splits)
qed

lemma raw_insert_node_local:
  assumes "insert_node_edit a m s = Some s'" "argument m = Some a"
  shows "raw_insert_node s m = Some s'"
proof -
  obtain w c where w: "inserted_node_template m = Some w" "is_compound w" "0 \<le> a" "a \<le> N w"
    and c: "(if restores_child_header m
             then (if compatible_header s (children (mod_t m) ! 1)
                   then Some (with_header (children (mod_t m) ! 1) s) else None) else Some s) = Some c"
    and s': "s' = Compound (attrs w) (L w) (take (nat a) (children w) @ [c] @ drop (nat a) (children w))"
    using assms(1) by (auto simp: insert_node_edit_def simp del: compatible_header_simps
        split: bind_splits if_splits)
  have "restores_child_header m \<Longrightarrow> child (mod_t m) 1 = Some (children (mod_t m) ! 1)"
    using w(1) by (auto simp: inserted_node_template_def restores_child_header_def split: if_splits)
  then have h: "(if restores_child_header m
               then do { h \<leftarrow> child (mod_t m) 1; restore_child_header s h } else Some s) = Some c"
    using c by (auto simp: restore_child_header_def apply_header_with simp del: compatible_header_simps
        split: if_splits)
  have "nat a \<le> length (children w)"
    using w by (simp add: N_def)
  from insert_node_loops [OF this, of empty_tree c] show ?thesis
    unfolding raw_insert_node_def using assms(2) w h s' by (simp add: Let_def)
qed

lemma raw_remove_node_local:
  assumes "remove_node_edit i m s = Some s'" "index m = Some i" "mod_k m = MOD_REMOVE_NODE"
  shows "raw_remove_node s m = Some s'"
  using assms
  by (auto simp: remove_node_edit_def raw_remove_node_def restore_child_header_def single_node_header_def
      is_func_children restores_child_header_def apply_header_with simp del: is_func_TUPLE compatible_header_simps
      split: bind_splits if_splits)

lemma raw_local_edit:
  assumes "local_edit m s = Some s'"
  shows "raw_local m s = Some s'"
  using assms
  by (cases "mod_k m"; cases s)
    (auto simp: raw_local_def local_edit_def raw_insert_local raw_remove_local raw_split_local raw_join_local
      raw_insert_node_local raw_remove_node_local raw_assign_def raw_assign_node_def raw_set_cursor_def
      raw_set_metadata_def label_of_mod_def split: bind_splits if_splits)

lemma at_path_div:
  assumes "mod_p m = root m @ q"
  shows "mod_div_path m (root m) = Some (m\<lparr>mod_p := q\<rparr>)"
proof -
  have "path_div (mod_p m) (root m) = Some q"
    using assms by simp
  then have "mod_div_path m (root m) = Some (modification3 (mod_k m) q (mod_t m))"
    unfolding mod_div_path_def by (simp only: bind.bind_lunit)
  then show ?thesis
    by (cases m) (simp add: modification3_def)
qed

lemma raw_apply_local:
  assumes ok: "is_applicable t m = Some True" and prep: "prepare_modification ids t m = Some m"
  shows "raw_apply ids t m = at_path (root m) (raw_local m) t"
proof -
  note args = applicable_args [OF ok]
  note defs = raw_apply_def ok prep raw_local_def [abs_def] Let_def
  have pay: "has_node_headers (m\<lparr>mod_p := q\<rparr>) = has_node_headers m"
    "single_node_header (m\<lparr>mod_p := q\<rparr>) = single_node_header m"
    "restores_child_header (m\<lparr>mod_p := q\<rparr>) = restores_child_header m"
    "inserted_node_template (m\<lparr>mod_p := q\<rparr>) = inserted_node_template m"
    "mod_t (m\<lparr>mod_p := q\<rparr>) = mod_t m" for q
    unfolding has_node_headers_def single_node_header_def restores_child_header_def inserted_node_template_def
    by (simp_all del: is_func_TUPLE is_func_UNINIT)
  have arg: "mod_k m \<in> {MOD_JOIN, MOD_REMOVE_NODE} \<Longrightarrow> index (m\<lparr>mod_p := [i]\<rparr>) = Some i"
    "mod_k m = MOD_INSERT_NODE \<Longrightarrow> argument (m\<lparr>mod_p := [i]\<rparr>) = Some i" for i
    by (auto simp: index_def argument_def)
  show ?thesis
  proof (cases "mod_k m")
    case MOD_JOIN
    with args obtain i where i: "index m = Some i" by auto
    with MOD_JOIN at_path_div [of m "[i]"] path_one_arg [of m i] show ?thesis
      by (simp add: defs) (simp only: raw_join_def [abs_def] pay arg bind.bind_lunit insert_iff refl simp_thms)
  next
    case MOD_REMOVE_NODE
    with args obtain i where i: "index m = Some i" by auto
    with MOD_REMOVE_NODE at_path_div [of m "[i]"] path_one_arg [of m i] show ?thesis
      by (simp add: defs) (simp only: raw_remove_node_def [abs_def] pay arg bind.bind_lunit insert_iff refl simp_thms)
  next
    case MOD_INSERT_NODE
    with args obtain i where i: "argument m = Some i" by auto
    with MOD_INSERT_NODE at_path_div [of m "[i]"] path_insert_node [of m i] show ?thesis
      by (simp add: defs) (simp only: raw_insert_node_def [abs_def] pay arg bind.bind_lunit insert_iff refl simp_thms)
  qed (use args in \<open>auto simp: defs label_of_mod_def\<close>)
qed

lemma raw_apply_effect:
  assumes "effect m t = Some t'"
  shows "raw_apply ids t m = Some t'"
proof -
  have ok: "is_applicable t m = Some True" and prep: "prepare_modification ids t m = Some m"
    using assms effect_eq [of m t ids] by (auto simp: ready_def split: if_splits)
  from assms obtain s s' where s: "subtree t (root m) = Some s" "local_edit m s = Some s'"
    using at_path_eq unfolding effect_def by blast
  have "raw_apply ids t m = at_path (root m) (raw_local m) t"
    using ok prep by (rule raw_apply_local)
  also have "\<dots> = at_path (root m) (local_edit m) t"
    by (rule at_path_cong) (use s raw_local_edit [OF s(2)] in simp)
  finally show ?thesis
    using assms by (simp add: effect_def)
qed



section \<open>The queue of modifications\<close>

text \<open>
  \<open>apply\<close> with the variables \<open>is_busy\<close>, \<open>busy_paths\<close> and \<open>upcoming\<close>: while a modification
  of the document is applied, an observer may ask for further ones. These are queued, unless
  their node lies below one that is already being modified, and are applied in their order
  when the first one is done. What the observers ask for when the document \<open>t\<close> has been
  modified by \<open>m\<close> is the parameter \<open>react t m\<close>; the loop is bounded by a fuel argument.
\<close>

definition busy_path :: "path list \<Rightarrow> path \<Rightarrow> bool" where
  "busy_path busy p \<longleftrightarrow> list_ex (\<lambda>b. list_leq b p) busy"

record busy_state =
  busy_paths :: "path list"
  upcoming :: "modification list"

definition postpone :: "busy_state \<Rightarrow> modification \<Rightarrow> busy_state" where
  "postpone st m =
     (if busy_path (busy_paths st) (root m) then st
      else st\<lparr>busy_paths := busy_paths st @ [root m], upcoming := upcoming st @ [m]\<rparr>)"

fun apply_loop ::
  "nat \<Rightarrow> (nat \<Rightarrow> nat \<Rightarrow> string) \<Rightarrow> (tree \<Rightarrow> modification \<Rightarrow> modification list) \<Rightarrow> tree \<Rightarrow> busy_state \<Rightarrow>
    (tree \<times> busy_state) option"
where
  "apply_loop fuel ids react t st =
     (case upcoming st of
        [] \<Rightarrow> Some (t, st\<lparr>busy_paths := []\<rparr>)
      | m # ms \<Rightarrow>
          (case fuel of
             0 \<Rightarrow> None
           | Suc fuel \<Rightarrow>
               do { t' \<leftarrow> raw_apply (ids fuel) t m;
                 let st = foldl postpone st (react t' m);
                 apply_loop fuel ids react t' (st\<lparr>upcoming := tl (upcoming st)\<rparr>) }))"

declare apply_loop.simps [simp del]

definition apply_document ::
  "nat \<Rightarrow> (nat \<Rightarrow> nat \<Rightarrow> string) \<Rightarrow> (tree \<Rightarrow> modification \<Rightarrow> modification list) \<Rightarrow> tree \<Rightarrow> modification \<Rightarrow> tree option"
where
  "apply_document fuel ids react t m =
     do { ok \<leftarrow> is_applicable t m;
       if \<not> ok then None
       else do { (t', _) \<leftarrow> apply_loop fuel ids react t \<lparr>busy_paths = [root m], upcoming = [m]\<rparr>; Some t' } }"

lemma apply_loop_quiet:
  assumes "\<And>t m. react t m = []"
  shows "apply_loop (length (upcoming st)) ids react t st = Some (t', st') \<Longrightarrow> upcoming st = [m] \<Longrightarrow>
    raw_apply (ids 0) t m = Some t'"
  by (auto simp: apply_loop.simps assms split: bind_splits)

lemma apply_document_quiet:
  assumes "\<And>t m. react t m = []"
  shows "apply_document 1 ids react t m = raw_apply (ids 0) t m"
  using assms by (auto simp: apply_document_def apply_loop.simps raw_apply_def split: bind_splits)

text \<open>
  The discipline of the queue: a waiting modification has its node in \<open>busy_paths\<close>, in the
  same order, and no node of \<open>busy_paths\<close> lies at or below an earlier one.
\<close>

definition queue_ok :: "busy_state \<Rightarrow> bool" where
  "queue_ok st \<longleftrightarrow>
     sorted_wrt (\<lambda>p q. \<not> prefix p q) (busy_paths st) \<and> suffix (map root (upcoming st)) (busy_paths st)"

lemma postpone_queue_ok: "queue_ok st \<Longrightarrow> queue_ok (postpone st m)"
  by (auto simp: queue_ok_def postpone_def busy_path_def sorted_wrt_append suffix_def list_ex_iff)

lemma foldl_postpone_queue_ok: "queue_ok st \<Longrightarrow> queue_ok (foldl postpone st ms)"
  by (induction ms arbitrary: st) (auto intro: postpone_queue_ok)

lemma postpone_upcoming: "\<exists>ms. upcoming (postpone st m) = upcoming st @ ms"
  by (auto simp: postpone_def)

lemma foldl_postpone_upcoming: "\<exists>ms. upcoming (foldl postpone st rs) = upcoming st @ ms"
proof (induction rs arbitrary: st)
  case (Cons r rs)
  from Cons.IH [of "postpone st r"] postpone_upcoming [of st r] show ?case by auto
qed simp

lemma queue_ok_tl: "queue_ok st \<Longrightarrow> queue_ok (st\<lparr>upcoming := tl (upcoming st)\<rparr>)"
  by (cases "upcoming st") (auto simp: queue_ok_def suffix_def)

text \<open>The states the loop passes through.\<close>

inductive queue_run :: "(nat \<Rightarrow> string) set \<Rightarrow> (tree \<Rightarrow> modification \<Rightarrow> modification list) \<Rightarrow>
    tree \<times> busy_state \<Rightarrow> tree \<times> busy_state \<Rightarrow> bool" for I react where
  start: "queue_run I react s s"
| step: "queue_run I react s (t, st) \<Longrightarrow> upcoming st = m # ms \<Longrightarrow> ids \<in> I \<Longrightarrow> raw_apply ids t m = Some t' \<Longrightarrow>
    st' = foldl postpone st (react t' m) \<Longrightarrow>
    queue_run I react s (t', st'\<lparr>upcoming := tl (upcoming st')\<rparr>)"

lemma queue_run_ok:
  "queue_run I react s s' \<Longrightarrow> queue_ok (snd s) \<Longrightarrow> queue_ok (snd s')"
  by (induction rule: queue_run.induct) (auto intro: queue_ok_tl foldl_postpone_queue_ok)

lemma queue_run_trans: "queue_run I react b c \<Longrightarrow> queue_run I react a b \<Longrightarrow> queue_run I react a c"
  by (induction rule: queue_run.induct) (auto intro: queue_run.step)

lemma apply_loop_run:
  "apply_loop fuel ids react t st = Some (t', st') \<Longrightarrow>
   \<exists>st''. queue_run (range ids) react (t, st) (t', st'') \<and> upcoming st'' = [] \<and> st' = st''\<lparr>busy_paths := []\<rparr>"
proof (induction fuel arbitrary: t st)
  case 0
  then show ?case
    by (auto simp: apply_loop.simps split: list.splits intro: queue_run.start)
next
  case (Suc fuel)
  show ?case
  proof (cases "upcoming st")
    case Nil
    with Suc.prems show ?thesis
      by (auto simp: apply_loop.simps intro: queue_run.start)
  next
    case (Cons m ms)
    let ?st = "\<lambda>t1. foldl postpone st (react t1 m)"
    from Cons Suc.prems obtain t1 where t1: "raw_apply (ids fuel) t m = Some t1"
      and r: "apply_loop fuel ids react t1 ((?st t1)\<lparr>upcoming := tl (upcoming (?st t1))\<rparr>) = Some (t', st')"
      by (auto simp: apply_loop.simps [of "Suc fuel"] Let_def split: bind_splits)
    have "queue_run (range ids) react (t, st) (t1, (?st t1)\<lparr>upcoming := tl (upcoming (?st t1))\<rparr>)"
      using Cons t1 by (intro queue_run.step [OF queue_run.start]) auto
    with Suc.IH [OF r] show ?thesis
      using queue_run_trans by blast
  qed
qed



end
