(* ===== verification/Athena_Edits.thy ===== *)
theory Athena_Edits
  imports Athena_Prelude
begin

text \<open>
  The interfaces between the history and the edits it records. An edit system applies edits to
  states; the history relies on two contracts. Reversible edits can be flipped into the edit
  that takes the result back; commuting edits can be exchanged with the preceding one, when
  the exchange routine accepts the pair. What follows for sequences of edits is proved here
  once; the interpretations are on modifications and on patches.
\<close>

section \<open>Edit systems\<close>

locale edit_system =
  fixes app :: "'e \<Rightarrow> 's \<Rightarrow> 's option"
begin

primrec run :: "'e list \<Rightarrow> 's \<Rightarrow> 's option" where
  "run [] s = Some s"
| "run (e # es) s = do { s' \<leftarrow> app e s; run es s' }"

lemma run_append: "run (es @ fs) s = do { s' \<leftarrow> run es s; run fs s' }"
  by (induction es arbitrary: s) auto

lemma run_append_Some: "run (es @ fs) s = Some u \<longleftrightarrow> (\<exists>s'. run es s = Some s' \<and> run fs s' = Some u)"
  by (auto simp: run_append split: bind_splits)

lemma run_Cons_Some: "run (e # es) s = Some u \<longleftrightarrow> (\<exists>s'. app e s = Some s' \<and> run es s' = Some u)"
  by (auto split: bind_splits)

lemma run_single: "run [e] s = app e s"
  by (auto split: option.splits)

end

section \<open>Reversible edits\<close>

locale reversible_edits = edit_system app for app :: "'e \<Rightarrow> 's \<Rightarrow> 's option" +
  fixes flip :: "'e \<Rightarrow> 'e"
  assumes flip_app: "app e s = Some s' \<Longrightarrow> app (flip e) s' = Some s"
begin

lemma run_undo: "run es s = Some s' \<Longrightarrow> run (rev (map flip es)) s' = Some s"
proof (induction es arbitrary: s)
  case (Cons e es)
  then obtain u where "app e s = Some u" "run es u = Some s'"
    by (auto simp: run_Cons_Some simp del: run.simps)
  with Cons.IH show ?case
    by (auto simp: run_append dest: flip_app)
qed simp

lemma run_cancel:
  assumes "run (es @ e # flip e # fs) s = Some u"
  shows "run (es @ fs) s = Some u"
proof -
  obtain a b c where "run es s = Some a" "app e a = Some b" "app (flip e) b = Some c" "run fs c = Some u"
    using assms by (auto simp: run_append_Some run_Cons_Some simp del: run.simps)
  moreover have "c = a"
    using \<open>app e a = Some b\<close> \<open>app (flip e) b = Some c\<close> by (simp add: flip_app)
  ultimately show ?thesis by (simp add: run_append)
qed

end

section \<open>Commuting edits\<close>

locale commuting_edits = edit_system app for app :: "'e \<Rightarrow> 's \<Rightarrow> 's option" +
  fixes exchange :: "'e \<Rightarrow> 'e \<Rightarrow> ('e \<times> 'e) option" and ok :: "'e \<Rightarrow> bool"
  assumes exchange_run: "ok a \<Longrightarrow> ok b \<Longrightarrow> exchange a b = Some (b', a') \<Longrightarrow> run [a, b] s = Some u \<Longrightarrow>
      run [b', a'] s = Some u"
    and exchange_ok: "ok a \<Longrightarrow> ok b \<Longrightarrow> exchange a b = Some (b', a') \<Longrightarrow> ok b' \<and> ok a'"
begin

text \<open>Moving an edit in front of a sequence, and a sequence in front of an edit.\<close>

fun pull_front :: "'e list \<Rightarrow> 'e \<Rightarrow> ('e \<times> 'e list) option" where
  "pull_front [] b = Some (b, [])"
| "pull_front (a # as) b =
     do { (b, as') \<leftarrow> pull_front as b; (b', a') \<leftarrow> exchange a b; Some (b', a' # as') }"

fun push_back :: "'e \<Rightarrow> 'e list \<Rightarrow> ('e list \<times> 'e) option" where
  "push_back a [] = Some ([], a)"
| "push_back a (b # bs) =
     do { (b', a) \<leftarrow> exchange a b; (bs', a') \<leftarrow> push_back a bs; Some (b' # bs', a') }"

lemma pull_front_run:
  "pull_front as b = Some (b', as') \<Longrightarrow> list_all ok as \<Longrightarrow> ok b \<Longrightarrow>
   ok b' \<and> list_all ok as' \<and> (run (as @ [b]) s = Some u \<longrightarrow> run (b' # as') s = Some u)"
proof (induction as arbitrary: b b' as' s u)
  case (Cons a as)
  then obtain c d cs where c: "pull_front as b = Some (c, cs)" "exchange a c = Some (b', d)" "as' = d # cs"
    by (auto split: bind_splits)
  have IH: "ok c \<and> list_all ok cs \<and> (run (as @ [b]) s' = Some u \<longrightarrow> run (c # cs) s' = Some u)" for s'
    using Cons.IH [OF c(1)] Cons.prems by simp
  then have ok: "ok b' \<and> ok d"
    using exchange_ok [OF _ _ c(2)] Cons.prems by simp
  have "run (b' # d # cs) s = Some u" if r: "run ((a # as) @ [b]) s = Some u"
  proof -
    obtain s' where s': "app a s = Some s'" "run (c # cs) s' = Some u"
      using r IH by (auto simp: run_append_Some run_Cons_Some simp del: run.simps)
    then obtain v where v: "run [a, c] s = Some v" "run cs v = Some u"
      by (auto simp: run_Cons_Some simp del: run.simps) (auto simp: run_single)
    have "run [b', d] s = Some v"
      using exchange_run [OF _ _ c(2) v(1)] IH Cons.prems by simp
    with v(2) have "run ([b', d] @ cs) s = Some u"
      by (simp only: run_append_Some) blast
    then show ?thesis by simp
  qed
  with IH ok c show ?case by simp
qed simp

lemma push_back_run:
  "push_back a bs = Some (bs', a') \<Longrightarrow> ok a \<Longrightarrow> list_all ok bs \<Longrightarrow>
   ok a' \<and> list_all ok bs' \<and> (run (a # bs) s = Some u \<longrightarrow> run (bs' @ [a']) s = Some u)"
proof (induction bs arbitrary: a a' bs' s u)
  case (Cons b bs)
  then obtain c d cs where c: "exchange a b = Some (c, d)" "push_back d bs = Some (cs, a')" "bs' = c # cs"
    by (auto split: bind_splits)
  have ok: "ok c \<and> ok d"
    using exchange_ok [OF _ _ c(1)] Cons.prems by simp
  have IH: "ok a' \<and> list_all ok cs \<and> (run (d # bs) s' = Some u \<longrightarrow> run (cs @ [a']) s' = Some u)" for s'
    using Cons.IH [OF c(2)] ok Cons.prems by simp
  have "run (c # cs @ [a']) s = Some u" if r: "run (a # b # bs) s = Some u"
  proof -
    obtain v where v: "run [a, b] s = Some v" "run bs v = Some u"
      using r by (auto simp: run_Cons_Some simp del: run.simps) (auto simp: run_single)
    have "run [c, d] s = Some v"
      using exchange_run [OF _ _ c(1) v(1)] Cons.prems by simp
    with v(2) obtain s' where "app c s = Some s'" "run (d # bs) s' = Some u"
      by (auto simp: run_Cons_Some simp del: run.simps) (auto simp: run_single)
    with IH show ?thesis by simp
  qed
  with IH ok c show ?case by simp
qed simp

end

end
