(* ===== verification/Athena_Patch.thy ===== *)
theory Athena_Patch
  imports Athena_Swap Athena_Observer
begin

text \<open>
  Patches: \<open>src/src/Document/History/patch.hpp\<close> and \<open>patch.cpp\<close>. A patch is a modification
  together with its inverse, a sequence, a set of alternative branches (the structure of the
  undo archive), the birth or death of an author or marker, or a patch of an author. The
  theory holds application, inversion, commutation, joining and compactification.

  The null patch has no constructor: no function below returns one. Authors, a \<open>double\<close> in
  the source that is only compared, are real numbers. The application of the leaf at position
  \<open>k\<close> of a patch draws its identities from \<open>ids k\<close>. \<open>cursor_hint\<close> asks the cursor navigation
  for a place to put the cursor and is not modelled.
\<close>

section \<open>Patches\<close>

datatype patch =
    Modification_patch modification modification
  | Compound_patch "patch list"
  | Branch_patch "patch list"
  | Birth_patch real bool
  | Author_patch real patch

text \<open>\<open>patch (p1, p2)\<close>, a sequence of two.\<close>

definition patch_pair :: "patch \<Rightarrow> patch \<Rightarrow> patch" where
  "patch_pair p1 p2 = Compound_patch [p1, p2]"

fun nr_children :: "patch \<Rightarrow> int" where
  "nr_children (Compound_patch ps) = int (length ps)"
| "nr_children p = 1"

fun patch_children :: "patch \<Rightarrow> patch list" where
  "patch_children (Compound_patch ps) = ps"
| "patch_children p = [p]"

definition patch_child :: "patch \<Rightarrow> int \<Rightarrow> patch option" where
  "patch_child p i = array_ref (patch_children p) i"

definition patch_children_range :: "patch \<Rightarrow> int \<Rightarrow> int \<Rightarrow> patch list option" where
  "patch_children_range p i j = range_of (patch_children p) i j"

fun nr_branches :: "patch \<Rightarrow> int" where
  "nr_branches (Branch_patch ps) = int (length ps)"
| "nr_branches p = 1"

fun branches :: "patch \<Rightarrow> patch list" where
  "branches (Branch_patch ps) = ps"
| "branches p = [p]"

definition branch :: "patch \<Rightarrow> int \<Rightarrow> patch option" where
  "branch p i = array_ref (branches p) i"

definition branches_range :: "patch \<Rightarrow> int \<Rightarrow> int \<Rightarrow> patch list option" where
  "branches_range p i j = range_of (branches p) i j"

fun get_author :: "patch \<Rightarrow> real" where
  "get_author (Birth_patch a b) = a"
| "get_author (Author_patch a p) = a"
| "get_author p = - 1"

text \<open>\<open>copy\<close> reconstructs a patch; modifications are values here.\<close>

fun copy_patch :: "patch \<Rightarrow> patch" where
  "copy_patch (Modification_patch m i) = Modification_patch m i"
| "copy_patch (Compound_patch ps) = Compound_patch (map copy_patch ps)"
| "copy_patch (Branch_patch ps) = Branch_patch (map copy_patch ps)"
| "copy_patch (Birth_patch a b) = Birth_patch a b"
| "copy_patch (Author_patch a p) = Author_patch a (copy_patch p)"

section \<open>Application\<close>

type_synonym id_source = "nat list \<Rightarrow> nat \<Rightarrow> string"

text \<open>
  \<open>clean_apply\<close> and \<open>apply\<close> share the walk over a patch; they differ in how a modification
  is applied, functionally or in place.
\<close>

fun run_patch :: "(nat list \<Rightarrow> modification \<Rightarrow> tree \<Rightarrow> tree option) \<Rightarrow> patch \<Rightarrow> tree \<Rightarrow> tree option"
  and run_patches :: "(nat list \<Rightarrow> modification \<Rightarrow> tree \<Rightarrow> tree option) \<Rightarrow> nat \<Rightarrow> patch list \<Rightarrow> tree \<Rightarrow> tree option"
where
  "run_patch f (Modification_patch m i) t = f [] m t"
| "run_patch f (Branch_patch ps) t = (if length ps \<le> 1 then run_patches f 0 ps t else None)"
| "run_patch f (Compound_patch ps) t = run_patches f 0 ps t"
| "run_patch f (Author_patch a p) t = run_patch (\<lambda>k. f (0 # k)) p t"
| "run_patch f (Birth_patch a b) t = Some t"
| "run_patches f n [] t = Some t"
| "run_patches f n (p # ps) t =
     do { t' \<leftarrow> run_patch (\<lambda>k. f (n # k)) p t; run_patches f (Suc n) ps t' }"

definition patch_clean_apply :: "id_source \<Rightarrow> patch \<Rightarrow> tree \<Rightarrow> tree option" where
  "patch_clean_apply ids p t = run_patch (\<lambda>k m t. clean_apply (ids k) t m) p t"

definition patch_apply :: "id_source \<Rightarrow> patch \<Rightarrow> tree \<Rightarrow> tree option" where
  "patch_apply ids p t = run_patch (\<lambda>k m t. raw_apply (ids k) t m) p t"

fun patch_is_applicable :: "id_source \<Rightarrow> patch \<Rightarrow> tree \<Rightarrow> bool option"
  and sequence_is_applicable :: "id_source \<Rightarrow> nat \<Rightarrow> patch list \<Rightarrow> tree \<Rightarrow> bool option"
  and branches_are_applicable :: "id_source \<Rightarrow> nat \<Rightarrow> patch list \<Rightarrow> tree \<Rightarrow> bool option"
where
  "patch_is_applicable ids (Modification_patch m i) t = is_applicable t m"
| "patch_is_applicable ids (Compound_patch ps) t = sequence_is_applicable ids 0 ps t"
| "patch_is_applicable ids (Branch_patch ps) t = branches_are_applicable ids 0 ps t"
| "patch_is_applicable ids (Author_patch a p) t = patch_is_applicable (\<lambda>k. ids (0 # k)) p t"
| "patch_is_applicable ids (Birth_patch a b) t = Some True"
| "sequence_is_applicable ids n [] t = Some True"
| "sequence_is_applicable ids n (p # ps) t =
     do { ok \<leftarrow> patch_is_applicable (\<lambda>k. ids (n # k)) p t;
       if \<not> ok then Some False
       else do { t' \<leftarrow> patch_clean_apply (\<lambda>k. ids (n # k)) p t; sequence_is_applicable ids (Suc n) ps t' } }"
| "branches_are_applicable ids n [] t = Some True"
| "branches_are_applicable ids n (p # ps) t =
     do { ok \<leftarrow> patch_is_applicable (\<lambda>k. ids (n # k)) p t;
       if \<not> ok then Some False else branches_are_applicable ids (Suc n) ps t }"

section \<open>Inversion\<close>

fun patch_invert :: "id_source \<Rightarrow> patch \<Rightarrow> tree \<Rightarrow> patch option"
  and patch_invert_list :: "id_source \<Rightarrow> nat \<Rightarrow> patch list \<Rightarrow> tree \<Rightarrow> patch list \<Rightarrow> patch list option"
where
  "patch_invert ids (Modification_patch m i) t = Some (Modification_patch i m)"
| "patch_invert ids (Branch_patch ps) t =
     (if length ps \<le> 1 then do { r \<leftarrow> patch_invert_list ids 0 ps t []; Some (Branch_patch r) } else None)"
| "patch_invert ids (Compound_patch ps) t =
     do { r \<leftarrow> patch_invert_list ids 0 ps t []; Some (Compound_patch r) }"
| "patch_invert ids (Birth_patch a b) t = Some (Birth_patch a (\<not> b))"
| "patch_invert ids (Author_patch a p) t =
     do { q \<leftarrow> patch_invert (\<lambda>k. ids (0 # k)) p t; Some (Author_patch a q) }"
| "patch_invert_list ids n [] t r = Some r"
| "patch_invert_list ids n (p # ps) t r =
     do { q \<leftarrow> patch_invert (\<lambda>k. ids (n # k)) p t; t' \<leftarrow> patch_clean_apply (\<lambda>k. ids (n # k)) p t;
          patch_invert_list ids (Suc n) ps t' (q # r) }"

definition possible_inverse :: "modification \<Rightarrow> modification \<Rightarrow> bool option" where
  "possible_inverse m1 m2 =
     (if root m1 \<noteq> root m2 then Some False
      else (case mod_k m1 of
          MOD_ASSIGN \<Rightarrow> Some (mod_k m2 = MOD_ASSIGN)
        | MOD_INSERT \<Rightarrow>
            (if mod_k m2 \<noteq> MOD_REMOVE then Some False
             else do { n \<leftarrow> argument m2; Some (n = insert_length (mod_t m1)) })
        | MOD_REMOVE \<Rightarrow>
            (if mod_k m2 \<noteq> MOD_INSERT then Some False
             else do { n \<leftarrow> argument m1; Some (insert_length (mod_t m2) = n) })
        | MOD_SPLIT \<Rightarrow>
            (if mod_k m2 \<noteq> MOD_JOIN then Some False
             else do { i2 \<leftarrow> index m2; i1 \<leftarrow> index m1; Some (i2 = i1) })
        | MOD_JOIN \<Rightarrow>
            (if mod_k m2 \<noteq> MOD_SPLIT then Some False
             else do { i2 \<leftarrow> index m2; i1 \<leftarrow> index m1; Some (i2 = i1) })
        | MOD_ASSIGN_NODE \<Rightarrow> Some (mod_k m2 = MOD_ASSIGN_NODE)
        | MOD_INSERT_NODE \<Rightarrow>
            (if mod_k m2 \<noteq> MOD_REMOVE_NODE then Some False
             else do { i2 \<leftarrow> index m2; a1 \<leftarrow> argument m1; Some (i2 = a1) })
        | MOD_REMOVE_NODE \<Rightarrow>
            (if mod_k m2 \<noteq> MOD_INSERT_NODE then Some False
             else do { a2 \<leftarrow> argument m2; i1 \<leftarrow> index m1; Some (a2 = i1) })
        | MOD_SET_CURSOR \<Rightarrow> Some (m1 = m2)
        | MOD_SET_METADATA \<Rightarrow> Some (mod_k m2 = MOD_SET_METADATA)))"

section \<open>Commutation\<close>

type_synonym patch_swap_result = "(bool \<times> patch \<times> patch) option"

text \<open>
  The loops of \<open>swap\<close> over a sequence: \<open>sw\<close> is the recursive call. The first exchanges the
  elements of the sequence with \<open>q\<close>, the last one first, and ends with \<open>q\<close> in front of the
  new sequence; the second exchanges \<open>q\<close> with the elements from the first one on. Both return
  the success, \<open>q\<close> as it is then, and the array.
\<close>

fun swap_sequence_left ::
  "(patch \<Rightarrow> patch \<Rightarrow> patch_swap_result) \<Rightarrow> patch list \<Rightarrow> patch \<Rightarrow> (bool \<times> patch \<times> patch list) option" where
  "swap_sequence_left sw [] q = Some (True, q, [])"
| "swap_sequence_left sw (p # ps) q =
     do { (ok, q, ps') \<leftarrow> swap_sequence_left sw ps q;
       if \<not> ok then Some (False, q, p # ps')
       else do { (ok, r1, r2) \<leftarrow> sw p q;
         if \<not> ok then Some (False, r2, r1 # ps')
         else Some (True, r1, r2 # ps') } }"

fun swap_sequence_right ::
  "(patch \<Rightarrow> patch \<Rightarrow> patch_swap_result) \<Rightarrow> patch \<Rightarrow> patch list \<Rightarrow> (bool \<times> patch \<times> patch list) option" where
  "swap_sequence_right sw q [] = Some (True, q, [])"
| "swap_sequence_right sw q (p # ps) =
     do { (ok, r1, r2) \<leftarrow> sw q p;
       if \<not> ok then Some (False, r1, r2 # ps)
       else do { (ok, q', ps') \<leftarrow> swap_sequence_right sw r2 ps; Some (ok, q', r1 # ps') } }"

definition swap_modifications ::
  "modification \<Rightarrow> modification \<Rightarrow> modification \<Rightarrow> modification \<Rightarrow> patch_swap_result" where
  "swap_modifications m1 i1 m2 i2 =
     do { (r, m1, m2) \<leftarrow> swap m1 m2; (v, i2, i1) \<leftarrow> swap i2 i1;
       let p1 = Modification_patch m1 i1;
       let p2 = Modification_patch m2 i2;
       if \<not> (r \<and> v) then Some (False, p1, p2)
       else do { b1 \<leftarrow> possible_inverse m1 i1;
         if \<not> b1 then Some (False, p1, p2)
         else do { b2 \<leftarrow> possible_inverse m2 i2; Some (b2, p1, p2) } } }"

text \<open>The recursion of \<open>swap\<close> descends in one of the two patches; the fuel bounds its depth.\<close>

fun patch_swap_fuel :: "nat \<Rightarrow> patch \<Rightarrow> patch \<Rightarrow> real \<Rightarrow> real \<Rightarrow> patch_swap_result" where
  "patch_swap_fuel 0 p1 p2 a1 a2 = None"
| "patch_swap_fuel (Suc n) (Branch_patch ps) p2 a1 a2 = Some (False, Branch_patch ps, p2)"
| "patch_swap_fuel (Suc n) p1 (Branch_patch ps) a1 a2 = Some (False, p1, Branch_patch ps)"
| "patch_swap_fuel (Suc n) (Compound_patch ps) p2 a1 a2 =
     do { (ok, q, ps') \<leftarrow> swap_sequence_left (\<lambda>p q. patch_swap_fuel n p q a1 a2) ps p2;
       if \<not> ok then Some (False, Compound_patch ps, q) else Some (True, q, Compound_patch ps') }"
| "patch_swap_fuel (Suc n) p1 (Compound_patch ps) a1 a2 =
     do { (ok, q, ps') \<leftarrow> swap_sequence_right (\<lambda>p q. patch_swap_fuel n p q a1 a2) p1 ps;
       if \<not> ok then Some (False, q, Compound_patch ps) else Some (True, Compound_patch ps', q) }"
| "patch_swap_fuel (Suc n) (Author_patch a p) p2 a1 a2 =
     do { (ok, s, p2') \<leftarrow> patch_swap_fuel n p p2 a a2; Some (ok, s, Author_patch a p2') }"
| "patch_swap_fuel (Suc n) p1 (Author_patch a p) a1 a2 =
     do { (ok, p1', s) \<leftarrow> patch_swap_fuel n p1 p a1 a; Some (ok, Author_patch a p1', s) }"
| "patch_swap_fuel (Suc n) (Birth_patch a b) p2 a1 a2 =
     (if a = a2 then Some (False, Birth_patch a b, p2) else Some (True, p2, Birth_patch a b))"
| "patch_swap_fuel (Suc n) p1 (Birth_patch a b) a1 a2 =
     (if a = a1 then Some (False, p1, Birth_patch a b) else Some (True, Birth_patch a b, p1))"
| "patch_swap_fuel (Suc n) (Modification_patch m1 i1) (Modification_patch m2 i2) a1 a2 =
     swap_modifications m1 i1 m2 i2"

fun patch_depth :: "patch \<Rightarrow> nat" where
  "patch_depth (Modification_patch m i) = 0"
| "patch_depth (Compound_patch ps) = Suc (fold max (map patch_depth ps) 0)"
| "patch_depth (Branch_patch ps) = 0"
| "patch_depth (Birth_patch a b) = 0"
| "patch_depth (Author_patch a p) = Suc (patch_depth p)"

definition patch_swap :: "patch \<Rightarrow> patch \<Rightarrow> patch_swap_result" where
  "patch_swap p1 p2 = patch_swap_fuel (Suc (patch_depth p1 + patch_depth p2)) p1 p2 0 0"

definition patch_commute :: "patch \<Rightarrow> patch \<Rightarrow> bool option" where
  "patch_commute p1 p2 = do { (r, s1, s2) \<leftarrow> patch_swap p1 p2; Some r }"

definition patch_can_pull :: "patch \<Rightarrow> patch \<Rightarrow> bool option" where
  "patch_can_pull p1 p2 = patch_commute p2 p1"

definition patch_pull :: "patch \<Rightarrow> patch \<Rightarrow> patch option" where
  "patch_pull p1 p2 = do { (r, s1, s2) \<leftarrow> patch_swap p2 p1; if r then Some s1 else None }"

definition patch_co_pull :: "patch \<Rightarrow> patch \<Rightarrow> patch option" where
  "patch_co_pull p1 p2 = do { (r, s1, s2) \<leftarrow> patch_swap p2 p1; if r then Some s2 else None }"

section \<open>Joining and compactification\<close>

fun remove_set_cursor :: "patch \<Rightarrow> patch" where
  "remove_set_cursor (Modification_patch m i) =
     (if mod_k m \<noteq> MOD_SET_CURSOR then copy_patch (Modification_patch m i) else Compound_patch [])"
| "remove_set_cursor (Compound_patch ps) =
     (let r = concat (map (\<lambda>p. patch_children (remove_set_cursor p)) ps)
      in if length r = 1 then r ! 0 else Compound_patch r)"
| "remove_set_cursor (Branch_patch ps) = copy_patch (Branch_patch ps)"
| "remove_set_cursor (Birth_patch a b) = copy_patch (Birth_patch a b)"
| "remove_set_cursor (Author_patch a p) =
     (let q = remove_set_cursor p in if nr_children q = 0 then q else Author_patch a q)"

fun is_set_cursor :: "patch \<Rightarrow> bool" where
  "is_set_cursor (Modification_patch m i) = (mod_k m = MOD_SET_CURSOR)"
| "is_set_cursor p = False"

fun does_modify :: "patch \<Rightarrow> bool" where
  "does_modify (Modification_patch m i) = (mod_k m \<noteq> MOD_SET_CURSOR)"
| "does_modify (Compound_patch ps) = list_ex does_modify ps"
| "does_modify (Branch_patch ps) = list_ex does_modify ps"
| "does_modify (Birth_patch a b) = False"
| "does_modify (Author_patch a p) = False"

fun patch_insert :: "patch list \<Rightarrow> patch \<Rightarrow> patch list"
  and patch_insert_all :: "patch list \<Rightarrow> patch list \<Rightarrow> patch list"
where
  "patch_insert a (Compound_patch ps) = patch_insert_all a ps"
| "patch_insert a (Modification_patch m i) =
     (if a \<noteq> [] \<and> last a = Modification_patch i m then butlast a else a @ [Modification_patch m i])"
| "patch_insert a (Branch_patch ps) = a @ [Branch_patch ps]"
| "patch_insert a (Birth_patch b c) = a @ [Birth_patch b c]"
| "patch_insert a (Author_patch b p) = a @ [Author_patch b p]"
| "patch_insert_all a [] = a"
| "patch_insert_all a (p # ps) = patch_insert_all (patch_insert a p) ps"

fun common_author_step :: "real \<Rightarrow> patch \<Rightarrow> real" where
  "common_author_step a (Author_patch b p) = (if a = 0 then b else if a \<noteq> b then - 1 else a)"
| "common_author_step a p = - 1"

definition common_author :: "patch list \<Rightarrow> real" where
  "common_author ps = foldl common_author_step 0 ps"

fun author_body :: "patch \<Rightarrow> patch" where
  "author_body (Author_patch a p) = p"
| "author_body p = p"

fun compactify :: "patch \<Rightarrow> patch" where
  "compactify (Compound_patch ps) =
     (let a = common_author ps in
      if a \<le> 0 then
        (let r = patch_insert [] (Compound_patch ps)
         in if length r = 1 then r ! 0 else Compound_patch r)
      else
        (let r = patch_insert_all [] (map author_body ps)
         in if length r = 1 then Author_patch a (r ! 0) else Author_patch a (Compound_patch r)))"
| "compactify (Branch_patch ps) =
     (if length ps = 1 then ps ! 0 else Branch_patch (map compactify ps))"
| "compactify (Author_patch a p) = Author_patch a (compactify p)"
| "compactify p = p"

text \<open>
  \<open>join\<close> tries to merge the second patch into the first one. \<open>Some None\<close> is the answer
  \<open>false\<close>, \<open>Some (Some p)\<close> the answer \<open>true\<close> with the merged patch.
\<close>

definition join_modifications ::
  "id_source \<Rightarrow> modification \<Rightarrow> modification \<Rightarrow> modification \<Rightarrow> modification \<Rightarrow> tree \<Rightarrow> patch option option" where
  "join_modifications ids m1 i1 m2 i2 t =
     do { r \<leftarrow> join m1 m2 t;
       t1 \<leftarrow> clean_apply (ids [0]) t m1; t2 \<leftarrow> clean_apply (ids [1]) t1 m2;
       v \<leftarrow> join i2 i1 t2;
       Some (case r of None \<Rightarrow> None | Some m \<Rightarrow>
         (case v of None \<Rightarrow> None | Some i \<Rightarrow> Some (Modification_patch m i))) }"

definition append_patches :: "patch list \<Rightarrow> patch list \<Rightarrow> patch" where
  "append_patches a b = Compound_patch (a @ b)"

fun is_author_patch :: "patch \<Rightarrow> bool" where
  "is_author_patch (Author_patch a p) = True"
| "is_author_patch p = False"

fun is_compound_patch :: "patch \<Rightarrow> bool" where
  "is_compound_patch (Compound_patch ps) = True"
| "is_compound_patch p = False"

fun weight :: "patch \<Rightarrow> nat" where
  "weight (Compound_patch ps) = Suc (sum_list (map weight ps))"
| "weight (Author_patch a p) = Suc (weight p)"
| "weight p = 1"

lemma copy_patch_id [simp]: "copy_patch p = p"
  by (induction p rule: copy_patch.induct) (simp_all add: map_idI)

lemma weight_children: "sum_list (map weight (patch_children p)) \<le> weight p"
  by (cases p) auto

lemma weight_concat:
  "(\<And>p. p \<in> set ps \<Longrightarrow> weight (remove_set_cursor p) \<le> weight p) \<Longrightarrow>
   sum_list (map weight (concat (map (\<lambda>p. patch_children (remove_set_cursor p)) ps))) \<le> sum_list (map weight ps)"
proof (induction ps)
  case (Cons p ps)
  have "sum_list (map weight (patch_children (remove_set_cursor p))) \<le> weight p"
    using weight_children [of "remove_set_cursor p"] Cons.prems [of p] by simp
  with Cons show ?case by (auto intro: add_mono)
qed simp

lemma weight_single: "length r = 1 \<Longrightarrow> weight (r ! 0) = sum_list (map weight r)"
  by (auto simp: length_Suc_conv)

lemma weight_remove_set_cursor: "weight (remove_set_cursor p) \<le> weight p"
proof (induction p rule: remove_set_cursor.induct)
  case (2 ps)
  then show ?case
    using weight_concat [of ps] by (auto simp: Let_def weight_single)
qed (auto simp: Let_def)

lemma weight_remove_set_cursor_less:
  "is_compound_patch p \<Longrightarrow> nr_children (remove_set_cursor p) = 1 \<Longrightarrow> weight (remove_set_cursor p) < weight p"
proof (cases p)
  case (Compound_patch ps)
  assume nr: "nr_children (remove_set_cursor p) = 1"
  let ?r = "concat (map (\<lambda>p. patch_children (remove_set_cursor p)) ps)"
  have "length ?r = 1"
    using nr Compound_patch by (auto simp: Let_def split: if_splits)
  then have "weight (remove_set_cursor p) = sum_list (map weight ?r)"
    using Compound_patch weight_single by (simp add: Let_def)
  also have "\<dots> \<le> sum_list (map weight ps)"
    by (rule weight_concat) (rule weight_remove_set_cursor)
  finally show ?thesis
    using Compound_patch by simp
qed auto

lemma weight_author_body: "is_author_patch p \<Longrightarrow> weight (author_body p) < weight p"
  by (cases p) auto

function patch_join :: "id_source \<Rightarrow> patch \<Rightarrow> patch \<Rightarrow> tree \<Rightarrow> patch option option" where
  "patch_join ids p1 p2 t =
     (if is_author_patch p1 \<and> is_author_patch p2 \<and> get_author p1 = get_author p2 then
        do { r \<leftarrow> patch_join ids (author_body p1) (author_body p2) t;
             Some (map_option (Author_patch (get_author p1)) r) }
      else (case (p1, p2) of
        (Modification_patch m1 i1, Modification_patch m2 i2) \<Rightarrow> join_modifications ids m1 i1 m2 i2 t
      | _ \<Rightarrow>
        if is_compound_patch p1 \<and> nr_children p1 > 0 \<and> nr_children (remove_set_cursor p1) = 1 then
          do { r \<leftarrow> patch_join ids (remove_set_cursor p1) p2 t;
            case r of None \<Rightarrow> Some None
            | Some p1b \<Rightarrow>
                do { c \<leftarrow> patch_child p1 0;
                  if nr_children p1 \<ge> 2 \<and> is_set_cursor c
                  then Some (Some (append_patches [c] (patch_children p1b)))
                  else Some (Some p1b) } }
        else if is_compound_patch p2 \<and> nr_children p2 > 0 \<and> nr_children (remove_set_cursor p2) = 1 then
          do { r \<leftarrow> patch_join ids p1 (remove_set_cursor p2) t;
            case r of None \<Rightarrow> Some None
            | Some p \<Rightarrow>
                do { c \<leftarrow> patch_child p2 (nr_children p2 - 1);
                  if nr_children p2 \<ge> 2 \<and> is_set_cursor c
                  then Some (Some (append_patches (patch_children p) [c]))
                  else Some (Some p) } }
        else Some None))"
  by pat_completeness auto
termination
  by (relation "measure (\<lambda>(ids, p1, p2, t). weight p1 + weight p2)")
    (auto simp: add_less_mono weight_author_body weight_remove_set_cursor_less)

declare patch_join.simps [simp del]

end
