(* ===== verification/Athena_Patch_Commute.thy ===== *)
theory Athena_Patch_Commute
  imports Athena_Edits Athena_Patch
begin

text \<open>
  Commutation of patches keeps the document: two consecutive patches that \<open>swap\<close> exchanges can
  be applied in the new order with the same result. The exchange of single modifications and
  the exchange of patches, at every depth of the recursion, are instances of the interface of
  commuting edits, which carries the loops over sequences.
\<close>

section \<open>Effect of a patch\<close>

definition patch_effect :: "patch \<Rightarrow> tree \<Rightarrow> tree option" where
  "patch_effect p t = run_patch (\<lambda>_ m t. effect m t) p t"

interpretation pe: edit_system patch_effect .

lemma run_patches_effect: "run_patches (\<lambda>_. effect) n ps = pe.run ps"
proof (induction ps arbitrary: n)
  case (Cons p ps)
  have "run_patch (\<lambda>_. effect) p t = patch_effect p t" for t
    by (simp add: patch_effect_def)
  then show ?case
    by (intro ext) (simp add: Cons.IH)
qed (simp add: fun_eq_iff)

lemma patch_effect_simps [simp, effect_simps]:
  "patch_effect (Modification_patch m i) t = effect m t"
  "patch_effect (Compound_patch ps) t = pe.run ps t"
  "patch_effect (Author_patch a p) t = patch_effect p t"
  "patch_effect (Birth_patch a b) t = Some t"
  "patch_effect (Branch_patch ps) t = (if length ps \<le> 1 then pe.run ps t else None)"
  by (simp_all add: patch_effect_def run_patches_effect)

section \<open>Single modifications\<close>

definition sound_leaf :: "modification \<times> modification \<Rightarrow> bool" where
  "sound_leaf e \<longleftrightarrow> possible_inverse (fst e) (snd e) = Some True"

definition leaf_effect :: "modification \<times> modification \<Rightarrow> tree \<Rightarrow> tree option" where
  "leaf_effect e t = effect (fst e) t"

definition leaf_exchange ::
  "modification \<times> modification \<Rightarrow> modification \<times> modification \<Rightarrow>
    ((modification \<times> modification) \<times> (modification \<times> modification)) option" where
  "leaf_exchange e1 e2 =
     (case swap_modifications (fst e1) (snd e1) (fst e2) (snd e2) of
        Some (True, Modification_patch m1 i1, Modification_patch m2 i2) \<Rightarrow> Some ((m1, i1), (m2, i2))
      | _ \<Rightarrow> None)"

lemma swap_modifications_Some:
  "swap_modifications m1 i1 m2 i2 = Some (True, q1, q2) \<longleftrightarrow>
     (\<exists>n1 n2 j1 j2. swap m1 m2 = Some (True, n1, n2) \<and> swap i2 i1 = Some (True, j2, j1) \<and>
        q1 = Modification_patch n1 j1 \<and> q2 = Modification_patch n2 j2 \<and>
        sound_leaf (n1, j1) \<and> sound_leaf (n2, j2))"
  by (auto simp: swap_modifications_def sound_leaf_def Let_def split: bind_splits if_splits)

lemma sound_leaf_root: "sound_leaf (m, i) \<Longrightarrow> root m = root i"
  by (simp add: sound_leaf_def possible_inverse_def split: if_splits)

lemma sound_insert_node:
  assumes "sound_leaf (m, i)" "mod_k m = MOD_INSERT_NODE"
  shows "mod_k i = MOD_REMOVE_NODE" "root i = root m" "index i = argument m" "wf_mod i" "wf_mod m"
proof -
  show 1: "mod_k i = MOD_REMOVE_NODE" "root i = root m" "index i = argument m"
    using assms by (auto simp: sound_leaf_def possible_inverse_def split: if_splits bind_splits)
  have "argument m \<noteq> None"
    using assms 1 by (auto simp: sound_leaf_def possible_inverse_def split: if_splits bind_splits)
  then have "mod_p m \<noteq> []" "mod_p i \<noteq> []"
    using assms(2) 1 by (auto simp: index_def argument_def split: if_splits)
  then show "wf_mod m" "wf_mod i"
    using assms(2) 1 by (auto simp: wf_mod_def arity_def Suc_le_eq)
qed

text \<open>
  The pair that \<open>swap\<close> exchanges wrongly is rejected: the inverses of the two new
  modifications then address different nodes.
\<close>

lemma nested_insert_rejected:
  assumes "nested_insert m1 m2" "sound_leaf (m1, i1)" "sound_leaf (m2, i2)"
    and "swap m1 m2 = Some (True, n1, n2)" "swap i2 i1 = Some (True, j2, j1)"
  shows "wf_mod n2 \<and> wf_mod j2 \<and> root n2 \<noteq> root j2"
  using assms
proof (induction "length (root m1)" arbitrary: m1 m2 i1 i2 n1 n2 j1 j2 rule: less_induct)
  case less
  have k: "mod_k m1 = MOD_INSERT_NODE" "mod_k m2 = MOD_INSERT_NODE"
    using less.prems(1) by (auto simp: nested_insert_def)
  obtain a where a: "argument m1 = Some a" "root m2 = root m1 @ [a]"
    using less.prems(1) by (auto simp: nested_insert_def split: option.splits)
  note s1 = sound_insert_node [OF less.prems(2) k(1)] and s2 = sound_insert_node [OF less.prems(3) k(2)]
  have g: "\<not> restores_child_header m1" "\<not> restores_child_header m2"
      "\<not> restores_child_header i1" "\<not> restores_child_header i2"
    using less.prems(4, 5) a s1(2) s2(2)
    by (auto simp: swap.simps [of m1 m2] swap.simps [of i2 i1] split: if_splits)
  show ?case
  proof (cases "root m1 = []")
    case True
    obtain b where p1: "mod_p m1 = [b]"
      using single_path [OF s1(5) True] k by (auto simp: arity_def)
    with a k have ba: "b = a" by (simp add: argument_def)
    obtain m' where m': "m2 = cons_mod a m'" "wf_mod m'" "root m' = []"
      using deeper_mod [OF s2(5)] a True by (metis append_Nil list.inject not_Cons_self2)
    obtain c where c: "mod_p m' = [c]"
      using single_path [OF m'(2, 3)] m'(1) k(2) by (auto simp: arity_def)
    have "swap_first_at_root m1 m2 = Some (True, n1, n2)"
      using less.prems(4) g True k by (simp add: swap.simps [of m1 m2])
    then have "n2 = modification3 MOD_INSERT_NODE [c, a] (mod_t m1)"
      using k m' c p1 ba by (simp add: swap_first_at_root_def Let_def modification3_def root_def)
    then have 1: "root n2 = [c]" "wf_mod n2"
      by (simp_all add: modification3_def root_def wf_mod_def arity_def)
    have "j2 = i1"
      using less.prems(5) g True s1 s2 a
      by (auto simp: swap.simps [of i2 i1] swap_second_at_root_def split: if_splits bind_splits)
    with 1 s1(2, 4) True show ?thesis by simp
  next
    case False
    obtain i x1 x2 where m: "m1 = cons_mod i x1" "m2 = cons_mod i x2" "wf_mod x1" "wf_mod x2"
      and sm: "swap m1 m2 = do { (r, s1, s2) \<leftarrow> swap x1 x2; Some (r, cons_mod i s1, cons_mod i s2) }"
      by (rule swap_cons [OF s1(5) s2(5)]) (use False a k g in \<open>auto simp: hd_append\<close>)
    obtain i' y2 y1 where im: "i2 = cons_mod i' y2" "i1 = cons_mod i' y1" "wf_mod y2" "wf_mod y1"
      and si: "swap i2 i1 = do { (r, s1, s2) \<leftarrow> swap y2 y1; Some (r, cons_mod i' s1, cons_mod i' s2) }"
      by (rule swap_cons [OF s2(4) s1(4)]) (use False a k g s1 s2 in \<open>auto simp: hd_append\<close>)
    have ii: "i' = i"
      using s1(2) m im by simp
    from sm less.prems(4) obtain z1 z2 where z: "swap x1 x2 = Some (True, z1, z2)" "n2 = cons_mod i z2"
      by (auto split: bind_splits)
    from si less.prems(5) obtain w1 w2 where w: "swap y2 y1 = Some (True, w2, w1)" "j2 = cons_mod i w2"
      unfolding ii by (auto split: bind_splits)
    have sl: "sound_leaf (x1, y1)" "sound_leaf (x2, y2)"
      using less.prems(2, 3) m im ii k s1 s2 by (auto simp: sound_leaf_def possible_inverse_def)
    have "wf_mod z2 \<and> wf_mod w2 \<and> root z2 \<noteq> root w2"
      by (rule less.hyps [OF _ _ sl z(1) w(1)]) (use m less.prems(1) in \<open>simp_all add: nested_insert_cons\<close>)
    with z w show ?thesis by simp
  qed
qed

lemma leaf_exchange_Some:
  "leaf_exchange (m1, i1) (m2, i2) = Some ((n1, j1), (n2, j2)) \<Longrightarrow>
   swap m1 m2 = Some (True, n1, n2) \<and> swap i2 i1 = Some (True, j2, j1) \<and>
   sound_leaf (n1, j1) \<and> sound_leaf (n2, j2)"
proof -
  assume "leaf_exchange (m1, i1) (m2, i2) = Some ((n1, j1), (n2, j2))"
  then have "swap_modifications m1 i1 m2 i2 = Some (True, Modification_patch n1 j1, Modification_patch n2 j2)"
    unfolding leaf_exchange_def
    by (cases "swap_modifications m1 i1 m2 i2") (auto split: prod.splits bool.splits patch.splits)
  then show ?thesis
    unfolding swap_modifications_Some by blast
qed

interpretation leaf: commuting_edits leaf_effect leaf_exchange sound_leaf
proof
  fix a b a' b' :: "modification \<times> modification" and s u
  assume ok: "sound_leaf a" "sound_leaf b" and ex: "leaf_exchange a b = Some (b', a')"
    and r: "edit_system.run leaf_effect [a, b] s = Some u"
  obtain m1 i1 m2 i2 n1 j1 n2 j2 where ab: "a = (m1, i1)" "b = (m2, i2)" "b' = (n1, j1)" "a' = (n2, j2)"
    by (cases a; cases b; cases a'; cases b') auto
  note sw = leaf_exchange_Some [OF ex [unfolded ab]]
  have "\<not> nested_insert m1 m2"
  proof
    assume "nested_insert m1 m2"
    then have "root n2 \<noteq> root j2"
      using nested_insert_rejected ok [unfolded ab] sw by blast
    with sw show False using sound_leaf_root by blast
  qed
  moreover have "seq2 m1 m2 s = Some u"
    using r ab by (auto simp: edit_system.run.simps leaf_effect_def seq2_def split: bind_splits)
  ultimately have "seq2 n1 n2 s = Some u"
    using swap_effect sw by blast
  then show "edit_system.run leaf_effect [b', a'] s = Some u"
    using ab by (auto simp: edit_system.run.simps leaf_effect_def seq2_def split: bind_splits)
next
  fix a b a' b' :: "modification \<times> modification"
  assume ex: "leaf_exchange a b = Some (b', a')"
  obtain m1 i1 m2 i2 n1 j1 n2 j2 where ab: "a = (m1, i1)" "b = (m2, i2)" "b' = (n1, j1)" "a' = (n2, j2)"
    by (cases a; cases b; cases a'; cases b') auto
  show "sound_leaf b' \<and> sound_leaf a'"
    using leaf_exchange_Some [OF ex [unfolded ab]] unfolding ab by blast
qed

section \<open>Patches\<close>

fun sound_patch :: "patch \<Rightarrow> bool" where
  "sound_patch (Modification_patch m i) = sound_leaf (m, i)"
| "sound_patch (Compound_patch ps) = list_all sound_patch ps"
| "sound_patch (Branch_patch ps) = list_all sound_patch ps"
| "sound_patch (Birth_patch a b) = True"
| "sound_patch (Author_patch a p) = sound_patch p"

definition exchange_of :: "(patch \<Rightarrow> patch \<Rightarrow> patch_swap_result) \<Rightarrow> patch \<Rightarrow> patch \<Rightarrow> (patch \<times> patch) option" where
  "exchange_of sw p q = (case sw p q of Some (True, r1, r2) \<Rightarrow> Some (r1, r2) | _ \<Rightarrow> None)"

lemma exchange_of_Some [simp]: "exchange_of sw p q = Some (r1, r2) \<longleftrightarrow> sw p q = Some (True, r1, r2)"
  by (auto simp: exchange_of_def split: option.splits bool.splits)

lemma exchange_ofI: "sw p q = Some (True, r1, r2) \<Longrightarrow> exchange_of sw p q = Some (r1, r2)"
  by simp

lemma swap_sequence_left_pull:
  assumes c: "commuting_edits patch_effect (exchange_of sw) sound_patch"
  shows "swap_sequence_left sw ps q = Some (True, q', ps') \<Longrightarrow>
    commuting_edits.pull_front (exchange_of sw) ps q = Some (q', ps')"
proof (induction ps arbitrary: q' ps')
  case (Cons p ps)
  then obtain r rs r' where "swap_sequence_left sw ps q = Some (True, r, rs)" "sw p r = Some (True, q', r')"
    "ps' = r' # rs"
    by (auto split: bind_splits if_splits)
  with Cons.IH show ?case
    by (simp add: commuting_edits.pull_front.simps [OF c] exchange_ofI)
qed (simp add: commuting_edits.pull_front.simps [OF c])

lemma swap_sequence_right_push:
  assumes c: "commuting_edits patch_effect (exchange_of sw) sound_patch"
  shows "swap_sequence_right sw q ps = Some (True, q', ps') \<Longrightarrow>
    commuting_edits.push_back (exchange_of sw) q ps = Some (ps', q')"
proof (induction ps arbitrary: q ps')
  case (Cons p ps)
  then obtain r r' rs where "sw q p = Some (True, r, r')" "swap_sequence_right sw r' ps = Some (True, q', rs)"
    "ps' = r # rs"
    by (auto split: bind_splits if_splits)
  with Cons.IH show ?case
    by (simp add: commuting_edits.push_back.simps [OF c] exchange_ofI)
qed (simp add: commuting_edits.push_back.simps [OF c])

text \<open>What an exchange must do, on single patches.\<close>

definition exchanges :: "patch \<Rightarrow> patch \<Rightarrow> patch \<Rightarrow> patch \<Rightarrow> bool" where
  "exchanges p1 p2 q1 q2 \<longleftrightarrow> sound_patch q1 \<and> sound_patch q2 \<and>
     (\<forall>s u. pe.run [p1, p2] s = Some u \<longrightarrow> pe.run [q1, q2] s = Some u)"

lemma exchanges_commuting:
  assumes "\<And>p1 p2 q1 q2. sw p1 p2 = Some (True, q1, q2) \<Longrightarrow> sound_patch p1 \<Longrightarrow> sound_patch p2 \<Longrightarrow>
    exchanges p1 p2 q1 q2"
  shows "commuting_edits patch_effect (exchange_of sw) sound_patch"
  by unfold_locales
    (use assms in \<open>unfold exchange_of_Some exchanges_def, blast+\<close>)

lemma exchanges_left:
  assumes c: "commuting_edits patch_effect (exchange_of sw) sound_patch"
    and "swap_sequence_left sw ps q = Some (True, q', ps')" "sound_patch (Compound_patch ps)" "sound_patch q"
  shows "exchanges (Compound_patch ps) q q' (Compound_patch ps')"
proof -
  have "sound_patch q' \<and> list_all sound_patch ps' \<and> (pe.run (ps @ [q]) s = Some u \<longrightarrow> pe.run (q' # ps') s = Some u)" for s u
    using commuting_edits.pull_front_run [OF c swap_sequence_left_pull [OF c assms(2)]] assms(3, 4) by simp
  then show ?thesis
    by (auto simp: exchanges_def pe.run_append split: bind_splits)
qed

lemma exchanges_right:
  assumes c: "commuting_edits patch_effect (exchange_of sw) sound_patch"
    and "swap_sequence_right sw q ps = Some (True, q', ps')" "sound_patch (Compound_patch ps)" "sound_patch q"
  shows "exchanges q (Compound_patch ps) (Compound_patch ps') q'"
proof -
  have "sound_patch q' \<and> list_all sound_patch ps' \<and> (pe.run (q # ps) s = Some u \<longrightarrow> pe.run (ps' @ [q']) s = Some u)" for s u
    using commuting_edits.push_back_run [OF c swap_sequence_right_push [OF c assms(2)]] assms(3, 4) by simp
  then show ?thesis
    by (auto simp: exchanges_def pe.run_append split: bind_splits)
qed

lemma exchanges_leaf:
  assumes "swap_modifications m1 i1 m2 i2 = Some (True, q1, q2)"
    "sound_leaf (m1, i1)" "sound_leaf (m2, i2)"
  shows "exchanges (Modification_patch m1 i1) (Modification_patch m2 i2) q1 q2"
proof -
  obtain n1 j1 n2 j2 where q: "q1 = Modification_patch n1 j1" "q2 = Modification_patch n2 j2"
    using assms(1) by (auto simp: swap_modifications_Some)
  have e: "leaf_exchange (m1, i1) (m2, i2) = Some ((n1, j1), (n2, j2))"
    using assms(1) q by (simp add: leaf_exchange_def)
  show ?thesis
    using leaf.exchange_run [OF assms(2, 3) e] leaf.exchange_ok [OF assms(2, 3) e] q
    by (simp add: exchanges_def leaf_effect_def)
qed

lemma exchanges_author_first:
  "exchanges p p2 q1 q2 \<Longrightarrow> exchanges (Author_patch a p) p2 q1 (Author_patch a q2)"
  by (simp add: exchanges_def)

lemma exchanges_author_second:
  "exchanges p1 p q1 q2 \<Longrightarrow> exchanges p1 (Author_patch a p) (Author_patch a q1) q2"
  by (simp add: exchanges_def)

lemma patch_swap_exchanges:
  "patch_swap_fuel n p1 p2 a1 a2 = Some (True, q1, q2) \<Longrightarrow> sound_patch p1 \<Longrightarrow> sound_patch p2 \<Longrightarrow>
   exchanges p1 p2 q1 q2"
proof (induction n arbitrary: p1 p2 a1 a2 q1 q2)
  case (Suc n)
  have c: "commuting_edits patch_effect (exchange_of (\<lambda>p q. patch_swap_fuel n p q a1 a2)) sound_patch" for a1 a2
    by (rule exchanges_commuting) (rule Suc.IH)
  note sw = \<open>patch_swap_fuel (Suc n) p1 p2 a1 a2 = Some (True, q1, q2)\<close>
  show ?case
  proof (cases p1)
    case p1: (Compound_patch ps)
    show ?thesis
    proof (cases p2)
      case (Branch_patch bs)
      with sw p1 show ?thesis by simp
    qed (use sw p1 exchanges_left [OF c [of a1 a2]] Suc.prems(2, 3) in \<open>auto split: bind_splits if_splits\<close>)
  next
    case p1: (Author_patch a p)
    show ?thesis
    proof (cases p2)
      case (Compound_patch ps)
      with sw p1 exchanges_right [OF c [of a1 a2]] Suc.prems(2, 3) show ?thesis
        by (auto split: bind_splits if_splits)
    qed (use sw p1 Suc.prems(2, 3) in \<open>auto split: bind_splits intro!: exchanges_author_first Suc.IH\<close>)
  next
    case p1: (Birth_patch a b)
    show ?thesis
    proof (cases p2)
      case (Compound_patch ps)
      with sw p1 exchanges_right [OF c [of a1 a2]] Suc.prems(2, 3) show ?thesis
        by (auto split: bind_splits if_splits)
    next
      case (Author_patch c p)
      then show ?thesis
        using sw p1 Suc.prems(3) by (auto split: bind_splits intro!: exchanges_author_second Suc.IH)
    qed (use sw p1 Suc.prems(3) in \<open>auto simp: exchanges_def split: if_splits bind_splits\<close>)
  next
    case p1: (Modification_patch m1 i1)
    show ?thesis
    proof (cases p2)
      case (Compound_patch ps)
      with sw p1 exchanges_right [OF c [of a1 a2]] Suc.prems(2, 3) show ?thesis
        by (auto split: bind_splits if_splits)
    next
      case (Author_patch c p)
      then show ?thesis
        using sw p1 Suc.prems(2, 3) by (auto split: bind_splits intro!: exchanges_author_second Suc.IH)
    next
      case (Modification_patch m2 i2)
      then show ?thesis
        using sw p1 Suc.prems(2, 3) exchanges_leaf by simp
    qed (use sw p1 Suc.prems(2) in \<open>auto simp: exchanges_def split: if_splits bind_splits\<close>)
  qed (use sw in simp)
qed simp

section \<open>The exchange returns\<close>

lemma add_item_wf [simp]: "wf_mod (add_item m d) = wf_mod m"
  by (cases "mod_p m") (auto simp: add_item_def wf_mod_def)

lemma swap1_wf:
  assumes "swap1 m1 m2 i d = Some (b, n1, n2)" "wf_mod m1" "wf_mod m2"
  shows "wf_mod n1 \<and> wf_mod n2"
  using assms
  by (cases "mod_k m2") (auto simp: swap1_def Let_def split: bind_splits if_splits)

lemma swap2_wf:
  assumes "swap2 m1 m2 i d = Some (b, n1, n2)" "wf_mod m1" "wf_mod m2"
  shows "wf_mod n1 \<and> wf_mod n2"
  using assms by (auto simp: swap2_def split: bind_splits if_splits)

lemma unwrap_wf:
  assumes "wf_mod m" "root m \<noteq> []" "next_of (mod_p m) = Some q"
  shows "wf_mod (modification3 (mod_k m) q (mod_t m))"
proof -
  have "arity (mod_k m) < length (mod_p m)"
    using assms(2) root_length [of m] by (metis length_greater_0_conv zero_less_diff)
  moreover have "q = tl (mod_p m)"
    using assms(3) by (simp add: next_of_def split: list.splits if_splits)
  ultimately show ?thesis
    by (cases "mod_p m") (auto simp: wf_mod_def modification3_def)
qed

lemma swap_first_wf:
  assumes "swap_first_at_root m1 m2 = Some (b, n1, n2)" "wf_mod m1" "wf_mod m2"
  shows "wf_mod n1 \<and> wf_mod n2"
  using assms unwrap_wf [OF assms(3)]
  by (cases "mod_k m1")
    (auto simp: swap_first_at_root_def swap_basic_def Let_def modification3_cons_kind
      split: bind_splits if_splits dest: swap1_wf)

lemma swap_second_wf:
  assumes "swap_second_at_root m1 m2 = Some (b, n1, n2)" "wf_mod m1" "wf_mod m2" "root m1 \<noteq> []"
  shows "wf_mod n1 \<and> wf_mod n2"
  using assms unwrap_wf [OF assms(2, 4)]
  by (cases "mod_k m2")
    (auto simp: swap_second_at_root_def swap_basic_def Let_def split: bind_splits if_splits dest: swap2_wf)

lemma swap_wf:
  "swap m1 m2 = Some (b, n1, n2) \<Longrightarrow> wf_mod m1 \<Longrightarrow> wf_mod m2 \<Longrightarrow> wf_mod n1 \<and> wf_mod n2"
proof (induction "length (mod_p m1)" arbitrary: m1 m2 n1 n2 rule: less_induct)
  case less
  let ?g = "mod_k m1 = MOD_SET_METADATA \<or> mod_k m2 = MOD_SET_METADATA \<or>
    restores_child_header m1 \<or> restores_child_header m2"
  show ?case
  proof (cases "\<not> ?g \<and> root m1 \<noteq> [] \<and> root m2 \<noteq> [] \<and> hd (root m1) = hd (root m2)")
    case True
    then obtain i k1 k2 where m: "m1 = cons_mod i k1" "m2 = cons_mod i k2" "wf_mod k1" "wf_mod k2"
      and s: "swap m1 m2 = do { (r, s1, s2) \<leftarrow> swap k1 k2; Some (r, cons_mod i s1, cons_mod i s2) }"
      using swap_cons [OF less.prems(2, 3)] by blast
    with less.prems(1) obtain s1 s2 where "swap k1 k2 = Some (b, s1, s2)" "n1 = cons_mod i s1" "n2 = cons_mod i s2"
      by (auto split: bind_splits)
    with less.hyps [of k1 k2 s1 s2] m show ?thesis by simp
  next
    case False
    then show ?thesis
      using less.prems swap_first_wf swap_second_wf
      by (subst (asm) swap.simps) (auto simp: swap_basic_def split: if_splits)
  qed
qed
fun wf_patch :: "patch \<Rightarrow> bool" where
  "wf_patch (Modification_patch m i) \<longleftrightarrow> wf_mod m \<and> wf_mod i"
| "wf_patch (Compound_patch ps) \<longleftrightarrow> list_all wf_patch ps"
| "wf_patch (Branch_patch ps) \<longleftrightarrow> list_all wf_patch ps"
| "wf_patch (Birth_patch a b) \<longleftrightarrow> True"
| "wf_patch (Author_patch a p) \<longleftrightarrow> wf_patch p"

lemma wf_mod_index:
  assumes "wf_mod m" "mod_k m \<notin> {MOD_ASSIGN, MOD_ASSIGN_NODE, MOD_INSERT_NODE, MOD_SET_METADATA}"
  shows "index m \<noteq> None"
  using assms
  by (cases "mod_k m"; cases "mod_p m"; cases "tl (mod_p m)") (auto simp: wf_mod_def arity_def index_def)

lemma wf_mod_argument:
  assumes "wf_mod m" "mod_k m \<in> {MOD_REMOVE, MOD_SPLIT, MOD_INSERT_NODE}"
  shows "argument m \<noteq> None"
  using assms
  by (cases "mod_k m"; cases "mod_p m"; cases "tl (mod_p m)") (auto simp: wf_mod_def arity_def argument_def)

lemma possible_inverse_returns:
  assumes "wf_mod m" "wf_mod i"
  shows "possible_inverse m i \<noteq> None"
  using wf_mod_index [OF assms(1)] wf_mod_argument [OF assms(1)]
    wf_mod_index [OF assms(2)] wf_mod_argument [OF assms(2)]
  by (cases "mod_k m") (auto simp: possible_inverse_def)

lemma swap_modifications_returns:
  assumes "wf_mod m1" "wf_mod i1" "wf_mod m2" "wf_mod i2"
  shows "\<exists>b n1 j1 n2 j2. swap_modifications m1 i1 m2 i2 = Some (b, Modification_patch n1 j1, Modification_patch n2 j2) \<and>
    wf_mod n1 \<and> wf_mod j1 \<and> wf_mod n2 \<and> wf_mod j2"
proof -
  obtain r n1 n2 where 1: "swap m1 m2 = Some (r, n1, n2)"
    using swap_returns [OF assms(1, 3)] by auto
  obtain v j2 j1 where 2: "swap i2 i1 = Some (v, j2, j1)"
    using swap_returns [OF assms(4, 2)] by auto
  have wf: "wf_mod n1" "wf_mod n2" "wf_mod j1" "wf_mod j2"
    using swap_wf [OF 1] swap_wf [OF 2] assms by auto
  then obtain b1 b2 where "possible_inverse n1 j1 = Some b1" "possible_inverse n2 j2 = Some b2"
    using possible_inverse_returns by blast
  with 1 2 wf show ?thesis
    by (auto simp: swap_modifications_def Let_def)
qed

text \<open>
  An exchange puts a patch of the shape of the second one in front of a patch of the shape of
  the first one, so that the depths are exchanged too.
\<close>

definition returns :: "patch \<Rightarrow> patch \<Rightarrow> patch_swap_result \<Rightarrow> bool" where
  "returns p1 p2 r \<longleftrightarrow> (\<exists>b q1 q2. r = Some (b, q1, q2) \<and>
     (b \<longrightarrow> wf_patch q1 \<and> wf_patch q2 \<and> patch_depth q1 = patch_depth p2 \<and> patch_depth q2 = patch_depth p1))"

definition list_depth :: "patch list \<Rightarrow> nat" where
  "list_depth ps = fold max (map patch_depth ps) 0"

lemma fold_max: "fold max ns (m :: nat) = max m (fold max ns 0)"
proof (induction ns arbitrary: m)
  case (Cons n ns)
  show ?case
    using Cons.IH [of "max n m"] Cons.IH [of n] by (simp add: max.assoc max.commute max.left_commute)
qed simp

lemma list_depth_simps [simp]:
  "list_depth [] = 0" "list_depth (p # ps) = max (patch_depth p) (list_depth ps)"
  using fold_max [of "map patch_depth ps" "patch_depth p"] by (simp_all add: list_depth_def)

lemma patch_depth_Compound: "patch_depth (Compound_patch ps) = Suc (list_depth ps)"
  by (simp add: list_depth_def)

definition sequence_returns :: "patch \<Rightarrow> patch list \<Rightarrow> (bool \<times> patch \<times> patch list) option \<Rightarrow> bool" where
  "sequence_returns q ps r \<longleftrightarrow> (\<exists>b q' ps'. r = Some (b, q', ps') \<and>
     (b \<longrightarrow> wf_patch q' \<and> list_all wf_patch ps' \<and> patch_depth q' = patch_depth q \<and>
       list_depth ps' = list_depth ps))"

lemma sequence_left_returns:
  assumes sw: "\<And>p q. wf_patch p \<Longrightarrow> wf_patch q \<Longrightarrow> patch_depth p + patch_depth q < n \<Longrightarrow> returns p q (sw p q)"
  shows "list_all wf_patch ps \<Longrightarrow> wf_patch q \<Longrightarrow> list_depth ps + patch_depth q < n \<Longrightarrow>
    sequence_returns q ps (swap_sequence_left sw ps q)"
  unfolding sequence_returns_def
proof (induction ps)
  case (Cons p ps)
  then obtain b q' ps' where l: "swap_sequence_left sw ps q = Some (b, q', ps')"
    "b \<longrightarrow> wf_patch q' \<and> list_all wf_patch ps' \<and> patch_depth q' = patch_depth q \<and> list_depth ps' = list_depth ps"
    by (auto simp: max_def split: if_splits)
  show ?case
  proof (cases b)
    case True
    then have "returns p q' (sw p q')"
      using l Cons.prems by (intro sw) auto
    with l True show ?thesis by (auto simp: returns_def)
  qed (use l in auto)
qed (auto intro: exI [of _ True])

lemma sequence_right_returns:
  assumes sw: "\<And>p q. wf_patch p \<Longrightarrow> wf_patch q \<Longrightarrow> patch_depth p + patch_depth q < n \<Longrightarrow> returns p q (sw p q)"
  shows "list_all wf_patch ps \<Longrightarrow> wf_patch q \<Longrightarrow> patch_depth q + list_depth ps < n \<Longrightarrow>
    sequence_returns q ps (swap_sequence_right sw q ps)"
  unfolding sequence_returns_def
proof (induction ps arbitrary: q)
  case (Cons p ps)
  have "returns q p (sw q p)"
    using Cons.prems by (intro sw) auto
  then obtain b r1 r2 where r: "sw q p = Some (b, r1, r2)"
    "b \<longrightarrow> wf_patch r1 \<and> wf_patch r2 \<and> patch_depth r1 = patch_depth p \<and> patch_depth r2 = patch_depth q"
    by (auto simp: returns_def)
  show ?case
  proof (cases b)
    case True
    with Cons.prems r have "patch_depth r2 + list_depth ps < n" by simp
    with True Cons.IH [of r2] Cons.prems r obtain c q' ps' where
      "swap_sequence_right sw r2 ps = Some (c, q', ps')"
      "c \<longrightarrow> wf_patch q' \<and> list_all wf_patch ps' \<and> patch_depth q' = patch_depth q \<and> list_depth ps' = list_depth ps"
      by auto
    with r True show ?thesis by auto
  qed (use r in auto)
qed (auto intro: exI [of _ True])

lemma patch_swap_fuel_returns:
  "wf_patch p1 \<Longrightarrow> wf_patch p2 \<Longrightarrow> patch_depth p1 + patch_depth p2 < n \<Longrightarrow>
   returns p1 p2 (patch_swap_fuel n p1 p2 a1 a2)"
proof (induction n arbitrary: p1 p2 a1 a2)
  case (Suc n)
  let ?sw = "\<lambda>p q. patch_swap_fuel n p q a1 a2"
  have sw: "returns p q (?sw p q)" if "wf_patch p" "wf_patch q" "patch_depth p + patch_depth q < n" for p q
    using that by (rule Suc.IH)
  show ?case
  proof (cases "(\<exists>bs. p1 = Branch_patch bs) \<or> (\<exists>bs. p2 = Branch_patch bs)")
    case True
    then show ?thesis by (cases p1; cases p2) (auto simp: returns_def)
  next
    case nb: False
    show ?thesis
    proof (cases "\<exists>ps. p1 = Compound_patch ps")
      case True
      then obtain ps where p1: "p1 = Compound_patch ps" by blast
      have "list_depth ps + patch_depth p2 < n"
        using Suc.prems(3) unfolding p1 patch_depth_Compound by simp
      then have "sequence_returns p2 ps (swap_sequence_left ?sw ps p2)"
        using Suc.prems p1 by (intro sequence_left_returns [where n = n] sw) simp_all
      then obtain b q' ps' where "swap_sequence_left ?sw ps p2 = Some (b, q', ps')"
        "b \<longrightarrow> wf_patch q' \<and> list_all wf_patch ps' \<and> patch_depth q' = patch_depth p2 \<and> list_depth ps' = list_depth ps"
        unfolding sequence_returns_def by blast
      with nb p1 show ?thesis
        by (cases p2) (auto simp: returns_def patch_depth_Compound simp del: patch_depth.simps(2))
    next
      case nc1: False
      show ?thesis
      proof (cases "\<exists>ps. p2 = Compound_patch ps")
        case True
        then obtain ps where p2: "p2 = Compound_patch ps" by blast
        have "patch_depth p1 + list_depth ps < n"
          using Suc.prems(3) unfolding p2 patch_depth_Compound by simp
        then have "sequence_returns p1 ps (swap_sequence_right ?sw p1 ps)"
          using Suc.prems p2 by (intro sequence_right_returns [where n = n] sw) simp_all
        then obtain b q' ps' where "swap_sequence_right ?sw p1 ps = Some (b, q', ps')"
          "b \<longrightarrow> wf_patch q' \<and> list_all wf_patch ps' \<and> patch_depth q' = patch_depth p1 \<and> list_depth ps' = list_depth ps"
          unfolding sequence_returns_def by blast
        with nb nc1 p2 show ?thesis
          by (cases p1) (auto simp: returns_def patch_depth_Compound simp del: patch_depth.simps(2))
      next
        case nc2: False
        show ?thesis
        proof (cases "\<exists>a p. p1 = Author_patch a p")
          case True
          then obtain a p where p1: "p1 = Author_patch a p" by blast
          have "returns p p2 (patch_swap_fuel n p p2 a a2)"
            using Suc.prems p1 by (intro Suc.IH) auto
          with nb nc2 p1 show ?thesis
            by (cases p2) (auto simp: returns_def)
        next
          case na1: False
          show ?thesis
          proof (cases p2)
            case (Author_patch a p)
            then have "returns p1 p (patch_swap_fuel n p1 p a1 a)"
              using Suc.prems by (intro Suc.IH) auto
            with nb nc1 na1 Author_patch show ?thesis
              by (cases p1) (auto simp: returns_def)
          next
            case (Modification_patch m2 i2)
            note p2 = this
            show ?thesis
            proof (cases p1)
              case (Modification_patch m1 i1)
              then show ?thesis
                using swap_modifications_returns [of m1 i1 m2 i2] Suc.prems p2 by (auto simp: returns_def)
            qed (use nb nc1 na1 p2 Suc.prems in \<open>auto simp: returns_def\<close>)
          qed (use nb nc1 nc2 na1 Suc.prems in \<open>cases p1; auto simp: returns_def\<close>)+
        qed
      qed
    qed
  qed
qed simp

section \<open>Properties of the exchange of patches\<close>

definition implements ::
  "(nat list \<Rightarrow> modification \<Rightarrow> tree \<Rightarrow> tree option) \<Rightarrow> (nat list \<Rightarrow> modification \<Rightarrow> tree \<Rightarrow> tree option) \<Rightarrow> bool" where
  "implements g f \<longleftrightarrow> (\<forall>k m t t'. f k m t = Some t' \<longrightarrow> g k m t = Some t')"

lemma implements_below: "implements g f \<Longrightarrow> implements (\<lambda>k. g (n # k)) (\<lambda>k. f (n # k))"
  by (simp add: implements_def)

lemma run_patch_mono:
  shows "run_patch f p t = Some t' \<Longrightarrow> implements g f \<Longrightarrow> run_patch g p t = Some t'"
    and "run_patches f n ps t = Some t' \<Longrightarrow> implements g f \<Longrightarrow> run_patches g n ps t = Some t'"
proof (induction f p t and f n ps t arbitrary: t' g and t' g rule: run_patch_run_patches.induct)
  case (1 f m i t)
  then show ?case by (simp add: implements_def)
next
  case (2 f ps t)
  then have "length ps \<le> 1" "run_patches f 0 ps t = Some t'"
    by (simp_all split: if_splits)
  with "2.IH" [OF _ _ "2.prems"(2)] show ?case by simp
next
  case (3 f ps t)
  from "3.IH" [OF _ "3.prems"(2)] "3.prems"(1) show ?case by simp
next
  case (4 f a p t)
  from "4.IH" [OF _ implements_below [OF "4.prems"(2)]] "4.prems"(1) show ?case by simp
next
  case (7 f n p ps t)
  obtain u where u: "run_patch (\<lambda>k. f (n # k)) p t = Some u" "run_patches f (Suc n) ps u = Some t'"
    using "7.prems"(1) by (auto split: bind_splits)
  show ?case
    using "7.IH"(1) [OF u(1) implements_below [OF "7.prems"(2)]] "7.IH"(2) [OF u "7.prems"(2)] by simp
qed simp_all

lemma patch_effect_clean_apply:
  assumes "patch_effect p t = Some t'"
  shows "patch_clean_apply ids p t = Some t'"
  unfolding patch_clean_apply_def
proof (rule run_patch_mono(1) [OF assms [unfolded patch_effect_def]])
  show "implements (\<lambda>k m t. clean_apply (ids k) t m) (\<lambda>_. effect)"
    unfolding implements_def using effect_iff by blast
qed

text \<open>
  Claim C39. The exchange of patches is correct: let \<open>p1\<close> and then \<open>p2\<close> lead from \<open>t\<close> over \<open>t1\<close>
  to \<open>t2\<close>, and let every modification of the two be paired with a possible inverse. When \<open>swap\<close>
  accepts them, applying the new first patch and then the new second one leads from \<open>t\<close> to
  \<open>t2\<close> as well.
\<close>

theorem patch_swap_correct:
  assumes "patch_swap p1 p2 = Some (True, q1, q2)" and "sound_patch p1" and "sound_patch p2"
    and "patch_effect p1 t = Some t1" and "patch_effect p2 t1 = Some t2"
  shows "\<exists>u. patch_clean_apply ids q1 t = Some u \<and> patch_clean_apply ids q2 u = Some t2"
proof -
  have "exchanges p1 p2 q1 q2"
    using patch_swap_exchanges assms(1-3) unfolding patch_swap_def by blast
  then obtain u where "patch_effect q1 t = Some u" "patch_effect q2 u = Some t2"
    using assms(4, 5) by (fastforce simp: exchanges_def pe.run_Cons_Some simp del: pe.run.simps(2))
  then show ?thesis
    using patch_effect_clean_apply by blast
qed

definition typed_b :: patch where
  "typed_b = Author_patch 1 (Modification_patch (mod_insert [0] 1 (Atomic None ''b'')) (mod_remove [0] 1 1))"

definition typed_c :: patch where
  "typed_c = Author_patch 2 (Compound_patch
     [Modification_patch (mod_insert [] 0 (Compound None DOCUMENT [Atomic None ''c''])) (mod_remove [] 0 1)])"

theorem patch_swap_correct_witness:
  "\<exists>q1 q2 u. patch_swap typed_b typed_c = Some (True, q1, q2) \<and>
     patch_clean_apply (\<lambda>k n. []) q1 (Compound None DOCUMENT [Atomic None ''a'']) = Some u \<and>
     patch_clean_apply (\<lambda>k n. []) q2 u =
       Some (Compound None DOCUMENT [Atomic None ''c'', Atomic None ''ab''])"
proof -
  have "(case patch_swap typed_b typed_c of Some (b, q) \<Rightarrow> b | None \<Rightarrow> False)"
    by code_simp
  then obtain q1 q2 where 1: "patch_swap typed_b typed_c = Some (True, q1, q2)"
    by (auto split: option.splits)
  have 2: "sound_patch typed_b" "sound_patch typed_c" by code_simp+
  have 3: "patch_effect typed_b (Compound None DOCUMENT [Atomic None ''a'']) =
      Some (Compound None DOCUMENT [Atomic None ''ab''])"
    by code_simp
  have 4: "patch_effect typed_c (Compound None DOCUMENT [Atomic None ''ab'']) =
      Some (Compound None DOCUMENT [Atomic None ''c'', Atomic None ''ab''])"
    by code_simp
  show ?thesis
    using patch_swap_correct [OF 1 2 3 4] 1 by blast
qed

text \<open>
  Claim C40. The exchange of patches terminates with a verdict: on patches whose modifications
  have the path items their kind needs, the recursion never runs out of its depth bound and no
  assertion fails, whatever the nesting of sequences, branches and authors.
\<close>

theorem patch_swap_total:
  assumes "wf_patch p1" and "wf_patch p2"
  shows "\<exists>b q1 q2. patch_swap p1 p2 = Some (b, q1, q2) \<and>
    (b \<longrightarrow> patch_depth q1 = patch_depth p2 \<and> patch_depth q2 = patch_depth p1)"
  using patch_swap_fuel_returns [OF assms, of "Suc (patch_depth p1 + patch_depth p2)" 0 0]
  by (auto simp: patch_swap_def returns_def)

theorem patch_swap_total_witness:
  "wf_patch typed_b \<and> wf_patch typed_c \<and>
   (\<exists>b q1 q2. patch_swap typed_b typed_c = Some (b, q1, q2) \<and>
      (b \<longrightarrow> patch_depth q1 = patch_depth typed_c \<and> patch_depth q2 = patch_depth typed_b))"
proof -
  have "wf_patch typed_b" "wf_patch typed_c" by code_simp+
  then show ?thesis
    using patch_swap_total [of typed_b typed_c] by blast
qed

text \<open>
  The exchange does not keep inverses: on the document \<open>b\<close>, removing the first
  character and inserting \<open>a\<close> in its place are exchanged into an insertion at 0 paired with a
  removal at 1. The pair passes \<open>possible_inverse\<close>, which compares the lengths and not the
  positions, yet applying the removal after the insertion does not give \<open>b\<close> back.
\<close>

theorem swapped_inverse_wrong:
  "patch_swap
     (Modification_patch (mod_remove [] 0 1) (mod_insert [] 0 (Atomic None ''b'')))
     (Modification_patch (mod_insert [] 0 (Atomic None ''a'')) (mod_remove [] 0 1)) =
   Some (True,
     Modification_patch (mod_insert [] 0 (Atomic None ''a'')) (mod_remove [] 1 1),
     Modification_patch (mod_remove [] 1 1) (mod_insert [] 0 (Atomic None ''b''))) \<and>
   possible_inverse (mod_insert [] 0 (Atomic None ''a'')) (mod_remove [] 1 1) = Some True \<and>
   clean_apply (\<lambda>n. []) (Atomic None ''b'') (mod_insert [] 0 (Atomic None ''a'')) = Some (Atomic None ''ab'') \<and>
   clean_apply (\<lambda>n. []) (Atomic None ''ab'') (mod_remove [] 1 1) = Some (Atomic None ''a'')"
proof -
  have 1: "patch_swap
     (Modification_patch (mod_remove [] 0 1) (mod_insert [] 0 (Atomic None ''b'')))
     (Modification_patch (mod_insert [] 0 (Atomic None ''a'')) (mod_remove [] 0 1)) =
   Some (True,
     Modification_patch (mod_insert [] 0 (Atomic None ''a'')) (mod_remove [] 1 1),
     Modification_patch (mod_remove [] 1 1) (mod_insert [] 0 (Atomic None ''b'')))"
    by code_simp
  have 2: "possible_inverse (mod_insert [] 0 (Atomic None ''a'')) (mod_remove [] 1 1) = Some True"
    by code_simp
  have 3: "clean_apply (\<lambda>n. []) (Atomic None ''b'') (mod_insert [] 0 (Atomic None ''a'')) = Some (Atomic None ''ab'')"
    by code_simp
  have 4: "clean_apply (\<lambda>n. []) (Atomic None ''ab'') (mod_remove [] 1 1) = Some (Atomic None ''a'')"
    by code_simp
  from 1 2 3 4 show ?thesis by blast
qed

end
