(* ===== verification/Athena_Patch_Reverse.thy ===== *)
theory Athena_Patch_Reverse
  imports Athena_Patch_Commute
begin

text \<open>
  Patches that can be undone: a patch is reversible at a document when each modification of it
  applies in its turn and the inverse stored with it takes the result back. Reversible patches
  are the ones a history records. They are accepted by \<open>is_applicable\<close>, applied with the same
  result by \<open>clean_apply\<close> and in place by \<open>apply\<close>, inverted by \<open>invert\<close> into a reversible patch for
  the way back, and kept reversible by \<open>insert\<close>, \<open>compactify\<close>, \<open>remove_set_cursor\<close> and \<open>join\<close>.
\<close>

section \<open>Reversible application\<close>

definition rev_leaf :: "modification \<Rightarrow> modification \<Rightarrow> tree \<Rightarrow> tree option" where
  "rev_leaf m i t = do { t' \<leftarrow> effect m t; if effect i t' = Some t then Some t' else None }"

fun rev_effect :: "patch \<Rightarrow> tree \<Rightarrow> tree option" 
  and rev_effects :: "patch list \<Rightarrow> tree \<Rightarrow> tree option" where
  "rev_effect (Modification_patch m i) t = rev_leaf m i t"
| "rev_effect (Compound_patch ps) t = rev_effects ps t"
| "rev_effect (Branch_patch ps) t = (if length ps \<le> 1 then rev_effects ps t else None)"
| "rev_effect (Birth_patch a b) t = Some t"
| "rev_effect (Author_patch a p) t = rev_effect p t"
| "rev_effects [] t = Some t"
| "rev_effects (p # ps) t = do { t' \<leftarrow> rev_effect p t; rev_effects ps t' }"

fun flip :: "patch \<Rightarrow> patch" where
  "flip (Modification_patch m i) = Modification_patch i m"
| "flip (Compound_patch ps) = Compound_patch (rev (map flip ps))"
| "flip (Branch_patch ps) = Branch_patch (rev (map flip ps))"
| "flip (Birth_patch a b) = Birth_patch a (\<not> b)"
| "flip (Author_patch a p) = Author_patch a (flip p)"

lemma rev_leaf_Some: "rev_leaf m i t = Some t' \<longleftrightarrow> effect m t = Some t' \<and> effect i t' = Some t"
  by (auto simp: rev_leaf_def split: bind_splits if_splits)

lemma rev_effects_append:
  "rev_effects (ps @ qs) t = do { t' \<leftarrow> rev_effects ps t; rev_effects qs t' }"
  by (induction ps arbitrary: t) (auto split: bind_splits)

lemma rev_effects_append_Some:
  "rev_effects (ps @ qs) t = Some u \<longleftrightarrow> (\<exists>t'. rev_effects ps t = Some t' \<and> rev_effects qs t' = Some u)"
  by (auto simp: rev_effects_append split: bind_splits)

lemma rev_effects_single: "rev_effects [p] t = rev_effect p t"
  by (cases "rev_effect p t") simp_all

lemma flip_flip [simp]: "flip (flip p) = p"
  by (induction p rule: flip.induct) (simp_all add: rev_map [symmetric] map_idI)

lemma rev_effect_flip:
  shows "rev_effect p t = Some t' \<Longrightarrow> rev_effect (flip p) t' = Some t"
    and "rev_effects ps t = Some t' \<Longrightarrow> rev_effects (rev (map flip ps)) t' = Some t"
proof (induction p t and ps t arbitrary: t' and t' rule: rev_effect_rev_effects.induct)
  case (7 p ps t)
  then obtain u where "rev_effect p t = Some u" "rev_effects ps u = Some t'"
    by (auto split: bind_splits)
  with 7 show ?case
    by (simp add: rev_effects_append)
qed (auto simp: rev_leaf_Some split: if_splits)

interpretation rev: reversible_edits rev_effect flip
  by unfold_locales (rule rev_effect_flip(1))

lemma rev_effects_run: "rev_effects ps = rev.run ps"
proof (induction ps)
  case (Cons p ps)
  show ?case by (intro ext) (simp add: Cons.IH)
qed (simp add: fun_eq_iff)

section \<open>The operations on reversible patches\<close>

lemma rev_effect_effect:
  shows "rev_effect p t = Some t' \<Longrightarrow> patch_effect p t = Some t'"
    and "rev_effects ps t = Some t' \<Longrightarrow> pe.run ps t = Some t'"
  by (induction p t and ps t arbitrary: t' and t' rule: rev_effect_rev_effects.induct)
    (auto simp: rev_leaf_Some split: bind_splits if_splits)

lemma patch_effect_apply:
  assumes "patch_effect p t = Some t'"
  shows "patch_apply ids p t = Some t'"
  unfolding patch_apply_def
proof (rule run_patch_mono(1) [OF assms [unfolded patch_effect_def]])
  show "implements (\<lambda>k m t. raw_apply (ids k) t m) (\<lambda>_. effect)"
    unfolding implements_def using raw_apply_effect by blast
qed

lemmas rev_effect_clean_apply = patch_effect_clean_apply [OF rev_effect_effect(1)]
lemmas rev_effect_apply = patch_effect_apply [OF rev_effect_effect(1)]

lemma rev_effect_applicable:
  shows "rev_effect p t = Some t' \<Longrightarrow> patch_is_applicable ids p t = Some True"
    and "rev_effects ps t = Some t' \<Longrightarrow> sequence_is_applicable ids n ps t = Some True"
proof (induction p t and ps t arbitrary: t' ids and t' ids n rule: rev_effect_rev_effects.induct)
  case (1 m i t)
  then have "clean_apply (ids []) t m = Some t'"
    using effect_iff by (auto simp: rev_leaf_Some)
  then show ?case
    by (auto simp: clean_apply_def split: bind_splits if_splits)
next
  case (3 ps t)
  then consider "ps = []" | p where "ps = [p]" "rev_effects [p] t = Some t'"
    by (cases ps) (auto split: if_splits)
  then show ?case
  proof cases
    case (2 p)
    have "sequence_is_applicable ids 0 ps t = Some True"
      by (rule "3.IH" [of t']) (use 2 in simp_all)
    with 2 show ?thesis by (auto split: bind_splits if_splits)
  qed simp
next
  case (7 p ps t)
  then obtain u where u: "rev_effect p t = Some u" "rev_effects ps u = Some t'"
    by (auto split: bind_splits)
  then show ?case
    using "7.IH" rev_effect_clean_apply [OF u(1)] by simp
qed (auto simp: rev_leaf_Some)

lemma rev_effect_invert:
  shows "rev_effect p t = Some t' \<Longrightarrow> patch_invert ids p t = Some (flip p)"
    and "rev_effects ps t = Some t' \<Longrightarrow> patch_invert_list ids n ps t r = Some (rev (map flip ps) @ r)"
proof (induction p t and ps t arbitrary: t' ids and t' ids n r rule: rev_effect_rev_effects.induct)
  case (7 p ps t)
  then obtain u where u: "rev_effect p t = Some u" "rev_effects ps u = Some t'"
    by (auto split: bind_splits)
  then show ?case
    using "7.IH" rev_effect_clean_apply [OF u(1)] by simp
qed (auto split: if_splits)


section \<open>Simplification of reversible patches\<close>

lemma at_path_unchanged:
  "at_path p f t = Some t' \<Longrightarrow> (\<And>s s'. f s = Some s' \<Longrightarrow> s' = s) \<Longrightarrow> t' = t"
proof (induction p arbitrary: t t')
  case (Cons i p)
  then obtain c c' where "child t i = Some c" "at_path p f c = Some c'" "t' = set_child t i c'"
    by (auto split: bind_splits)
  moreover from this have "c' = c"
    using Cons.IH [OF _ Cons.prems(2)] by blast
  ultimately show ?case
    by (cases t) (auto simp: set_child_def array_ref_def split: if_splits)
qed simp

lemma set_cursor_effect: "effect m t = Some t' \<Longrightarrow> mod_k m = MOD_SET_CURSOR \<Longrightarrow> t' = t"
  unfolding effect_def by (rule at_path_unchanged) (auto simp: local_edit_def split: bind_splits if_splits)

lemma patch_insert_run:
  shows "rev_effects (a @ [p]) t = Some t' \<Longrightarrow> rev_effects (patch_insert a p) t = Some t'"
    and "rev_effects (a @ ps) t = Some t' \<Longrightarrow> rev_effects (patch_insert_all a ps) t = Some t'"
proof (induction a p and a ps arbitrary: t t' and t t' rule: patch_insert_patch_insert_all.induct)
  case (1 a ps)
  then show ?case by (auto simp: rev_effects_append split: bind_splits)
next
  case (2 a m i)
  show ?case
  proof (cases "a \<noteq> [] \<and> last a = Modification_patch i m")
    case True
    then have "a = butlast a @ [flip (Modification_patch m i)]"
      by (metis append_butlast_last_id flip.simps(1))
    then have "rev.run (butlast a @ flip (Modification_patch m i) # flip (flip (Modification_patch m i)) # []) t = Some t'"
      using 2 unfolding rev_effects_run by (metis append.assoc append_Cons append_Nil flip_flip)
    from rev.run_cancel [OF this] True show ?thesis
      by (simp add: rev_effects_run)
  qed (use 2 in auto)
next
  case (7 a p ps)
  then obtain u where "rev_effects (a @ [p]) t = Some u" "rev_effects ps u = Some t'"
    by (auto simp: rev_effects_append split: bind_splits)
  with 7 show ?case by (simp add: rev_effects_append)
qed auto

lemma rev_effects_bodies: "rev_effects (map author_body ps) t = rev_effects ps t"
proof (induction ps arbitrary: t)
  case (Cons p ps)
  have "rev_effect (author_body p) t = rev_effect p t"
    by (cases p) simp_all
  with Cons.IH show ?case by (auto split: bind_splits)
qed simp

lemma rev_effect_nth: "length r = 1 \<Longrightarrow> rev_effect (r ! 0) t = rev_effects r t"
  by (cases r) (auto simp: rev_effects_single simp del: rev_effects.simps(2))

lemma rev_effect_compactify: "rev_effect p t = Some t' \<Longrightarrow> rev_effect (compactify p) t = Some t'"
proof (induction p rule: compactify.induct)
  case (1 ps)
  then have ps: "rev_effects ps t = Some t'" by simp
  have 1: "rev_effects (patch_insert_all [] ps) t = Some t'"
    by (rule patch_insert_run(2)) (use ps in simp)
  have 2: "rev_effects (patch_insert_all [] (map author_body ps)) t = Some t'"
    by (rule patch_insert_run(2)) (use ps in \<open>simp add: rev_effects_bodies\<close>)
  have "patch_insert [] (Compound_patch ps) = patch_insert_all [] ps" by simp
  with 1 2 show ?case
    by (simp add: Let_def rev_effect_nth del: patch_insert.simps)
next
  case (2 ps)
  then show ?case by (cases ps) (auto split: if_splits bind_splits)
qed auto

lemma rev_effects_children: "rev_effects (patch_children p) t = rev_effect p t"
  by (cases p) (auto simp: rev_effects_single simp del: rev_effects.simps(2))

lemma rev_effect_remove_set_cursor:
  shows "rev_effect p t = Some t' \<Longrightarrow> rev_effect (remove_set_cursor p) t = Some t'"
    and "rev_effects ps t = Some t' \<Longrightarrow>
      rev_effects (concat (map (\<lambda>p. patch_children (remove_set_cursor p)) ps)) t = Some t'"
proof (induction p t and ps t arbitrary: t' and t' rule: rev_effect_rev_effects.induct)
  case (1 m i t)
  then show ?case
    by (auto simp: rev_leaf_Some dest: set_cursor_effect)
next
  case (2 ps t)
  then show ?case by (simp add: Let_def rev_effect_nth)
next
  case (7 p ps t)
  then obtain u where "rev_effect p t = Some u" "rev_effects ps u = Some t'"
    by (auto split: bind_splits)
  with 7 show ?case by (simp add: rev_effects_append rev_effects_children)
next
  case (5 a p t)
  then have "rev_effect (remove_set_cursor p) t = Some t'" by simp
  then show ?case by (simp add: Let_def)
qed (auto simp: Let_def)

lemma rev_effect_join_leaf:
  assumes "join_modifications ids m1 i1 m2 i2 t = Some (Some p)"
    and "rev_leaf m1 i1 t = Some t1" "rev_leaf m2 i2 t1 = Some t2"
  shows "rev_effect p t = Some t2"
proof -
  obtain m i u where j: "join m1 m2 t = Some (Some m)" "join i2 i1 u = Some (Some i)" "p = Modification_patch m i"
    using assms(1) by (auto simp: join_modifications_def split: bind_splits option.splits)
  have "effect m t = Some t2"
    by (rule join_effect [OF j(1)]) (use assms in \<open>simp add: seq2_def rev_leaf_Some\<close>)
  moreover have "effect i t2 = Some t"
    by (rule join_effect [OF j(2)]) (use assms in \<open>simp add: seq2_def rev_leaf_Some\<close>)
  ultimately show ?thesis
    using j(3) by (simp add: rev_leaf_Some)
qed


lemma rev_effect_cursor: "is_set_cursor c \<Longrightarrow> rev_effect c t = Some t' \<Longrightarrow> t' = t"
  by (cases c) (auto simp: rev_leaf_Some dest: set_cursor_effect)

lemma patch_child_first: "is_compound_patch p \<Longrightarrow> patch_child p 0 = Some c \<Longrightarrow> \<exists>ps. p = Compound_patch (c # ps)"
  by (cases p; cases "patch_children p") (auto simp: patch_child_def array_ref_def split: if_splits)

lemma patch_child_last:
  assumes "is_compound_patch p" "patch_child p (nr_children p - 1) = Some c"
  shows "\<exists>ps. p = Compound_patch (ps @ [c])"
proof -
  obtain ps where p: "p = Compound_patch ps"
    using assms(1) by (cases p) auto
  with assms(2) have "ps \<noteq> []" "ps ! (length ps - 1) = c"
    by (auto simp: patch_child_def array_ref_def nat_diff_distrib' split: if_splits)
  then have "ps = butlast ps @ [c]"
    by (metis append_butlast_last_id last_conv_nth)
  with p show ?thesis by blast
qed

lemma pair_default:
  "\<not> ((\<exists>m1 i1. p1 = Modification_patch m1 i1) \<and> (\<exists>m2 i2. p2 = Modification_patch m2 i2)) \<Longrightarrow>
   (case (p1, p2) of (Modification_patch m1 i1, Modification_patch m2 i2) \<Rightarrow> f m1 i1 m2 i2 | _ \<Rightarrow> x) = x"
  by (cases p1; cases p2) simp_all

lemma patch_join_Some:
  assumes "patch_join ids p1 p2 t = Some (Some p)"
  obtains (author) a b1 b2 q where "p1 = Author_patch a b1" "p2 = Author_patch a b2"
      "patch_join ids b1 b2 t = Some (Some q)" "p = Author_patch a q"
  | (leaf) m1 i1 m2 i2 where "p1 = Modification_patch m1 i1" "p2 = Modification_patch m2 i2"
      "join_modifications ids m1 i1 m2 i2 t = Some (Some p)"
  | (first) q c where "is_compound_patch p1" "nr_children (remove_set_cursor p1) = 1"
      "patch_join ids (remove_set_cursor p1) p2 t = Some (Some q)" "patch_child p1 0 = Some c"
      "p = q \<or> is_set_cursor c \<and> p = append_patches [c] (patch_children q)"
  | (second) q c where "is_compound_patch p2" "nr_children (remove_set_cursor p2) = 1"
      "patch_join ids p1 (remove_set_cursor p2) t = Some (Some q)" "patch_child p2 (nr_children p2 - 1) = Some c"
      "p = q \<or> is_set_cursor c \<and> p = append_patches (patch_children q) [c]"
proof -
  let ?auth = "is_author_patch p1 \<and> is_author_patch p2 \<and> get_author p1 = get_author p2"
  let ?c1 = "is_compound_patch p1 \<and> nr_children p1 > 0 \<and> nr_children (remove_set_cursor p1) = 1"
  let ?c2 = "is_compound_patch p2 \<and> nr_children p2 > 0 \<and> nr_children (remove_set_cursor p2) = 1"
  let ?leaf = "(\<exists>m1 i1. p1 = Modification_patch m1 i1) \<and> (\<exists>m2 i2. p2 = Modification_patch m2 i2)"
  note eq = assms [unfolded patch_join.simps [of ids p1 p2]]
  consider ?auth | "\<not> ?auth" ?leaf | "\<not> ?auth" "\<not> ?leaf" ?c1 | "\<not> ?auth" "\<not> ?leaf" "\<not> ?c1"
    by blast
  then show thesis
  proof cases
    case 1
    with eq author show thesis
      by (cases p1; cases p2) (auto split: bind_splits)
  next
    case 2
    then obtain m1 i1 m2 i2 where l: "p1 = Modification_patch m1 i1" "p2 = Modification_patch m2 i2" by blast
    with eq have "join_modifications ids m1 i1 m2 i2 t = Some (Some p)" by simp
    with l leaf show thesis by blast
  next
    case 3
    from eq have "do { r \<leftarrow> patch_join ids (remove_set_cursor p1) p2 t;
            case r of None \<Rightarrow> Some None
            | Some p1b \<Rightarrow>
                do { c \<leftarrow> patch_child p1 0;
                  if nr_children p1 \<ge> 2 \<and> is_set_cursor c
                  then Some (Some (append_patches [c] (patch_children p1b)))
                  else Some (Some p1b) } } = Some (Some p)"
      unfolding pair_default [OF 3(2)] if_not_P [OF 3(1)] if_P [OF 3(3)] .
    with 3 first show thesis
      by (auto split: bind_splits option.splits if_splits)
  next
    case 4
    have c2: ?c2
      using eq unfolding pair_default [OF 4(2)] if_not_P [OF 4(1)] if_not_P [OF 4(3)]
      by (simp split: if_splits)
    from eq have "do { r \<leftarrow> patch_join ids p1 (remove_set_cursor p2) t;
            case r of None \<Rightarrow> Some None
            | Some p \<Rightarrow>
                do { c \<leftarrow> patch_child p2 (nr_children p2 - 1);
                  if nr_children p2 \<ge> 2 \<and> is_set_cursor c
                  then Some (Some (append_patches (patch_children p) [c]))
                  else Some (Some p) } } = Some (Some p)"
      unfolding pair_default [OF 4(2)] if_not_P [OF 4(1)] if_not_P [OF 4(3)] if_P [OF c2] .
    with c2 show thesis
      using second by (auto split: bind_splits option.splits if_splits)
  qed
qed


lemma rev_effect_join:
  "patch_join ids p1 p2 t = Some (Some p) \<Longrightarrow> rev_effect p1 t = Some t1 \<Longrightarrow> rev_effect p2 t1 = Some t2 \<Longrightarrow>
   rev_effect p t = Some t2"
proof (induction "weight p1 + weight p2" arbitrary: p1 p2 p rule: less_induct)
  case less
  from less.prems(1) show ?case
  proof (cases rule: patch_join_Some)
    case (author a b1 b2 q)
    then show ?thesis
      using less.hyps [of b1 b2 q] less.prems by simp
  next
    case (leaf m1 i1 m2 i2)
    then show ?thesis
      using rev_effect_join_leaf less.prems by simp
  next
    case (first q c)
    have "rev_effect q t = Some t2"
      by (rule less.hyps [OF _ first(3) rev_effect_remove_set_cursor(1) [OF less.prems(2)] less.prems(3)])
        (simp add: weight_remove_set_cursor_less first)
    moreover obtain cs where "p1 = Compound_patch (c # cs)"
      using patch_child_first first by blast
    ultimately show ?thesis
      using first(5) less.prems(2) rev_effect_cursor [of c t]
      by (auto simp: append_patches_def rev_effects_children split: bind_splits)
  next
    case (second q c)
    have q: "rev_effect q t = Some t2"
      by (rule less.hyps [OF _ second(3) less.prems(2) rev_effect_remove_set_cursor(1) [OF less.prems(3)]])
        (simp add: weight_remove_set_cursor_less second)
    obtain cs where p2: "p2 = Compound_patch (cs @ [c])"
      using patch_child_last second by blast
    then obtain u where u: "rev_effect c u = Some t2"
      using less.prems(3) by (auto simp: rev_effects_append_Some rev_effects_single simp del: rev_effects.simps)
    then show ?thesis
      using second(5) q rev_effect_cursor [of c u]
      by (auto simp: append_patches_def rev_effects_append rev_effects_children rev_effects_single
          simp del: rev_effects.simps)
  qed
qed

section \<open>Properties\<close>

text \<open>
  Claim C11. Undoing a patch is correct: for a patch whose modifications apply in turn from \<open>t\<close> to
  \<open>t'\<close> and are paired with inverses that take each step back, the patch is accepted, its
  functional and its in-place application give \<open>t'\<close>, and the patch computed by \<open>invert\<close> leads
  from \<open>t'\<close> back to \<open>t\<close>, is accepted there, and inverts to the original patch.
\<close>

theorem patch_invert_correct:
  assumes "rev_effect p t = Some t'"
  shows "patch_is_applicable ids p t = Some True \<and> patch_clean_apply ids p t = Some t' \<and>
    patch_apply ids p t = Some t' \<and>
    (\<exists>q. patch_invert ids p t = Some q \<and> patch_is_applicable ids' q t' = Some True \<and>
       patch_apply ids' q t' = Some t \<and> patch_invert ids' q t' = Some p)"
  using rev_effect_applicable(1) [OF assms] rev_effect_clean_apply [OF assms] rev_effect_apply [OF assms]
    rev_effect_invert(1) [OF assms] rev_effect_flip(1) [OF assms]
    rev_effect_applicable(1) [OF rev_effect_flip(1) [OF assms]] rev_effect_apply [OF rev_effect_flip(1) [OF assms]]
    rev_effect_invert(1) [OF rev_effect_flip(1) [OF assms]]
  by simp

definition sample_patch :: patch where
  "sample_patch = Author_patch 1 (Compound_patch
     [Modification_patch (mod_remove [0] 0 1) (mod_insert [0] 0 (Atomic None ''a'')),
      Modification_patch (mod_insert [0] 1 (Atomic None ''xy'')) (mod_remove [0] 1 2),
      Birth_patch (1 / 2) True])"

theorem patch_invert_correct_witness:
  "rev_effect sample_patch (Compound None DOCUMENT [Atomic None ''ab'']) =
     Some (Compound None DOCUMENT [Atomic None ''bxy'']) \<and>
   patch_apply (\<lambda>k n. []) sample_patch (Compound None DOCUMENT [Atomic None ''ab'']) =
     Some (Compound None DOCUMENT [Atomic None ''bxy'']) \<and>
   (\<exists>q. patch_invert (\<lambda>k n. []) sample_patch (Compound None DOCUMENT [Atomic None ''ab'']) = Some q \<and>
      patch_apply (\<lambda>k n. []) q (Compound None DOCUMENT [Atomic None ''bxy'']) =
        Some (Compound None DOCUMENT [Atomic None ''ab'']))"
proof -
  have "rev_effect sample_patch (Compound None DOCUMENT [Atomic None ''ab'']) =
     Some (Compound None DOCUMENT [Atomic None ''bxy''])"
    by code_simp
  from this patch_invert_correct [OF this] show ?thesis by blast
qed

text \<open>
  Simplifying a recorded patch keeps it: when a reversible patch leads from \<open>t\<close> to \<open>t'\<close>,
  so does the patch that \<open>compactify\<close> makes of it by flattening sequences, cancelling neighbouring
  inverse modifications and factoring out the author, and so does what \<open>remove_set_cursor\<close> leaves
  of it; both are reversible again.
\<close>

theorem compactify_correct:
  assumes "rev_effect p t = Some t'"
  shows "rev_effect (compactify p) t = Some t' \<and> rev_effect (remove_set_cursor p) t = Some t'"
  using rev_effect_compactify [OF assms] rev_effect_remove_set_cursor(1) [OF assms] by blast

theorem compactify_correct_witness:
  "rev_effect (Compound_patch [sample_patch, flip sample_patch, sample_patch])
       (Compound None DOCUMENT [Atomic None ''ab'']) = Some (Compound None DOCUMENT [Atomic None ''bxy'']) \<and>
   rev_effect (compactify (Compound_patch [sample_patch, flip sample_patch, sample_patch]))
       (Compound None DOCUMENT [Atomic None ''ab'']) = Some (Compound None DOCUMENT [Atomic None ''bxy''])"
proof -
  have "rev_effect (Compound_patch [sample_patch, flip sample_patch, sample_patch])
      (Compound None DOCUMENT [Atomic None ''ab'']) = Some (Compound None DOCUMENT [Atomic None ''bxy''])"
    by code_simp
  from this compactify_correct [OF this] show ?thesis by blast
qed

text \<open>
  Merging two recorded patches is correct: when \<open>p1\<close> leads from \<open>t\<close> to \<open>t1\<close> and \<open>p2\<close>
  from there to \<open>t2\<close>, both reversibly, the patch that \<open>join\<close> returns leads from \<open>t\<close> to \<open>t2\<close> and
  its inverse back, cursor moves at the outer ends included.
\<close>

theorem patch_join_correct:
  assumes "patch_join ids p1 p2 t = Some (Some p)"
    and "rev_effect p1 t = Some t1" and "rev_effect p2 t1 = Some t2"
  shows "rev_effect p t = Some t2"
  using assms by (rule rev_effect_join)

definition typed_x :: patch where
  "typed_x = Author_patch 1 (Compound_patch
     [Modification_patch (mod_set_cursor [0] 1 (Atomic None [])) (mod_set_cursor [0] 1 (Atomic None [])),
      Modification_patch (mod_insert [0] 1 (Atomic None ''x'')) (mod_remove [0] 1 1)])"

definition typed_y :: patch where
  "typed_y = Author_patch 1
     (Modification_patch (mod_insert [0] 2 (Atomic None ''y'')) (mod_remove [0] 2 1))"

theorem patch_join_correct_witness:
  "\<exists>p. patch_join (\<lambda>k n. []) typed_x typed_y (Compound None DOCUMENT [Atomic None ''ab'']) = Some (Some p) \<and>
     rev_effect p (Compound None DOCUMENT [Atomic None ''ab'']) = Some (Compound None DOCUMENT [Atomic None ''axyb''])"
proof -
  have "(case patch_join (\<lambda>k n. []) typed_x typed_y (Compound None DOCUMENT [Atomic None ''ab'']) of
      Some (Some p) \<Rightarrow> True | _ \<Rightarrow> False)"
    by code_simp
  then obtain p where 1: "patch_join (\<lambda>k n. []) typed_x typed_y (Compound None DOCUMENT [Atomic None ''ab'']) = Some (Some p)"
    by (auto split: option.splits)
  have 2: "rev_effect typed_x (Compound None DOCUMENT [Atomic None ''ab'']) = Some (Compound None DOCUMENT [Atomic None ''axb''])"
    by code_simp
  have 3: "rev_effect typed_y (Compound None DOCUMENT [Atomic None ''axb'']) = Some (Compound None DOCUMENT [Atomic None ''axyb''])"
    by code_simp
  show ?thesis
    using patch_join_correct [OF 1 2 3] 1 by blast
qed

end
