(* ===== verification/Athena_Archiver.thy ===== *)
theory Athena_Archiver
  imports Athena_Patch
begin

text \<open>
  The undo and redo history: \<open>src/src/Document/History/archiver.cpp\<close>, \<open>archiver.hpp\<close>, with the
  cursor hints of \<open>patch.cpp\<close> and the announcement of \<open>undo_observer.cpp\<close>. The archive is one
  patch: a branch node whose first branch is the undo part, a pair of the patch to undo and the
  archive below it, and whose other branches are the possible futures, pairs of the patch to
  redo and the futures behind it; branch nodes with a single branch are collapsed.

  The operations are functions on the record of an archiver and on the document; \<open>None\<close> is a
  failed assertion. The identities drawn by the modifications that are applied come from the
  parameter \<open>ids\<close>, one sub-source per call. The navigation queries behind a cursor hint are
  the parameters of type \<open>navigation\<close>.
\<close>

section \<open>Cursor hints\<close>

record navigation =
  nav_start :: "tree \<Rightarrow> path \<Rightarrow> path"
  nav_end :: "tree \<Rightarrow> path \<Rightarrow> path"

definition cursor_hint :: "navigation \<Rightarrow> modification \<Rightarrow> tree \<Rightarrow> path option" where
  "cursor_hint nav m t =
     do { ok \<leftarrow> is_applicable t m;
       if \<not> ok then None
       else do { let rp = root m; st \<leftarrow> subtree t rp;
         (case mod_k m of
            MOD_ASSIGN \<Rightarrow> Some (nav_end nav t rp)
          | MOD_INSERT \<Rightarrow> do { i \<leftarrow> index m;
              Some (if is_atomic st then rp @ [i]
                    else if i = N st then nav_end nav t rp
                    else nav_start nav t (rp @ [i])) }
          | MOD_REMOVE \<Rightarrow> do { i \<leftarrow> index m; n \<leftarrow> argument m;
              Some (if is_atomic st then rp @ [i + n]
                    else if i = N st then nav_end nav t rp
                    else if n = 0 then nav_start nav t (rp @ [i])
                    else nav_end nav t (rp @ [i + n - 1])) }
          | MOD_SPLIT \<Rightarrow> do { i \<leftarrow> index m; n \<leftarrow> argument m; c \<leftarrow> child st i;
              Some (if is_atomic c then mod_p m
                    else if n = N c then nav_end nav t (rp @ [i])
                    else nav_start nav t (mod_p m)) }
          | MOD_JOIN \<Rightarrow> Some (nav_end nav t (mod_p m))
          | MOD_ASSIGN_NODE \<Rightarrow> Some (nav_end nav t rp)
          | MOD_INSERT_NODE \<Rightarrow> Some (nav_end nav t rp)
          | MOD_REMOVE_NODE \<Rightarrow> do { i \<leftarrow> index m; Some (nav_end nav t (rp @ [i])) }
          | MOD_SET_CURSOR \<Rightarrow> Some []
          | MOD_SET_METADATA \<Rightarrow> Some []) } }"

fun patch_cursor_hint :: "navigation \<Rightarrow> patch \<Rightarrow> tree \<Rightarrow> path option"
  and patches_cursor_hint :: "navigation \<Rightarrow> patch list \<Rightarrow> tree \<Rightarrow> path option"
where
  "patch_cursor_hint nav (Modification_patch m i) t = cursor_hint nav m t"
| "patch_cursor_hint nav (Compound_patch ps) t = patches_cursor_hint nav ps t"
| "patch_cursor_hint nav (Branch_patch []) t = Some []"
| "patch_cursor_hint nav (Branch_patch (p # ps)) t = patch_cursor_hint nav p t"
| "patch_cursor_hint nav (Author_patch a p) t = patch_cursor_hint nav p t"
| "patch_cursor_hint nav (Birth_patch a b) t = Some []"
| "patches_cursor_hint nav [] t = Some []"
| "patches_cursor_hint nav (p # ps) t =
     do { r \<leftarrow> patch_cursor_hint nav p t;
       if r \<noteq> [] then Some r else patches_cursor_hint nav ps t }"

section \<open>The archiver\<close>

record archiver =
  archive :: patch
  current :: patch
  depth :: int
  last_save :: int
  last_autosave :: int
  the_author :: real
  the_owner :: real
  rp :: path
  versioning :: bool

text \<open>Arrays of patches as sequences and as branches.\<close>

definition make_compound :: "patch list \<Rightarrow> patch" where
  "make_compound a = (if length a = 1 then a ! 0 else Compound_patch a)"

definition make_branches :: "patch list \<Rightarrow> patch" where
  "make_branches a = (if length a = 1 then a ! 0 else Branch_patch a)"

definition append_branches :: "patch \<Rightarrow> patch \<Rightarrow> patch" where
  "append_branches p1 p2 = make_branches (branches p1 @ branches p2)"

definition make_history :: "patch \<Rightarrow> patch \<Rightarrow> patch" where
  "make_history undo redo = make_branches (undo # branches redo)"

definition nr_undo :: "patch \<Rightarrow> int" where
  "nr_undo p = (case branch p 0 of None \<Rightarrow> 0 | Some b \<Rightarrow> if nr_children b \<noteq> 2 then 0 else 1)"

definition nr_redo :: "patch \<Rightarrow> int" where
  "nr_redo p = max 0 (nr_branches p - 1)"

definition get_undo :: "patch \<Rightarrow> patch option" where
  "get_undo p = (if nr_branches p > 0 then branch p 0 else None)"

definition get_redo :: "patch \<Rightarrow> patch option" where
  "get_redo p =
     (if nr_branches p = 0 then Some (make_branches [])
      else do { bs \<leftarrow> branches_range p 1 (nr_branches p); Some (make_branches bs) })"

definition car :: "patch \<Rightarrow> patch option" where
  "car p = do { b \<leftarrow> branch p 0; if nr_children b = 2 then patch_child p 0 else None }"

definition cdr :: "patch \<Rightarrow> patch option" where
  "cdr p = do { b \<leftarrow> branch p 0; if nr_children b = 2 then patch_child p 1 else None }"

definition new_archiver :: "real \<Rightarrow> path \<Rightarrow> archiver" where
  "new_archiver author rp2 =
     \<lparr>archive = make_branches [], current = make_compound [], depth = 0, last_save = 0, last_autosave = 0,
      the_author = author, the_owner = 0, rp = rp2, versioning = False\<rparr>"

definition clear :: "archiver \<Rightarrow> archiver" where
  "clear a = a\<lparr>archive := make_branches [], current := make_compound [], the_owner := 0, depth := 0,
     last_save := - 1, last_autosave := - 1\<rparr>"

lemma cdr_Some: "cdr p = Some d \<longleftrightarrow> (\<exists>c. p = Compound_patch [c, d])"
  by (cases p)
    (auto simp: cdr_def branch_def patch_child_def array_ref_def length_Suc_conv numeral_2_eq_2
      split: bind_splits if_splits)

lemma car_pair [simp]: "car (Compound_patch [c, d]) = Some c"
  by (simp add: car_def branch_def patch_child_def array_ref_def)

lemma cdr_pair [simp]: "cdr (Compound_patch [c, d]) = Some d"
  by (simp add: cdr_Some)

lemma branch_size: "branch p i = Some q \<Longrightarrow> size q \<le> size p"
proof (cases p)
  case (Branch_patch ps)
  assume "branch p i = Some q"
  with Branch_patch have "q \<in> set ps"
    by (auto simp: branch_def array_ref_def split: if_splits)
  then have "size q \<le> size_list size ps"
    by (rule size_list_estimation') simp
  with Branch_patch show ?thesis by simp
qed (auto simp: branch_def array_ref_def split: if_splits)

lemma get_undo_size: "get_undo p = Some q \<Longrightarrow> size q \<le> size p"
  by (auto simp: get_undo_def branch_size split: if_splits)

lemma cdr_size: "cdr p = Some q \<Longrightarrow> size q < size p"
  by (auto simp: cdr_Some)

lemma below_size [termination_simp]: "get_undo p = Some u \<Longrightarrow> cdr u = Some q \<Longrightarrow> size q < size p"
  using get_undo_size cdr_size by fastforce

lemma branches_size: "2 * sum_list (map size (branches p)) + length (branches p) \<le> 2 * size p + 1"
proof (cases p)
  case (Branch_patch ps)
  have "sum_list (map size ps) + length ps = size_list size ps"
    by (induction ps) auto
  with Branch_patch show ?thesis by simp
qed simp_all

section \<open>Changing the order of the history\<close>

text \<open>
  \<open>split\<close> sorts the futures \<open>p2\<close> behind \<open>p1\<close>: those that begin with a patch of the archiver's own
  author which can be moved before \<open>p1\<close> become futures of the state before \<open>p1\<close>.
\<close>

function make_future :: "real \<Rightarrow> patch \<Rightarrow> patch \<Rightarrow> patch option"
  and split_branches :: "real \<Rightarrow> patch \<Rightarrow> patch list \<Rightarrow> (patch list \<times> patch list) option"
where
  "make_future au p1 p2 =
     (if nr_branches p2 = 0 \<or> get_author p1 = au then Some (patch_pair p1 p2)
      else do { (a1, a2) \<leftarrow> split_branches au p1 (branches p2);
        let re1 = make_branches a1;
        let re2 = make_branches a2;
        Some (append_branches (if nr_branches re1 \<noteq> 0 then patch_pair p1 re1 else re1) re2) })"
| "split_branches au p1 [] = Some ([], [])"
| "split_branches au p1 (b # bs) =
     do { c \<leftarrow> car b;
       if get_author c \<noteq> au
       then do { (a1, a2) \<leftarrow> split_branches au p1 bs; Some (b # a1, a2) }
       else do { (ok, q1, q2) \<leftarrow> patch_swap p1 c;
         if \<not> ok then do { (a1, a2) \<leftarrow> split_branches au p1 bs; Some (b # a1, a2) }
         else (case cdr b of None \<Rightarrow> None | Some d \<Rightarrow>
           do { f \<leftarrow> make_future au q2 d;
             (a1, a2) \<leftarrow> split_branches au p1 bs; Some (a1, patch_pair q1 f # a2) }) } }"
  by pat_completeness auto
termination
  by (relation "measure (\<lambda>x. case x of
      Inl (au, p1, p2) \<Rightarrow> 2 * size p2 + 2
    | Inr (au, p1, bs) \<Rightarrow> 2 * sum_list (map size bs) + length bs)")
    (use branches_size in \<open>auto simp: less_Suc_eq_le dest: cdr_size\<close>)

declare make_future.simps [simp del]

definition split :: "real \<Rightarrow> patch \<Rightarrow> patch \<Rightarrow> (patch \<times> patch) option" where
  "split au p1 p2 =
     do { (a1, a2) \<leftarrow> split_branches au p1 (branches p2); Some (make_branches a1, make_branches a2) }"

text \<open>
  \<open>expose\<close> brings the last patch of the archiver's own author on top of the history. The second
  result tells whether \<open>last_save\<close> and \<open>last_autosave\<close> were reset on the way, in a nested call
  too.
\<close>

function expose_archive :: "real \<Rightarrow> patch \<Rightarrow> (patch \<times> bool) option" where
  "expose_archive au a =
     (if nr_undo a = 0 then Some (a, False)
      else (case get_undo a of None \<Rightarrow> None | Some u \<Rightarrow>
        do { un1 \<leftarrow> car u;
          if get_author un1 = au then Some (a, False)
          else (case cdr u of None \<Rightarrow> None | Some d \<Rightarrow>
            if nr_undo d = 0 then Some (a, False)
            else do { (nx1, reset) \<leftarrow> expose_archive au d;
              u1 \<leftarrow> get_undo nx1; un2 \<leftarrow> car u1;
              if get_author un2 \<noteq> au then Some (a, reset)
              else do { re1 \<leftarrow> get_redo a; re2 \<leftarrow> get_redo nx1; nx2 \<leftarrow> cdr u1;
                fut \<leftarrow> (if nr_branches re2 \<noteq> 0 then make_future au un1 re2 else Some (make_branches []));
                (ok, un1, un2) \<leftarrow> patch_swap un1 un2;
                if \<not> ok then Some (a, reset)
                else do {
                  let nx = make_history (patch_pair un2 nx2) (make_branches []);
                  let un = patch_pair un1 nx;
                  let re = append_branches re1 fut;
                  Some (make_history un re, True) } } }) }))"
  by pat_completeness auto
termination
  by (relation "measure (\<lambda>(au, a). size a)") (auto dest: below_size)

declare expose_archive.simps [simp del]

definition expose :: "archiver \<Rightarrow> archiver option" where
  "expose a =
     do { (ar, reset) \<leftarrow> expose_archive (the_author a) (archive a);
       let a = (if reset then a\<lparr>last_save := - 1, last_autosave := - 1\<rparr> else a);
       Some (a\<lparr>archive := ar\<rparr>) }"

definition normalize :: "archiver \<Rightarrow> archiver option" where
  "normalize a =
     (if nr_undo (archive a) = 0 then Some a
      else do { un1 \<leftarrow> get_undo (archive a); nx1 \<leftarrow> cdr un1;
        if nr_redo nx1 = 0 then Some a
        else do { re1 \<leftarrow> get_redo (archive a); p1 \<leftarrow> car un1; un2 \<leftarrow> get_undo nx1; re2 \<leftarrow> get_redo nx1;
          if get_author p1 = the_author a then Some a
          else do { (Re1, Re2) \<leftarrow> split (the_author a) p1 re2;
            let ar2 = make_history un2 Re1;
            Some (a\<lparr>archive := make_history (patch_pair p1 ar2) (append_branches re1 Re2),
              last_save := - 1, last_autosave := - 1\<rparr>) } } })"

section \<open>The current modifications\<close>

definition archiver_apply :: "id_source \<Rightarrow> patch \<Rightarrow> archiver \<times> tree \<Rightarrow> (archiver \<times> tree) option" where
  "archiver_apply ids p st =
     do { let (a, t) = st;
       ok \<leftarrow> patch_is_applicable (\<lambda>k. ids (0 # k)) p t;
       if \<not> ok then None
       else do { let old = versioning a;
         let a = a\<lparr>versioning := True\<rparr>;
         t' \<leftarrow> patch_apply (\<lambda>k. ids (1 # k)) p t;
         Some (a\<lparr>versioning := old\<rparr>, t') } }"

definition active :: "archiver \<Rightarrow> bool" where
  "active a \<longleftrightarrow> nr_children (current a) \<noteq> 0"

definition has_content_changes :: "archiver \<Rightarrow> bool" where
  "has_content_changes a \<longleftrightarrow> does_modify (current a)"

definition has_history :: "archiver \<Rightarrow> bool" where
  "has_history a \<longleftrightarrow> nr_undo (archive a) = 1"

definition confirm :: "archiver \<Rightarrow> archiver option" where
  "confirm a =
     (if \<not> active a then Some a
      else do {
        let a = a\<lparr>current := Author_patch (the_owner a) (compactify (current a))\<rparr>;
        let a = (if nr_children (remove_set_cursor (current a)) = 0
                 then a\<lparr>current := make_compound [], the_owner := 0\<rparr> else a);
        if \<not> active a then Some a
        else do {
          let a = a\<lparr>archive := patch_pair (current a) (archive a), current := make_compound [],
            the_owner := 0, depth := depth a + 1\<rparr>;
          let a = a\<lparr>last_save := (if depth a \<le> last_save a then - 1 else last_save a)\<rparr>;
          let a = a\<lparr>last_autosave := (if depth a \<le> last_autosave a then - 1 else last_autosave a)\<rparr>;
          normalize a } })"

text \<open>\<open>author\<close> is the current author of the editing context (\<open>get_author ()\<close>).\<close>

definition switch_owner :: "real \<Rightarrow> archiver \<Rightarrow> archiver option" where
  "switch_owner author a =
     do { a \<leftarrow> (if the_owner a \<noteq> 0 \<and> the_owner a \<noteq> author then confirm a else Some a);
          Some (a\<lparr>the_owner := author\<rparr>) }"

definition add :: "real \<Rightarrow> modification \<Rightarrow> archiver \<times> tree \<Rightarrow> archiver option" where
  "add author m st =
     do { let (a, t) = st;
       a \<leftarrow> switch_owner author a;
       i \<leftarrow> invert m t;
       let q = Modification_patch i m;
       Some (a\<lparr>current := patch_pair q (current a)\<rparr>) }"

definition start_slave :: "real \<Rightarrow> real \<Rightarrow> archiver \<Rightarrow> archiver option" where
  "start_slave author b a =
     do { a \<leftarrow> switch_owner author a;
       let q = Birth_patch b False;
       Some (a\<lparr>current := patch_pair q (current a)\<rparr>) }"

definition archive_announce :: "real \<Rightarrow> modification \<Rightarrow> archiver \<times> tree \<Rightarrow> archiver option" where
  "archive_announce author m st =
     (if \<not> list_leq (rp (fst st)) (mod_p m) then None
      else if versioning (fst st) then Some (fst st) else add author m st)"

definition cancel :: "id_source \<Rightarrow> archiver \<times> tree \<Rightarrow> (archiver \<times> tree) option" where
  "cancel ids st =
     (if \<not> active (fst st) then Some st
      else do { (a, t) \<leftarrow> archiver_apply ids (current (fst st)) st;
        Some (a\<lparr>current := make_compound [], the_owner := 0\<rparr>, t) })"

definition retract :: "id_source \<Rightarrow> archiver \<times> tree \<Rightarrow> (archiver \<times> bool) option" where
  "retract ids st =
     (let (a, t) = st in
      if \<not> has_history a then Some (a, False)
      else if the_owner a \<noteq> 0 \<and> the_owner a \<noteq> the_author a then Some (a, False)
      else do { a \<leftarrow> expose a;
        u \<leftarrow> get_undo (archive a); un \<leftarrow> car u;
        if get_author un \<noteq> the_author a then Some (a, False)
        else do { re \<leftarrow> get_redo (archive a); nx \<leftarrow> cdr u;
          let a = a\<lparr>current := (if active a then compactify (patch_pair (current a) un) else un),
            the_owner := the_author a\<rparr>;
          re \<leftarrow> (if nr_branches re \<noteq> 0
                then do { q \<leftarrow> patch_invert ids (current a) t; Some (patch_pair q re) } else Some re);
          nx \<leftarrow> (if nr_branches nx \<noteq> 0 then get_undo nx else Some nx);
          re' \<leftarrow> get_redo nx;
          Some (a\<lparr>archive := make_history nx (append_branches re re'), depth := depth a - 1\<rparr>, True) } })"

definition forget :: "id_source \<Rightarrow> archiver \<times> tree \<Rightarrow> ((archiver \<times> tree) \<times> bool) option" where
  "forget ids st =
     do { (a, t) \<leftarrow> cancel (\<lambda>k. ids (0 # k)) st;
       (a, r) \<leftarrow> retract (\<lambda>k. ids (1 # k)) (a, t);
       st \<leftarrow> (if r then cancel (\<lambda>k. ids (2 # k)) (a, t) else Some (a, t));
       Some (st, r) }"

definition forget_cursor :: "archiver \<Rightarrow> archiver" where
  "forget_cursor a = a\<lparr>current := remove_set_cursor (current a)\<rparr>"

section \<open>Simplification of the history\<close>

text \<open>The number of patches that can be undone one after the other.\<close>

function hist_length :: "patch \<Rightarrow> nat" where
  "hist_length a =
     (case get_undo a of None \<Rightarrow> 0 | Some u \<Rightarrow>
        (case cdr u of None \<Rightarrow> 0 | Some d \<Rightarrow> Suc (hist_length d)))"
  by pat_completeness auto
termination
  by (relation "measure size") (auto dest: below_size)

declare hist_length.simps [simp del]

lemma get_undo_make_history: "get_undo (make_history u r) = (if branches r = [] then get_undo u else Some u)"
  by (auto simp: get_undo_def make_history_def make_branches_def branch_def array_ref_def)

lemma get_undo_pair [simp]: "get_undo (Compound_patch ps) = Some (Compound_patch ps)"
  by (simp add: get_undo_def branch_def array_ref_def)

lemma get_undo_history_pair [simp]: "get_undo (make_history (Compound_patch ps) r) = Some (Compound_patch ps)"
  by (simp add: get_undo_make_history)

lemma hist_length_history: "hist_length (make_history (Compound_patch [p, n]) r) = Suc (hist_length n)"
  by (subst hist_length.simps) simp

function simplify :: "id_source \<Rightarrow> tree \<Rightarrow> archiver \<Rightarrow> archiver option" where
  "simplify ids t a =
     (if \<not> has_history a then Some a
      else (case get_undo (archive a) of None \<Rightarrow> None | Some u \<Rightarrow>
        (case cdr u of None \<Rightarrow> None | Some d \<Rightarrow>
          if nr_undo d \<noteq> 1 \<or> nr_redo d \<noteq> 0 \<or> depth a = last_save a + 1 then Some a
          else do { p1 \<leftarrow> car u;
            case get_undo d of None \<Rightarrow> None | Some u2 \<Rightarrow>
            do { p2 \<leftarrow> car u2;
              r \<leftarrow> patch_join (\<lambda>k. ids (0 # k)) p1 p2 t;
              case r of None \<Rightarrow> Some a
              | Some p1 \<Rightarrow>
                  (case cdr u2 of None \<Rightarrow> None | Some d2 \<Rightarrow>
                  do { let un = patch_pair p1 d2;
                    re \<leftarrow> get_redo (archive a);
                    let a = a\<lparr>archive := make_history un re\<rparr>;
                    let a = a\<lparr>last_autosave := (if depth a = last_autosave a + 1 then - 1 else last_autosave a)\<rparr>;
                    simplify (\<lambda>k. ids (1 # k)) t (a\<lparr>depth := depth a - 1\<rparr>) }) } })))"
  by pat_completeness auto
termination
  by (relation "measure (\<lambda>(ids, t, a). hist_length (archive a))")
    (auto simp: patch_pair_def hist_length_history hist_length.simps split: if_splits)

declare simplify.simps [simp del]

section \<open>Undo and redo\<close>

definition undo_possibilities :: "archiver \<Rightarrow> int" where
  "undo_possibilities a = nr_undo (archive a)"

definition redo_possibilities :: "archiver \<Rightarrow> int" where
  "redo_possibilities a = nr_redo (archive a)"

fun find_move_marker :: "patch \<Rightarrow> real"
  and find_first_marker :: "patch list \<Rightarrow> real"
where
  "find_move_marker (Birth_patch v b) = (if v > 0 \<and> v \<noteq> real_of_int \<lfloor>v\<rfloor> then v else 0)"
| "find_move_marker (Modification_patch m i) = 0"
| "find_move_marker (Author_patch a p) = find_move_marker p"
| "find_move_marker (Compound_patch ps) = find_first_marker ps"
| "find_move_marker (Branch_patch ps) = find_first_marker ps"
| "find_first_marker [] = 0"
| "find_first_marker (p # ps) =
     (let marker = find_move_marker p in if marker \<noteq> 0 then marker else find_first_marker ps)"

definition undo_move_marker :: "archiver \<Rightarrow> real option" where
  "undo_move_marker a =
     (if active a \<or> nr_undo (archive a) = 0 then Some 0
      else do { u \<leftarrow> get_undo (archive a); p \<leftarrow> car u; Some (find_move_marker p) })"

definition redo_move_marker :: "archiver \<Rightarrow> int \<Rightarrow> real option" where
  "redo_move_marker a i =
     (if active a \<or> i < 0 \<or> i \<ge> nr_redo (archive a) then Some 0
      else do { re \<leftarrow> get_redo (archive a); b \<leftarrow> branch re i; p \<leftarrow> car b; Some (find_move_marker p) })"

fun redo_branch_loop :: "archiver \<Rightarrow> real \<Rightarrow> nat \<Rightarrow> int \<Rightarrow> int option" where
  "redo_branch_loop a marker 0 i = Some (- 1)"
| "redo_branch_loop a marker (Suc n) i =
     do { v \<leftarrow> redo_move_marker a i; if v = marker then Some i else redo_branch_loop a marker n (i + 1) }"

definition redo_move_branch :: "archiver \<Rightarrow> real \<Rightarrow> int option" where
  "redo_move_branch a marker =
     (if active a then Some (- 1) else redo_branch_loop a marker (nat (nr_redo (archive a))) 0)"

definition undo_one ::
  "id_source \<Rightarrow> navigation \<Rightarrow> int \<Rightarrow> archiver \<times> tree \<Rightarrow> ((archiver \<times> tree) \<times> path) option" where
  "undo_one ids nav i st =
     (let (a, t) = st in
      if active a then Some (st, [])
      else if undo_possibilities a \<noteq> 0 then
        (if i \<noteq> 0 then None
         else do { u \<leftarrow> get_undo (archive a); p \<leftarrow> car u;
           ok \<leftarrow> patch_is_applicable (\<lambda>k. ids (0 # k)) p t;
           if \<not> ok then None
           else do { q \<leftarrow> patch_invert (\<lambda>k. ids (1 # k)) p t;
             (a, t) \<leftarrow> archiver_apply (\<lambda>k. ids (2 # k)) p (a, t);
             r \<leftarrow> get_redo (archive a);
             let re1 = patch_pair q r;
             nx \<leftarrow> cdr u;
             re2 \<leftarrow> get_redo nx;
             let re = append_branches re1 re2;
             un \<leftarrow> (if nr_branches nx = 0 then Some nx else get_undo nx);
             let a = a\<lparr>archive := make_history un re, depth := depth a - 1\<rparr>;
             h \<leftarrow> patch_cursor_hint nav q t;
             Some ((a, t), h) } })
      else Some (st, []))"

definition redo_one ::
  "id_source \<Rightarrow> navigation \<Rightarrow> int \<Rightarrow> archiver \<times> tree \<Rightarrow> ((archiver \<times> tree) \<times> path) option" where
  "redo_one ids nav i st =
     (let (a, t) = st in
      if active a then Some (st, [])
      else let n = redo_possibilities a in
      if n \<noteq> 0 then
        (if \<not> (0 \<le> i \<and> i < n) then None
         else do { un \<leftarrow> get_undo (archive a); re \<leftarrow> get_redo (archive a);
           b \<leftarrow> branch re i; p \<leftarrow> car b;
           ok \<leftarrow> patch_is_applicable (\<lambda>k. ids (0 # k)) p t;
           if \<not> ok then None
           else do { q \<leftarrow> patch_invert (\<lambda>k. ids (1 # k)) p t;
             (a, t) \<leftarrow> archiver_apply (\<lambda>k. ids (2 # k)) p (a, t);
             before \<leftarrow> branches_range re 0 i; after \<leftarrow> branches_range re (i + 1) n;
             let other = make_branches (before @ after);
             let nx = make_history un other;
             rest \<leftarrow> cdr b;
             let a = a\<lparr>archive := make_history (patch_pair q nx) rest\<rparr>;
             let a = a\<lparr>last_save := (if depth a \<le> last_save a \<and> i \<noteq> 0 then - 1 else last_save a)\<rparr>;
             let a = a\<lparr>last_autosave := (if depth a \<le> last_autosave a \<and> i \<noteq> 0 then - 1 else last_autosave a)\<rparr>;
             a \<leftarrow> normalize (a\<lparr>depth := depth a + 1\<rparr>);
             h \<leftarrow> patch_cursor_hint nav q t;
             Some ((a, t), h) } })
      else Some (st, []))"

text \<open>
  The loops of \<open>undo\<close> and \<open>redo\<close> go on over the patches of other authors. They are partial
  functions: a run that does not end has no value. \<open>r\<close> is the path to return.
\<close>

partial_function (option) undo_loop ::
  "id_source \<Rightarrow> navigation \<Rightarrow> int \<Rightarrow> path \<Rightarrow> archiver \<times> tree \<Rightarrow> ((archiver \<times> tree) \<times> path) option" where
  "undo_loop ids nav i r st =
     (if undo_possibilities (fst st) = 0 then Some (st, r)
      else if i \<noteq> 0 then None
      else do { a \<leftarrow> expose (fst st);
        u \<leftarrow> get_undo (archive a); p \<leftarrow> car u;
        if get_author p = the_author a then undo_one (\<lambda>k. ids (0 # k)) nav i (a, snd st)
        else do { (st, r) \<leftarrow> undo_one (\<lambda>k. ids (0 # k)) nav i (a, snd st);
          undo_loop (\<lambda>k. ids (1 # k)) nav 0 r st } })"

declare undo_loop.simps [code]

definition undo ::
  "id_source \<Rightarrow> navigation \<Rightarrow> int \<Rightarrow> archiver \<times> tree \<Rightarrow> ((archiver \<times> tree) \<times> path) option" where
  "undo ids nav i st = (if active (fst st) then Some (st, []) else undo_loop ids nav i [] st)"

text \<open>\<open>genuine\<close> is the set of the authors of the archivers that exist.\<close>

partial_function (option) redo_loop ::
  "real set \<Rightarrow> id_source \<Rightarrow> navigation \<Rightarrow> int \<Rightarrow> bool \<Rightarrow> path \<Rightarrow> archiver \<times> tree \<Rightarrow>
    ((archiver \<times> tree) \<times> path) option" where
  "redo_loop genuine ids nav i first r st =
     (let n = redo_possibilities (fst st) in
      if n = 0 then Some (st, r)
      else if \<not> (0 \<le> i \<and> i < n) then None
      else do { re \<leftarrow> get_redo (archive (fst st)); b \<leftarrow> branch re i; p \<leftarrow> car b;
        let done = (get_author p = the_author (fst st));
        (st, r) \<leftarrow> redo_one (\<lambda>k. ids (0 # k)) nav i st;
        if done \<and> \<not> first then Some (st, r)
        else if nr_redo (archive (fst st)) \<noteq> 1 then Some (st, r)
        else do { re \<leftarrow> get_redo (archive (fst st)); b \<leftarrow> branch re 0; p \<leftarrow> car b;
          if get_author p = the_author (fst st) then Some (st, r)
          else if done \<and> get_author p \<in> genuine then Some (st, r)
          else redo_loop genuine (\<lambda>k. ids (1 # k)) nav 0 False r st } })"

declare redo_loop.simps [code]

definition redo ::
  "real set \<Rightarrow> id_source \<Rightarrow> navigation \<Rightarrow> int \<Rightarrow> archiver \<times> tree \<Rightarrow> ((archiver \<times> tree) \<times> path) option" where
  "redo genuine ids nav i st =
     (if active (fst st) then Some (st, []) else redo_loop genuine ids nav i True [] st)"

section \<open>Marked blocks\<close>

fun is_marker :: "patch \<Rightarrow> real \<Rightarrow> bool \<Rightarrow> bool" where
  "is_marker (Author_patch a p) m birth = is_marker p m birth"
| "is_marker (Birth_patch a b) m birth = (a = m \<and> b = birth)"
| "is_marker p m birth = False"

text \<open>\<open>is_birth (p [0])\<close> for an author patch \<open>p\<close>.\<close>

fun marks_birth :: "patch \<Rightarrow> bool" where
  "marks_birth (Author_patch a (Birth_patch b c)) = True"
| "marks_birth p = False"

definition compressible :: "patch \<Rightarrow> patch \<Rightarrow> bool" where
  "compressible p re \<longleftrightarrow> is_author_patch p \<and> \<not> marks_birth p \<and> re = Branch_patch []"

function compress :: "patch \<Rightarrow> patch option" where
  "compress a1 =
     (if nr_undo a1 = 0 then Some a1
      else (case get_undo a1 of None \<Rightarrow> None | Some un1 \<Rightarrow>
        do { re1 \<leftarrow> get_redo a1; p1 \<leftarrow> car un1;
          if \<not> compressible p1 re1 then Some a1
          else (case cdr un1 of None \<Rightarrow> None | Some d \<Rightarrow>
            do { a2 \<leftarrow> compress d;
              if nr_undo a2 = 0 then Some a1
              else do { un2 \<leftarrow> get_undo a2; re2 \<leftarrow> get_redo a2; p2 \<leftarrow> car un2;
                if \<not> compressible p2 re2 then Some a1
                else if get_author p1 \<noteq> get_author p2 then Some a1
                else do { let cun = compactify (patch_pair p1 p2);
                  d2 \<leftarrow> cdr un2;
                  Some (make_history (patch_pair cun d2) re2) } } }) }))"
  by pat_completeness auto
termination
  by (relation "measure size") (auto dest: below_size)

declare compress.simps [simp del]

function has_marker :: "patch \<Rightarrow> real \<Rightarrow> bool option" where
  "has_marker a m =
     (if nr_undo a = 0 then Some False
      else (case get_undo a of None \<Rightarrow> None | Some u \<Rightarrow>
        do { p \<leftarrow> car u;
          if is_marker p m False then Some True
          else (case cdr u of None \<Rightarrow> None | Some d \<Rightarrow> has_marker d m) }))"
  by pat_completeness auto
termination
  by (relation "measure (\<lambda>(a, m). size a)") (auto dest: below_size)

declare has_marker.simps [simp del]

function has_undo_marker :: "patch \<Rightarrow> real \<Rightarrow> bool option" where
  "has_undo_marker a marker =
     (if nr_undo a = 0 then Some False
      else (case get_undo a of None \<Rightarrow> None | Some u \<Rightarrow>
        do { p \<leftarrow> car u;
          if find_move_marker p = marker then Some True
          else (case cdr u of None \<Rightarrow> None | Some d \<Rightarrow> has_undo_marker d marker) }))"
  by pat_completeness auto
termination
  by (relation "measure (\<lambda>(a, m). size a)") (auto dest: below_size)

declare has_undo_marker.simps [simp del]

definition has_undo_move_marker :: "archiver \<Rightarrow> real \<Rightarrow> bool option" where
  "has_undo_move_marker a marker =
     (if active a then Some False else has_undo_marker (archive a) marker)"

text \<open>A marker below which there are futures is not removed: the whole archive is dropped.\<close>

function remove_marker_bis :: "patch \<Rightarrow> real \<Rightarrow> patch option" where
  "remove_marker_bis a m =
     (if nr_undo a = 0 then None
      else (case get_undo a of None \<Rightarrow> None | Some un \<Rightarrow>
        do { p \<leftarrow> car un;
          if is_marker p m False
          then (if nr_redo a \<noteq> 0 then Some (make_compound []) else cdr un)
          else do { re \<leftarrow> get_redo a;
            case cdr un of None \<Rightarrow> None | Some d \<Rightarrow>
            do { rem \<leftarrow> remove_marker_bis d m; Some (make_history (patch_pair p rem) re) } } }))"
  by pat_completeness auto
termination
  by (relation "measure (\<lambda>(a, m). size a)") (auto dest: below_size)

declare remove_marker_bis.simps [simp del]

definition remove_marker :: "patch \<Rightarrow> real \<Rightarrow> patch option" where
  "remove_marker a m =
     do { a \<leftarrow> compress a;
       found \<leftarrow> has_marker a m;
       if \<not> found then Some (make_compound [])
       else do { a \<leftarrow> compress a; remove_marker_bis a m } }"

definition mark_start :: "real \<Rightarrow> real \<Rightarrow> archiver \<Rightarrow> archiver option" where
  "mark_start author m a = do { a \<leftarrow> confirm a; a \<leftarrow> start_slave author m a; confirm a }"

definition mark_end :: "id_source \<Rightarrow> tree \<Rightarrow> real \<Rightarrow> archiver \<Rightarrow> archiver option" where
  "mark_end ids t m a =
     do { a \<leftarrow> (if active a then confirm a else Some a);
       ar \<leftarrow> remove_marker (archive a) m;
       simplify ids t (a\<lparr>archive := ar, depth := depth a - 1\<rparr>) }"

partial_function (option) mark_cancel_loop ::
  "id_source \<Rightarrow> real \<Rightarrow> archiver \<times> tree \<Rightarrow> ((archiver \<times> tree) \<times> bool) option" where
  "mark_cancel_loop ids m st =
     (if nr_undo (archive (fst st)) = 0 then Some (st, False)
      else do { a \<leftarrow> expose (fst st);
        let t = snd st;
        u \<leftarrow> get_undo (archive a); p \<leftarrow> car u;
        if is_marker p m False
        then do { ar \<leftarrow> remove_marker (archive a) m;
          a \<leftarrow> simplify (\<lambda>k. ids (0 # k)) t (a\<lparr>archive := ar, depth := depth a - 1\<rparr>);
          Some ((a, t), True) }
        else if get_author p \<noteq> the_author a
        then do { ar \<leftarrow> remove_marker (archive a) m;
          Some ((a\<lparr>archive := ar, depth := depth a - 1\<rparr>, t), False) }
        else do { (a, r) \<leftarrow> retract (\<lambda>k. ids (1 # k)) (a, t);
          st \<leftarrow> cancel (\<lambda>k. ids (2 # k)) (a, t);
          mark_cancel_loop (\<lambda>k. ids (3 # k)) m st } })"

declare mark_cancel_loop.simps [code]

definition mark_cancel :: "id_source \<Rightarrow> real \<Rightarrow> archiver \<times> tree \<Rightarrow> ((archiver \<times> tree) \<times> bool) option" where
  "mark_cancel ids m st =
     do { st \<leftarrow> cancel (\<lambda>k. ids (0 # k)) st; mark_cancel_loop (\<lambda>k. ids (1 # k)) m st }"

section \<open>Changes since the last save\<close>

fun marker_patch :: "patch \<Rightarrow> bool" where
  "marker_patch (Author_patch a (Birth_patch b c)) = (\<not> c)"
| "marker_patch (Birth_patch b c) = (\<not> c)"
| "marker_patch p = False"

definition corrected_depth :: "archiver \<Rightarrow> int option" where
  "corrected_depth a =
     (if nr_undo (archive a) = 0 then Some (depth a)
      else do { u \<leftarrow> get_undo (archive a); p \<leftarrow> car u;
        Some (if marker_patch p then depth a - 1 else depth a) })"

definition require_save :: "archiver \<Rightarrow> archiver" where
  "require_save a = a\<lparr>last_save := - 1\<rparr>"

definition notify_save :: "archiver \<Rightarrow> archiver option" where
  "notify_save a = do { d \<leftarrow> corrected_depth a; Some (a\<lparr>last_save := d\<rparr>) }"

definition conform_save :: "archiver \<Rightarrow> bool option" where
  "conform_save a = do { d \<leftarrow> corrected_depth a; Some (last_save a = d) }"

definition require_autosave :: "archiver \<Rightarrow> archiver" where
  "require_autosave a = a\<lparr>last_autosave := - 1\<rparr>"

definition notify_autosave :: "archiver \<Rightarrow> archiver" where
  "notify_autosave a = a\<lparr>last_autosave := depth a\<rparr>"

definition conform_autosave :: "archiver \<Rightarrow> bool" where
  "conform_autosave a \<longleftrightarrow> last_autosave a = depth a"

section \<open>All archivers\<close>

text \<open>
  The registered archivers, in the order of the iteration. \<open>global_confirm\<close> and \<open>global_cancel\<close>
  visit the archivers with pending modifications, which share the document.
\<close>

definition global_clear_history :: "archiver list \<Rightarrow> archiver list" where
  "global_clear_history as = map clear as"

fun global_confirm :: "id_source \<Rightarrow> tree \<Rightarrow> archiver list \<Rightarrow> archiver list option" where
  "global_confirm ids t [] = Some []"
| "global_confirm ids t (a # as) =
     do { a \<leftarrow> confirm a; a \<leftarrow> simplify (\<lambda>k. ids (0 # k)) t a;
          as \<leftarrow> global_confirm (\<lambda>k. ids (1 # k)) t as; Some (a # as) }"

fun global_cancel :: "id_source \<Rightarrow> tree \<Rightarrow> archiver list \<Rightarrow> (archiver list \<times> tree) option" where
  "global_cancel ids t [] = Some ([], t)"
| "global_cancel ids t (a # as) =
     do { (a, t) \<leftarrow> cancel (\<lambda>k. ids (0 # k)) (a, t); a \<leftarrow> simplify (\<lambda>k. ids (1 # k)) t a;
          (as, t) \<leftarrow> global_cancel (\<lambda>k. ids (2 # k)) t as; Some (a # as, t) }"

section \<open>Editing under an archiver\<close>

text \<open>
  One edit of the document: \<open>raw_apply\<close> checks the modification, gives it the identities it
  needs and announces it to the observers before it changes the tree. The undo observer passes
  it on to the archiver, unless it replaces the document of the archiver by itself; edits
  outside of that document are not announced to it.
\<close>

definition undo_announce :: "real \<Rightarrow> modification \<Rightarrow> archiver \<times> tree \<Rightarrow> archiver option" where
  "undo_announce author m st =
     (if mod_k m = MOD_ASSIGN \<and> mod_p m = rp (fst st) \<and> Some (mod_t m) = subtree (snd st) (rp (fst st))
      then Some (fst st)
      else archive_announce author m st)"

definition edit :: "(nat \<Rightarrow> string) \<Rightarrow> real \<Rightarrow> modification \<Rightarrow> archiver \<times> tree \<Rightarrow> (archiver \<times> tree) option" where
  "edit ids author m st =
     do { ok \<leftarrow> is_applicable (snd st) m;
       if \<not> ok then None
       else do { pm \<leftarrow> prepare_modification ids (snd st) m;
         a \<leftarrow> (if list_leq (rp (fst st)) (root pm) then undo_announce author pm st else Some (fst st));
         t \<leftarrow> raw_apply ids (snd st) pm;
         Some (a, t) } }"

end
