(* ===== verification/Athena_History.thy ===== *)
theory Athena_History
  imports Athena_Patch_Reverse Athena_Archiver
begin

text \<open>
  What the archiver of a document with a single author promises. The abstract history is a
  zipper: the patches that can be undone, each with the other futures of the state below it,
  and the tree of futures of the present state. Undoing and redoing move along the zipper; the
  archive of \<open>archiver.cpp\<close> is a concrete representation of it, and the operations of the
  archiver refine the moves. The invariant says that every patch of the history is reversible
  at the document it belongs to, so that no assertion of the archiver fails.
\<close>

section \<open>The abstract history and its representation\<close>

datatype future = Future patch "future list"

type_synonym past = "(patch \<times> future list) list"

fun conc_future :: "future \<Rightarrow> patch" where
  "conc_future (Future p fs) = patch_pair p (make_branches (map conc_future fs))"

definition conc_futures :: "future list \<Rightarrow> patch" where
  "conc_futures fs = make_branches (map conc_future fs)"

fun conc_undo :: "past \<Rightarrow> patch" where
  "conc_undo [] = Branch_patch []"
| "conc_undo ((p, alts) # past) = patch_pair p (make_history (conc_undo past) (conc_futures alts))"

definition conc :: "past \<Rightarrow> future list \<Rightarrow> patch" where
  "conc past futs = make_history (conc_undo past) (conc_futures futs)"

lemma conc_future_eq: "conc_future (Future p fs) = Compound_patch [p, conc_futures fs]"
  by (simp add: patch_pair_def conc_futures_def)

declare conc_future.simps [simp del]

lemma branches_future [simp]: "branches (conc_future f) = [conc_future f]"
  by (cases f) (simp add: conc_future_eq)

lemma branches_futures [simp]: "branches (conc_futures fs) = map conc_future fs"
  by (cases "length fs = 1") (auto simp: conc_futures_def make_branches_def length_Suc_conv)

lemma append_futures: "append_branches (conc_futures fs) (conc_futures gs) = conc_futures (fs @ gs)"
  by (simp add: append_branches_def) (simp add: conc_futures_def)

lemma append_future: "append_branches (conc_future f) (conc_futures gs) = conc_futures (f # gs)"
  by (simp add: append_branches_def) (simp add: conc_futures_def)

lemma nr_branches_eq: "nr_branches p = int (length (branches p))"
  by (cases p) simp_all

lemma nr_branches_futures [simp]: "nr_branches (conc_futures fs) = int (length fs)"
  by (simp add: nr_branches_eq)

lemma branch_futures: "branch (conc_futures fs) i = map_option conc_future (array_ref fs i)"
  by (auto simp: branch_def array_ref_def)

lemma conc_undo_branches [simp]:
  "branches (conc_undo past) = (if past = [] then [] else [conc_undo past])"
  by (cases past rule: conc_undo.cases) (simp_all add: patch_pair_def)

lemma branches_conc: "branches (conc past futs) =
    (if futs = [] then branches (conc_undo past) else conc_undo past # map conc_future futs)"
  by (cases "futs = []") (simp_all add: conc_def make_history_def make_branches_def)

lemma conc_empty [simp]: "conc [] [] = Branch_patch []"
  by (simp add: conc_def make_history_def make_branches_def conc_futures_def)

lemma conc_undo_Cons [simp]: "conc_undo ((p, alts) # past) = Compound_patch [p, conc past alts]"
  by (simp add: patch_pair_def conc_def)

declare conc_undo.simps(2) [simp del]

lemma nr_undo_conc [simp]: "nr_undo (conc past futs) = (if past = [] then 0 else 1)"
  by (cases past rule: conc_undo.cases)
    (simp_all add: nr_undo_def branch_def branches_conc array_ref_def del: conc_undo_branches)

lemma nr_redo_conc [simp]: "nr_redo (conc past futs) = int (length futs)"
  by (cases past; cases futs) (simp_all add: nr_redo_def nr_branches_eq branches_conc)

lemma get_undo_conc [simp]:
  "get_undo (conc ((p, alts) # past) futs) = Some (Compound_patch [p, conc past alts])"
  by (simp add: conc_def)

lemma get_undo_conc_any:
  "(if nr_branches (conc past futs) = 0 then Some (conc past futs) else get_undo (conc past futs)) =
   Some (conc_undo past)"
  by (cases past; cases futs)
    (auto simp: nr_branches_eq branches_conc get_undo_def branch_def array_ref_def)

lemma get_redo_conc [simp]: "get_redo (conc past futs) = Some (conc_futures futs)"
proof (cases "past = [] \<and> futs = []")
  case False
  then have "branches (conc past futs) = conc_undo past # map conc_future futs"
    by (simp add: branches_conc)
  then show ?thesis
    by (simp add: get_redo_def nr_branches_eq branches_range_def range_of_def conc_futures_def)
qed (auto simp: get_redo_def conc_futures_def)

lemma make_history_undo: "make_history (conc_undo past) (conc_futures futs) = conc past futs"
  by (simp add: conc_def)

lemma make_history_pair:
  "make_history (patch_pair p (conc past alts)) (conc_futures futs) = conc ((p, alts) # past) futs"
  by (simp add: conc_def patch_pair_def)

lemma patch_pair_conc: "patch_pair p (conc past futs) = conc ((p, futs) # past) []"
  by (simp add: conc_def make_history_def patch_pair_def make_branches_def)

section \<open>Cursor hints exist\<close>

definition nav_ok :: "navigation \<Rightarrow> bool" where
  "nav_ok nav \<longleftrightarrow> (\<forall>t p. nav_start nav t p \<noteq> [] \<and> nav_end nav t p \<noteq> [])"

text \<open>Patches made of modifications of the document, not of its metadata, without markers.\<close>

fun plain :: "patch \<Rightarrow> bool" where
  "plain (Modification_patch m i) \<longleftrightarrow> mod_k m \<noteq> MOD_SET_METADATA \<and> mod_k i \<noteq> MOD_SET_METADATA"
| "plain (Compound_patch ps) \<longleftrightarrow> list_all plain ps"
| "plain (Branch_patch ps) \<longleftrightarrow> list_all plain ps"
| "plain (Birth_patch a b) \<longleftrightarrow> False"
| "plain (Author_patch a p) \<longleftrightarrow> plain p"

lemma plain_flip [simp]: "plain (flip p) = plain p"
  by (induction p rule: flip.induct) (auto simp: list_all_iff)

lemma effect_is_applicable: "effect m t = Some t' \<Longrightarrow> is_applicable t m = Some True"
  using effect_iff [of m t t' "\<lambda>n. []"] by (auto simp: clean_apply_def split: bind_splits if_splits)

lemma effect_subtree: "effect m t = Some t' \<Longrightarrow> \<exists>st. subtree t (root m) = Some st \<and> local_edit m st \<noteq> None"
  unfolding effect_def using at_path_eq by fastforce

lemma splice_child: "splice_tree i 1 no_text f t = Some u \<Longrightarrow> \<exists>c. child t i = Some c"
  by (cases t) (auto simp: splice_tree_def no_text_def splice_at_def array_ref_def split: if_splits bind_splits)

lemma cursor_hint_returns:
  assumes "nav_ok nav" "effect m t = Some t'" "mod_k m \<noteq> MOD_SET_METADATA"
  shows "\<exists>r. cursor_hint nav m t = Some r \<and> (r = [] \<longrightarrow> t' = t)"
proof -
  obtain st where st: "subtree t (root m) = Some st" "local_edit m st \<noteq> None"
    using effect_subtree [OF assms(2)] by blast
  note ok = effect_is_applicable [OF assms(2)]
  have wf: "wf_mod m"
    using assms(2) by (rule effect_wf_mod)
  then have p: "mod_k m = MOD_SPLIT \<Longrightarrow> mod_p m \<noteq> []"
    by (auto simp: wf_mod_def arity_def)
  show ?thesis
    using assms st ok p set_cursor_effect [OF assms(2)]
    by (cases "mod_k m")
      (auto simp: cursor_hint_def nav_ok_def local_edit_def Let_def dest: splice_child split: bind_splits if_splits)
qed

lemma patch_cursor_hint_returns:
  assumes "nav_ok nav"
  shows "rev_effect p t = Some t' \<Longrightarrow> plain p \<Longrightarrow>
      \<exists>r. patch_cursor_hint nav p t = Some r \<and> (r = [] \<longrightarrow> t' = t)"
    and "rev_effects ps t = Some t' \<Longrightarrow> list_all plain ps \<Longrightarrow>
      \<exists>r. patches_cursor_hint nav ps t = Some r \<and> (r = [] \<longrightarrow> t' = t)"
proof (induction p t and ps t arbitrary: t' and t' rule: rev_effect_rev_effects.induct)
  case (1 m i t)
  then show ?case
    using cursor_hint_returns [OF assms] by (simp add: rev_leaf_Some)
next
  case (3 ps t)
  then have "\<exists>r. patches_cursor_hint nav ps t = Some r \<and> (r = [] \<longrightarrow> t' = t)" "length ps \<le> 1"
    by (auto split: if_splits)
  then show ?case
    by (cases ps) (auto split: bind_splits if_splits)
next
  case (7 p ps t)
  then obtain u where u: "rev_effect p t = Some u" "rev_effects ps u = Some t'"
    by (auto split: bind_splits)
  obtain r where r: "patch_cursor_hint nav p t = Some r" "r = [] \<longrightarrow> u = t"
    using "7.IH"(1) [OF u(1)] "7.prems" by auto
  show ?case
  proof (cases "r = []")
    case True
    with r u "7.IH"(2) [OF u] "7.prems" show ?thesis by simp
  qed (use r in simp)
qed auto

section \<open>Consistent histories\<close>

text \<open>
  A future is consistent with a document when its patch is reversible there and the futures
  behind it are consistent with the result; all patches are of the author \<open>au\<close>.
\<close>

definition own :: "real \<Rightarrow> patch \<Rightarrow> bool" where
  "own au p \<longleftrightarrow> is_author_patch p \<and> get_author p = au \<and> plain p"

fun fut_ok :: "real \<Rightarrow> tree \<Rightarrow> future \<Rightarrow> bool" where
  "fut_ok au t (Future p fs) \<longleftrightarrow> own au p \<and>
     (case rev_effect p t of None \<Rightarrow> False | Some t' \<Rightarrow> list_all (fut_ok au t') fs)"

fun past_ok :: "real \<Rightarrow> tree \<Rightarrow> past \<Rightarrow> bool" where
  "past_ok au t [] \<longleftrightarrow> True"
| "past_ok au t ((p, alts) # past) \<longleftrightarrow> own au p \<and>
     (case rev_effect p t of None \<Rightarrow> False
      | Some t' \<Rightarrow> list_all (fut_ok au t') alts \<and> past_ok au t' past)"

lemma get_author_flip [simp]: "get_author (flip p) = get_author p"
  by (cases p) simp_all

lemma is_author_flip [simp]: "is_author_patch (flip p) = is_author_patch p"
  by (cases p) simp_all

lemma own_flip [simp]: "own au (flip p) = own au p"
  by (simp add: own_def)

text \<open>
  \<open>history_of a t0 past futs\<close>: the archive of \<open>a\<close> represents a history that is consistent with
  the document \<open>t0\<close>; \<open>consistent a t\<close>: it is consistent with the document that is left when the
  pending modifications are undone in \<open>t\<close>.
\<close>

definition history_of :: "archiver \<Rightarrow> tree \<Rightarrow> past \<Rightarrow> future list \<Rightarrow> bool" where
  "history_of a t0 past futs \<longleftrightarrow> archive a = conc past futs \<and>
     past_ok (the_author a) t0 past \<and> list_all (fut_ok (the_author a) t0) futs"

lemma get_undo_futures:
  "alts \<noteq> [] \<Longrightarrow> get_undo (conc past alts) = Some (conc_undo past)"
  by (simp add: get_undo_def nr_branches_eq branch_def branches_conc array_ref_def)

lemma normalize_own:
  assumes "archive a = conc past futs" "past \<noteq> [] \<Longrightarrow> get_author (fst (hd past)) = the_author a"
  shows "normalize a = Some a"
  using assms by (cases past rule: conc_undo.cases) (auto simp: normalize_def get_undo_futures)

lemma archiver_apply_rev:
  assumes "rev_effect p t = Some t'"
  shows "archiver_apply ids p (a, t) = Some (a, t')"
  using rev_effect_applicable(1) [OF assms] rev_effect_apply [OF assms]
  by (simp add: archiver_apply_def)

lemma undo_one_refines:
  assumes h: "history_of a t ((p, alts) # past) futs" and "\<not> active a" "nav_ok nav"
  obtains t' h where "rev_effect p t = Some t'"
    "undo_one ids nav 0 (a, t) =
       Some ((a\<lparr>archive := conc past (Future (flip p) futs # alts), depth := depth a - 1\<rparr>, t'), h)"
    "history_of (a\<lparr>archive := conc past (Future (flip p) futs # alts), depth := depth a - 1\<rparr>) t'
       past (Future (flip p) futs # alts)"
proof -
  let ?au = "the_author a"
  obtain t' where t': "rev_effect p t = Some t'" "list_all (fut_ok ?au t') alts" "past_ok ?au t' past" "own ?au p"
    and f: "list_all (fut_ok ?au t) futs" and ar: "archive a = conc ((p, alts) # past) futs"
    using h by (auto simp: history_of_def split: option.splits)
  have bk: "rev_effect (flip p) t' = Some t"
    using t'(1) by (rule rev_effect_flip)
  obtain r where r: "patch_cursor_hint nav (flip p) t' = Some r"
    using patch_cursor_hint_returns(1) [OF assms(3) bk] t'(4) by (auto simp: own_def)
  have "append_branches (patch_pair (flip p) (conc_futures futs)) (conc_futures alts) =
      conc_futures (Future (flip p) futs # alts)"
    using append_future [of "Future (flip p) futs" alts] by (simp add: conc_future_eq patch_pair_def)
  then have u: "undo_one ids nav 0 (a, t) =
      Some ((a\<lparr>archive := conc past (Future (flip p) futs # alts), depth := depth a - 1\<rparr>, t'), r)"
    using assms(2) ar r t'(1) get_undo_conc_any [of past alts]
    by (simp add: undo_one_def undo_possibilities_def rev_effect_applicable(1) rev_effect_invert(1)
        archiver_apply_rev make_history_undo)
  have "history_of (a\<lparr>archive := conc past (Future (flip p) futs # alts), depth := depth a - 1\<rparr>) t'
       past (Future (flip p) futs # alts)"
    using t' f bk by (simp add: history_of_def)
  with that t'(1) u show thesis by blast
qed

lemma redo_one_refines:
  assumes h: "history_of a t past futs" and "\<not> active a" "nav_ok nav"
    and i: "i < length futs" "futs ! i = Future p fs"
  defines "past' \<equiv> (flip p, take i futs @ drop (Suc i) futs) # past"
  defines "a' \<equiv> a\<lparr>archive := conc past' fs,
      last_save := (if depth a \<le> last_save a \<and> i \<noteq> 0 then - 1 else last_save a),
      last_autosave := (if depth a \<le> last_autosave a \<and> i \<noteq> 0 then - 1 else last_autosave a),
      depth := depth a + 1\<rparr>"
  obtains t' h where "rev_effect p t = Some t'" "redo_one ids nav (int i) (a, t) = Some ((a', t'), h)"
    "history_of a' t' past' fs"
proof -
  let ?au = "the_author a"
  have all: "list_all (fut_ok ?au t) futs" and past: "past_ok ?au t past" and ar: "archive a = conc past futs"
    using h by (auto simp: history_of_def)
  then have "fut_ok ?au t (Future p fs)"
    using i by (metis list_all_length)
  then obtain t' where t': "rev_effect p t = Some t'" "list_all (fut_ok ?au t') fs" "own ?au p"
    by (auto split: option.splits)
  have bk: "rev_effect (flip p) t' = Some t"
    using t'(1) by (rule rev_effect_flip)
  obtain r where r: "patch_cursor_hint nav (flip p) t' = Some r"
    using patch_cursor_hint_returns(1) [OF assms(3) bk] t'(3) by (auto simp: own_def)
  have un: "get_undo (archive a) = Some (conc_undo past)"
    using get_undo_futures [of futs past] i(1) ar by (cases futs) auto
  have b: "branch (conc_futures futs) (int i) = Some (Compound_patch [p, conc_futures fs])"
    using i by (simp add: branch_futures array_ref_def conc_future_eq)
  have ranges: "branches_range (conc_futures futs) 0 (int i) = Some (map conc_future (take i futs))"
    "branches_range (conc_futures futs) (int i + 1) (int (length futs)) = Some (map conc_future (drop (Suc i) futs))"
    using i(1) by (simp_all add: branches_range_def range_of_def take_map drop_map nat_add_distrib)
  have other: "make_branches (map conc_future (take i futs) @ map conc_future (drop (Suc i) futs)) =
      conc_futures (take i futs @ drop (Suc i) futs)"
    by (simp add: conc_futures_def)
  have ar': "make_history (patch_pair (flip p) (make_history (conc_undo past)
      (conc_futures (take i futs @ drop (Suc i) futs)))) (conc_futures fs) = conc past' fs"
    unfolding past'_def make_history_undo make_history_pair ..
  have norm: "normalize a' = Some a'"
    by (rule normalize_own [of _ past' fs]) (use t'(3) in \<open>simp_all add: a'_def past'_def own_def\<close>)
  have a'_eq: "a\<lparr>archive := conc past' fs,
      last_save := (if depth a \<le> last_save a \<and> i \<noteq> 0 then - 1 else last_save a),
      last_autosave := (if depth a \<le> last_autosave a \<and> i \<noteq> 0 then - 1 else last_autosave a),
      depth := depth a + 1\<rparr> = a'" by (simp add: a'_def)
  have "futs \<noteq> []" using i(1) by auto
  then have rd: "redo_one ids nav (int i) (a, t) = Some ((a', t'), r)"
    using assms(2) i(1) un b r ranges other norm ar ar' t'(1)
    by (simp add: redo_one_def redo_possibilities_def rev_effect_applicable(1) rev_effect_invert(1)
        archiver_apply_rev Let_def a'_def cong: if_cong split del: if_split)
  have "list_all (fut_ok ?au t) (take i futs @ drop (Suc i) futs)"
    using all by (auto simp: list_all_iff dest: in_set_takeD in_set_dropD)
  then have "history_of a' t' past' fs"
    using t' bk past by (simp add: history_of_def a'_def past'_def)
  with that t'(1) rd show thesis by blast
qed

end
