(* ===== verification/Athena_Session.thy ===== *)
theory Athena_Session
  imports Athena_Invert Athena_History
begin

text \<open>
  Editing sessions of a single author: edits, confirmation, cancellation, undo, redo and saving
  in any order. The invariant ties the archiver to the document: undoing the pending
  modifications leads to a document the history is consistent with, and the depth counters
  locate the saved document on the time line of the history.
\<close>

section \<open>Recording an edit\<close>

definition admissible :: "archiver \<Rightarrow> tree \<Rightarrow> modification \<Rightarrow> bool" where
  "admissible a t m \<longleftrightarrow> wf_tree t \<and> nonneg_remove m \<and> \<not> ambiguous_wrapper t m \<and>
     mod_k m \<noteq> MOD_SET_METADATA \<and> list_leq (rp a) (root m)"

definition pending :: "archiver \<Rightarrow> tree \<Rightarrow> tree \<Rightarrow> bool" where
  "pending a t t0 \<longleftrightarrow> rev_effect (current a) t = Some t0 \<and> plain (current a) \<and> \<not> versioning a \<and>
     the_owner a \<in> {0, the_author a} \<and> (active a \<longrightarrow> the_owner a = the_author a)"

lemma inactive_current: "\<not> active a \<longleftrightarrow> current a = Compound_patch []"
  by (cases "current a") (auto simp: active_def)

lemma pending_inactive: "pending a t t0 \<Longrightarrow> \<not> active a \<Longrightarrow> t0 = t"
  by (simp add: pending_def inactive_current)

lemma pending_moves: "pending a t t0 \<Longrightarrow> \<not> active a \<Longrightarrow> pending a u u"
  using inactive_current [of a] by (auto simp: pending_def)

lemma prepared_effect:
  assumes "is_applicable t m = Some True" "prepare_modification ids t m = Some pm"
    "wf_tree t" "nonneg_remove m"
  obtains t' where "effect pm t = Some t'"
proof -
  have "ready ids t pm"
    using assms(4) prepare_resolves [OF assms(1-3)] prepare_shape [OF assms(2)]
    by (simp add: ready_def nonneg_remove_def argument_def)
  with ready_progress that show thesis by blast
qed

lemma invert_kind: "invert m t = Some mi \<Longrightarrow> mod_k m \<noteq> MOD_SET_METADATA \<Longrightarrow> mod_k mi \<noteq> MOD_SET_METADATA"
  by (cases "mod_k m") (auto simp: invert_def Let_def split: bind_splits if_splits)

lemma at_path_fix:
  "at_path p f t = Some t' \<Longrightarrow> subtree t p = Some s \<Longrightarrow> f s = Some s \<Longrightarrow> t' = t"
proof (induction p arbitrary: t t')
  case (Cons i p)
  then obtain c c' where c: "child t i = Some c" "at_path p f c = Some c'" "t' = set_child t i c'"
    by (auto split: bind_splits)
  then have "subtree c p = Some s"
    using Cons.prems(2) by (cases t) (auto simp: array_ref_def split: if_splits)
  with Cons.IH [OF c(2) _ Cons.prems(3)] c show ?case
    by (cases t) (auto simp: set_child_def array_ref_def split: if_splits)
qed simp

lemma assign_same:
  assumes "effect m t = Some t'" "mod_k m = MOD_ASSIGN" "subtree t (root m) = Some (mod_t m)"
  shows "t' = t"
proof -
  have "local_edit m (mod_t m) = Some (mod_t m)"
    using assms(2) by (simp add: local_edit_def)
  with assms show ?thesis
    unfolding effect_def by (blast intro: at_path_fix)
qed

lemma root_prefix: "prefix (root m) (mod_p m)"
  by (cases "mod_k m") (auto simp: root_def intro: prefixeq_butlast prefix_order.trans)

lemma edit_pending:
  assumes "pending a t t0" "admissible a t m" "edit ids (the_author a) m (a, t) = Some (a', t')"
  shows "pending a' t' t0 \<and> (\<exists>c w. a' = a\<lparr>current := c, the_owner := w\<rparr>)"
proof -
  have wf: "wf_tree t" "nonneg_remove m" "\<not> ambiguous_wrapper t m" "mod_k m \<noteq> MOD_SET_METADATA"
      "list_leq (rp a) (root m)"
    using assms(2) by (auto simp: admissible_def)
  obtain pm where ok: "is_applicable t m = Some True" and pm: "prepare_modification ids t m = Some pm"
    and an: "(if list_leq (rp a) (root pm) then undo_announce (the_author a) pm (a, t) else Some a) = Some a'"
    and raw: "raw_apply ids t pm = Some t'"
    using assms(3) by (auto simp: edit_def split: bind_splits if_splits)
  have shape: "mod_k pm = mod_k m" "mod_p pm = mod_p m" "root pm = root m"
    using prepare_shape [OF pm] by (simp_all add: root_def cong: modification_type.case_cong)
  obtain u where eff: "effect pm t = Some u"
    using prepared_effect [OF ok pm wf(1, 2)] by blast
  with raw raw_apply_effect have e: "effect pm t = Some t'" by fastforce
  have "\<not> ambiguous_wrapper t pm"
    using wf(3) shape by (simp add: ambiguous_wrapper_def)
  then obtain mi where mi: "invert pm t = Some mi" "effect mi t' = Some t"
    using invert_effect [OF e wf(1)] by blast
  have an: "undo_announce (the_author a) pm (a, t) = Some a'"
    using an wf(5) shape by simp
  show ?thesis
  proof (cases "mod_k pm = MOD_ASSIGN \<and> mod_p pm = rp a \<and> Some (mod_t pm) = subtree t (rp a)")
    case True
    then have "t' = t"
      using assign_same [OF e] by (auto simp: root_def)
    moreover have "a' = a"
      using an True by (simp add: undo_announce_def)
    ultimately show ?thesis
      using assms(1) by (metis archiver.surjective archiver.update_convs(2,7))
  next
    case False
    have "prefix (rp a) (mod_p pm)"
      using wf(5) root_prefix [of pm] shape(3) by (auto intro: prefix_order.trans)
    have so: "switch_owner (the_author a) a = Some (a\<lparr>the_owner := the_author a\<rparr>)"
      using assms(1) by (auto simp: switch_owner_def pending_def)
    have "a' = a\<lparr>current := patch_pair (Modification_patch mi pm) (current a), the_owner := the_author a\<rparr>"
      using an False so mi assms(1) \<open>prefix (rp a) (mod_p pm)\<close>
      by (auto simp: undo_announce_def archive_announce_def add_def pending_def)
    moreover have "rev_effect (Modification_patch mi pm) t' = Some t"
      using e mi by (simp add: rev_leaf_Some)
    moreover have "plain (Modification_patch mi pm)"
      using invert_kind [OF mi(1)] wf(4) shape by simp
    ultimately show ?thesis
      using assms(1) by (simp add: pending_def patch_pair_def active_def) blast
  qed
qed

section \<open>Confirming and cancelling\<close>

lemma plain_insert:
  shows "list_all plain a \<Longrightarrow> plain p \<Longrightarrow> list_all plain (patch_insert a p)"
    and "list_all plain a \<Longrightarrow> list_all plain ps \<Longrightarrow> list_all plain (patch_insert_all a ps)"
proof (induction a p and a ps rule: patch_insert_patch_insert_all.induct)
  case (2 a m i)
  have "list_all plain (butlast a)"
    using 2 by (auto simp: list_all_iff dest: in_set_butlastD)
  with 2 show ?case by simp
qed simp_all

lemma plain_author_body: "plain p \<Longrightarrow> plain (author_body p)"
  by (cases p) auto

lemma plain_nth: "list_all plain r \<Longrightarrow> length r = 1 \<Longrightarrow> plain (r ! 0)"
  by (simp add: list_all_length)

lemma plain_compactify: "plain p \<Longrightarrow> plain (compactify p)"
proof (induction p rule: compactify.induct)
  case (1 ps)
  have "list_all plain (patch_insert_all [] ps)"
    by (rule plain_insert(2)) (use 1 in simp_all)
  moreover have "list_all plain (patch_insert_all [] (map author_body ps))"
    by (rule plain_insert(2)) (use 1 in \<open>simp_all add: list_all_iff plain_author_body\<close>)
  ultimately show ?case
    using plain_nth by (simp add: Let_def)
next
  case (2 ps)
  then show ?case by (auto simp: list_all_iff)
qed auto

lemma confirm_refines:
  assumes p: "pending a t t0" and h: "history_of a t0 past futs" and act: "active a"
  defines "c \<equiv> Author_patch (the_author a) (compactify (current a))"
  shows "nr_children (remove_set_cursor c) = 0 \<Longrightarrow> t0 = t \<and>
      confirm a = Some (a\<lparr>current := Compound_patch [], the_owner := 0\<rparr>)"
    and "nr_children (remove_set_cursor c) \<noteq> 0 \<Longrightarrow>
      confirm a = Some (a\<lparr>archive := conc ((c, futs) # past) [], current := Compound_patch [], the_owner := 0,
        depth := depth a + 1,
        last_save := (if depth a + 1 \<le> last_save a then - 1 else last_save a),
        last_autosave := (if depth a + 1 \<le> last_autosave a then - 1 else last_autosave a)\<rparr>) \<and>
      rev_effect c t = Some t0 \<and> own (the_author a) c"
proof -
  have ow: "the_owner a = the_author a" and r: "rev_effect c t = Some t0" and pl: "plain c"
    using p act by (auto simp: pending_def c_def rev_effect_compactify plain_compactify)
  have ar: "archive a = conc past futs"
    using h by (simp add: history_of_def)
  {
    assume e: "nr_children (remove_set_cursor c) = 0"
    then have "remove_set_cursor c = Compound_patch []"
      by (cases "remove_set_cursor c") auto
    then have "t0 = t"
      using rev_effect_remove_set_cursor(1) [OF r] by simp
    with e act ow show "t0 = t \<and> confirm a = Some (a\<lparr>current := Compound_patch [], the_owner := 0\<rparr>)"
      by (simp add: confirm_def c_def make_compound_def active_def Let_def)
  }
  assume e: "nr_children (remove_set_cursor c) \<noteq> 0"
  let ?b = "a\<lparr>archive := conc ((c, futs) # past) [], current := Compound_patch [], the_owner := 0,
        depth := depth a + 1,
        last_save := (if depth a + 1 \<le> last_save a then - 1 else last_save a),
        last_autosave := (if depth a + 1 \<le> last_autosave a then - 1 else last_autosave a)\<rparr>"
  have "normalize ?b = Some ?b"
    by (rule normalize_own [of _ "(c, futs) # past" "[]"]) (simp_all add: c_def)
  then have "confirm a = Some ?b"
    using e act ow ar patch_pair_conc [of c past futs]
    by (simp add: confirm_def c_def [symmetric] make_compound_def Let_def active_def cong: if_cong split del: if_split)
      (simp add: c_def)
  with r pl show "confirm a = Some ?b \<and> rev_effect c t = Some t0 \<and> own (the_author a) c"
    by (simp add: own_def c_def)
qed

lemma cancel_refines:
  assumes "pending a t t0"
  shows "cancel ids (a, t) =
    Some (if active a then a\<lparr>current := Compound_patch [], the_owner := 0\<rparr> else a, t0)"
  using assms pending_inactive [OF assms]
  by (auto simp: cancel_def pending_def archiver_apply_rev make_compound_def)

section \<open>Simplification\<close>

lemma join_kind: "join m1 m2 t = Some (Some m) \<Longrightarrow> mod_k m \<in> {MOD_INSERT, MOD_REMOVE}"
  by (auto simp: join_def mod_insert_def mod_remove_def modification2_def modification3_def Let_def
      split: bind_splits if_splits)

lemma plain_join_leaf:
  "join_modifications ids m1 i1 m2 i2 t = Some (Some p) \<Longrightarrow> plain p"
  using join_kind by (fastforce simp: join_modifications_def split: bind_splits option.splits)

lemma plain_remove_set_cursor: "plain p \<Longrightarrow> plain (remove_set_cursor p)"
proof (induction p rule: remove_set_cursor.induct)
  case (2 ps)
  have "list_all plain (patch_children q)" if "plain q" for q
    using that by (cases q) auto
  with 2 have "list_all plain (concat (map (\<lambda>p. patch_children (remove_set_cursor p)) ps))"
    by (auto simp: list_all_iff)
  then show ?case using plain_nth by (simp add: Let_def)
qed (auto simp: Let_def)

lemma plain_join:
  "patch_join ids p1 p2 t = Some (Some p) \<Longrightarrow> plain p1 \<Longrightarrow> plain p2 \<Longrightarrow> plain p"
proof (induction "weight p1 + weight p2" arbitrary: p1 p2 p rule: less_induct)
  case less
  have ch: "list_all plain (patch_children q)" if "plain q" for q
    using that by (cases q) auto
  from less.prems(1) show ?case
  proof (cases rule: patch_join_Some)
    case (author a b1 b2 q)
    then show ?thesis using less.hyps [of b1 b2 q] less.prems by simp
  next
    case (leaf m1 i1 m2 i2)
    then show ?thesis using plain_join_leaf by blast
  next
    case (first q c)
    have "plain q"
      by (rule less.hyps [OF _ first(3)]) (use first less.prems in \<open>simp_all add: weight_remove_set_cursor_less plain_remove_set_cursor\<close>)
    moreover obtain cs where "p1 = Compound_patch (c # cs)"
      using patch_child_first first by blast
    ultimately show ?thesis
      using first(5) less.prems ch by (auto simp: append_patches_def)
  next
    case (second q c)
    have "plain q"
      by (rule less.hyps [OF _ second(3)]) (use second less.prems in \<open>simp_all add: weight_remove_set_cursor_less plain_remove_set_cursor\<close>)
    moreover obtain cs where "p2 = Compound_patch (cs @ [c])"
      using patch_child_last second by blast
    ultimately show ?thesis
      using second(5) less.prems ch by (auto simp: append_patches_def)
  qed
qed

lemma wf_mod_index_Some:
  assumes "wf_mod m" "mod_k m \<in> {MOD_INSERT, MOD_REMOVE}"
  shows "\<exists>i. index m = Some i"
  using wf_mod_index [OF assms(1)] assms(2) by auto

lemma insert_text:
  assumes "local_edit m s = Some s'" "mod_k m = MOD_INSERT"
  shows "is_atomic s' = is_atomic s \<and> is_atomic (mod_t m) = is_atomic s"
  using assms by (cases s; cases "mod_t m")
    (auto simp: local_edit_def splice_tree_def splice_at_def compound_children_def split: bind_splits if_splits)

lemma join_returns:
  assumes "seq2 m1 m2 t = Some t2"
  shows "join m1 m2 t \<noteq> None"
proof -
  obtain t1 where e: "effect m1 t = Some t1" "effect m2 t1 = Some t2"
    using assms by (auto simp: seq2_Some)
  note wf = effect_wf_mod [OF e(1)] effect_wf_mod [OF e(2)]
  obtain s1 s1' where s1: "subtree t (root m1) = Some s1" "local_edit m1 s1 = Some s1'"
    using effect_subtree [OF e(1)] by blast
  obtain s2 s2' where s2: "subtree t1 (root m2) = Some s2" "local_edit m2 s2 = Some s2'"
    using effect_subtree [OF e(2)] by blast
  have same: "s2 = s1'" if "root m1 = root m2"
    using has_subtree_at_path [OF e(1) [unfolded effect_def]] s1 s2 that by simp
  have ins: "is_atomic (mod_t m2)" if "root m1 = root m2" "mod_k m1 = MOD_INSERT" "mod_k m2 = MOD_INSERT" "is_atomic (mod_t m1)"
    using insert_text [OF s1(2) that(2)] insert_text [OF s2(2) that(3)] same that by simp
  show ?thesis
    using wf_mod_index_Some [OF wf(1)] wf_mod_index_Some [OF wf(2)] wf_mod_argument [OF wf(1)] wf_mod_argument [OF wf(2)]
      ins s1(1)
    by (auto simp: join_def is_atomic_iff Let_def)
qed

lemma join_modifications_returns:
  assumes "rev_leaf m1 i1 t = Some t1" "rev_leaf m2 i2 t1 = Some t2"
  shows "join_modifications ids m1 i1 m2 i2 t \<noteq> None"
proof -
  have "seq2 m1 m2 t = Some t2" "seq2 i2 i1 t2 = Some t"
    using assms by (auto simp: seq2_Some rev_leaf_Some)
  then have "join m1 m2 t \<noteq> None" "join i2 i1 t2 \<noteq> None"
    using join_returns by blast+
  moreover have "clean_apply (ids [0]) t m1 = Some t1" "clean_apply (ids [1]) t1 m2 = Some t2"
    using assms effect_iff by (auto simp: rev_leaf_Some)
  ultimately show ?thesis
    by (auto simp: join_modifications_def)
qed

lemma patch_join_returns:
  "rev_effect p1 t = Some t1 \<Longrightarrow> rev_effect p2 t1 = Some t2 \<Longrightarrow> patch_join ids p1 p2 t \<noteq> None"
proof (induction "weight p1 + weight p2" arbitrary: p1 p2 rule: less_induct)
  case less
  let ?auth = "is_author_patch p1 \<and> is_author_patch p2 \<and> get_author p1 = get_author p2"
  let ?c1 = "is_compound_patch p1 \<and> nr_children p1 > 0 \<and> nr_children (remove_set_cursor p1) = 1"
  let ?c2 = "is_compound_patch p2 \<and> nr_children p2 > 0 \<and> nr_children (remove_set_cursor p2) = 1"
  let ?leaf = "(\<exists>m1 i1. p1 = Modification_patch m1 i1) \<and> (\<exists>m2 i2. p2 = Modification_patch m2 i2)"
  have body: "rev_effect (author_body p) = rev_effect p" for p
    by (cases p) (auto simp: fun_eq_iff)
  have child1: "patch_child p1 0 \<noteq> None" if ?c1
    using that by (cases p1) (auto simp: patch_child_def array_ref_def)
  have child2: "patch_child p2 (nr_children p2 - 1) \<noteq> None" if ?c2
    using that by (cases p2) (auto simp: patch_child_def array_ref_def)
  consider ?auth | "\<not> ?auth" ?leaf | "\<not> ?auth" "\<not> ?leaf" ?c1 | "\<not> ?auth" "\<not> ?leaf" "\<not> ?c1" ?c2
    | "\<not> ?auth" "\<not> ?leaf" "\<not> ?c1" "\<not> ?c2"
    by blast
  then show ?case
  proof cases
    case 1
    have "patch_join ids (author_body p1) (author_body p2) t \<noteq> None"
      using less.prems 1 by (intro less.hyps) (simp_all add: add_less_mono weight_author_body body)
    with 1 show ?thesis by (auto simp: patch_join.simps [of ids p1 p2])
  next
    case 2
    then show ?thesis
      using less.prems join_modifications_returns by (auto simp: patch_join.simps [of ids p1 p2])
  next
    case 3
    have "patch_join ids (remove_set_cursor p1) p2 t \<noteq> None"
      using less.prems 3(3)
      by (intro less.hyps) (simp_all add: weight_remove_set_cursor_less rev_effect_remove_set_cursor(1))
    with child1 [OF 3(3)] show ?thesis
      unfolding patch_join.simps [of ids p1 p2] pair_default [OF 3(2)] if_not_P [OF 3(1)] if_P [OF 3(3)]
      by (auto split: option.splits)
  next
    case 4
    have "patch_join ids p1 (remove_set_cursor p2) t \<noteq> None"
      using less.prems 4(4)
      by (intro less.hyps) (simp_all add: weight_remove_set_cursor_less rev_effect_remove_set_cursor(1))
    with child2 [OF 4(4)] show ?thesis
      unfolding patch_join.simps [of ids p1 p2] pair_default [OF 4(2)] if_not_P [OF 4(1)] if_not_P [OF 4(3)]
        if_P [OF 4(4)]
      by (auto split: option.splits)
  next
    case 5
    then show ?thesis
      unfolding patch_join.simps [of ids p1 p2] pair_default [OF 5(2)] if_not_P [OF 5(1)] if_not_P [OF 5(3)]
        if_not_P [OF 5(4)] by simp
  qed
qed

lemma own_join:
  assumes "patch_join ids p1 p2 t = Some (Some p)" "own au p1" "own au p2"
  shows "own au p"
proof -
  have "is_author_patch p \<and> get_author p = au"
    using assms(1)
    by (cases rule: patch_join_Some) (use assms in \<open>auto simp: own_def elim: is_compound_patch.elims\<close>)
  with assms plain_join show ?thesis by (auto simp: own_def)
qed

section \<open>The time line of a history\<close>

text \<open>The documents along the past, from the present one back, and along the first futures.\<close>

fun past_docs :: "tree \<Rightarrow> past \<Rightarrow> tree list" where
  "past_docs t [] = []"
| "past_docs t ((p, alts) # past) =
     (case rev_effect p t of None \<Rightarrow> [] | Some t' \<Rightarrow> t' # past_docs t' past)"

fun fut_docs :: "tree \<Rightarrow> future list \<Rightarrow> tree list" where
  "fut_docs t [] = []"
| "fut_docs t (Future p fs # rest) =
     (case rev_effect p t of None \<Rightarrow> [] | Some t' \<Rightarrow> t' # fut_docs t' fs)"

definition timeline :: "tree \<Rightarrow> past \<Rightarrow> future list \<Rightarrow> tree list" where
  "timeline t past futs = rev (past_docs t past) @ t # fut_docs t futs"

lemma length_past_docs: "past_ok au t past \<Longrightarrow> length (past_docs t past) = length past"
  by (induction past arbitrary: t) (auto split: option.splits)

lemma timeline_undo:
  "rev_effect p t = Some t' \<Longrightarrow> timeline t' past (Future (flip p) futs # alts) = timeline t ((p, alts) # past) futs"
  by (simp add: timeline_def rev_effect_flip(1))

lemma timeline_redo:
  assumes "rev_effect p t = Some t'"
  shows "timeline t' ((flip p, alts) # past) fs = rev (past_docs t past) @ t # t' # fut_docs t' fs"
  using rev_effect_flip(1) [OF assms] by (simp add: timeline_def)

text \<open>The saved document, if its position is still known, is found on the time line at the position \<open>last_save\<close>.\<close>

definition saved :: "archiver \<Rightarrow> tree \<Rightarrow> past \<Rightarrow> future list \<Rightarrow> tree option \<Rightarrow> bool" where
  "saved a t0 past futs S \<longleftrightarrow> depth a = int (length past) \<and>
     (S = None \<or> last_save a = - 1 \<or>
      0 \<le> last_save a \<and> nat (last_save a) < length (timeline t0 past futs) \<and>
      S = Some (timeline t0 past futs ! nat (last_save a)))"

lemma saved_prefix:
  assumes "saved a t0 past futs S" and "depth a' = int (length past')" "past_ok au t0 past"
    and ls: "last_save a' = - 1 \<or> last_save a' = last_save a \<and> last_save a' < int (length xs)"
    and "timeline t0 past futs = xs @ ys" "timeline t1 past' futs' = xs @ zs"
  shows "saved a' t1 past' futs' S"
  using assms by (auto simp: saved_def nth_append nat_less_iff split: if_splits)

lemma simplify_refines:
  "history_of a t past futs \<Longrightarrow> saved a t past futs S \<Longrightarrow> S = None \<or> last_save a < depth a \<or> past = [] \<Longrightarrow>
   \<exists>a' past'. simplify ids t a = Some a' \<and> history_of a' t past' futs \<and> saved a' t past' futs S \<and>
     (\<exists>ar d ls. a' = a\<lparr>archive := ar, depth := d, last_autosave := ls\<rparr>)"
proof (induction "length past" arbitrary: a past ids rule: less_induct)
  case less
  let ?au = "the_author a"
  have ar: "archive a = conc past futs"
    using less.prems(1) by (simp add: history_of_def)
  have stay: ?case if "simplify ids t a = Some a"
  proof (intro exI conjI)
    show "a = a\<lparr>archive := archive a, depth := depth a, last_autosave := last_autosave a\<rparr>" by simp
  qed (use that less.prems in simp_all)
  show ?case
  proof (cases "\<exists>p1 p2 alts past'. past = (p1, []) # (p2, alts) # past' \<and> depth a \<noteq> last_save a + 1")
    case False
    have "simplify ids t a = Some a"
      using False ar by (cases past rule: conc_undo.cases; cases "tl past")
        (auto simp: simplify.simps [of ids] has_history_def)
    with stay show ?thesis .
  next
    case True
    then obtain p1 p2 alts past' where past: "past = (p1, []) # (p2, alts) # past'" and d: "depth a \<noteq> last_save a + 1"
      by blast
    obtain t1 t2 where r: "rev_effect p1 t = Some t1" "rev_effect p2 t1 = Some t2"
      and ow: "own ?au p1" "own ?au p2" and ok: "list_all (fut_ok ?au t2) alts" "past_ok ?au t2 past'"
        "list_all (fut_ok ?au t) futs"
      using less.prems(1) past by (auto simp: history_of_def split: option.splits)
    obtain j where j: "patch_join (\<lambda>k. ids (0 # k)) p1 p2 t = Some j"
      using patch_join_returns [OF r] by blast
    show ?thesis
    proof (cases j)
      case None
      have "simplify ids t a = Some a"
        using None j ar past d by (simp add: simplify.simps [of ids] has_history_def)
      with stay show ?thesis .
    next
      case (Some p)
      let ?a = "a\<lparr>archive := conc ((p, alts) # past') futs,
          last_autosave := (if depth a = last_autosave a + 1 then - 1 else last_autosave a), depth := depth a - 1\<rparr>"
      have step: "simplify ids t a = simplify (\<lambda>k. ids (1 # k)) t ?a"
        using Some j ar past d make_history_pair [of p past' alts futs]
        by (subst simplify.simps) (simp add: has_history_def cong: if_cong split del: if_split)
      have rp: "rev_effect p t = Some t2"
        using rev_effect_join j Some r by blast
      have h: "history_of ?a t ((p, alts) # past') futs"
        using rp ok own_join j Some ow by (simp add: history_of_def)
      have len: "length (past_docs t2 past') = length past'"
        using length_past_docs ok(2) by blast
      have ls: "S = None \<or> last_save a < depth a - 1"
        using less.prems(3) d past by auto
      have sv: "saved ?a t ((p, alts) # past') futs S"
      proof (cases "S = None")
        case True
        then show ?thesis
          using less.prems(2) past by (simp add: saved_def)
      next
        case False
        show ?thesis
        proof (rule saved_prefix [OF less.prems(2)])
          show "timeline t past futs = (rev (past_docs t2 past') @ [t2]) @ t1 # t # fut_docs t futs"
            using past r by (simp add: timeline_def)
          show "timeline t ((p, alts) # past') futs = (rev (past_docs t2 past') @ [t2]) @ t # fut_docs t futs"
            using rp by (simp add: timeline_def)
          show "depth ?a = int (length ((p, alts) # past'))"
            using less.prems(2) past by (simp add: saved_def)
          show "past_ok ?au t past"
            using less.prems(1) by (simp add: history_of_def)
          show "last_save ?a = - 1 \<or> last_save ?a = last_save a \<and>
              last_save ?a < int (length (rev (past_docs t2 past') @ [t2]))"
            using ls len less.prems(2) past False by (simp add: saved_def)
        qed
      qed
      have "S = None \<or> last_save ?a < depth ?a"
        using ls by auto
      with less.hyps [OF _ h sv, of "\<lambda>k. ids (1 # k)"] past
      have "\<exists>a' past''. simplify (\<lambda>k. ids (1 # k)) t ?a = Some a' \<and> history_of a' t past'' futs \<and>
          saved a' t past'' futs S \<and> (\<exists>ar d ls. a' = ?a\<lparr>archive := ar, depth := d, last_autosave := ls\<rparr>)"
        by simp
      then obtain a' past'' ar d ls where a': "simplify (\<lambda>k. ids (1 # k)) t ?a = Some a'"
        "history_of a' t past'' futs" "saved a' t past'' futs S"
        "a' = ?a\<lparr>archive := ar, depth := d, last_autosave := ls\<rparr>"
        by blast
      have "a' = a\<lparr>archive := ar, depth := d, last_autosave := ls\<rparr>"
        using a'(4) by simp
      with a' step show ?thesis by metis
    qed
  qed
qed

section \<open>Undo and redo of a single author\<close>

lemma expose_own:
  assumes "history_of a t past futs"
  shows "expose a = Some a"
  using assms
  by (cases past rule: conc_undo.cases)
    (auto simp: expose_def expose_archive.simps [of _ "conc _ _"] history_of_def own_def)

lemma undo_own:
  assumes h: "history_of a t past futs" and "\<not> active a" "past \<noteq> []"
  shows "undo ids nav 0 (a, t) = undo_one (\<lambda>k. ids (0 # k)) nav 0 (a, t)"
proof -
  obtain p alts past' where past: "past = (p, alts) # past'"
    using assms(3) by (cases past) auto
  have "archive a = conc ((p, alts) # past') futs" "get_author p = the_author a"
    using h past by (auto simp: history_of_def own_def)
  then show ?thesis
    using assms(2) expose_own [OF h]
    by (simp add: undo_def undo_loop.simps [of ids] undo_possibilities_def)
qed

lemma redo_own:
  assumes h: "history_of a t past futs" and "\<not> active a" "nav_ok nav" and i: "i < length futs"
  shows "redo genuine ids nav (int i) (a, t) = redo_one (\<lambda>k. ids (0 # k)) nav (int i) (a, t)"
proof -
  obtain p fs where f: "futs ! i = Future p fs"
    by (cases "futs ! i") auto
  have ar: "archive a = conc past futs" and "fut_ok (the_author a) t (Future p fs)"
    using h i f by (auto simp: history_of_def list_all_length)
  then have p: "get_author p = the_author a" and b: "branch (conc_futures futs) (int i) = Some (Compound_patch [p, conc_futures fs])"
    using i f by (auto simp: own_def branch_futures array_ref_def conc_future_eq)
  obtain t' h' a' where r: "redo_one (\<lambda>k. ids (0 # k)) nav (int i) (a, t) = Some ((a', t'), h')"
    and h': "history_of a' t' ((flip p, take i futs @ drop (Suc i) futs) # past) fs"
    and au: "the_author a' = the_author a"
    by (rule redo_one_refines [OF h assms(2, 3) i f, of "\<lambda>k. ids (0 # k)"]) auto
  have stop: "get_author q = the_author a'" if "fs = [Future q gs]" for q gs
    using h' that by (auto simp: history_of_def own_def)
  have ar': "archive a' = conc ((flip p, take i futs @ drop (Suc i) futs) # past) fs"
    using h' by (simp add: history_of_def)
  show ?thesis
  proof (cases "length fs = 1")
    case True
    then obtain q gs where fs: "fs = [Future q gs]"
      by (auto simp: length_Suc_conv) (metis future.exhaust)
    have "branch (conc_futures fs) 0 = Some (Compound_patch [q, conc_futures gs])"
      by (simp add: fs branch_futures array_ref_def conc_future_eq)
    then show ?thesis
      using assms(2) i ar p b r ar' stop [OF fs] True
      by (auto simp: redo_def redo_loop.simps [of genuine] redo_possibilities_def)
  next
    case False
    then show ?thesis
      using assms(2) i ar p b r ar'
      by (auto simp: redo_def redo_loop.simps [of genuine] redo_possibilities_def)
  qed
qed

section \<open>Sessions\<close>

text \<open>
  What a session of a single author does to the archiver and the document. Not among its steps are changes of
  metadata and the other edits that are not \<open>admissible\<close>, marked blocks, and reopening or forgetting a history item;
  \<open>simplify\<close> is called between commands, when nothing is pending. The last argument is the document of the last
  save; it is forgotten when \<open>simplify\<close> merges history items while the saved document is not below the present one,
  because \<open>simplify\<close> does not move \<open>last_save\<close>.
\<close>

inductive session :: "navigation \<Rightarrow> archiver \<Rightarrow> tree \<Rightarrow> tree option \<Rightarrow> bool" for nav :: navigation where
  start: "session nav (new_archiver au r) t (Some t)"
| edit: "session nav a t S \<Longrightarrow> admissible a t m \<Longrightarrow> edit ids (the_author a) m (a, t) = Some (a', t') \<Longrightarrow>
    session nav a' t' S"
| confirm: "session nav a t S \<Longrightarrow> confirm a = Some a' \<Longrightarrow> session nav a' t S"
| cancel: "session nav a t S \<Longrightarrow> cancel pids (a, t) = Some (a', t') \<Longrightarrow> session nav a' t' S"
| undo: "session nav a t S \<Longrightarrow> undo pids nav i (a, t) = Some ((a', t'), r) \<Longrightarrow> session nav a' t' S"
| redo: "session nav a t S \<Longrightarrow> redo genuine pids nav i (a, t) = Some ((a', t'), r) \<Longrightarrow> session nav a' t' S"
| simplify: "session nav a t S \<Longrightarrow> \<not> active a \<Longrightarrow> simplify pids t a = Some a' \<Longrightarrow>
    session nav a' t (if a' = a \<or> last_save a < depth a then S else None)"
| save: "session nav a t S \<Longrightarrow> \<not> active a \<Longrightarrow> notify_save a = Some a' \<Longrightarrow> session nav a' t (Some t)"

inductive_cases session_elims: "session nav a t S"

definition session_ok :: "archiver \<Rightarrow> tree \<Rightarrow> tree option \<Rightarrow> bool" where
  "session_ok a t S \<longleftrightarrow> (\<exists>past futs t0. history_of a t0 past futs \<and> pending a t t0 \<and> saved a t0 past futs S)"

lemma session_okI: "history_of a t0 past futs \<Longrightarrow> pending a t t0 \<Longrightarrow> saved a t0 past futs S \<Longrightarrow> session_ok a t S"
  unfolding session_ok_def by blast

lemma history_of_current [simp]:
  "history_of (a\<lparr>current := c, the_owner := w\<rparr>) t past futs = history_of a t past futs"
  by (simp add: history_of_def)

lemma saved_current [simp]: "saved (a\<lparr>current := c, the_owner := w\<rparr>) t past futs S = saved a t past futs S"
  by (simp add: saved_def)

lemma corrected_depth_own:
  assumes "history_of a t past futs"
  shows "corrected_depth a = Some (depth a)"
proof (cases past rule: conc_undo.cases)
  case (2 p alts past')
  with assms have "own (the_author a) p" "archive a = conc ((p, alts) # past') futs"
    by (auto simp: history_of_def)
  then have "\<not> marker_patch p"
    by (cases p rule: marker_patch.cases) (auto simp: own_def)
  with \<open>archive a = _\<close> show ?thesis by (simp add: corrected_depth_def)
qed (use assms in \<open>simp add: corrected_depth_def history_of_def\<close>)

lemma session_ok_confirm:
  assumes "session_ok a t S" "confirm a = Some a'"
  shows "session_ok a' t S"
proof -
  obtain past futs t0 where h: "history_of a t0 past futs" and p: "pending a t t0" and s: "saved a t0 past futs S"
    using assms(1) by (auto simp: session_ok_def)
  let ?c = "Author_patch (the_author a) (compactify (current a))"
  have pk: "past_ok (the_author a) t0 past"
    using h by (simp add: history_of_def)
  consider "\<not> active a" | "active a" "nr_children (remove_set_cursor ?c) = 0"
    | "active a" "nr_children (remove_set_cursor ?c) \<noteq> 0" by blast
  then show ?thesis
  proof cases
    case 1
    with assms show ?thesis by (simp add: confirm_def)
  next
    case 2
    note c = confirm_refines(1) [OF p h 2]
    then have "a' = a\<lparr>current := Compound_patch [], the_owner := 0\<rparr>" "t0 = t"
      using assms(2) by auto
    then show ?thesis
      using h p s by (intro session_okI [of _ t past futs]) (auto simp: pending_def active_def)
  next
    case 3
    note c = confirm_refines(2) [OF p h 3]
    have a': "a' = a\<lparr>archive := conc ((?c, futs) # past) [], current := Compound_patch [], the_owner := 0,
        depth := depth a + 1,
        last_save := (if depth a + 1 \<le> last_save a then - 1 else last_save a),
        last_autosave := (if depth a + 1 \<le> last_autosave a then - 1 else last_autosave a)\<rparr>"
      using c assms(2) by simp
    show ?thesis
    proof (rule session_okI [of _ t "(?c, futs) # past" "[]"])
      show "history_of a' t ((?c, futs) # past) []"
        using a' h c by (simp add: history_of_def)
      show "pending a' t t"
        using a' p by (simp add: pending_def active_def)
      show "saved a' t ((?c, futs) # past) [] S"
      proof (rule saved_prefix [OF s _ pk])
        show "timeline t0 past futs = (rev (past_docs t0 past) @ [t0]) @ fut_docs t0 futs"
          by (simp add: timeline_def)
        show "timeline t ((?c, futs) # past) [] = (rev (past_docs t0 past) @ [t0]) @ [t]"
          using c by (simp add: timeline_def)
        show "depth a' = int (length ((?c, futs) # past))"
          using a' s by (simp add: saved_def)
        show "last_save a' = - 1 \<or> last_save a' = last_save a \<and> last_save a' < int (length (rev (past_docs t0 past) @ [t0]))"
          using a' s length_past_docs [OF pk] by (auto simp: saved_def)
      qed
    qed
  qed
qed

lemma session_ok_undo:
  assumes "session_ok a t S" "nav_ok nav" "undo ids nav i (a, t) = Some ((a', t'), r)"
  shows "session_ok a' t' S"
proof (cases "active a \<or> nr_undo (archive a) = 0")
  case True
  then have "a' = a \<and> t' = t"
    using assms(3) by (auto simp: undo_def undo_loop.simps [of ids] undo_possibilities_def split: if_splits)
  with assms show ?thesis by simp
next
  case False
  obtain past futs t0 where h: "history_of a t0 past futs" and p: "pending a t t0" and s: "saved a t0 past futs S"
    using assms(1) by (auto simp: session_ok_def)
  have t0: "t0 = t" using pending_inactive p False by blast
  have "past \<noteq> []" using False h by (auto simp: history_of_def)
  then obtain q alts past' where past: "past = (q, alts) # past'" by (cases past) auto
  have i: "i = 0"
    using assms(3) False by (auto simp: undo_def undo_loop.simps [of ids] undo_possibilities_def split: if_splits)
  obtain u hh where u: "rev_effect q t = Some u" "undo_one (\<lambda>k. ids (0 # k)) nav 0 (a, t) =
       Some ((a\<lparr>archive := conc past' (Future (flip q) futs # alts), depth := depth a - 1\<rparr>, u), hh)"
    "history_of (a\<lparr>archive := conc past' (Future (flip q) futs # alts), depth := depth a - 1\<rparr>) u
       past' (Future (flip q) futs # alts)"
    by (rule undo_one_refines [of a t q alts past' futs nav "\<lambda>k. ids (0 # k)"]) (use h past t0 False assms(2) in auto)
  have a': "a' = a\<lparr>archive := conc past' (Future (flip q) futs # alts), depth := depth a - 1\<rparr>" "t' = u"
    using undo_own [of a t past futs ids nav] h t0 False \<open>past \<noteq> []\<close> u(2) assms(3) i by auto
  show ?thesis
  proof (rule session_okI)
    show "history_of a' t' past' (Future (flip q) futs # alts)" using u(3) a' by simp
    show "pending a' t' t'"
      using pending_moves [OF p, of t'] a' False by (simp add: pending_def active_def)
    show "saved a' t' past' (Future (flip q) futs # alts) S"
      using s a' past t0 timeline_undo [OF u(1)] by (simp add: saved_def)
  qed
qed

lemma session_ok_redo:
  assumes "session_ok a t S" "nav_ok nav" "redo genuine ids nav i (a, t) = Some ((a', t'), r)"
  shows "session_ok a' t' S"
proof (cases "active a \<or> nr_redo (archive a) = 0")
  case True
  then have "a' = a \<and> t' = t"
    using assms(3) by (auto simp: redo_def redo_loop.simps [of genuine ids] redo_possibilities_def split: if_splits)
  with assms show ?thesis by simp
next
  case False
  obtain past futs t0 where h0: "history_of a t0 past futs" and p: "pending a t t0" and s0: "saved a t0 past futs S"
    using assms(1) by (auto simp: session_ok_def)
  have t0: "t0 = t" using pending_inactive p False by blast
  note h = h0 [unfolded t0] and s = s0 [unfolded t0]
  have pk: "past_ok (the_author a) t past" and n: "nr_redo (archive a) = int (length futs)"
    using h by (simp_all add: history_of_def)
  have "0 \<le> i" "i < int (length futs)"
    using assms(3) False n
    by (auto simp: redo_def redo_loop.simps [of genuine ids] redo_possibilities_def Let_def split: if_splits)
  then obtain k where k: "i = int k" "k < length futs"
    by (metis nonneg_int_cases of_nat_less_iff)
  obtain q fs where f: "futs ! k = Future q fs"
    by (cases "futs ! k") auto
  let ?past = "(flip q, take k futs @ drop (Suc k) futs) # past"
  let ?a = "a\<lparr>archive := conc ?past fs,
      last_save := (if depth a \<le> last_save a \<and> k \<noteq> 0 then - 1 else last_save a),
      last_autosave := (if depth a \<le> last_autosave a \<and> k \<noteq> 0 then - 1 else last_autosave a),
      depth := depth a + 1\<rparr>"
  obtain u hh where u: "rev_effect q t = Some u" "redo_one (\<lambda>k. ids (0 # k)) nav (int k) (a, t) = Some ((?a, u), hh)"
    "history_of ?a u ?past fs"
    by (rule redo_one_refines [OF h _ assms(2) k(2) f, of "\<lambda>k. ids (0 # k)"]) (use False in auto)
  have a': "a' = ?a" "t' = u"
    using redo_own [OF h _ assms(2) k(2), of genuine ids] False u(2) assms(3) k(1) by auto
  show ?thesis
  proof (rule session_okI)
    show "history_of a' t' ?past fs" using u(3) a' by simp
    show "pending a' t' t'"
      using pending_moves [OF p, of t'] a' False by (simp add: pending_def active_def)
    show "saved a' t' ?past fs S"
    proof (cases "k = 0")
      case True
      then have "timeline t past futs = timeline u ?past fs"
        using u(1) f k(2) timeline_redo [OF u(1)] by (cases futs) (auto simp: timeline_def)
      with s a' True show ?thesis by (simp add: saved_def)
    next
      case False
      show ?thesis
      proof (rule saved_prefix [OF s _ pk])
        show "timeline t past futs = (rev (past_docs t past) @ [t]) @ fut_docs t futs"
          by (simp add: timeline_def)
        show "timeline t' ?past fs = (rev (past_docs t past) @ [t]) @ t' # fut_docs t' fs"
          using timeline_redo [OF u(1)] a' by simp
        show "depth a' = int (length ?past)"
          using a' s by (simp add: saved_def)
        show "last_save a' = - 1 \<or> last_save a' = last_save a \<and> last_save a' < int (length (rev (past_docs t past) @ [t]))"
          using a' False s length_past_docs [OF pk] by (auto simp: saved_def)
      qed
    qed
  qed
qed

lemma session_invariant: "session nav a t S \<Longrightarrow> nav_ok nav \<Longrightarrow> session_ok a t S"
proof (induction rule: session.induct)
  case (start au r t)
  show ?case
    by (rule session_okI [of _ t "[]" "[]"])
      (simp_all add: new_archiver_def history_of_def pending_def saved_def timeline_def make_branches_def
        make_compound_def active_def)
next
  case (edit a t S m ids a' t')
  then obtain past futs t0 where h: "history_of a t0 past futs" "pending a t t0" "saved a t0 past futs S"
    by (auto simp: session_ok_def)
  with edit_pending [OF h(2) edit.hyps(2, 3)] show ?case
    by (auto intro!: session_okI)
next
  case (confirm a t S a')
  then show ?case using session_ok_confirm by blast
next
  case (cancel a t S pids a' t')
  then obtain past futs t0 where h: "history_of a t0 past futs" "pending a t t0" "saved a t0 past futs S"
    by (auto simp: session_ok_def)
  have "a' = (if active a then a\<lparr>current := Compound_patch [], the_owner := 0\<rparr> else a)" "t' = t0"
    using cancel_refines [OF h(2), of pids] cancel.hyps by auto
  then show ?case
    using h pending_inactive [OF h(2)]
    by (intro session_okI [of _ t0 past futs]) (auto simp: pending_def active_def split: if_splits)
next
  case (simplify a t S pids a')
  then obtain past futs t0 where h: "history_of a t0 past futs" "pending a t t0" "saved a t0 past futs S"
    by (auto simp: session_ok_def)
  have t0: "t0 = t" using pending_inactive h simplify.hyps by blast
  let ?S = "if a' = a \<or> last_save a < depth a then S else None"
  show ?case
  proof (cases "a' = a")
    case True
    then show ?thesis using simplify.IH simplify.prems by simp
  next
    case False
    have "saved a t past futs ?S" "?S = None \<or> last_save a < depth a \<or> past = []"
      using h(3) t0 False by (auto simp: saved_def)
    with h t0 simplify_refines [of a t past futs ?S pids] simplify.hyps
    obtain past' ar d ls where "history_of a' t past' futs" "saved a' t past' futs ?S"
      "a' = a\<lparr>archive := ar, depth := d, last_autosave := ls\<rparr>"
      by auto
    then show ?thesis
      using h t0 by (intro session_okI [of _ t past' futs]) (auto simp: pending_def active_def)
  qed
next
  case (save a t S a')
  then obtain past futs t0 where h: "history_of a t0 past futs" "pending a t t0" "saved a t0 past futs S"
    by (auto simp: session_ok_def)
  have t0: "t0 = t" using pending_inactive h save.hyps by blast
  have a': "a' = a\<lparr>last_save := depth a\<rparr>"
    using save.hyps corrected_depth_own [OF h(1)] by (simp add: notify_save_def)
  have pk: "past_ok (the_author a) t past" using h(1) t0 by (simp add: history_of_def)
  have "timeline t past futs ! length past = t" "length past < length (timeline t past futs)"
    using length_past_docs [OF pk] by (simp_all add: timeline_def nth_append)
  then have "saved a' t past futs (Some t)"
    using h(3) a' by (simp add: saved_def)
  with h t0 a' show ?case
    by (intro session_okI [of _ t past futs]) (auto simp: history_of_def pending_def active_def)
qed (use session_ok_undo session_ok_redo in blast)+

section \<open>Properties of sessions\<close>

lemma session_inactive:
  assumes "session nav a t S" "nav_ok nav" "\<not> active a"
  obtains past futs where "history_of a t past futs" "saved a t past futs S" "pending a t t"
proof -
  obtain past futs t0 where h: "history_of a t0 past futs" "pending a t t0" "saved a t0 past futs S"
    using session_invariant [OF assms(1, 2)] by (auto simp: session_ok_def)
  moreover have "t0 = t" using pending_inactive h(2) assms(3) by blast
  ultimately show thesis using that by blast
qed

text \<open>
  Claim C7. Undo never fails and redo takes it back: in every state that a single author reaches by
  admissible edits (of a well-formed document, below the path of the archiver, no changes of metadata, no
  removals with a negative count, no removals of an ambiguous wrapper),
  confirmations, cancellations, undos, redos, simplifications and saves, without marked blocks and without
  reopening or forgetting history items, when nothing is pending and the history is not empty, \<open>undo\<close>
  returns, and \<open>redo\<close> of the first future then restores the document and every field of the archiver. With changes of
  metadata \<open>redo\<close> may fail, see \<open>redo_hint_fails\<close>.
\<close>

theorem undo_redo_restores:
  assumes "session nav a t S" and "nav_ok nav" and "\<not> active a" and "undo_possibilities a \<noteq> 0"
  shows "\<exists>a' t' r r'. undo ids nav 0 (a, t) = Some ((a', t'), r) \<and>
    redo genuine ids' nav 0 (a', t') = Some ((a, t), r')"
proof -
  obtain past futs where h: "history_of a t past futs"
    using session_inactive [OF assms(1-3)] by blast
  have "past \<noteq> []"
    using h assms(4) by (auto simp: history_of_def undo_possibilities_def)
  then obtain p alts past' where past: "past = (p, alts) # past'" by (cases past) auto
  let ?b = "a\<lparr>archive := conc past' (Future (flip p) futs # alts), depth := depth a - 1\<rparr>"
  obtain u r where u: "rev_effect p t = Some u" "undo_one (\<lambda>k. ids (0 # k)) nav 0 (a, t) = Some ((?b, u), r)"
    "history_of ?b u past' (Future (flip p) futs # alts)"
    by (rule undo_one_refines [OF h [unfolded past] assms(3, 2), of "\<lambda>k. ids (0 # k)"]) blast
  have act: "\<not> active ?b" using assms(3) by (simp add: active_def)
  have bk: "rev_effect (flip p) u = Some t"
    using u(1) by (rule rev_effect_flip)
  let ?c = "?b\<lparr>archive := conc ((flip (flip p), alts) # past') futs,
      last_save := (if depth ?b \<le> last_save ?b \<and> (0::nat) \<noteq> 0 then - 1 else last_save ?b),
      last_autosave := (if depth ?b \<le> last_autosave ?b \<and> (0::nat) \<noteq> 0 then - 1 else last_autosave ?b),
      depth := depth ?b + 1\<rparr>"
  obtain v r' where v: "rev_effect (flip p) u = Some v"
      "redo_one (\<lambda>k. ids' (0 # k)) nav (int 0) (?b, u) = Some ((?c, v), r')"
    by (rule redo_one_refines [OF u(3) act assms(2), of 0 "flip p" futs "\<lambda>k. ids' (0 # k)"]) auto
  have "?c = a"
    using h past by (simp add: history_of_def)
  moreover have "v = t" using bk v(1) by simp
  moreover have "redo genuine ids' nav (int 0) (?b, u) = redo_one (\<lambda>k. ids' (0 # k)) nav (int 0) (?b, u)"
    by (rule redo_own [OF u(3) act assms(2)]) simp
  ultimately show ?thesis
    using undo_own [OF h assms(3) \<open>past \<noteq> []\<close>, of ids nav] u(2) v(2) by auto
qed

definition sample_nav :: navigation where
  "sample_nav = \<lparr>nav_start = (\<lambda>t p. p @ [0]), nav_end = (\<lambda>t p. p @ [1])\<rparr>"

lemma sample_nav_ok: "nav_ok sample_nav"
  by (simp add: nav_ok_def sample_nav_def)

definition sample_doc :: tree where
  "sample_doc = Compound None DOCUMENT [Atomic None ''ab'']"

definition typed_doc :: tree where
  "typed_doc = Compound None DOCUMENT [Atomic None ''axb'']"

definition typing :: modification where
  "typing = mod_insert [0] 1 (Atomic None ''x'')"

definition edited :: archiver where
  "edited = (new_archiver 1 [])\<lparr>the_owner := 1, current := Compound_patch
     [Modification_patch (mod_remove [0] 1 1) typing, Compound_patch []]\<rparr>"

definition confirmed :: archiver where
  "confirmed = (new_archiver 1 [])\<lparr>depth := 1, archive := Compound_patch
     [Author_patch 1 (Modification_patch (mod_remove [0] 1 1) typing), Branch_patch []]\<rparr>"

lemma sample_edit: "edit (\<lambda>n. []) 1 typing (new_archiver 1 [], sample_doc) = Some (edited, typed_doc)"
  by code_simp

lemma sample_confirm: "confirm edited = Some confirmed"
  by code_simp

lemma sample_admissible: "admissible (new_archiver 1 []) sample_doc typing"
  by code_simp

lemma sample_author: "the_author (new_archiver 1 []) = 1"
  by (simp add: new_archiver_def)

lemma sample_session: "session sample_nav confirmed typed_doc (Some sample_doc)"
proof -
  have "session sample_nav edited typed_doc (Some sample_doc)"
    using sample_edit by (intro session.edit [where ids = "\<lambda>n. []", OF session.start sample_admissible])
      (simp add: sample_author)
  then show ?thesis
    by (rule session.confirm) (rule sample_confirm)
qed

theorem undo_redo_restores_witness:
  "\<not> active confirmed \<and> undo_possibilities confirmed \<noteq> 0 \<and>
   (\<exists>a' t' r r'. undo (\<lambda>k n. []) sample_nav 0 (confirmed, typed_doc) = Some ((a', t'), r) \<and>
      redo {1} (\<lambda>k n. []) sample_nav 0 (a', t') = Some ((confirmed, typed_doc), r'))"
proof -
  have "\<not> active confirmed" "undo_possibilities confirmed \<noteq> 0" by code_simp+
  then show ?thesis
    using undo_redo_restores [OF sample_session sample_nav_ok, of "\<lambda>k n. []" "{1}" "\<lambda>k n. []"] by blast
qed

text \<open>
  A batch of edits on top of a state with nothing pending.
\<close>

inductive batch :: "archiver \<Rightarrow> tree \<Rightarrow> archiver \<Rightarrow> tree \<Rightarrow> bool" for a :: archiver and t :: tree where
  none: "batch a t a t"
| more: "batch a t a1 t1 \<Longrightarrow> admissible a1 t1 m \<Longrightarrow> edit ids (the_author a1) m (a1, t1) = Some (a2, t2) \<Longrightarrow>
    batch a t a2 t2"

lemma batch_pending:
  "batch a t a1 t1 \<Longrightarrow> pending a t t \<Longrightarrow> pending a1 t1 t \<and> (\<exists>c w. a1 = a\<lparr>current := c, the_owner := w\<rparr>)"
proof (induction rule: batch.induct)
  case none
  have "a = a\<lparr>current := current a, the_owner := the_owner a\<rparr>" by simp
  with none show ?case by blast
next
  case (more a1 t1 m ids a2 t2)
  then obtain c w where a1: "pending a1 t1 t" "a1 = a\<lparr>current := c, the_owner := w\<rparr>" by blast
  obtain c' w' where "pending a2 t2 t" "a2 = a1\<lparr>current := c', the_owner := w'\<rparr>"
    using edit_pending [OF a1(1) more.hyps(2, 3)] by blast
  with a1(2) show ?case by auto
qed

text \<open>
  Claim C8. A batch of admissible edits is one undoable step: after any number of edits of a well-formed document,
  below the path of the archiver, that are neither changes of metadata nor removals with a negative count nor removals of an ambiguous wrapper, on top of a session
  state with nothing pending, \<open>cancel\<close> restores the document, and \<open>confirm\<close> followed by \<open>undo\<close>
  restores it too, unless the batch left nothing to undo, in which case it did not change the
  document and the history is as before.
\<close>

theorem batch_undone:
  assumes "session nav a t S" and "nav_ok nav" and "\<not> active a" and "batch a t a1 t1"
  shows "(\<exists>a2. cancel ids (a1, t1) = Some (a2, t) \<and> archive a2 = archive a \<and> depth a2 = depth a) \<and>
    (\<exists>a2. confirm a1 = Some a2 \<and>
       (archive a2 = archive a \<and> depth a2 = depth a \<and> t1 = t \<or>
        (\<exists>a3 r. undo ids nav 0 (a2, t1) = Some ((a3, t), r) \<and> depth a3 = depth a)))"
proof -
  obtain past futs where h: "history_of a t past futs" and p: "pending a t t"
    using session_inactive [OF assms(1-3)] by blast
  obtain c w where p1: "pending a1 t1 t" and a1: "a1 = a\<lparr>current := c, the_owner := w\<rparr>"
    using batch_pending [OF assms(4) p] by blast
  have h1: "history_of a1 t past futs" using h a1 by simp
  have 1: "\<exists>a2. cancel ids (a1, t1) = Some (a2, t) \<and> archive a2 = archive a \<and> depth a2 = depth a"
    using cancel_refines [OF p1, of ids] a1 by simp
  let ?c = "Author_patch (the_author a1) (compactify (current a1))"
  consider "\<not> active a1" | "active a1" "nr_children (remove_set_cursor ?c) = 0"
    | "active a1" "nr_children (remove_set_cursor ?c) \<noteq> 0" by blast
  then have "\<exists>a2. confirm a1 = Some a2 \<and>
       (archive a2 = archive a \<and> depth a2 = depth a \<and> t1 = t \<or>
        (\<exists>a3 r. undo ids nav 0 (a2, t1) = Some ((a3, t), r) \<and> depth a3 = depth a))"
  proof cases
    case 1
    with pending_inactive [OF p1] a1 show ?thesis by (simp add: confirm_def)
  next
    case 2
    then show ?thesis using confirm_refines(1) [OF p1 h1] a1 by simp
  next
    case 3
    define a2 where "a2 = a1\<lparr>archive := conc ((?c, futs) # past) [], current := Compound_patch [], the_owner := 0,
        depth := depth a1 + 1,
        last_save := (if depth a1 + 1 \<le> last_save a1 then - 1 else last_save a1),
        last_autosave := (if depth a1 + 1 \<le> last_autosave a1 then - 1 else last_autosave a1)\<rparr>"
    have c: "confirm a1 = Some a2" "rev_effect ?c t1 = Some t" "own (the_author a1) ?c"
      using confirm_refines(2) [OF p1 h1 3] by (simp_all add: a2_def)
    have h2: "history_of a2 t1 ((?c, futs) # past) []"
      using h1 c by (simp add: a2_def history_of_def)
    have act: "\<not> active a2" by (simp add: a2_def active_def)
    obtain u r where "rev_effect ?c t1 = Some u" "undo_one (\<lambda>k. ids (0 # k)) nav 0 (a2, t1) =
       Some ((a2\<lparr>archive := conc past (Future (flip ?c) [] # futs), depth := depth a2 - 1\<rparr>, u), r)"
      by (rule undo_one_refines [OF h2 act assms(2), of "\<lambda>k. ids (0 # k)"]) blast
    then have "undo ids nav 0 (a2, t1) = Some ((a2\<lparr>archive := conc past (Future (flip ?c) [] # futs), depth := depth a2 - 1\<rparr>, t), r)"
      using undo_own [OF h2 act, of ids nav] c(2) by simp
    then show ?thesis
      using c(1) a1 by (auto simp: a2_def)
  qed
  with 1 show ?thesis by blast
qed

theorem batch_undone_witness:
  "\<exists>a2 a3 r. cancel (\<lambda>k n. []) (edited, typed_doc) = Some (a2, sample_doc) \<and>
     undo (\<lambda>k n. []) sample_nav 0 (confirmed, typed_doc) = Some ((a3, sample_doc), r)"
proof -
  have 1: "\<not> active (new_archiver 1 [])" by code_simp
  have 2: "batch (new_archiver 1 []) sample_doc edited typed_doc"
    using sample_edit by (intro batch.more [where ids = "\<lambda>n. []", OF batch.none sample_admissible])
      (simp add: sample_author)
  have "session sample_nav (new_archiver 1 []) sample_doc (Some sample_doc)"
    by (rule session.start)
  note w = batch_undone [OF this sample_nav_ok 1 2, of "\<lambda>k n. []"]
  have "typed_doc \<noteq> sample_doc" by code_simp
  with w sample_confirm show ?thesis by auto
qed

text \<open>
  Claim C9. The save marker is sound as long as the history is not simplified below the saved document: in a session of
  admissible edits (see \<open>admissible\<close>), confirmations, cancellations, undos, redos, simplifications and saves, without marked blocks, in which
  since the last save \<open>simplify\<close> has only merged history items while the saved depth was below the present one,
  whenever \<open>conform_save\<close> tells that the history is at the depth of the last save, and nothing is pending,
  the document is the saved one. The session may undo below the saved state, redo along other futures and
  record new edits. Without these conditions the marker may be wrong, see \<open>simplify_save_wrong\<close> and
  \<open>marked_block_save_wrong\<close>.
\<close>

theorem conform_save_sound:
  assumes "session nav a t (Some S)" and "nav_ok nav" and "\<not> active a" and "conform_save a = Some True"
  shows "t = S"
proof -
  obtain past futs where h: "history_of a t past futs" and s: "saved a t past futs (Some S)"
    using session_inactive [OF assms(1-3)] by blast
  have pk: "past_ok (the_author a) t past" using h by (simp add: history_of_def)
  have "last_save a = int (length past)"
    using assms(4) corrected_depth_own [OF h] s by (simp add: conform_save_def saved_def)
  then show ?thesis
    using s length_past_docs [OF pk] by (simp add: saved_def timeline_def nth_append)
qed

definition undone :: archiver where
  "undone = (new_archiver 1 [])\<lparr>archive := Branch_patch [Branch_patch [], Compound_patch
     [Author_patch 1 (Modification_patch typing (mod_remove [0] 1 1)), Branch_patch []]]\<rparr>"

theorem conform_save_sound_witness:
  "conform_save confirmed = Some False \<and> conform_save undone = Some True \<and>
   (\<exists>t r. undo (\<lambda>k n. []) sample_nav 0 (confirmed, typed_doc) = Some ((undone, t), r) \<and> t = sample_doc)"
proof -
  have 1: "undo (\<lambda>k n. []) sample_nav 0 (confirmed, typed_doc) =
      Some ((undone, Compound None DOCUMENT [Atomic None ''ab'']), [0, 1])"
    by code_simp
  have 2: "conform_save confirmed = Some False" by code_simp
  have 3: "conform_save undone = Some True" by code_simp
  have 4: "\<not> active undone" by code_simp
  have "session sample_nav undone (Compound None DOCUMENT [Atomic None ''ab'']) (Some sample_doc)"
    by (rule session.undo [OF sample_session 1])
  note w = conform_save_sound [OF this sample_nav_ok 4 3]
  from 1 2 3 w show ?thesis by blast
qed


definition typed_patch :: patch where
  "typed_patch = Author_patch 1 (Modification_patch (mod_remove [0] 1 1) typing)"


end
