(* ===== verification/Athena_History_Limits.thy ===== *)
theory Athena_History_Limits
  imports Athena_Session
begin

text \<open>
  Where the guarantees of the sessions end: concrete runs of the archiver, evaluated in the
  logic, in which a marked block, a simplification below the saved state, a reopened history
  item or a cursor hint does not do what its caller relies on.
\<close>

section \<open>Runs\<close>

definition no_ids :: id_source where
  "no_ids k n = []"

text \<open>Typing a text at a position of a paragraph, confirmed and simplified as between two commands.\<close>

definition type_text :: "path \<Rightarrow> int \<Rightarrow> string \<Rightarrow> archiver \<times> tree \<Rightarrow> (archiver \<times> tree) option" where
  "type_text p i s st = edit (no_ids []) 1 (mod_insert p i (Atomic None s)) st"

definition settle :: "archiver \<times> tree \<Rightarrow> (archiver \<times> tree) option" where
  "settle st = do { as \<leftarrow> global_confirm no_ids (snd st) [fst st]; Some (hd as, snd st) }"

definition two_lines :: "string \<Rightarrow> string \<Rightarrow> tree" where
  "two_lines x y = Compound None DOCUMENT [Atomic None x, Atomic None y]"

definition undo_step :: "archiver \<times> tree \<Rightarrow> (archiver \<times> tree) option" where
  "undo_step st = do { (st, r) \<leftarrow> undo no_ids sample_nav 0 st; Some st }"

definition redo_step :: "archiver \<times> tree \<Rightarrow> (archiver \<times> tree) option" where
  "redo_step st = do { (st, r) \<leftarrow> redo {1} no_ids sample_nav 0 st; Some st }"

section \<open>Marked blocks and the saved state\<close>

definition marked_run :: "(tree \<times> archiver \<times> tree) option" where
  "marked_run =
     do { st \<leftarrow> type_text [0] 0 ''a'' (new_archiver 1 [], two_lines [] []); st \<leftarrow> settle st;
       a \<leftarrow> notify_save (fst st);
       let sv = snd st;
       a \<leftarrow> mark_start 1 (3 / 2) a;
       st \<leftarrow> type_text [1] 0 ''b'' (a, snd st); st \<leftarrow> settle st;
       st \<leftarrow> type_text [0] 1 ''c'' st; st \<leftarrow> settle st;
       a \<leftarrow> mark_end no_ids (snd st) (3 / 2) (fst st);
       st \<leftarrow> undo_step (a, snd st); st \<leftarrow> undo_step st;
       Some (sv, fst st, snd st) }"

text \<open>
  A marked block makes the save marker unsound: the document is saved after a first
  edit, two more edits are made inside a marked block, and the block and the first edit are
  undone. \<open>conform_save\<close> then tells that nothing has changed since the save, although the document
  is the empty one and not the saved one: ending the block merged two history items into one
  but lowered the depth by the marker only.
\<close>

theorem marked_block_save_wrong:
  "case marked_run of None \<Rightarrow> False
   | Some (sv, a, t) \<Rightarrow> sv = two_lines ''a'' [] \<and> t = two_lines [] [] \<and> \<not> active a \<and>
       conform_save a = Some True"
  by code_simp

section \<open>Simplification below the saved state\<close>

definition simplified_run :: "(tree \<times> archiver \<times> tree) option" where
  "simplified_run =
     do { st \<leftarrow> type_text [0] 0 ''a'' (new_archiver 1 [], two_lines [] []); st \<leftarrow> settle st;
       a \<leftarrow> notify_save (fst st);
       st \<leftarrow> type_text [0] 1 ''b'' (a, snd st); st \<leftarrow> settle st;
       st \<leftarrow> type_text [1] 0 ''c'' st; st \<leftarrow> settle st;
       a \<leftarrow> notify_save (fst st);
       let sv = snd st;
       st \<leftarrow> type_text [0] 0 ''d'' (a, snd st); st \<leftarrow> settle st;
       st \<leftarrow> undo_step st; st \<leftarrow> undo_step st;
       st \<leftarrow> edit (no_ids []) 1 (mod_set_cursor [0] 0 (Atomic None [])) st; st \<leftarrow> settle st;
       st \<leftarrow> redo_step st; st \<leftarrow> redo_step st;
       Some (sv, fst st, snd st) }"

text \<open>
  Simplifying below the saved state makes the save marker unsound too: an edit is made
  after the save, the edit and the saved one are undone, and a cursor move makes the next
  command boundary merge the two history items that are left. The depth is lowered while the
  depth of the last save is not, so that after redoing both edits \<open>conform_save\<close> takes the
  document with the last edit for the saved one.
\<close>

theorem simplify_save_wrong:
  "case simplified_run of None \<Rightarrow> False
   | Some (sv, a, t) \<Rightarrow> sv = two_lines ''ab'' ''c'' \<and> t = two_lines ''dab'' ''c'' \<and> \<not> active a \<and>
       conform_save a = Some True"
  by code_simp

section \<open>Reopening a history item\<close>

definition forked_run :: "(archiver \<times> tree) option" where
  "forked_run =
     do { st \<leftarrow> type_text [0] 0 ''a'' (new_archiver 1 [], two_lines [] []); st \<leftarrow> settle st;
       st \<leftarrow> type_text [1] 0 ''b'' st; st \<leftarrow> settle st;
       st \<leftarrow> undo_step st;
       st \<leftarrow> type_text [1] 0 ''c'' st; settle st }"

text \<open>
  Reopening the last history item forgets futures: with a future beside the last item
  (another edit that was undone before it), \<open>undo\<close> leaves two futures to choose from, the undone
  item and the other one, while \<open>retract\<close> leaves none: it replaces the rest of the history by
  its undo part before it asks for its redo part.
\<close>

theorem retract_forgets_futures:
  "case forked_run of None \<Rightarrow> False
   | Some (a, t) \<Rightarrow>
       (case undo_step (a, t) of None \<Rightarrow> False | Some (b, u) \<Rightarrow> redo_possibilities b = 2) \<and>
       (case retract no_ids (a, t) of None \<Rightarrow> False
        | Some (b, r) \<Rightarrow> r \<and> redo_possibilities b = 0 \<and>
            (case cancel no_ids (b, t) of None \<Rightarrow> False | Some (c, u) \<Rightarrow> redo_possibilities c = 0 \<and> u = two_lines ''a'' []))"
  by code_simp

section \<open>Cursor hints and metadata\<close>

definition wrapped_run :: "(archiver \<times> tree) option" where
  "wrapped_run =
     do { st \<leftarrow> edit (no_ids []) 1 (mod_insert_node [0] 0 (Compound None CONCAT [Atomic None ''z'']))
            (new_archiver 1 [], two_lines ''a'' ''b'');
       st \<leftarrow> edit (no_ids []) 1 (mod_set_metadata [0] (Atomic (Some (Metadata ''n1'' [])) [])) st;
       st \<leftarrow> settle st;
       undo_step st }"

text \<open>
  Redoing a batch that wraps a node and then gives the wrapper metadata runs into a
  failed assertion: the patch to redo is applicable and reversible, but the cursor hint for its
  inverse looks past the metadata change at the removal of the wrapper without following the
  change, and finds it not applicable.
\<close>

theorem redo_hint_fails:
  "case wrapped_run of None \<Rightarrow> False
   | Some (a, t) \<Rightarrow> t = two_lines ''a'' ''b'' \<and> redo_possibilities a = 1 \<and>
       (case get_redo (archive a) of None \<Rightarrow> False | Some re \<Rightarrow>
         (case car re of None \<Rightarrow> False | Some p \<Rightarrow>
            patch_is_applicable no_ids p t = Some True \<and> rev_effect p t \<noteq> None)) \<and>
       redo {1} no_ids sample_nav 0 (a, t) = None"
  by code_simp

end
