(* ===== verification/Athena_Delta.thy ===== *)
theory Athena_Delta
  imports "HOL-Library.Word"
begin

text \<open>
  The delta codec of the document history, \<open>src/src/Sync/State/fossil_delta.cpp\<close>. A delta
  is the size of the target in base 64 and a newline, a list of copies from the source
  (\<open>count@offset,\<close>) and literals (\<open>count:bytes\<close>), and the checksum of the target with a
  semicolon. \<open>std::uint32_t\<close> is \<open>32 word\<close>, \<open>std::uint64_t\<close> is \<open>64 word\<close>,
  \<open>std::size_t\<close> is \<open>nat\<close> (no size of a string in memory reaches \<open>2 ^ 64\<close>), and
  \<open>static_cast\<close> to 32 bits is \<open>word_of_nat\<close>, which truncates.

  Shown: what \<open>fossil_delta_create\<close> writes, \<open>fossil_delta_apply\<close> reads back; a delta that
  is accepted yields exactly the announced number of bytes, with the announced checksum; and a
  delta exceeds its target by at most 21 bytes.
\<close>

unbundle bit_operations_syntax

section \<open>Numbers in base 64\<close>

definition fossil_digits :: string where
  "fossil_digits = ''0123456789ABCDEFGHIJKLMNOPQRSTUVWXYZ_abcdefghijklmnopqrstuvwxyz~''"

lemma drop_bit_6_less: "v \<noteq> 0 \<Longrightarrow> unat (drop_bit 6 v) < unat (v :: 32 word)"
  by (simp add: drop_bit_eq_div unat_div unat_gt_0)

text \<open>The first loop of \<open>append_uint\<close>; the buffer is a stack, its last byte first.\<close>

function uint_buffer :: "32 word \<Rightarrow> string \<Rightarrow> string" where
  "uint_buffer v buffer =
     (if v \<noteq> 0 then uint_buffer (drop_bit 6 v) (fossil_digits ! unat (v AND 0x3F) # buffer)
      else buffer)"
  by pat_completeness auto

termination
  by (relation "measure (\<lambda>(v, b). unat v)") (auto simp: drop_bit_6_less)

declare uint_buffer.simps [simp del]

definition append_uint :: "string \<Rightarrow> 32 word \<Rightarrow> string" where
  "append_uint out v = (if v = 0 then out @ ''0'' else out @ uint_buffer v [])"

definition digit_value :: "char \<Rightarrow> int" where
  "digit_value ch =
     (let c = of_char ch :: int in
      if of_char CHR ''0'' \<le> c \<and> c \<le> of_char CHR ''9'' then c - of_char CHR ''0''
      else if of_char CHR ''A'' \<le> c \<and> c \<le> of_char CHR ''Z'' then c - of_char CHR ''A'' + 10
      else if c = of_char CHR ''_'' then 36
      else if of_char CHR ''a'' \<le> c \<and> c \<le> of_char CHR ''z'' then c - of_char CHR ''a'' + 37
      else if c = of_char CHR ''~'' then 63
      else - 1)"

text \<open>The loop of \<open>read_uint\<close>; \<open>None\<close> is the early \<open>return false\<close>.\<close>

function read_loop :: "string \<Rightarrow> nat \<Rightarrow> 64 word \<Rightarrow> (nat \<times> 64 word) option" where
  "read_loop bytes cursor r =
     (if cursor < length bytes then
        let digit = digit_value (bytes ! cursor) in
        if digit < 0 then Some (cursor, r)
        else let r' = push_bit 6 r + word_of_int digit in
             if r' > 0xFFFFFFFF then None else read_loop bytes (Suc cursor) r'
      else Some (cursor, r))"
  by pat_completeness auto

termination
  by (relation "measure (\<lambda>(bytes, cursor, r). length bytes - cursor)") auto

declare read_loop.simps [simp del]

definition read_uint :: "string \<Rightarrow> nat \<Rightarrow> (nat \<times> 32 word) option" where
  "read_uint bytes cursor =
     (if cursor \<ge> length bytes then None
      else case read_loop bytes cursor 0 of
             None \<Rightarrow> None
           | Some (cursor', r) \<Rightarrow> if cursor' = cursor then None else Some (cursor', ucast r))"

section \<open>The checksum\<close>

definition byte_at :: "char \<Rightarrow> nat \<Rightarrow> 32 word" where
  "byte_at c s = push_bit s (of_char c)"

text \<open>The loop over whole words; the argument is the part of the string from \<open>i\<close> on.\<close>

fun checksum_words :: "string \<Rightarrow> 32 word \<Rightarrow> string \<times> 32 word" where
  "checksum_words (a # b # c # d # rest) s =
     checksum_words rest (s + (byte_at a 24 OR byte_at b 16 OR byte_at c 8 OR of_char d))"
| "checksum_words rest s = (rest, s)"

text \<open>The loop over the last one to three bytes.\<close>

fun checksum_tail :: "string \<Rightarrow> nat \<Rightarrow> 32 word \<Rightarrow> 32 word" where
  "checksum_tail [] shift tail = tail"
| "checksum_tail (c # cs) shift tail = checksum_tail cs (shift - 8) (tail OR byte_at c shift)"

definition checksum :: "string \<Rightarrow> 32 word" where
  "checksum bytes =
     (let (rest, s) = checksum_words bytes 0 in
      if rest = [] then s else s + checksum_tail rest 24 0)"

section \<open>Writing a delta\<close>

fun encoded_uint_size :: "nat \<Rightarrow> nat" where
  "encoded_uint_size v = (if v \<ge> 64 then Suc (encoded_uint_size (v div 64)) else 1)"

declare encoded_uint_size.simps [simp del]

definition append_copy :: "string \<Rightarrow> nat \<Rightarrow> nat \<Rightarrow> string" where
  "append_copy out count offset =
     append_uint (append_uint out (word_of_nat count) @ ''@'') (word_of_nat offset) @ '',''"

definition append_literal :: "string \<Rightarrow> string \<Rightarrow> string" where
  "append_literal out literal =
     (if literal = [] then out
      else append_uint out (word_of_nat (length literal)) @ '':'' @ literal)"

definition copy_is_smaller :: "nat \<Rightarrow> nat \<Rightarrow> bool" where
  "copy_is_smaller count offset \<longleftrightarrow>
     count > encoded_uint_size count + encoded_uint_size offset + 2"

function prefix_loop :: "string \<Rightarrow> string \<Rightarrow> nat \<Rightarrow> nat" where
  "prefix_loop source target prefix =
     (if prefix < length source \<and> prefix < length target \<and> source ! prefix = target ! prefix
      then prefix_loop source target (Suc prefix) else prefix)"
  by pat_completeness auto

termination
  by (relation "measure (\<lambda>(s, t, p). length s - p)") auto

function suffix_loop :: "string \<Rightarrow> string \<Rightarrow> nat \<Rightarrow> nat \<Rightarrow> nat" where
  "suffix_loop source target prefix suffix =
     (if suffix < length source - min prefix (length source) \<and>
         suffix < length target - min prefix (length target) \<and>
         source ! (length source - 1 - suffix) = target ! (length target - 1 - suffix)
      then suffix_loop source target prefix (Suc suffix) else suffix)"
  by pat_completeness auto

termination
  by (relation "measure (\<lambda>(s, t, p, i). length s - i)") auto

declare prefix_loop.simps [simp del] suffix_loop.simps [simp del]

definition fossil_delta_create :: "string \<Rightarrow> string \<Rightarrow> string" where
  "fossil_delta_create source target =
     (if int (length source) > 0xFFFFFFFF \<or> int (length target) > 0xFFFFFFFF then []
      else
        let prefix = prefix_loop source target 0;
            suffix = suffix_loop source target prefix 0;
            use_prefix = (prefix \<noteq> 0 \<and> copy_is_smaller prefix 0);
            use_suffix = (suffix \<noteq> 0 \<and> copy_is_smaller suffix (length source - suffix));
            literal_begin = (if use_prefix then prefix else 0);
            literal_end = (if use_suffix then length target - suffix else length target);
            (use_suffix, literal_end) =
              (if literal_end < literal_begin then (False, length target)
               else (use_suffix, literal_end));
            out = append_uint [] (word_of_nat (length target)) @ [CHR 0x0A];
            out = (if use_prefix then append_copy out prefix 0 else out);
            out = append_literal out
                    (take (literal_end - literal_begin) (drop literal_begin target));
            out = (if use_suffix then append_copy out suffix (length source - suffix) else out)
        in append_uint out (checksum target) @ '';'')"

section \<open>Reading a delta\<close>

definition fossil_delta_output_size :: "string \<Rightarrow> nat option" where
  "fossil_delta_output_size delta =
     (case read_uint delta 0 of
        None \<Rightarrow> None
      | Some (cursor, limit) \<Rightarrow>
          if cursor \<ge> length delta \<or> delta ! cursor \<noteq> CHR 0x0A then None else Some (unat limit))"

lemma read_loop_cursor: "read_loop bytes cursor r = Some (cursor', r') \<Longrightarrow> cursor \<le> cursor'"
proof (induction bytes cursor r rule: read_loop.induct)
  case (1 bytes cursor r)
  then show ?case
    using read_loop.simps[of bytes cursor r] by (fastforce simp: Let_def split: if_splits)
qed

lemma read_uint_cursor: "read_uint bytes cursor = Some (cursor', v) \<Longrightarrow> cursor < cursor'"
  using read_loop_cursor
  by (fastforce simp: read_uint_def split: if_splits option.splits prod.splits)

text \<open>The loop of \<open>fossil_delta_apply\<close>: one command per iteration.\<close>

function apply_commands :: "string \<Rightarrow> string \<Rightarrow> 32 word \<Rightarrow> nat \<Rightarrow> string \<Rightarrow> string option" where
  "apply_commands source delta limit cursor out =
     (if cursor < length delta then
        case read_uint delta cursor of
          None \<Rightarrow> None
        | Some (cursor1, count) \<Rightarrow>
            if cursor1 \<ge> length delta then None
            else
              let op = delta ! cursor1; cursor2 = Suc cursor1 in
              if op = CHR '';'' then
                (if length out \<noteq> unat limit \<or> checksum out \<noteq> count \<or> cursor2 \<noteq> length delta
                 then None else Some out)
              else if op = CHR '':'' then
                (if unat count > length delta - cursor2 \<or> length out + unat count > unat limit
                 then None
                 else apply_commands source delta limit (cursor2 + unat count)
                        (out @ take (unat count) (drop cursor2 delta)))
              else if op = CHR ''@'' then
                (case read_uint delta cursor2 of
                   None \<Rightarrow> None
                 | Some (cursor3, offset) \<Rightarrow>
                     if cursor3 \<ge> length delta \<or> delta ! cursor3 \<noteq> CHR '','' then None
                     else if unat offset > length source then None
                     else
                       let actual = (if count = 0 then length source - unat offset
                                     else unat count) in
                       if actual > length source - unat offset \<or>
                          length out + actual > unat limit then None
                       else apply_commands source delta limit (Suc cursor3)
                              (out @ take actual (drop (unat offset) source)))
              else None
      else None)"
  by pat_completeness auto

termination
  by (relation "measure (\<lambda>(s, d, l, cursor, out). length d - cursor)")
    (auto dest!: read_uint_cursor)

declare apply_commands.simps [simp del]

definition fossil_delta_apply :: "string \<Rightarrow> string \<Rightarrow> string option" where
  "fossil_delta_apply source delta =
     (case read_uint delta 0 of
        None \<Rightarrow> None
      | Some (cursor, limit) \<Rightarrow>
          if cursor \<ge> length delta \<or> delta ! cursor \<noteq> CHR 0x0A then None
          else apply_commands source delta limit (Suc cursor) [])"

section \<open>Numbers are read back\<close>

text \<open>The digits of a number in base 64, the most significant first.\<close>

fun base64_digits :: "nat \<Rightarrow> nat list" where
  "base64_digits n = (if n = 0 then [] else base64_digits (n div 64) @ [n mod 64])"

declare base64_digits.simps [simp del]

definition value_of :: "nat \<Rightarrow> nat list \<Rightarrow> nat" where
  "value_of = foldl (\<lambda>r d. 64 * r + d)"

lemma value_of_simps [simp]:
  "value_of r [] = r" "value_of r (d # ds) = value_of (64 * r + d) ds"
  "value_of r (ds @ es) = value_of (value_of r ds) es"
  by (simp_all add: value_of_def)

lemma value_of_digits: "value_of 0 (base64_digits n) = n"
proof (induction n rule: base64_digits.induct)
  case (1 n)
  then show ?case by (subst base64_digits.simps) simp
qed

lemma value_of_ge: "r \<le> value_of r ds"
  by (induction ds arbitrary: r) (simp, metis le_trans le_add1 value_of_simps(2) mult.commute
      mult_le_mono2 nat_mult_1_right one_le_numeral)

lemma digits_less: "\<forall>d \<in> set (base64_digits n). d < 64"
  by (induction n rule: base64_digits.induct) (subst base64_digits.simps, simp)

lemma uint_buffer_eq:
  "uint_buffer v buffer = map ((!) fossil_digits) (base64_digits (unat v)) @ buffer"
proof (induction v buffer rule: uint_buffer.induct)
  case (1 v buffer)
  have "unat (v AND 0x3F) = unat v mod 64"
    using take_bit_eq_mask[of 6 v] take_bit_eq_mod[of 6 v]
      unat_mod_distrib[of v 64] by (simp add: mask_eq_exp_minus_1)
  moreover have "unat (drop_bit 6 v) = unat v div 64"
    by (simp add: drop_bit_eq_div unat_div)
  ultimately show ?case
    using 1 by (subst uint_buffer.simps, subst base64_digits.simps) (simp add: unat_eq_zero)
qed

lemma digit_value_digit: "d < 64 \<Longrightarrow> digit_value (fossil_digits ! d) = int d"
proof -
  have "list_all (\<lambda>d. digit_value (fossil_digits ! d) = int d) [0..<64]"
    by code_simp
  then show "d < 64 \<Longrightarrow> digit_value (fossil_digits ! d) = int d"
    by (simp add: list_all_iff)
qed

lemma not_digits:
  "digit_value CHR ''@'' = - 1" "digit_value CHR '','' = - 1" "digit_value CHR '':'' = - 1"
  "digit_value CHR '';'' = - 1" "digit_value CHR 0x0A = - 1"
  by code_simp+

text \<open>The accumulator stays below \<open>2 ^ 32\<close>, so the 64-bit shift never loses a bit.\<close>

lemma shift_in_digit:
  fixes r :: "64 word"
  assumes "unat r < 2 ^ 32" "d < 64"
  shows "unat (push_bit 6 r + word_of_int (int d)) = 64 * unat r + d"
proof -
  have "unat (push_bit 6 r) = 64 * unat r"
    using assms by (simp add: push_bit_eq_mult unat_word_ariths)
  moreover have "unat (word_of_int (int d) :: 64 word) = d"
    using assms by (simp add: unat_of_nat)
  ultimately show ?thesis
    using assms by (simp add: unat_word_ariths)
qed

lemma read_loop_digits:
  assumes "\<forall>d \<in> set ds. d < 64" "value_of (unat r) ds < 2 ^ 32" "digit_value c < 0"
  shows "read_loop (pre @ map ((!) fossil_digits) ds @ c # rest) (length pre) r =
         Some (length pre + length ds, word_of_nat (value_of (unat r) ds))"
  using assms
proof (induction ds arbitrary: pre r)
  case Nil
  then show ?case by (subst read_loop.simps) simp
next
  case (Cons d ds)
  define r' where "r' = push_bit 6 r + word_of_int (int d)"
  have bound: "64 * unat r + d < 2 ^ 32"
    using Cons.prems(2) value_of_ge[of "64 * unat r + d" ds] by simp
  then have r': "unat r' = 64 * unat r + d"
    unfolding r'_def using Cons.prems(1) by (intro shift_in_digit) auto
  have small: "\<not> 0xFFFFFFFF < r'"
    using bound unfolding word_less_nat_alt r' by simp
  have "read_loop (pre @ map ((!) fossil_digits) (d # ds) @ c # rest) (length pre) r =
        read_loop ((pre @ [fossil_digits ! d]) @ map ((!) fossil_digits) ds @ c # rest)
          (length (pre @ [fossil_digits ! d])) r'"
    using small Cons.prems(1)
    by (subst read_loop.simps) (simp add: Let_def r'_def digit_value_digit nth_append)
  also have "\<dots> = Some (length (pre @ [fossil_digits ! d]) + length ds,
                     word_of_nat (value_of (unat r') ds))"
    using Cons.prems by (intro Cons.IH) (auto simp: r')
  finally show ?case by (simp add: r')
qed

text \<open>The bytes that \<open>append_uint\<close> appends.\<close>

definition uint_bytes :: "32 word \<Rightarrow> string" where
  "uint_bytes v = append_uint [] v"

lemma append_uint_eq: "append_uint out v = out @ uint_bytes v"
  by (simp add: append_uint_def uint_bytes_def)

lemma uint_bytes_digits:
  "\<exists>ds. uint_bytes v = map ((!) fossil_digits) ds \<and> (\<forall>d \<in> set ds. d < 64) \<and> ds \<noteq> [] \<and>
        value_of 0 ds = unat v"
proof (cases "v = 0")
  case True
  then show ?thesis
    by (intro exI[of _ "[0]"]) (simp add: uint_bytes_def append_uint_def fossil_digits_def)
next
  case False
  then have "base64_digits (unat v) \<noteq> []"
    by (subst base64_digits.simps) (simp add: unat_eq_zero)
  then show ?thesis
    using False
    by (intro exI[of _ "base64_digits (unat v)"])
      (simp add: uint_bytes_def append_uint_def uint_buffer_eq value_of_digits digits_less)
qed

lemma ucast_widened: "ucast (ucast v :: 64 word) = (v :: 32 word)"
  by (simp add: unsigned_ucast_eq take_bit_word_eq_self)

lemma read_uint_bytes:
  assumes "digit_value c < 0"
  shows "read_uint (pre @ uint_bytes v @ c # rest) (length pre) =
         Some (length pre + length (uint_bytes v), v)"
proof -
  obtain ds where ds: "uint_bytes v = map ((!) fossil_digits) ds" "\<forall>d \<in> set ds. d < 64"
    "ds \<noteq> []" "value_of 0 ds = unat v"
    using uint_bytes_digits by blast
  have "unat v < 2 ^ 32"
    using unsigned_less[of v] by simp
  then have "read_loop (pre @ map ((!) fossil_digits) ds @ c # rest) (length pre) 0 =
        Some (length pre + length ds, word_of_nat (unat v))"
    using read_loop_digits[of ds 0 c pre rest] ds assms by simp
  then show ?thesis
    using ds by (simp add: read_uint_def ucast_widened)
qed

text \<open>The buffer of \<open>append_uint\<close> has room for 8 bytes; at most 6 are used.\<close>

lemma encoded_uint_size_le: "0 < k \<Longrightarrow> n < 64 ^ k \<Longrightarrow> encoded_uint_size n \<le> k"
proof (induction k arbitrary: n)
  case (Suc k)
  show ?case
  proof (cases "n \<ge> 64")
    case True
    moreover from True Suc.prems have "0 < k" by (cases k) auto
    moreover from Suc.prems have "n div 64 < 64 ^ k" by (simp add: less_mult_imp_div_less mult.commute)
    ultimately show ?thesis
      using Suc.IH by (subst encoded_uint_size.simps) simp
  qed (subst encoded_uint_size.simps, simp)
qed simp

lemma length_base64_digits: "n \<noteq> 0 \<Longrightarrow> length (base64_digits n) = encoded_uint_size n"
proof (induction n rule: base64_digits.induct)
  case (1 n)
  then show ?case
    by (subst base64_digits.simps, subst encoded_uint_size.simps)
      (auto simp: base64_digits.simps[of 0] not_le)
qed

lemma length_uint_bytes: "length (uint_bytes v) = encoded_uint_size (unat v)"
  by (cases "v = 0")
    (simp_all add: uint_bytes_def append_uint_def uint_buffer_eq length_base64_digits unat_eq_zero
      encoded_uint_size.simps[of 0])

lemma unat_less_numeral: "unat (v :: 32 word) < 2 ^ 32"
  using unsigned_less[of v] by simp

lemma length_uint_bytes_le: "length (uint_bytes v) \<le> 6"
proof -
  have "unat v < 64 ^ 6"
    using unat_less_numeral[of v] by simp
  then show ?thesis
    unfolding length_uint_bytes by (intro encoded_uint_size_le) simp_all
qed

section \<open>A delta is read back\<close>

lemma prefix_loop_common:
  "p \<le> length s \<Longrightarrow> p \<le> length t \<Longrightarrow> take p s = take p t \<Longrightarrow>
   (let q = prefix_loop s t p in q \<le> length s \<and> q \<le> length t \<and> take q s = take q t)"
proof (induction s t p rule: prefix_loop.induct)
  case (1 s t p)
  then show ?case
    by (subst prefix_loop.simps) (auto simp: take_Suc_conv_app_nth)
qed

lemma suffix_loop_common:
  "p \<le> length s \<Longrightarrow> p \<le> length t \<Longrightarrow> i \<le> length s - p \<Longrightarrow> i \<le> length t - p \<Longrightarrow>
   drop (length s - i) s = drop (length t - i) t \<Longrightarrow>
   (let q = suffix_loop s t p i in
      q \<le> length s - p \<and> q \<le> length t - p \<and> drop (length s - q) s = drop (length t - q) t)"
proof (induction s t p i rule: suffix_loop.induct)
  case (1 s t p i)
  show ?case
  proof (cases "i < length s - p \<and> i < length t - p \<and>
      s ! (length s - 1 - i) = t ! (length t - 1 - i)")
    case True
    then have "Suc (length s - Suc i) = length s - i" "Suc (length t - Suc i) = length t - i"
      "length s - Suc i < length s" "length t - Suc i < length t"
      by auto
    then have "drop (length s - Suc i) s = drop (length t - Suc i) t"
      using True 1(6) Cons_nth_drop_Suc[of "length s - Suc i" s]
        Cons_nth_drop_Suc[of "length t - Suc i" t] by simp
    then show ?thesis
      using 1 True by (subst suffix_loop.simps) simp
  next
    case False
    then show ?thesis
      using 1(2-6) by (subst suffix_loop.simps) (auto simp: Let_def)
  qed
qed

text \<open>The bytes of one command of a delta.\<close>

definition copy_bytes :: "nat \<Rightarrow> nat \<Rightarrow> string" where
  "copy_bytes count offset = append_copy [] count offset"

definition literal_bytes :: "string \<Rightarrow> string" where
  "literal_bytes literal = append_literal [] literal"

lemma append_command_eq:
  "append_copy out count offset = out @ copy_bytes count offset"
  "append_literal out literal = out @ literal_bytes literal"
  by (simp_all add: copy_bytes_def literal_bytes_def append_copy_def append_literal_def
      append_uint_eq)

lemma command_bytes:
  "copy_bytes n m = uint_bytes (word_of_nat n) @ ''@'' @ uint_bytes (word_of_nat m) @ '',''"
  "xs \<noteq> [] \<Longrightarrow> literal_bytes xs = uint_bytes (word_of_nat (length xs)) @ '':'' @ xs"
  "literal_bytes [] = []"
  by (simp_all add: copy_bytes_def literal_bytes_def append_copy_def append_literal_def
      append_uint_eq)

lemma unat_of_size: "n \<le> 0xFFFFFFFF \<Longrightarrow> unat (word_of_nat n :: 32 word) = n"
  by (simp add: unat_of_nat)

lemma apply_literal:
  assumes delta: "delta = pre @ literal_bytes xs @ rest"
    and "length xs \<le> 0xFFFFFFFF" "length out + length xs \<le> unat limit"
  shows "apply_commands source delta limit (length pre) out =
         apply_commands source delta limit (length (pre @ literal_bytes xs)) (out @ xs)"
proof (cases "xs = []")
  case False
  let ?n = "word_of_nat (length xs) :: 32 word"
  have "read_uint delta (length pre) = Some (length pre + length (uint_bytes ?n), ?n)"
    using read_uint_bytes[of "CHR '':''" pre ?n "xs @ rest"] False
    by (simp add: delta command_bytes not_digits)
  then show ?thesis
    using assms False
    by (subst apply_commands.simps)
      (simp add: delta command_bytes nth_append unat_of_size Let_def add.assoc)
qed (simp add: command_bytes)

lemma apply_copy:
  assumes delta: "delta = pre @ copy_bytes n m @ rest"
    and n: "0 < n" "n \<le> 0xFFFFFFFF" "m \<le> 0xFFFFFFFF" "m + n \<le> length source"
    and "length out + n \<le> unat limit"
  shows "apply_commands source delta limit (length pre) out =
         apply_commands source delta limit (length (pre @ copy_bytes n m))
           (out @ take n (drop m source))"
proof -
  let ?n = "word_of_nat n :: 32 word" and ?m = "word_of_nat m :: 32 word"
  let ?pre = "pre @ uint_bytes ?n @ ''@''"
  have "read_uint delta (length pre) = Some (length pre + length (uint_bytes ?n), ?n)"
    using read_uint_bytes[of "CHR ''@''" pre ?n] by (simp add: delta command_bytes not_digits)
  moreover have "read_uint delta (length ?pre) = Some (length ?pre + length (uint_bytes ?m), ?m)"
    using read_uint_bytes[of "CHR '',''" ?pre ?m] by (simp add: delta command_bytes not_digits)
  moreover have "?n \<noteq> 0"
    using n unat_of_size[of n] by (metis not_less0 unsigned_0)
  moreover have "\<not> length source - m < n" "m \<le> length source"
    using n by auto
  ultimately show ?thesis
    using assms
    by (subst apply_commands.simps)
      (simp add: delta command_bytes nth_append unat_of_size Let_def add.assoc)
qed

lemma apply_finish:
  assumes delta: "delta = pre @ uint_bytes (checksum out) @ '';''" and "length out = unat limit"
  shows "apply_commands source delta limit (length pre) out = Some out"
proof -
  have "read_uint delta (length pre) =
        Some (length pre + length (uint_bytes (checksum out)), checksum out)"
    using read_uint_bytes[of "CHR '';''" pre "checksum out" "[]"] by (simp add: delta not_digits)
  then show ?thesis
    using assms by (subst apply_commands.simps) (simp add: delta nth_append Let_def)
qed

lemma copy_is_smaller_0 [simp]: "\<not> copy_is_smaller 0 m"
  by (simp add: copy_is_smaller_def)

lemma take_middle_drop:
  "p + q \<le> length t \<Longrightarrow>
   take p t @ take (length t - q - p) (drop p t) @ drop (length t - q) t = t"
  using take_add[of p "length t - q - p" t] append_take_drop_id[of "length t - q" t]
  by (simp flip: append_assoc)

lemma size_guard: "0xFFFFFFFF < int n \<longleftrightarrow> 0xFFFFFFFF < n"
  by linarith

text \<open>What \<open>fossil_delta_create\<close> writes: the target is a copy, a literal and a copy.\<close>

lemma create_parts:
  assumes "length source \<le> 0xFFFFFFFF" "length target \<le> 0xFFFFFFFF"
  obtains p x q where
    "fossil_delta_create source target =
       uint_bytes (word_of_nat (length target)) @ [CHR 0x0A] @
       (if p = 0 then [] else copy_bytes p 0) @ literal_bytes x @
       (if q = 0 then [] else copy_bytes q (length source - q)) @
       uint_bytes (checksum target) @ '';''"
    "target = take p source @ x @ drop (length source - q) source"
    "p + q \<le> length source"
    "p \<noteq> 0 \<Longrightarrow> copy_is_smaller p 0" "q \<noteq> 0 \<Longrightarrow> copy_is_smaller q (length source - q)"
proof -
  define p where "p = prefix_loop source target 0"
  define q where "q = suffix_loop source target p 0"
  define p' where "p' = (if copy_is_smaller p 0 then p else 0)"
  define q' where "q' = (if copy_is_smaller q (length source - q) then q else 0)"
  have p: "p \<le> length source" "p \<le> length target" "take p source = take p target"
    using prefix_loop_common[of 0 source target] by (simp_all add: p_def Let_def)
  then have q: "q \<le> length source - p" "q \<le> length target - p"
    "drop (length source - q) source = drop (length target - q) target"
    using suffix_loop_common[of p source target 0] by (simp_all add: q_def Let_def)
  then have "\<not> length target - q < p"
    using p by linarith
  define x where "x = take (length target - q' - p') (drop p' target)"
  show thesis
  proof (rule that[of p' x q'])
    show "fossil_delta_create source target =
       uint_bytes (word_of_nat (length target)) @ [CHR 0x0A] @
       (if p' = 0 then [] else copy_bytes p' 0) @ literal_bytes x @
       (if q' = 0 then [] else copy_bytes q' (length source - q')) @
       uint_bytes (checksum target) @ '';''"
      using assms \<open>\<not> length target - q < p\<close>
      unfolding fossil_delta_create_def Let_def p_def[symmetric] q_def[symmetric]
      by (cases "copy_is_smaller p 0"; cases "copy_is_smaller q (length source - q)";
          cases "p = 0"; cases "q = 0")
        (simp_all add: x_def p'_def q'_def append_uint_eq append_command_eq)
    have "p' + q' \<le> length target"
      using p(1,2) q(1,2) by (auto simp: p'_def q'_def)
    then have "target = take p' target @ x @ drop (length target - q') target"
      unfolding x_def by (rule take_middle_drop[symmetric])
    then show "target = take p' source @ x @ drop (length source - q') source"
      using p(3) q(3) by (simp add: p'_def q'_def split: if_splits)
  qed (use p q in \<open>auto simp: p'_def q'_def split: if_splits\<close>)
qed

lemma apply_parts:
  assumes delta: "delta = uint_bytes limit @ [CHR 0x0A] @ c1 @ literal_bytes x @ c2 @
                    uint_bytes (checksum target) @ '';''"
    and c1: "c1 = (if p = 0 then [] else copy_bytes p 0)"
    and c2: "c2 = (if q = 0 then [] else copy_bytes q (length source - q))"
    and target: "target = take p source @ x @ drop (length source - q) source"
    and pq: "p + q \<le> length source"
    and limit: "unat limit = length target"
    and sizes: "length source \<le> 0xFFFFFFFF" "length target \<le> 0xFFFFFFFF"
  shows "fossil_delta_apply source delta = Some target"
proof -
  let ?run = "apply_commands source delta limit"
  let ?h = "uint_bytes limit @ [CHR 0x0A]" and ?l = "literal_bytes x"
    and ?cs = "uint_bytes (checksum target) @ '';''"
  have len: "length target = p + length x + q"
    using pq arg_cong[OF target, of length] by simp
  have tail: "(take p source @ x) @ take q (drop (length source - q) source) = target"
    using target pq by simp
  have "read_uint delta 0 = Some (length (uint_bytes limit), limit)"
    using read_uint_bytes[of "CHR 0x0A" "[]" limit] by (simp add: delta not_digits)
  then have "fossil_delta_apply source delta = ?run (length ?h) []"
    by (simp add: fossil_delta_apply_def delta nth_append)
  also have "\<dots> = ?run (length (?h @ c1)) (take p source)"
    using apply_copy[of delta ?h p 0 "?l @ c2 @ ?cs" source "[]" limit] pq sizes len limit
    by (cases "p = 0") (simp_all add: delta c1)
  also have "\<dots> = ?run (length (?h @ c1 @ ?l)) (take p source @ x)"
    using apply_literal[of delta "?h @ c1" x "c2 @ ?cs" "take p source" limit source]
      pq sizes len limit by (simp add: delta)
  also have "\<dots> = ?run (length (?h @ c1 @ ?l @ c2)) target"
    using apply_copy[of delta "?h @ c1 @ ?l" q "length source - q" ?cs source
        "take p source @ x" limit, unfolded tail] pq sizes len limit tail
    by (cases "q = 0") (simp_all add: delta c2)
  also have "\<dots> = Some target"
    using apply_finish[of delta "?h @ c1 @ ?l @ c2" target limit source] limit
    by (simp add: delta)
  finally show ?thesis .
qed

lemma apply_create:
  assumes "length source \<le> 0xFFFFFFFF" "length target \<le> 0xFFFFFFFF"
  shows "fossil_delta_apply source (fossil_delta_create source target) = Some target"
  by (rule create_parts[OF assms])
    (rule apply_parts, assumption, rule refl, rule refl, assumption, assumption,
      rule unat_of_size[OF assms(2)], rule assms(1), rule assms(2))

lemma create_length:
  assumes "length source \<le> 0xFFFFFFFF" "length target \<le> 0xFFFFFFFF"
  shows "length (fossil_delta_create source target) \<le> length target + 21"
proof -
  obtain p x q where parts:
    "fossil_delta_create source target =
       uint_bytes (word_of_nat (length target)) @ [CHR 0x0A] @
       (if p = 0 then [] else copy_bytes p 0) @ literal_bytes x @
       (if q = 0 then [] else copy_bytes q (length source - q)) @
       uint_bytes (checksum target) @ '';''"
    and target: "target = take p source @ x @ drop (length source - q) source"
    and pq: "p + q \<le> length source"
    and small: "p \<noteq> 0 \<Longrightarrow> copy_is_smaller p 0" "q \<noteq> 0 \<Longrightarrow> copy_is_smaller q (length source - q)"
    using create_parts[OF assms] by metis
  have "length target = p + length x + q"
    using pq arg_cong[OF target, of length] by simp
  moreover have "length (if p = 0 then [] else copy_bytes p 0) \<le> p"
    using small(1) pq assms
    by (cases "p = 0")
      (auto simp: command_bytes length_uint_bytes unat_of_size copy_is_smaller_def)
  moreover have "length (if q = 0 then [] else copy_bytes q (length source - q)) \<le> q"
    using small(2) pq assms
    by (cases "q = 0")
      (auto simp: command_bytes length_uint_bytes unat_of_size copy_is_smaller_def
        simp del: of_nat_diff)
  moreover have "length (literal_bytes x) \<le> 7 + length x"
    using length_uint_bytes_le[of "word_of_nat (length x)"]
    by (cases "x = []") (simp_all add: command_bytes)
  ultimately show ?thesis
    using length_uint_bytes_le[of "checksum target"]
      length_uint_bytes_le[of "word_of_nat (length target)"]
    unfolding parts length_append list.size by linarith
qed

section \<open>A delta that is accepted\<close>

lemma apply_commands_checked:
  "apply_commands source delta limit cursor out = Some result \<Longrightarrow>
   length result = unat limit \<and>
   (\<exists>cursor'. read_uint delta cursor' = Some (length delta - 1, checksum result)) \<and>
   last delta = CHR '';'' \<and> delta \<noteq> []"
proof (induction source delta limit cursor out rule: apply_commands.induct)
  case (1 source delta limit cursor out)
  obtain cursor1 count where read: "cursor < length delta"
    "read_uint delta cursor = Some (cursor1, count)" "cursor1 < length delta"
    using 1(3) apply_commands.simps[of source delta limit cursor out]
    by (auto split: if_splits option.splits)
  consider (finish) "delta ! cursor1 = CHR '';''" | (literal) "delta ! cursor1 = CHR '':''"
    | (copied) "delta ! cursor1 = CHR ''@''"
    using 1(3) read apply_commands.simps[of source delta limit cursor out]
    by (auto simp: Let_def split: if_splits)
  then show ?case
  proof cases
    case finish
    then have eq: "result = out" "length out = unat limit" "checksum out = count"
      "Suc cursor1 = length delta"
      using 1(3) read apply_commands.simps[of source delta limit cursor out]
      by (auto simp: Let_def split: if_splits)
    then have "length delta - 1 = cursor1" "delta \<noteq> []"
      by auto
    then show ?thesis
      using eq read finish by (auto simp: last_conv_nth intro!: exI[of _ cursor])
  next
    case literal
    then show ?thesis
      using 1(1)[OF read(1,2)] 1(3) read apply_commands.simps[of source delta limit cursor out]
      by (auto simp: Let_def split: if_splits)
  next
    case copied
    then show ?thesis
      using 1(2)[OF read(1,2)] 1(3) read apply_commands.simps[of source delta limit cursor out]
      by (auto simp: Let_def split: if_splits option.splits prod.splits)
  qed
qed

lemma output_size_accepted:
  "fossil_delta_apply source delta = Some result \<Longrightarrow>
   fossil_delta_output_size delta = Some (length result)"
  unfolding fossil_delta_apply_def fossil_delta_output_size_def
  by (auto split: option.splits prod.splits if_splits dest: apply_commands_checked)

section \<open>Properties\<close>

text \<open>
  Claim C30. Round trip of the history codec: for strings whose sizes fit in 32 bits, the delta
  written by \<open>fossil_delta_create\<close> is accepted by \<open>fossil_delta_apply\<close> on the same source
  and gives back exactly the target, and \<open>fossil_delta_output_size\<close> reads the size of the
  target off its header. Bytes of the target that look like digits or commands do no harm.
\<close>

theorem fossil_delta_roundtrip:
  assumes "length source < 2 ^ 32" "length target < 2 ^ 32"
  shows "fossil_delta_apply source (fossil_delta_create source target) = Some target \<and>
    fossil_delta_output_size (fossil_delta_create source target) = Some (length target)"
proof (intro conjI)
  show applied: "fossil_delta_apply source (fossil_delta_create source target) = Some target"
    using assms by (intro apply_create) simp_all
  show "fossil_delta_output_size (fossil_delta_create source target) = Some (length target)"
    by (rule output_size_accepted[OF applied])
qed

theorem fossil_delta_roundtrip_witness:
  "fossil_delta_apply ''the old text 0@0;'' (fossil_delta_create ''the old text 0@0;'' ''the new text 0@0;'')
     = Some ''the new text 0@0;''"
  by (rule fossil_delta_roundtrip[THEN conjunct1]) simp_all

text \<open>
  Claim C31. A delta is never half applied: whatever bytes are given as a delta, if
  \<open>fossil_delta_apply\<close> returns a result then the result has exactly the size announced in
  the header, and the delta ends with a number that is the checksum of the result, directly
  followed by the closing semicolon. Every other input is rejected.
\<close>

theorem fossil_delta_accepted:
  assumes "fossil_delta_apply source delta = Some result"
  shows "fossil_delta_output_size delta = Some (length result) \<and> delta \<noteq> [] \<and>
         last delta = CHR '';'' \<and>
         (\<exists>cursor. read_uint delta cursor = Some (length delta - 1, checksum result))"
proof -
  obtain limit cursor where
    "apply_commands source delta limit cursor [] = Some result"
    using assms by (auto simp: fossil_delta_apply_def split: option.splits prod.splits if_splits)
  then show ?thesis
    using apply_commands_checked output_size_accepted[OF assms] by blast
qed

theorem fossil_delta_accepted_witness:
  "fossil_delta_apply ''abcdef'' (''7'' @ [CHR 0x0A] @ ''6@0,1:g36nCe_;'') = Some ''abcdefg'' \<and>
   fossil_delta_output_size (''7'' @ [CHR 0x0A] @ ''6@0,1:g36nCe_;'') = Some (length ''abcdefg'')"
proof -
  have "fossil_delta_apply ''abcdef'' (''7'' @ [CHR 0x0A] @ ''6@0,1:g36nCe_;'') = Some ''abcdefg''"
    by code_simp
  with fossil_delta_accepted[OF this] show ?thesis by blast
qed

text \<open>
  Claim C32. Bounds: a delta is at most 21 bytes longer than its target, well within the 48 extra
  bytes that \<open>fossil_delta_create\<close> reserves, whatever the source; and the number written by
  \<open>append_uint\<close> never overruns its 8-byte stack buffer.
\<close>

theorem fossil_delta_bounded:
  "length (fossil_delta_create source target) \<le> length target + 21 \<and>
   length (uint_buffer v []) \<le> 6"
proof (intro conjI)
  show "length (fossil_delta_create source target) \<le> length target + 21"
  proof (cases "length source \<le> 0xFFFFFFFF \<and> length target \<le> 0xFFFFFFFF")
    case True
    then show ?thesis by (intro create_length) simp_all
  next
    case False
    then have "int (length source) > 0xFFFFFFFF \<or> int (length target) > 0xFFFFFFFF"
      unfolding size_guard by linarith
    then show ?thesis
      unfolding fossil_delta_create_def by (simp only: if_True list.size zero_le)
  qed
  show "length (uint_buffer v []) \<le> 6"
    using length_uint_bytes_le[of v]
    by (cases "v = 0") (simp_all add: uint_bytes_def append_uint_def uint_buffer.simps[of 0])
qed

end
