(* ===== verification/Athena_History_Store.thy ===== *)
theory Athena_History_Store
  imports Athena_Delta
begin

text \<open>
  The history of the documents of a vault, \<open>src/src/Sync/State/document_history_store.cpp\<close>: every
  version of a document is a row of an SQLite table, holding either the whole content or a delta
  against an earlier version; protected versions are kept for recovery.

  A store that is open is a value of the record \<open>database\<close>. The statements that the source
  sends to SQLite are written as operations on the lists of rows: a table is read in the order of
  its keys, \<open>AUTOINCREMENT\<close> never uses a key again, a statement that violates a \<open>REFERENCES\<close> clause
  fails and changes nothing, and \<open>ROLLBACK\<close> takes a transaction back. Any other failure of a
  statement (a full disk, a locked file) is the parameter \<open>fails\<close>, which says for each
  statement whether it fails. The clock and the fingerprint (SHA-256) are parameters too. The
  store is used by one thread; contents are smaller than \<open>2 ^ 31\<close> bytes, the limit of a blob.

  Shown: a version is reconstructed to exactly the content that was captured, whatever was
  captured, protected, renamed or removed since; as long as no history is renamed onto an existing
  one, capturing succeeds; paths that are accepted stay inside of the vault.
\<close>

section \<open>Paths\<close>

text \<open>
  \<open>std::filesystem::path::lexically_normal\<close> on POSIX systems: the names between the separators
  are pushed on a stack; the flag says whether a separator follows the last one.
\<close>

fun split_path :: "string \<Rightarrow> string \<Rightarrow> string list" where
  "split_path w [] = [rev w]"
| "split_path w (c # s) = (if c = CHR ''/'' then rev w # split_path [] s else split_path (c # w) s)"

definition is_absolute :: "string \<Rightarrow> bool" where
  "is_absolute s \<longleftrightarrow> (case s of [] \<Rightarrow> False | c # _ \<Rightarrow> c = CHR ''/'')"

definition push_name :: "bool \<Rightarrow> string list \<times> bool \<Rightarrow> string \<Rightarrow> string list \<times> bool" where
  "push_name absolute sd name = (case sd of (stack, dir) \<Rightarrow>
     if name = [] then (stack, True)
     else if name = ''.'' then (stack, True)
     else if name = ''..'' then
       (case stack of
          name2 # rest \<Rightarrow> if name2 = ''..'' then (name # stack, False) else (rest, True)
        | [] \<Rightarrow> if absolute then ([], dir) else ([name], False))
     else (name # stack, False))"

definition normal_names :: "string \<Rightarrow> string list \<times> bool" where
  "normal_names s =
     (case foldl (push_name (is_absolute s)) ([], False) (split_path [] s) of (stack, dir) \<Rightarrow>
        (rev stack, dir \<and> stack \<noteq> [] \<and> hd stack \<noteq> ''..''))"

fun join_names :: "string list \<Rightarrow> string" where
  "join_names [] = []"
| "join_names [n] = n"
| "join_names (n # ns) = n @ ''/'' @ join_names ns"

definition lexically_normal :: "string \<Rightarrow> string" where
  "lexically_normal s =
     (if s = [] then []
      else case normal_names s of (names, dir) \<Rightarrow>
        let t = (if is_absolute s then ''/'' else []) @ join_names names @ (if dir then ''/'' else [])
        in if t = [] then ''.'' else t)"

definition normalize_relative :: "string \<Rightarrow> string" where
  "normalize_relative path = lexically_normal path"

text \<open>The parts of a normal relative path, as the iterator of a path yields them.\<close>

definition path_parts :: "string \<Rightarrow> string list" where
  "path_parts s = (case normal_names s of (names, dir) \<Rightarrow>
     if names = [] then [''.''] else names @ (if dir then [[]] else []))"

definition valid_relative_document_path :: "string \<Rightarrow> bool" where
  "valid_relative_document_path path =
     (if path = [] \<or> CHR 0x00 \<in> set path then False
      else if is_absolute path then False
      else let value = path_parts path in
        if value = [''.''] then False
        else if list_ex (\<lambda>part. part = ''..'' \<or> part = ''.'') value then False
        else hd value \<noteq> ''.athena'' \<and> hd value \<noteq> ''.backup'' \<and> hd value \<noteq> ''.git'' \<and>
             value \<noteq> [''Vaultfile.json''])"

lemma split_names: "n \<in> set (split_path w s) \<Longrightarrow> CHR ''/'' \<notin> set w \<Longrightarrow> CHR ''/'' \<notin> set n \<and> set n \<subseteq> set w \<union> set s"
  by (induction w s rule: split_path.induct) (fastforce split: if_splits)+

lemma split_append:
  "CHR ''/'' \<notin> set n \<Longrightarrow> split_path w (n @ CHR ''/'' # s) = (rev w @ n) # split_path [] s"
  "CHR ''/'' \<notin> set n \<Longrightarrow> split_path w n = [rev w @ n]"
  by (induction n arbitrary: w) auto

definition plain_name :: "string \<Rightarrow> bool" where
  "plain_name n \<longleftrightarrow> n \<noteq> [] \<and> n \<noteq> ''.'' \<and> n \<noteq> ''..'' \<and> CHR ''/'' \<notin> set n"

lemma split_join:
  assumes "names \<noteq> []" "list_all plain_name names"
  shows "split_path [] (join_names names @ (if dir then ''/'' else [])) = names @ (if dir then [[]] else [])"
  using assms
proof (induction names rule: join_names.induct)
  case (2 n)
  then show ?case
    using split_append(1)[of n "[]" "[]"] split_append(2)[of n "[]"] by (simp add: plain_name_def)
next
  case (3 n m ns)
  then show ?case
    using split_append(1)[of n "[]"] by (simp add: plain_name_def)
qed simp

lemma push_plain: "plain_name n \<Longrightarrow> push_name absolute (stack, dir) n = (n # stack, False)"
  by (simp add: push_name_def plain_name_def)

lemma foldl_push_plain:
  "list_all plain_name names \<Longrightarrow> foldl (push_name absolute) (stack, dir) names =
    (rev names @ stack, if names = [] then dir else False)"
  by (induction names arbitrary: stack dir) (simp_all add: push_plain)

lemma push_keeps:
  assumes "\<forall>m \<in> set stack. P m" "P n \<or> n = [] \<or> n = ''.'' "
  shows "\<forall>m \<in> set (fst (push_name absolute (stack, dir) n)). P m"
  using assms by (auto simp: push_name_def split: list.splits)

lemma foldl_push_keeps:
  "\<forall>m \<in> set (fst sd). m \<noteq> [] \<and> m \<noteq> ''.'' \<and> Q m \<Longrightarrow> \<forall>n \<in> set names. Q n \<Longrightarrow>
    \<forall>m \<in> set (fst (foldl (push_name absolute) sd names)). m \<noteq> [] \<and> m \<noteq> ''.'' \<and> Q m"
proof (induction names arbitrary: sd)
  case (Cons n names)
  obtain stack dir where sd: "sd = (stack, dir)"
    by (cases sd)
  have "Q n" "\<forall>m \<in> set names. Q m"
    using Cons.prems(2) by auto
  moreover have "\<forall>m \<in> set (fst (push_name absolute sd n)). m \<noteq> [] \<and> m \<noteq> ''.'' \<and> Q m"
    unfolding sd by (rule push_keeps) (use Cons.prems(1) \<open>Q n\<close> sd in auto)
  ultimately show ?case
    unfolding foldl.simps by (intro Cons.IH) blast+
qed simp

lemma valid_parts:
  assumes "valid_relative_document_path p"
  obtains names dir where "normal_names p = (names, dir)" "names \<noteq> []" "list_all plain_name names"
    "\<forall>n \<in> set names. set n \<subseteq> set p" "\<not> is_absolute p" "p \<noteq> []" "CHR 0x00 \<notin> set p"
proof -
  obtain names dir where n: "normal_names p = (names, dir)"
    by (cases "normal_names p")
  have p: "p \<noteq> []" "\<not> is_absolute p" "CHR 0x00 \<notin> set p" "path_parts p \<noteq> [''.'']" "\<forall>m \<in> set (path_parts p). m \<noteq> ''..''"
    using assms by (auto simp: valid_relative_document_path_def Let_def list_ex_iff split: if_splits)
  have "\<forall>m \<in> set names. m \<noteq> [] \<and> m \<noteq> ''.'' \<and> CHR ''/'' \<notin> set m \<and> set m \<subseteq> set p"
    using foldl_push_keeps[of "([], False)" "\<lambda>m. CHR ''/'' \<notin> set m \<and> set m \<subseteq> set p" "split_path [] p" "is_absolute p"]
      split_names[of _ "[]" p] n by (auto simp: normal_names_def split: prod.splits)
  then show thesis
    using that n p by (auto simp: path_parts_def list_all_iff plain_name_def split: if_splits)
qed

lemma set_join_names: "set (join_names names) \<subseteq> insert (CHR ''/'') (\<Union> (set ` set names))"
  by (induction names rule: join_names.induct) auto

lemma join_names_start: "names \<noteq> [] \<Longrightarrow> list_all plain_name names \<Longrightarrow> join_names names \<noteq> [] \<and> \<not> is_absolute (join_names names @ s)"
  by (cases names rule: join_names.cases)
    (auto simp: plain_name_def is_absolute_def append_eq_Cons_conv split: list.splits)

text \<open>
  Claim C29. Accepted paths stay inside of the vault: the normal form of a valid path is valid, is its own
  normal form, is relative, and has no component \<open>..\<close>, so that it never names anything above
  the vault; its first component is none of the directories that the program keeps for itself.
\<close>

theorem valid_path_confined:
  assumes "valid_relative_document_path p"
  shows "valid_relative_document_path (normalize_relative p) \<and>
    normalize_relative (normalize_relative p) = normalize_relative p \<and>
    \<not> is_absolute (normalize_relative p) \<and>
    {''.'', ''..''} \<inter> set (split_path [] (normalize_relative p)) = {} \<and>
    hd (split_path [] (normalize_relative p)) \<notin> {''.athena'', ''.backup'', ''.git''}"
proof -
  obtain names dir where n: "normal_names p = (names, dir)" "names \<noteq> []" "list_all plain_name names"
    "\<forall>n \<in> set names. set n \<subseteq> set p" "\<not> is_absolute p" "p \<noteq> []" "CHR 0x00 \<notin> set p"
    by (rule valid_parts[OF assms])
  let ?t = "join_names names @ (if dir then ''/'' else [])"
  note start = join_names_start[OF n(2, 3)]
  have norm: "normalize_relative p = ?t"
    using n start by (simp add: normalize_relative_def lexically_normal_def Let_def)
  have rel: "\<not> is_absolute ?t" "?t \<noteq> []"
    using start by auto
  note split = split_join[OF n(2, 3), of dir]
  have last: "last names \<noteq> ''..''"
    using n(2, 3) last_in_set[OF n(2)] by (auto simp: list_all_iff plain_name_def)
  have again: "normal_names ?t = (names, dir)"
    using n(2, 3) rel(1) last unfolding normal_names_def split
    by (cases dir) (simp_all add: foldl_push_plain push_name_def hd_rev)
  have parts: "path_parts ?t = path_parts p"
    by (simp add: path_parts_def again n(1))
  have "CHR 0x00 \<notin> set ?t"
    using set_join_names[of names] n(4, 7) by auto
  then have valid: "valid_relative_document_path ?t"
    using assms rel parts unfolding valid_relative_document_path_def by (simp add: Let_def split: if_splits)
  moreover have "normalize_relative ?t = ?t"
    using again rel by (simp add: normalize_relative_def lexically_normal_def)
  moreover have "{''.'', ''..''} \<inter> set (split_path [] ?t) = {}"
    using n(3) unfolding split by (auto simp: list_all_iff plain_name_def)
  moreover have "hd (split_path [] ?t) \<notin> {''.athena'', ''.backup'', ''.git''}"
    using assms n(1, 2) unfolding split valid_relative_document_path_def path_parts_def
    by (auto simp: Let_def split: if_splits)
  ultimately show ?thesis
    using rel by (simp add: norm)
qed

theorem valid_path_confined_witness:
  "valid_relative_document_path (normalize_relative ''notes/../a//./b.xml'') \<and>
   normalize_relative ''notes/../a//./b.xml'' = ''a/b.xml'' \<and> \<not> valid_relative_document_path ''notes/../../b.xml''"
proof -
  have "valid_relative_document_path ''notes/../a//./b.xml''"
    by code_simp
  then have "valid_relative_document_path (normalize_relative ''notes/../a//./b.xml'')"
    using valid_path_confined by blast
  then show ?thesis
    by (simp) (code_simp)
qed

section \<open>The tables\<close>

record version_row =
  vid :: int
  vpath :: string
  created_at_ms :: int
  vtrigger :: string
  base_id :: "int option"
  encoding :: int
  payload :: string
  content_size :: int
  content_hash :: string
  chain_depth :: int

record database =
  versions :: "version_row list"
  last_id :: int
  protected_versions :: "(string \<times> string \<times> int) list"
  protected_metadata :: "(int \<times> string \<times> string) list"

text \<open>The tables that \<open>open\<close> creates.\<close>

definition new_database :: database where
  "new_database = \<lparr>versions = [], last_id = 0, protected_versions = [], protected_metadata = []\<rparr>"

datatype sql_point = Q_row int | Q_latest | Q_begin | Q_insert | Q_commit | Q_first_kept | Q_newest
  | Q_base | Q_delete | Q_existing | Q_pin | Q_metadata | Q_paths | Q_update string | Q_list

datatype history_error = Sql_error | Not_open | Delta_cycle | No_version | Checkpoint_damaged | Delta_damaged
  | Delta_mismatch | Invalid_encoding | Chain_too_deep | Invalid_path | Invalid_chain | Invalid_snapshot
  | Bound_elsewhere | Invalid_identity | Identity_bound | Invalid_page | Foreign_key

definition select_row :: "database \<Rightarrow> int \<Rightarrow> version_row option" where
  "select_row db i = List.find (\<lambda>r. vid r = i) (versions db)"

definition rows_of :: "database \<Rightarrow> string \<Rightarrow> version_row list" where
  "rows_of db p = filter (\<lambda>r. vpath r = p) (versions db)"

text \<open>\<open>ORDER BY id DESC LIMIT 1\<close>.\<close>

definition latest_row :: "database \<Rightarrow> string \<Rightarrow> version_row option" where
  "latest_row db p = (case rows_of db p of [] \<Rightarrow> None | rs \<Rightarrow> Some (last rs))"

definition is_protected :: "database \<Rightarrow> int \<Rightarrow> bool" where
  "is_protected db i \<longleftrightarrow> list_ex (\<lambda>(operation, path, v). v = i) (protected_versions db)"

definition insert_row :: "version_row \<Rightarrow> database \<Rightarrow> database" where
  "insert_row r db =
     db\<lparr>versions := versions db @ [r\<lparr>vid := last_id db + 1\<rparr>], last_id := last_id db + 1\<rparr>"

text \<open>\<open>DELETE\<close>: \<open>None\<close> when a row that stays refers to one that goes.\<close>

definition delete_rows :: "(version_row \<Rightarrow> bool) \<Rightarrow> database \<Rightarrow> database option" where
  "delete_rows goes db =
     (let stay = filter (\<lambda>r. \<not> goes r) (versions db); gone = map vid (filter goes (versions db))
      in if list_ex (\<lambda>r. base_id r \<noteq> None \<and> the (base_id r) \<in> set gone) stay \<or>
            list_ex (\<lambda>(operation, path, v). v \<in> set gone) (protected_versions db)
         then None else Some (db\<lparr>versions := stay\<rparr>))"

section \<open>Reading a version\<close>

fun replay :: "(string \<Rightarrow> string) \<Rightarrow> string \<Rightarrow> version_row list \<Rightarrow> history_error + string" where
  "replay fp content [] = Inr content"
| "replay fp content (d # deltas) =
     (case fossil_delta_apply content (payload d) of
        None \<Rightarrow> Inl Delta_damaged
      | Some rebuilt \<Rightarrow>
          if int (length rebuilt) \<noteq> content_size d \<or> fp rebuilt \<noteq> content_hash d then Inl Delta_mismatch
          else replay fp rebuilt deltas)"

text \<open>The loop over \<open>depth\<close>; \<open>deltas\<close> has the delta that was found last in front.\<close>

fun reconstruct_loop :: "(string \<Rightarrow> string) \<Rightarrow> (sql_point \<Rightarrow> bool) \<Rightarrow> database \<Rightarrow> nat \<Rightarrow> int \<Rightarrow> int list \<Rightarrow>
    version_row list \<Rightarrow> history_error + string" where
  "reconstruct_loop fp fails db 0 current visited deltas = Inl Chain_too_deep"
| "reconstruct_loop fp fails db (Suc n) current visited deltas =
     (if current \<in> set visited then Inl Delta_cycle
      else if fails (Q_row current) then Inl Sql_error
      else case select_row db current of
          None \<Rightarrow> Inl No_version
        | Some row \<Rightarrow>
            let base = (case base_id row of None \<Rightarrow> 0 | Some b \<Rightarrow> b) in
            if encoding row = 0 then
              (let content = payload row in
               if int (length content) \<noteq> content_size row \<or> fp content \<noteq> content_hash row
               then Inl Checkpoint_damaged else replay fp content deltas)
            else if encoding row \<noteq> 1 \<or> base \<le> 0 then Inl Invalid_encoding
            else reconstruct_loop fp fails db n base (current # visited) (row # deltas))"

definition reconstruct :: "(string \<Rightarrow> string) \<Rightarrow> (sql_point \<Rightarrow> bool) \<Rightarrow> database \<Rightarrow> int \<Rightarrow> history_error + string" where
  "reconstruct fp fails db version_id =
     (if version_id \<le> 0 then Inl Not_open else reconstruct_loop fp fails db 64 version_id [] [])"

section \<open>Removing old versions\<close>

fun anchor_loop :: "(sql_point \<Rightarrow> bool) \<Rightarrow> database \<Rightarrow> nat \<Rightarrow> int \<Rightarrow> history_error + int" where
  "anchor_loop fails db 0 anchor = Inr anchor"
| "anchor_loop fails db (Suc n) anchor =
     (if fails Q_base then Inl Sql_error
      else case select_row db anchor of
          None \<Rightarrow> Inl No_version
        | Some row \<Rightarrow>
            (case base_id row of
               None \<Rightarrow> Inr anchor
             | Some next \<Rightarrow> if next \<le> 0 \<or> next \<ge> anchor then Inl Invalid_chain
                           else anchor_loop fails db n next))"

definition delete_below :: "(sql_point \<Rightarrow> bool) \<Rightarrow> string \<Rightarrow> database \<Rightarrow> int \<Rightarrow> (history_error + unit) \<times> database" where
  "delete_below fails path db first =
     (case anchor_loop fails db 64 first of
        Inl e \<Rightarrow> (Inl e, db)
      | Inr anchor \<Rightarrow>
          if fails Q_delete then (Inl Sql_error, db)
          else case delete_rows (\<lambda>r. vpath r = path \<and> vid r < anchor \<and> \<not> is_protected db (vid r)) db of
              None \<Rightarrow> (Inl Foreign_key, db)
            | Some db' \<Rightarrow> (Inr (), db'))"

definition prune :: "(sql_point \<Rightarrow> bool) \<Rightarrow> string \<Rightarrow> int \<Rightarrow> database \<Rightarrow> (history_error + unit) \<times> database" where
  "prune fails path cutoff db =
     (if fails Q_first_kept then (Inl Sql_error, db)
      else case List.find (\<lambda>r. created_at_ms r \<ge> cutoff) (rows_of db path) of
          Some r \<Rightarrow> delete_below fails path db (vid r)
        | None \<Rightarrow>
            if fails Q_newest then (Inl Sql_error, db)
            else (case latest_row db path of
                    None \<Rightarrow> (Inr (), db)
                  | Some r \<Rightarrow> delete_below fails path db (vid r)))"

section \<open>Capturing a version\<close>

text \<open>
  \<open>now\<close> and \<open>later\<close> are the two readings of the clock. The result says whether a version was
  inserted, and which version holds the content.
\<close>

definition encode_version :: "(string \<Rightarrow> string) \<Rightarrow> (sql_point \<Rightarrow> bool) \<Rightarrow> database \<Rightarrow> version_row option \<Rightarrow> string \<Rightarrow>
    history_error + string \<times> int option \<times> int \<times> int" where
  "encode_version fp fails db previous content =
     (case previous of
        Some r \<Rightarrow>
          if chain_depth r < 19 then
            (case reconstruct fp fails db (vid r) of
               Inl e \<Rightarrow> Inl e
             | Inr old \<Rightarrow>
                 let delta = fossil_delta_create old content in
                 if delta \<noteq> [] \<and> length delta + 16 < length content
                 then Inr (delta, Some (vid r), 1, chain_depth r + 1)
                 else Inr (content, None, 0, 0))
          else Inr (content, None, 0, 0)
      | None \<Rightarrow> Inr (content, None, 0, 0))"

definition capture :: "(string \<Rightarrow> string) \<Rightarrow> int \<Rightarrow> int \<Rightarrow> (sql_point \<Rightarrow> bool) \<Rightarrow> string \<Rightarrow> string \<Rightarrow> string \<Rightarrow> int option \<Rightarrow>
    database \<Rightarrow> (history_error + bool \<times> int) \<times> database" where
  "capture fp now later fails relative_path content trig retention_seconds db =
     (if \<not> valid_relative_document_path relative_path then (Inl Invalid_path, db)
      else
        let path = normalize_relative relative_path; hash = fp content in
        if fails Q_latest then (Inl Sql_error, db)
        else case latest_row db path of previous \<Rightarrow>
          if previous \<noteq> None \<and> content_hash (the previous) = hash
          then (Inr (False, vid (the previous)), db)
          else case encode_version fp fails db previous content of
              Inl e \<Rightarrow> (Inl e, db)
            | Inr (data, base, enc, depth) \<Rightarrow>
                if fails Q_begin \<or> fails Q_insert \<or> fails Q_commit then (Inl Sql_error, db)
                else
                  let db' = insert_row \<lparr>vid = 0, vpath = path, created_at_ms = now, vtrigger = trig,
                              base_id = base, encoding = enc, payload = data,
                              content_size = int (length content), content_hash = hash,
                              chain_depth = depth\<rparr> db
                  in if retention_seconds \<noteq> None \<and> the retention_seconds > 0 then
                       (case prune fails path (later - the retention_seconds * 1000) db' of
                          (Inl e, db'') \<Rightarrow> (Inl e, db'')
                        | (Inr _, db'') \<Rightarrow> (Inr (True, last_id db'), db''))
                     else (Inr (True, last_id db'), db'))"

section \<open>Protected versions\<close>

definition protect :: "(string \<Rightarrow> string) \<Rightarrow> int \<Rightarrow> (sql_point \<Rightarrow> bool) \<Rightarrow> string \<Rightarrow> string \<Rightarrow> string \<Rightarrow> database \<Rightarrow>
    (history_error + int) \<times> database" where
  "protect fp now fails relative_path content operation_id db =
     (if \<not> valid_relative_document_path relative_path \<or> operation_id = [] \<or> length operation_id > 256 \<or>
         CHR 0x00 \<in> set operation_id \<or> int (length content) > 0x7FFFFFFF
      then (Inl Invalid_snapshot, db)
      else
        let path = normalize_relative relative_path; hash = fp content in
        if fails Q_begin \<or> fails Q_existing then (Inl Sql_error, db)
        else case List.find (\<lambda>(operation, source, v). operation = operation_id) (protected_versions db) of
            Some (operation, source, v) \<Rightarrow>
              (case select_row db v of
                 None \<Rightarrow> (Inl Sql_error, db)
               | Some row \<Rightarrow>
                   if source \<noteq> path \<or> content_hash row \<noteq> hash \<or> content_size row \<noteq> int (length content)
                   then (Inl Bound_elsewhere, db)
                   else if fails Q_commit then (Inl Sql_error, db)
                   else (Inr v, db))
          | None \<Rightarrow>
              if fails Q_insert \<or> fails Q_pin \<or> fails Q_commit then (Inl Sql_error, db)
              else
                let db' = insert_row \<lparr>vid = 0, vpath = path, created_at_ms = now, vtrigger = ''hodarium-pre-apply'',
                            base_id = None, encoding = 0, payload = content,
                            content_size = int (length content), content_hash = hash, chain_depth = 0\<rparr> db
                in (Inr (last_id db'),
                    db'\<lparr>protected_versions := protected_versions db' @ [(operation_id, path, last_id db')]\<rparr>))"

definition get_protected_metadata :: "(sql_point \<Rightarrow> bool) \<Rightarrow> int \<Rightarrow> database \<Rightarrow>
    history_error + (string \<times> string) option" where
  "get_protected_metadata fails i db =
     (if i \<le> 0 then Inl Invalid_snapshot
      else if fails Q_metadata then Inl Sql_error
      else Inr (map_of (protected_metadata db) i))"

definition set_protected_metadata :: "(sql_point \<Rightarrow> bool) \<Rightarrow> int \<Rightarrow> string \<Rightarrow> string \<Rightarrow> database \<Rightarrow>
    (history_error + unit) \<times> database" where
  "set_protected_metadata fails i fmt object_key db =
     (if i \<le> 0 \<or> fmt = [] \<or> length fmt > 128 \<or> object_key = [] \<or> length object_key > 4096 \<or>
         CHR 0x00 \<in> set fmt \<or> CHR 0x00 \<in> set object_key
      then (Inl Invalid_identity, db)
      else if fails Q_begin \<or> fails Q_insert then (Inl Sql_error, db)
      else
        let bound = (map_of (protected_metadata db) i \<noteq> None);
            db' = (if bound then db
                   else db\<lparr>protected_metadata := protected_metadata db @ [(i, fmt, object_key)]\<rparr>)
        in if \<not> bound \<and> \<not> is_protected db i then (Inl Foreign_key, db)
           else case get_protected_metadata fails i db' of
               Inl e \<Rightarrow> (Inl e, db)
             | Inr identity \<Rightarrow>
                 if identity \<noteq> Some (fmt, object_key) then (Inl Identity_bound, db)
                 else if fails Q_commit then (Inl Sql_error, db)
                 else (Inr (), db'))"

definition protect_logical :: "(string \<Rightarrow> string) \<Rightarrow> int \<Rightarrow> (sql_point \<Rightarrow> bool) \<Rightarrow> string \<Rightarrow> string \<Rightarrow> string \<Rightarrow> string \<Rightarrow>
    string \<Rightarrow> database \<Rightarrow> (history_error + int) \<times> database" where
  "protect_logical fp now fails relative_path content operation_id fmt object_key db =
     (case protect fp now fails relative_path content operation_id db of
        (Inl e, db') \<Rightarrow> (Inl e, db')
      | (Inr i, db') \<Rightarrow>
          (case set_protected_metadata fails i fmt object_key db' of
             (Inl e, db'') \<Rightarrow> (Inl e, db'')
           | (Inr _, db'') \<Rightarrow> (Inr i, db'')))"

section \<open>Listing\<close>

record version_entry =
  entry_row :: version_row
  protected_snapshot :: bool

definition entry_of :: "database \<Rightarrow> version_row \<Rightarrow> version_entry" where
  "entry_of db r = \<lparr>entry_row = r, protected_snapshot = is_protected db (vid r)\<rparr>"

definition list_versions :: "(sql_point \<Rightarrow> bool) \<Rightarrow> string \<Rightarrow> database \<Rightarrow> history_error + version_entry list" where
  "list_versions fails relative_path db =
     (if \<not> valid_relative_document_path relative_path then Inl Invalid_path
      else if fails Q_list then Inl Sql_error
      else Inr (map (entry_of db) (rev (rows_of db (normalize_relative relative_path)))))"

definition list_protected :: "(sql_point \<Rightarrow> bool) \<Rightarrow> int \<Rightarrow> nat \<Rightarrow> database \<Rightarrow> history_error + version_entry list" where
  "list_protected fails before_id limit db =
     (if before_id < 0 \<or> limit = 0 \<or> limit > 1000 then Inl Invalid_page
      else if fails Q_list then Inl Sql_error
      else Inr (map (\<lambda>r. \<lparr>entry_row = r, protected_snapshot = True\<rparr>)
             (take limit (rev (filter (\<lambda>r. (before_id = 0 \<or> vid r < before_id) \<and> is_protected db (vid r))
                (versions db))))))"

definition get_version :: "(sql_point \<Rightarrow> bool) \<Rightarrow> int \<Rightarrow> database \<Rightarrow> history_error + version_entry" where
  "get_version fails i db =
     (if i \<le> 0 then Inl No_version
      else if fails Q_list then Inl Sql_error
      else case select_row db i of None \<Rightarrow> Inl No_version | Some r \<Rightarrow> Inr (entry_of db r))"

section \<open>Renaming\<close>

definition update_path :: "string \<Rightarrow> string \<Rightarrow> database \<Rightarrow> database" where
  "update_path new old db =
     db\<lparr>versions := map (\<lambda>r. if vpath r = old then r\<lparr>vpath := new\<rparr> else r) (versions db)\<rparr>"

definition below_path :: "string \<Rightarrow> string \<Rightarrow> bool" where
  "below_path old p \<longleftrightarrow> p = old \<or> take (length old + 1) p = old @ ''/''"

definition rename_path :: "(sql_point \<Rightarrow> bool) \<Rightarrow> string \<Rightarrow> string \<Rightarrow> bool \<Rightarrow> database \<Rightarrow>
    (history_error + unit) \<times> database" where
  "rename_path fails old_relative_path new_relative_path directory db =
     (if \<not> valid_relative_document_path old_relative_path \<or> \<not> valid_relative_document_path new_relative_path
      then (Inl Invalid_path, db)
      else
        let old_path = normalize_relative old_relative_path; new_path = normalize_relative new_relative_path in
        if \<not> directory then
          (if fails (Q_update old_path) then (Inl Sql_error, db) else (Inr (), update_path new_path old_path db))
        else if fails Q_paths then (Inl Sql_error, db)
        else
          let paths = filter (below_path old_path) (remdups (map vpath (versions db))) in
          if fails Q_begin \<or> list_ex (\<lambda>p. fails (Q_update p)) paths \<or> fails Q_commit then (Inl Sql_error, db)
          else (Inr (), foldl (\<lambda>db p. update_path (new_path @ drop (length old_path) p) p db) db paths))"

section \<open>Every version is kept\<close>

text \<open>
  The invariant, for the contents that were captured: the row of a version holds its content, or
  a delta that leads to it from the content of an earlier version; at most 19 deltas follow each
  other; protected versions hold their content.
\<close>

definition delta_of :: "(int \<Rightarrow> string) \<Rightarrow> version_row \<Rightarrow> version_row \<Rightarrow> bool" where
  "delta_of contents b r \<longleftrightarrow>
     base_id r = Some (vid b) \<and> vid b < vid r \<and> chain_depth r = chain_depth b + 1 \<and> chain_depth r \<le> 19 \<and>
     fossil_delta_apply (contents (vid b)) (payload r) = Some (contents (vid r))"

definition row_ok :: "(string \<Rightarrow> string) \<Rightarrow> (int \<Rightarrow> string) \<Rightarrow> database \<Rightarrow> version_row \<Rightarrow> bool" where
  "row_ok fp contents db r \<longleftrightarrow>
     content_size r = int (length (contents (vid r))) \<and> content_hash r = fp (contents (vid r)) \<and>
     0 < vid r \<and> vid r \<le> last_id db \<and> 0 \<le> chain_depth r \<and>
     (encoding r = 0 \<and> base_id r = None \<and> chain_depth r = 0 \<and> payload r = contents (vid r) \<or>
      encoding r = 1 \<and> (\<exists>b \<in> set (versions db). delta_of contents b r))"

definition store_ok :: "(string \<Rightarrow> string) \<Rightarrow> (int \<Rightarrow> string) \<Rightarrow> database \<Rightarrow> bool" where
  "store_ok fp contents db \<longleftrightarrow>
     0 \<le> last_id db \<and> sorted_wrt (<) (map vid (versions db)) \<and>
     (\<forall>r \<in> set (versions db). row_ok fp contents db r) \<and>
     (\<forall>(operation, path, v) \<in> set (protected_versions db).
        \<exists>r \<in> set (versions db). vid r = v \<and> encoding r = 0)"

lemma store_okD:
  assumes "store_ok fp contents db"
  shows "sorted_wrt (<) (map vid (versions db))" "r \<in> set (versions db) \<Longrightarrow> row_ok fp contents db r"
  using assms by (auto simp: store_ok_def)

lemma sorted_find:
  "sorted_wrt (<) (map vid rs) \<Longrightarrow> r \<in> set rs \<Longrightarrow> List.find (\<lambda>s. vid s = vid r) rs = Some r"
  by (induction rs) auto

lemma select_vid: "store_ok fp contents db \<Longrightarrow> r \<in> set (versions db) \<Longrightarrow> select_row db (vid r) = Some r"
  unfolding select_row_def by (rule sorted_find) (rule store_okD)

lemma select_Some: "select_row db i = Some r \<Longrightarrow> r \<in> set (versions db) \<and> vid r = i"
  unfolding select_row_def by (auto simp: find_Some_iff)

lemma reconstruct_loop_ok:
  assumes "store_ok fp contents db" "\<forall>i. \<not> fails (Q_row i)"
  shows "r \<in> set (versions db) \<Longrightarrow> chain_depth r < int n \<Longrightarrow> \<forall>v \<in> set visited. vid r < v \<Longrightarrow>
    reconstruct_loop fp fails db n (vid r) visited deltas = replay fp (contents (vid r)) deltas"
proof (induction n arbitrary: r visited deltas)
  case 0
  then show ?case
    using store_okD(2)[OF assms(1) 0(1)] by (simp add: row_ok_def)
next
  case (Suc n)
  note row = store_okD(2)[OF assms(1) Suc.prems(1)]
  have new: "vid r \<notin> set visited"
    using Suc.prems(3) by auto
  show ?case
  proof (cases "encoding r = 0")
    case True
    then show ?thesis
      using row new assms(2) select_vid[OF assms(1) Suc.prems(1)] by (simp add: row_ok_def)
  next
    case False
    then obtain b where b: "b \<in> set (versions db)" "delta_of contents b r" "encoding r = 1"
      using row by (auto simp: row_ok_def)
    have "reconstruct_loop fp fails db n (vid b) (vid r # visited) (r # deltas) =
        replay fp (contents (vid b)) (r # deltas)"
      by (rule Suc.IH[OF b(1)]) (use b(2) Suc.prems(2, 3) in \<open>auto simp: delta_of_def\<close>)
    also have "\<dots> = replay fp (contents (vid r)) deltas"
      using b(2) row by (simp add: delta_of_def row_ok_def)
    finally show ?thesis
      using b new assms(2) select_vid[OF assms(1) Suc.prems(1)] store_okD(2)[OF assms(1) b(1)]
      by (simp add: delta_of_def row_ok_def Let_def)
  qed
qed

lemma depth_bound: "row_ok fp contents db r \<Longrightarrow> chain_depth r \<le> 19"
  by (auto simp: row_ok_def delta_of_def)

lemma reconstruct_ok:
  assumes "store_ok fp contents db" "\<forall>i. \<not> fails (Q_row i)" "r \<in> set (versions db)"
  shows "reconstruct fp fails db (vid r) = Inr (contents (vid r))"
  using reconstruct_loop_ok[OF assms, of 64 "[]" "[]"] depth_bound[OF store_okD(2)[OF assms(1, 3)]]
    store_okD(2)[OF assms(1, 3)] by (simp add: reconstruct_def row_ok_def)

text \<open>A failing query only turns the result into an error.\<close>

lemma reconstruct_loop_fails:
  "reconstruct_loop fp fails db n i visited deltas = Inr c \<Longrightarrow>
   reconstruct_loop fp (\<lambda>_. False) db n i visited deltas = Inr c"
  by (induction n arbitrary: i visited deltas) (auto simp: Let_def split: if_splits option.splits)

lemma reconstruct_Inr:
  assumes "store_ok fp contents db" "r \<in> set (versions db)" "reconstruct fp fails db (vid r) = Inr c"
  shows "c = contents (vid r)"
proof -
  have "reconstruct fp (\<lambda>_. False) db (vid r) = Inr c"
    using assms(3) reconstruct_loop_fails[of fp fails db 64 "vid r" "[]" "[]" c]
    by (auto simp: reconstruct_def split: if_splits)
  then show ?thesis
    using reconstruct_ok[OF assms(1) _ assms(2), of "\<lambda>_. False"] by simp
qed

section \<open>What the operations keep\<close>

text \<open>\<open>grows\<close>: the invariant holds on, no version changes its content, protected ones stay.\<close>

definition grows :: "(string \<Rightarrow> string) \<Rightarrow> database \<Rightarrow> database \<Rightarrow> bool" where
  "grows fp db db' \<longleftrightarrow> (\<forall>contents. store_ok fp contents db \<longrightarrow>
     (\<exists>contents'. store_ok fp contents' db' \<and> (\<forall>i \<le> last_id db. contents' i = contents i))) \<and>
     last_id db \<le> last_id db' \<and> set (protected_versions db) \<subseteq> set (protected_versions db')"

lemma grows_refl: "grows fp db db"
  by (auto simp: grows_def)

lemma grows_trans: "grows fp a b \<Longrightarrow> grows fp b c \<Longrightarrow> grows fp a c"
  unfolding grows_def by (smt (verit) order_trans subset_trans)

lemma row_ok_more:
  assumes "row_ok fp contents db r" "last_id db \<le> last_id db'"
    and "\<And>i. i \<le> last_id db \<Longrightarrow> contents' i = contents i"
    and "\<And>b. b \<in> set (versions db) \<Longrightarrow> base_id r = Some (vid b) \<Longrightarrow> vid b \<le> last_id db \<Longrightarrow>
      \<exists>b' \<in> set (versions db'). vid b' = vid b \<and> chain_depth b' = chain_depth b"
  shows "row_ok fp contents' db' r"
proof -
  have own: "contents' (vid r) = contents (vid r)"
    using assms(1, 3) by (simp add: row_ok_def)
  have "\<exists>b' \<in> set (versions db'). delta_of contents' b' r"
    if "b \<in> set (versions db)" "delta_of contents b r" for b
  proof -
    have "vid b \<le> last_id db"
      using that(2) assms(1) by (simp add: delta_of_def row_ok_def)
    with that(2) obtain b' where "b' \<in> set (versions db')" "vid b' = vid b" "chain_depth b' = chain_depth b"
      using assms(4)[of b] \<open>b \<in> set (versions db)\<close> by (auto simp: delta_of_def)
    then show ?thesis
      using that(2) own assms(3)[OF \<open>vid b \<le> last_id db\<close>] by (intro bexI[of _ b']) (auto simp: delta_of_def)
  qed
  then show ?thesis
    using assms(1, 2) own by (auto simp: row_ok_def)
qed

lemma insert_row_ok:
  assumes "store_ok fp contents db"
    and "content_size r = int (length content)" "content_hash r = fp content"
    and "encoding r = 0 \<and> base_id r = None \<and> chain_depth r = 0 \<and> payload r = content \<or>
      encoding r = 1 \<and> (\<exists>b \<in> set (versions db). base_id r = Some (vid b) \<and> chain_depth r = chain_depth b + 1 \<and>
        chain_depth r \<le> 19 \<and> fossil_delta_apply (contents (vid b)) (payload r) = Some content)"
  shows "store_ok fp (contents(last_id db + 1 := content)) (insert_row r db)"
proof -
  let ?c = "contents(last_id db + 1 := content)" and ?db = "insert_row r db"
  let ?r = "r\<lparr>vid := last_id db + 1\<rparr>"
  have ids: "\<forall>s \<in> set (versions db). vid s \<le> last_id db \<and> 0 \<le> chain_depth s \<and> 0 < vid s"
    using assms(1) by (auto simp: store_ok_def row_ok_def)
  have "row_ok fp ?c ?db s" if "s \<in> set (versions db)" for s
    by (rule row_ok_more[OF store_okD(2)[OF assms(1) that]]) (auto simp: insert_row_def)
  moreover have "row_ok fp ?c ?db ?r"
  proof (cases "encoding r = 0")
    case True
    then show ?thesis
      using assms ids by (simp add: store_ok_def row_ok_def insert_row_def)
  next
    case False
    then obtain b where b: "b \<in> set (versions db)" "base_id r = Some (vid b)" "chain_depth r = chain_depth b + 1"
      "chain_depth r \<le> 19" "fossil_delta_apply (contents (vid b)) (payload r) = Some content" "encoding r = 1"
      using assms(4) by auto
    have "vid b \<le> last_id db" "0 \<le> chain_depth b"
      using ids b(1) by auto
    then have "delta_of ?c b ?r"
      using b by (simp add: delta_of_def)
    then show ?thesis
      using assms b \<open>0 \<le> chain_depth b\<close> by (auto simp: store_ok_def row_ok_def insert_row_def)
  qed
  ultimately show ?thesis
    using assms(1) ids by (auto simp: store_ok_def insert_row_def sorted_wrt_append)
qed

lemma insert_row_grows:
  assumes "\<And>contents. store_ok fp contents db \<Longrightarrow>
    \<exists>content. store_ok fp (contents(last_id db + 1 := content)) (insert_row r db)"
  shows "grows fp db (insert_row r db)"
proof -
  have "\<exists>contents'. store_ok fp contents' (insert_row r db) \<and> (\<forall>i \<le> last_id db. contents' i = contents i)"
    if ok: "store_ok fp contents db" for contents
  proof -
    obtain content where "store_ok fp (contents(last_id db + 1 := content)) (insert_row r db)"
      using assms[OF ok] by blast
    then show ?thesis
      by (intro exI[of _ "contents(last_id db + 1 := content)"]) simp
  qed
  then show ?thesis
    by (auto simp: grows_def insert_row_def)
qed

lemma delete_rows_ok:
  assumes "store_ok fp contents db" "delete_rows goes db = Some db'"
  shows "store_ok fp contents db'"
proof -
  let ?gone = "vid ` {r \<in> set (versions db). goes r}"
  have db': "versions db' = filter (\<lambda>r. \<not> goes r) (versions db)" "last_id db' = last_id db"
    "protected_versions db' = protected_versions db"
    and refs: "\<And>r. r \<in> set (versions db) \<Longrightarrow> \<not> goes r \<Longrightarrow> base_id r = Some v \<Longrightarrow> v \<notin> ?gone"
    and pins: "\<And>x y. (x, y, v) \<in> set (protected_versions db) \<Longrightarrow> v \<notin> ?gone" for v
    using assms(2) by (auto simp: delete_rows_def Let_def list_ex_iff split: if_splits)
  have "row_ok fp contents db' r" if "r \<in> set (versions db)" "\<not> goes r" for r
    by (rule row_ok_more[OF store_okD(2)[OF assms(1) that(1)]]) (use refs[OF that] in \<open>auto simp: db'\<close>)
  moreover have "\<exists>r \<in> set (versions db'). vid r = v \<and> encoding r = 0"
    if "(x, y, v) \<in> set (protected_versions db)" for x y v
    using assms(1) that pins[OF that] by (fastforce simp: store_ok_def db')
  ultimately show ?thesis
    using assms(1) by (auto simp: store_ok_def db' sorted_wrt_map sorted_wrt_filter)
qed

lemma grows_delete: "delete_rows goes db = Some db' \<Longrightarrow> grows fp db db'"
  unfolding grows_def using delete_rows_ok[of fp _ db goes db']
  by (auto simp: delete_rows_def Let_def split: if_splits)

lemma prune_grows: "prune fails path cutoff db = (res, db') \<Longrightarrow> grows fp db db'"
  unfolding prune_def delete_below_def
  by (auto split: if_splits option.splits sum.splits intro: grows_refl grows_delete)

lemma latest_in: "latest_row db p = Some r \<Longrightarrow> r \<in> set (versions db) \<and> vpath r = p"
  using last_in_set[of "rows_of db p"]
  by (auto simp: latest_row_def rows_of_def split: list.splits simp del: last_in_set)

lemma encode_version_ok:
  assumes "store_ok fp contents db" "\<And>r. previous = Some r \<Longrightarrow> r \<in> set (versions db)"
    and "encode_version fp fails db previous content = Inr (data, base, enc, depth)"
  shows "enc = 0 \<and> base = None \<and> depth = 0 \<and> data = content \<or>
    enc = 1 \<and> (\<exists>b \<in> set (versions db). base = Some (vid b) \<and> depth = chain_depth b + 1 \<and> depth \<le> 19 \<and>
      fossil_delta_apply (contents (vid b)) data = Some content)"
proof -
  have "fossil_delta_apply (contents (vid r)) (fossil_delta_create c content) = Some content"
    if "previous = Some r" "reconstruct fp fails db (vid r) = Inr c" "fossil_delta_create c content \<noteq> []" for r c
  proof -
    have "c = contents (vid r)"
      using reconstruct_Inr[OF assms(1, 2)] that by blast
    moreover have "length c \<le> 0xFFFFFFFF" "length content \<le> 0xFFFFFFFF"
      using that(3) unfolding fossil_delta_create_def size_guard by (auto split: if_splits)
    ultimately show ?thesis
      using apply_create by simp
  qed
  then show ?thesis
    using assms(2, 3) unfolding encode_version_def
    by (fastforce simp: Let_def split: option.splits sum.splits if_splits)
qed

lemma capture_cases:
  assumes "capture fp now later fails p content trig retention db = (res, db')"
  obtains (unchanged) "db' = db" "\<And>i. res \<noteq> Inr (True, i)"
      "\<And>i. res = Inr (False, i) \<Longrightarrow> \<exists>r \<in> set (versions db). vid r = i \<and> content_hash r = fp content"
    | (inserted) data base enc depth r where
      "encode_version fp fails db (latest_row db (normalize_relative p)) content = Inr (data, base, enc, depth)"
      "r = \<lparr>vid = 0, vpath = normalize_relative p, created_at_ms = now, vtrigger = trig, base_id = base,
        encoding = enc, payload = data, content_size = int (length content), content_hash = fp content,
        chain_depth = depth\<rparr>"
      "db' = insert_row r db \<and> res = Inr (True, last_id db + 1) \<or>
       retention \<noteq> None \<and> 0 < the retention \<and>
       ((\<exists>e. prune fails (normalize_relative p) (later - the retention * 1000) (insert_row r db) = (Inl e, db') \<and>
           res = Inl e) \<or>
        prune fails (normalize_relative p) (later - the retention * 1000) (insert_row r db) = (Inr (), db') \<and>
          res = Inr (True, last_id db + 1))"
proof -
  have last: "last_id (insert_row r db) = last_id db + 1" for r
    by (simp add: insert_row_def)
  show thesis
    using assms unfolding capture_def Let_def last
    by (auto split: if_splits option.splits sum.splits prod.splits dest!: latest_in
        intro: unchanged inserted[OF _ refl])
qed

lemma encoded_row_ok:
  assumes "store_ok fp contents db"
    and "encode_version fp fails db (latest_row db p) content = Inr (data, base, enc, depth)"
    and "base_id r = base" "encoding r = enc" "payload r = data" "chain_depth r = depth"
    and "content_size r = int (length content)" "content_hash r = fp content"
  shows "store_ok fp (contents(last_id db + 1 := content)) (insert_row r db)"
  by (rule insert_row_ok[OF assms(1)])
    (use encode_version_ok[OF assms(1) _ assms(2)] latest_in[of db p] assms in auto)

lemma capture_grows:
  assumes "capture fp now later fails p content trig retention db = (res, db')"
  shows "grows fp db db'"
  using assms
proof (cases rule: capture_cases)
  case unchanged
  then show ?thesis by (simp add: grows_refl)
next
  case (inserted data base enc depth r)
  have "grows fp db (insert_row r db)"
    by (rule insert_row_grows, intro exI, rule encoded_row_ok[OF _ inserted(1)]) (simp_all add: inserted(2))
  then show ?thesis
    using inserted(3) by (auto intro: grows_trans prune_grows)
qed

lemma anchor_loop_le: "anchor_loop fails db n a = Inr b \<Longrightarrow> b \<le> a"
proof (induction n arbitrary: a)
  case (Suc n)
  then show ?case
    by (force split: if_splits option.splits)
qed simp

lemma prune_below:
  assumes "prune fails path cutoff db = (res, db')"
  obtains "db' = db" | a r goes where "r \<in> set (versions db)" "a \<le> vid r" "delete_rows goes db = Some db'"
    "goes = (\<lambda>s. vpath s = path \<and> vid s < a \<and> \<not> is_protected db (vid s))"
proof -
  have "r \<in> set (versions db)" if "List.find P (rows_of db path) = Some r" for P r
    using that by (auto simp: find_Some_iff rows_of_def dest: nth_mem)
  then show thesis
    using assms unfolding prune_def delete_below_def
    by (auto split: if_splits option.splits sum.splits dest: latest_in intro: that(1) that(2)[OF _ anchor_loop_le])
qed

lemma delete_rows_fields:
  "delete_rows goes db = Some db' \<Longrightarrow> versions db' = filter (\<lambda>r. \<not> goes r) (versions db) \<and> last_id db' = last_id db \<and>
    protected_versions db' = protected_versions db"
  by (auto simp: delete_rows_def Let_def split: if_splits)

lemma prune_last:
  assumes "prune fails path cutoff db = (res, db')" "store_ok fp contents db"
    and "r \<in> set (versions db)" "vid r = last_id db"
  shows "r \<in> set (versions db')"
  using assms(1)
proof (cases rule: prune_below)
  case (2 a s goes)
  have "vid s \<le> last_id db"
    using store_okD(2)[OF assms(2) 2(1)] by (simp add: row_ok_def)
  then show ?thesis
    using 2 assms(3, 4) delete_rows_fields[OF 2(3)] by auto
qed (use assms(3) in simp)

lemma capture_new:
  assumes "store_ok fp contents db" "capture fp now later fails p content trig retention db = (Inr (True, i), db')"
  shows "i = last_id db + 1 \<and> (\<exists>contents'. store_ok fp contents' db' \<and> contents' i = content) \<and>
    i \<le> last_id db' \<and> (\<exists>r \<in> set (versions db'). vid r = i)"
  using assms(2)
proof (cases rule: capture_cases)
  case (inserted data base enc depth r)
  define db1 where "db1 = insert_row r db"
  have ok: "store_ok fp (contents(last_id db + 1 := content)) db1"
    unfolding db1_def by (rule encoded_row_ok[OF assms(1) inserted(1)]) (simp_all add: inserted(2))
  have row: "r\<lparr>vid := last_id db + 1\<rparr> \<in> set (versions db1)" "last_id db1 = last_id db + 1"
    by (simp_all add: db1_def insert_row_def)
  from inserted(3) consider "db' = db1" "i = last_id db + 1"
    | pres where "prune fails (normalize_relative p) (later - the retention * 1000) db1 = (pres, db')" "i = last_id db + 1"
    by (auto simp: db1_def)
  then show ?thesis
  proof cases
    case 1
    then show ?thesis
      using ok row by (intro conjI exI[of _ "contents(last_id db + 1 := content)"] bexI[of _ "r\<lparr>vid := last_id db + 1\<rparr>"]) simp_all
  next
    case 2
    obtain contents' where c: "store_ok fp contents' db'" "\<forall>j \<le> last_id db1. contents' j = (contents(last_id db + 1 := content)) j"
      and le: "last_id db1 \<le> last_id db'"
      using prune_grows[OF 2(1), of fp] ok unfolding grows_def by blast
    moreover have "r\<lparr>vid := last_id db + 1\<rparr> \<in> set (versions db')"
      using prune_last[OF 2(1) ok row(1)] row(2) by simp
    ultimately show ?thesis
      using 2(2) row(2) by (intro conjI exI[of _ contents'] bexI[of _ "r\<lparr>vid := last_id db + 1\<rparr>"]) simp_all
  qed
qed blast

text \<open>Renaming changes paths only.\<close>

definition repath :: "(string \<Rightarrow> string) \<Rightarrow> database \<Rightarrow> database" where
  "repath f db = db\<lparr>versions := map (\<lambda>r. r\<lparr>vpath := f (vpath r)\<rparr>) (versions db)\<rparr>"

lemma update_path_repath: "update_path new old db = repath (\<lambda>p. if p = old then new else p) db"
  by (auto simp: update_path_def repath_def)

lemma repath_repath: "repath g (repath f db) = repath (g \<circ> f) db"
  by (simp add: repath_def comp_def)

lemma foldl_update_path: "\<exists>f. foldl (\<lambda>db p. update_path (g p) p db) db ps = repath f db"
proof (induction ps arbitrary: db)
  case Nil
  have "db = repath (\<lambda>p. p) db"
    by (simp add: repath_def)
  then show ?case by auto
next
  case (Cons p ps)
  obtain f where "foldl (\<lambda>db p. update_path (g p) p db) (update_path (g p) p db) ps = repath f (update_path (g p) p db)"
    using Cons.IH by blast
  then show ?case
    unfolding foldl.simps update_path_repath[of _ p db] repath_repath by blast
qed

lemma repath_fields:
  "last_id (repath f db) = last_id db" "protected_versions (repath f db) = protected_versions db"
  by (simp_all add: repath_def)

lemma repath_ok: "store_ok fp contents (repath f db) \<longleftrightarrow> store_ok fp contents db"
  by (simp add: store_ok_def row_ok_def delta_of_def repath_def comp_def)

lemma repath_grows: "grows fp db (repath f db)"
  by (auto simp: grows_def repath_ok repath_fields)

lemma rename_grows: "rename_path fails old new directory db = (res, db') \<Longrightarrow> grows fp db db'"
  unfolding rename_path_def Let_def update_path_repath[of _ "normalize_relative old" db]
  using foldl_update_path[of "\<lambda>p. normalize_relative new @ drop (length (normalize_relative old)) p"]
  by (auto split: if_splits intro: grows_refl repath_grows) (metis repath_grows)

lemma protect_cases:
  assumes "protect fp now fails p content operation db = (res, db')"
  obtains (unchanged) "db' = db"
      "\<And>i. res = Inr i \<Longrightarrow> (\<exists>x y. (x, y, i) \<in> set (protected_versions db)) \<and>
         (\<exists>r. select_row db i = Some r \<and> content_hash r = fp content \<and> content_size r = int (length content))"
    | (inserted) r where
      "r = \<lparr>vid = 0, vpath = normalize_relative p, created_at_ms = now, vtrigger = ''hodarium-pre-apply'',
         base_id = None, encoding = 0, payload = content, content_size = int (length content),
         content_hash = fp content, chain_depth = 0\<rparr>"
      "db' = (insert_row r db)\<lparr>protected_versions := protected_versions db @
         [(operation, normalize_relative p, last_id db + 1)]\<rparr>"
      "res = Inr (last_id db + 1)"
proof -
  define r where "r = \<lparr>vid = 0, vpath = normalize_relative p, created_at_ms = now, vtrigger = ''hodarium-pre-apply'',
         base_id = None, encoding = 0, payload = content, content_size = int (length content),
         content_hash = fp content, chain_depth = 0\<rparr>"
  have "\<exists>x y. (x, y, v) \<in> set (protected_versions db)"
    if "List.find P (protected_versions db) = Some (x, y, v)" for P x y v
    using that by (auto simp: find_Some_iff) (metis nth_mem)
  then have "db' = db \<and> (\<forall>i. res = Inr i \<longrightarrow> (\<exists>x y. (x, y, i) \<in> set (protected_versions db)) \<and>
      (\<exists>r. select_row db i = Some r \<and> content_hash r = fp content \<and> content_size r = int (length content))) \<or>
      db' = (insert_row r db)\<lparr>protected_versions := protected_versions db @
         [(operation, normalize_relative p, last_id db + 1)]\<rparr> \<and> res = Inr (last_id db + 1)"
    using assms unfolding protect_def Let_def r_def[symmetric]
    by (auto split: if_splits option.splits simp: insert_row_def)
  then show thesis
    using unchanged inserted[OF r_def] by blast
qed

lemma pinned_ok:
  assumes "store_ok fp contents db" "encoding r = 0" "r \<in> set (versions db)" "vid r = i"
  shows "store_ok fp contents (db\<lparr>protected_versions := protected_versions db @ [(x, y, i)]\<rparr>)"
  using assms by (auto simp: store_ok_def row_ok_def)

lemma protected_row_ok:
  assumes "store_ok fp contents db" "r = \<lparr>vid = 0, vpath = p, created_at_ms = now, vtrigger = trig,
      base_id = None, encoding = 0, payload = content, content_size = int (length content),
      content_hash = fp content, chain_depth = 0\<rparr>"
    and "db' = (insert_row r db)\<lparr>protected_versions := protected_versions db @ [(x, y, last_id db + 1)]\<rparr>"
  shows "store_ok fp (contents(last_id db + 1 := content)) db'"
proof -
  have "store_ok fp (contents(last_id db + 1 := content)) (insert_row r db)"
    by (rule insert_row_ok[OF assms(1)]) (simp_all add: assms(2))
  from pinned_ok[OF this, of "r\<lparr>vid := last_id db + 1\<rparr>" "last_id db + 1" x y] show ?thesis
    using assms(3) by (simp add: insert_row_def assms(2))
qed

lemma protect_grows:
  assumes "protect fp now fails p content operation db = (res, db')"
  shows "grows fp db db'"
  using assms
proof (cases rule: protect_cases)
  case (inserted r)
  have "\<exists>contents'. store_ok fp contents' db' \<and> (\<forall>i \<le> last_id db. contents' i = contents i)"
    if "store_ok fp contents db" for contents
    using protected_row_ok[OF that inserted(1, 2)]
    by (intro exI[of _ "contents(last_id db + 1 := content)"]) simp
  then show ?thesis
    using inserted(2) by (auto simp: grows_def insert_row_def)
qed (simp add: grows_refl)

lemma metadata_grows: "grows fp db (db\<lparr>protected_metadata := m\<rparr>)"
proof -
  have "store_ok fp contents (db\<lparr>protected_metadata := m\<rparr>) \<longleftrightarrow> store_ok fp contents db" for contents
    by (simp add: store_ok_def row_ok_def)
  then show ?thesis
    by (auto simp: grows_def)
qed

lemma set_metadata_grows: "set_protected_metadata fails i fmt key db = (res, db') \<Longrightarrow> grows fp db db'"
  unfolding set_protected_metadata_def Let_def
  by (auto split: if_splits sum.splits intro: grows_refl metadata_grows)

lemma protect_logical_grows:
  "protect_logical fp now fails p content operation fmt key db = (res, db') \<Longrightarrow> grows fp db db'"
  unfolding protect_logical_def
  by (auto split: prod.splits sum.splits intro: grows_trans protect_grows set_metadata_grows)

section \<open>Runs of a store\<close>

text \<open>One call of a store, whatever its arguments, the clock and the failures of the database are.\<close>

inductive store_step :: "(string \<Rightarrow> string) \<Rightarrow> database \<Rightarrow> database \<Rightarrow> bool" for fp where
  capture: "store_step fp db (snd (capture fp now later fails p content trig retention db))"
| protect: "store_step fp db (snd (protect fp now fails p content operation db))"
| logical: "store_step fp db (snd (protect_logical fp now fails p content operation fmt key db))"
| metadata: "store_step fp db (snd (set_protected_metadata fails i fmt key db))"
| rename: "store_step fp db (snd (rename_path fails old new directory db))"

inductive_cases store_stepE: "store_step fp db db'"

lemma step_grows: "store_step fp db db' \<Longrightarrow> grows fp db db'"
  by (erule store_stepE)
    (auto intro: capture_grows[OF prod.collapse[symmetric]] protect_grows[OF prod.collapse[symmetric]]
      protect_logical_grows[OF prod.collapse[symmetric]] set_metadata_grows[OF prod.collapse[symmetric]]
      rename_grows[OF prod.collapse[symmetric]])

lemma run_grows: "(store_step fp)\<^sup>*\<^sup>* db db' \<Longrightarrow> grows fp db db'"
  by (induction rule: rtranclp_induct) (auto intro: grows_refl grows_trans step_grows)

lemma new_database_ok: "store_ok fp contents new_database"
  by (simp add: store_ok_def new_database_def)

lemma run_ok: "(store_step fp)\<^sup>*\<^sup>* new_database db \<Longrightarrow> \<exists>contents. store_ok fp contents db"
  using run_grows[of fp new_database db] new_database_ok[of fp] unfolding grows_def by blast

lemma kept_content:
  assumes "store_ok fp contents db" "(store_step fp)\<^sup>*\<^sup>* db db'" "i \<le> last_id db"
    and "r \<in> set (versions db')" "vid r = i"
  shows "reconstruct fp (\<lambda>_. False) db' i = Inr (contents i)"
proof -
  obtain contents' where "store_ok fp contents' db'" "contents' i = contents i"
    using run_grows[OF assms(2)] assms(1, 3) unfolding grows_def by blast
  then show ?thesis
    using reconstruct_ok[of fp contents' db' "\<lambda>_. False" r] assms(4, 5) by simp
qed

lemma pinned_content:
  assumes "store_ok fp contents db" "(store_step fp)\<^sup>*\<^sup>* db db'" "(x, y, i) \<in> set (protected_versions db)"
  shows "reconstruct fp (\<lambda>_. False) db' i = Inr (contents i)"
proof -
  obtain contents' where "store_ok fp contents' db'" "(x, y, i) \<in> set (protected_versions db')"
    using run_grows[OF assms(2)] assms(1, 3) unfolding grows_def by blast
  then obtain r where r: "r \<in> set (versions db')" "vid r = i"
    by (auto simp: store_ok_def)
  obtain s where "s \<in> set (versions db)" "vid s = i"
    using assms(1, 3) by (auto simp: store_ok_def)
  then have "i \<le> last_id db"
    using store_okD(2)[OF assms(1), of s] by (simp add: row_ok_def)
  then show ?thesis
    using kept_content[OF assms(1, 2) _ r] by simp
qed

text \<open>
  Claim C27. The history of a document is kept. When \<open>capture\<close> reports a new version, then in
  every later state of the store, whatever was captured, protected, renamed or removed in between
  and whichever statements failed, that version is reconstructed to exactly the captured
  content as long as its row exists, and it exists when \<open>capture\<close> returns. When \<open>capture\<close> reports
  an existing version, that version exists and, in the same later states, is reconstructed to one content with
  the fingerprint of the captured one: to the captured content itself unless two contents have the same
  fingerprint. A version made by \<open>protect\<close> is never removed, and is reconstructed to a content with the fingerprint
  and the length of the protected one.
\<close>

theorem history_kept:
  assumes "(store_step fp)\<^sup>*\<^sup>* new_database db" "capture fp now later fails p content trig retention db = (res, db1)"
    and "protect fp now' fails' p' content' operation db1 = (res', db2)" "(store_step fp)\<^sup>*\<^sup>* db2 db3"
  shows "(\<forall>i. res = Inr (True, i) \<longrightarrow> (\<exists>r \<in> set (versions db1). vid r = i) \<and>
       reconstruct fp (\<lambda>_. False) db1 i = Inr content \<and>
       ((\<exists>r \<in> set (versions db3). vid r = i) \<longrightarrow> reconstruct fp (\<lambda>_. False) db3 i = Inr content)) \<and>
    (\<forall>i. res = Inr (False, i) \<longrightarrow> (\<exists>r \<in> set (versions db1). vid r = i) \<and>
       (\<exists>c. fp c = fp content \<and> reconstruct fp (\<lambda>_. False) db1 i = Inr c \<and>
         ((\<exists>r \<in> set (versions db3). vid r = i) \<longrightarrow> reconstruct fp (\<lambda>_. False) db3 i = Inr c))) \<and>
    (\<forall>i. res' = Inr i \<longrightarrow> (\<exists>c. reconstruct fp (\<lambda>_. False) db3 i = Inr c \<and> fp c = fp content' \<and>
       length c = length content'))"
proof (intro conjI allI impI)
  obtain contents where ok: "store_ok fp contents db"
    using run_ok[OF assms(1)] by blast
  have run: "(store_step fp)\<^sup>*\<^sup>* db1 db3"
    using assms(3, 4) store_step.protect[of fp db1 now' fails' p' content' operation]
    by (simp add: converse_rtranclp_into_rtranclp)
  {
    fix i assume "res = Inr (True, i)"
    then obtain contents1 where c: "store_ok fp contents1 db1" "contents1 i = content" "i \<le> last_id db1"
      and row: "\<exists>r \<in> set (versions db1). vid r = i"
      using capture_new[OF ok, of now later fails p content trig retention i db1] assms(2) by blast
    show "\<exists>r \<in> set (versions db1). vid r = i"
      by (rule row)
    show "reconstruct fp (\<lambda>_. False) db1 i = Inr content"
      using row kept_content[OF c(1) rtranclp.rtrancl_refl c(3)] c(2) by blast
    assume "\<exists>r \<in> set (versions db3). vid r = i"
    then show "reconstruct fp (\<lambda>_. False) db3 i = Inr content"
      using kept_content[OF c(1) run c(3)] c(2) by blast
  next
    fix i assume "res = Inr (False, i)"
    then obtain r where r: "r \<in> set (versions db)" "vid r = i" "content_hash r = fp content" "db1 = db"
      using assms(2) by (cases rule: capture_cases[OF assms(2)]) auto
    then have i: "i \<le> last_id db1" "fp (contents i) = fp content"
      using store_okD(2)[OF ok, of r] by (auto simp: row_ok_def)
    note kept = kept_content[OF ok[folded r(4)]  _ i(1)]
    show "\<exists>r \<in> set (versions db1). vid r = i"
      using r by blast
    show "\<exists>c. fp c = fp content \<and> reconstruct fp (\<lambda>_. False) db1 i = Inr c \<and>
        ((\<exists>r \<in> set (versions db3). vid r = i) \<longrightarrow> reconstruct fp (\<lambda>_. False) db3 i = Inr c)"
      using kept[OF rtranclp.rtrancl_refl] kept[OF run] i(2) r by blast
  next
    fix i assume "res' = Inr i"
    show "\<exists>c. reconstruct fp (\<lambda>_. False) db3 i = Inr c \<and> fp c = fp content' \<and> length c = length content'"
    proof -
      obtain contents1 where ok1: "store_ok fp contents1 db1"
        using capture_grows[OF assms(2)] ok unfolding grows_def by blast
      from assms(3) show ?thesis
      proof (cases rule: protect_cases)
        case unchanged
        then obtain x y r where pin: "(x, y, i) \<in> set (protected_versions db2)" and "select_row db2 i = Some r"
          "content_hash r = fp content'" "content_size r = int (length content')"
          using \<open>res' = Inr i\<close> by auto
        then have "fp (contents1 i) = fp content'" "length (contents1 i) = length content'" "i \<le> last_id db2"
          using select_Some[of db2 i r] store_okD(2)[OF ok1] unchanged(1) by (auto simp: row_ok_def)
        then show ?thesis
          using pinned_content[OF _ assms(4) pin, of contents1] ok1 unchanged(1) by auto
      next
        case (inserted r)
        note ok2 = protected_row_ok[OF ok1 inserted(1, 2)]
        have "(operation, normalize_relative p', i) \<in> set (protected_versions db2)" "i = last_id db1 + 1"
          using inserted(2, 3) \<open>res' = Inr i\<close> by simp_all
        then show ?thesis
          using pinned_content[OF ok2 assms(4)] by auto
      qed
    qed
  }
qed

theorem history_kept_witness:
  "reconstruct id (\<lambda>_. False) (snd (capture id 5 5 (\<lambda>_. False) ''a.xml'' ''some text'' ''save'' None new_database)) 1
     = Inr ''some text''"
proof -
  have "fst (capture id 5 5 (\<lambda>_. False) ''a.xml'' ''some text'' ''save'' None new_database) = Inr (True, 1)"
    by code_simp
  then show ?thesis
    using history_kept[OF rtranclp.rtrancl_refl prod.collapse[symmetric] prod.collapse[symmetric]
        rtranclp.rtrancl_refl, of id 5 5 "\<lambda>_. False" "''a.xml''" "''some text''" "''save''" None] by blast
qed

section \<open>Linear histories\<close>

text \<open>
  In a linear history a delta refers to the version before it of the same path. Then removing
  old versions never removes the base of one that stays.
\<close>

definition linear :: "database \<Rightarrow> bool" where
  "linear db \<longleftrightarrow> (\<forall>r \<in> set (versions db). \<forall>b. base_id r = Some b \<longrightarrow>
     (\<exists>rb \<in> set (versions db). vid rb = b \<and> vpath rb = vpath r) \<and>
     (\<forall>s \<in> set (versions db). vpath s = vpath r \<and> vid s < vid r \<longrightarrow> vid s \<le> b))"

lemma sorted_vid_inj:
  "sorted_wrt (<) (map vid rs) \<Longrightarrow> r \<in> set rs \<Longrightarrow> s \<in> set rs \<Longrightarrow> vid r = vid s \<Longrightarrow> r = s"
  by (induction rs) auto

lemma vid_inj:
  "store_ok fp contents db \<Longrightarrow> r \<in> set (versions db) \<Longrightarrow> s \<in> set (versions db) \<Longrightarrow> vid r = vid s \<Longrightarrow> r = s"
  using sorted_vid_inj store_okD(1) by blast

lemma linear_base:
  assumes "store_ok fp contents db" "linear db" "r \<in> set (versions db)" "base_id r = Some (vid b)" "b \<in> set (versions db)"
  shows "vpath b = vpath r" "s \<in> set (versions db) \<Longrightarrow> vpath s = vpath r \<Longrightarrow> vid s < vid r \<Longrightarrow> vid s \<le> vid b"
  using assms vid_inj[OF assms(1)] unfolding linear_def by blast+

lemma anchor_loop_ok:
  assumes "store_ok fp contents db" "linear db" "\<not> fails Q_base"
  shows "r \<in> set (versions db) \<Longrightarrow> chain_depth r < int n \<Longrightarrow>
    \<exists>a \<in> set (versions db). anchor_loop fails db n (vid r) = Inr (vid a) \<and> vpath a = vpath r \<and> base_id a = None"
proof (induction n arbitrary: r)
  case 0
  then show ?case
    using store_okD(2)[OF assms(1) 0(1)] by (simp add: row_ok_def)
next
  case (Suc n)
  note row = store_okD(2)[OF assms(1) Suc.prems(1)]
  show ?case
  proof (cases "encoding r = 0")
    case True
    then show ?thesis
      using row assms(3) select_vid[OF assms(1) Suc.prems(1)] Suc.prems(1) by (auto simp: row_ok_def)
  next
    case False
    then obtain b where b: "b \<in> set (versions db)" "delta_of contents b r"
      using row by (auto simp: row_ok_def)
    then have base: "base_id r = Some (vid b)" "vid b < vid r" "0 < vid b" "chain_depth b < int n"
      using store_okD(2)[OF assms(1) b(1)] Suc.prems(2) by (auto simp: delta_of_def row_ok_def)
    then show ?thesis
      using Suc.IH[OF b(1) base(4)] linear_base(1)[OF assms(1, 2) Suc.prems(1) base(1) b(1)] assms(3)
        select_vid[OF assms(1) Suc.prems(1)] by auto
  qed
qed

lemma protected_full:
  assumes "store_ok fp contents db" "r \<in> set (versions db)" "is_protected db (vid r)"
  shows "base_id r = None"
proof -
  obtain x y where "(x, y, vid r) \<in> set (protected_versions db)"
    using assms(3) by (auto simp: is_protected_def list_ex_iff)
  then obtain s where "s \<in> set (versions db)" "vid r = vid s" "encoding s = 0"
    using assms(1) by (auto simp: store_ok_def)
  then have "encoding r = 0"
    using vid_inj[OF assms(1, 2)] by blast
  then show ?thesis
    using store_okD(2)[OF assms(1, 2)] by (auto simp: row_ok_def)
qed

lemma delete_below_ok:
  assumes "store_ok fp contents db" "linear db" "a \<in> set (versions db)" "base_id a = None" "vpath a = path"
  shows "\<exists>db'. delete_rows (\<lambda>r. vpath r = path \<and> vid r < vid a \<and> \<not> is_protected db (vid r)) db = Some db'"
proof -
  have "v \<noteq> vid g" if s: "s \<in> set (versions db)" "base_id s = Some v"
    "\<not> (vpath s = path \<and> vid s < vid a \<and> \<not> is_protected db (vid s))"
    and g: "g \<in> set (versions db)" "vpath g = path" "vid g < vid a" for s v g
  proof
    assume "v = vid g"
    note base = linear_base[OF assms(1, 2) s(1) s(2)[unfolded this] g(1)]
    have "vpath s = path" "\<not> is_protected db (vid s)"
      using base(1) g(2) protected_full[OF assms(1) s(1)] s(2) by auto
    then have "vid a \<le> vid s"
      using s(3) by simp
    moreover have "vid a \<noteq> vid s"
      using vid_inj[OF assms(1, 3) s(1)] assms(4) s(2) by auto
    ultimately have "vid a \<le> vid g"
      using base(2)[OF assms(3)] assms(5) \<open>vpath s = path\<close> by simp
    then show False
      using g(3) by simp
  qed
  then show ?thesis
    by (fastforce simp: delete_rows_def Let_def list_ex_iff is_protected_def)
qed

lemma delete_linear:
  assumes "linear db" "delete_rows goes db = Some db'"
  shows "linear db'"
proof -
  have rows: "versions db' = filter (\<lambda>r. \<not> goes r) (versions db)"
    and refs: "\<And>r g. r \<in> set (versions db) \<Longrightarrow> \<not> goes r \<Longrightarrow> base_id r = Some (vid g) \<Longrightarrow> g \<in> set (versions db) \<Longrightarrow> \<not> goes g"
    using assms(2) by (auto simp: delete_rows_def Let_def list_ex_iff split: if_splits)
  show ?thesis
    unfolding linear_def
  proof (intro ballI allI impI conjI)
    fix r b assume "r \<in> set (versions db')" and base: "base_id r = Some b"
    then have r: "r \<in> set (versions db)" "\<not> goes r"
      by (simp_all add: rows)
    then obtain g where "g \<in> set (versions db)" "vid g = b" "vpath g = vpath r"
      using assms(1) base unfolding linear_def by blast
    then show "\<exists>rb \<in> set (versions db'). vid rb = b \<and> vpath rb = vpath r"
      using refs[OF r] base by (auto simp: rows)
    fix s assume "s \<in> set (versions db')" "vpath s = vpath r \<and> vid s < vid r"
    then show "vid s \<le> b"
      using assms(1) base r(1) unfolding linear_def rows by auto
  qed
qed

lemma prune_ok:
  assumes "store_ok fp contents db" "linear db"
  shows "\<exists>db'. prune (\<lambda>_. False) path cutoff db = (Inr (), db') \<and> linear db'"
proof -
  have "\<exists>db'. delete_below (\<lambda>_. False) path db (vid r) = (Inr (), db') \<and> linear db'"
    if r: "r \<in> set (versions db)" "vpath r = path" for r
  proof -
    have "chain_depth r < int 64"
      using depth_bound[OF store_okD(2)[OF assms(1) r(1)]] by simp
    then obtain a where a: "a \<in> set (versions db)" "anchor_loop (\<lambda>_. False) db 64 (vid r) = Inr (vid a)"
      "vpath a = path" "base_id a = None"
      using anchor_loop_ok[OF assms, of "\<lambda>_. False" r 64] r by auto
    then obtain db' where "delete_rows (\<lambda>r. vpath r = path \<and> vid r < vid a \<and> \<not> is_protected db (vid r)) db = Some db'"
      using delete_below_ok[OF assms a(1, 4, 3)] by blast
    then show ?thesis
      using a(2) delete_linear[OF assms(2)] by (auto simp: delete_below_def)
  qed
  moreover have "r \<in> set (versions db) \<and> vpath r = path" if "List.find P (rows_of db path) = Some r" for P r
    using that by (auto simp: find_Some_iff rows_of_def dest: nth_mem)
  ultimately show ?thesis
    using assms(2) unfolding prune_def by (auto split: option.splits dest: latest_in)
qed

lemma sorted_last: "sorted_wrt (\<lambda>x y. vid x < vid y) rs \<Longrightarrow> s \<in> set rs \<Longrightarrow> r = last rs \<Longrightarrow> vid s \<le> vid r"
  by (induction rs rule: rev_induct) (auto simp: sorted_wrt_append)

lemma latest_greatest:
  assumes "store_ok fp contents db" "latest_row db p = Some r" "s \<in> set (versions db)" "vpath s = p"
  shows "vid s \<le> vid r"
proof -
  have "sorted_wrt (\<lambda>x y. vid x < vid y) (rows_of db p)"
    using store_okD(1)[OF assms(1)] by (simp add: rows_of_def sorted_wrt_map sorted_wrt_filter)
  moreover have "s \<in> set (rows_of db p)" "r = last (rows_of db p)"
    using assms(2-4) by (auto simp: rows_of_def latest_row_def split: list.splits)
  ultimately show ?thesis
    by (rule sorted_last)
qed

lemma encode_base:
  "encode_version fp fails db previous content = Inr (data, base, enc, depth) \<Longrightarrow>
   base = None \<or> (\<exists>r. previous = Some r \<and> base = Some (vid r))"
  unfolding encode_version_def by (auto simp: Let_def split: option.splits sum.splits if_splits)

lemma insert_linear:
  assumes "store_ok fp contents db" "linear db" "base_id r = None \<or> base_id r = map_option vid (latest_row db (vpath r))"
  shows "linear (insert_row r db)"
proof -
  have ids: "vid s \<le> last_id db" if "s \<in> set (versions db)" for s
    using store_okD(2)[OF assms(1) that] by (simp add: row_ok_def)
  show ?thesis
    unfolding linear_def
  proof (intro ballI allI impI)
    fix s b assume s: "s \<in> set (versions (insert_row r db))" and base: "base_id s = Some b"
    show "(\<exists>rb \<in> set (versions (insert_row r db)). vid rb = b \<and> vpath rb = vpath s) \<and>
      (\<forall>t \<in> set (versions (insert_row r db)). vpath t = vpath s \<and> vid t < vid s \<longrightarrow> vid t \<le> b)"
    proof (cases "s \<in> set (versions db)")
      case True
      then show ?thesis
        using assms(2) base ids[OF True] unfolding linear_def by (fastforce simp: insert_row_def)
    next
      case False
      then have "s = r\<lparr>vid := last_id db + 1\<rparr>"
        using s by (simp add: insert_row_def)
      moreover from this base assms(3) obtain t where "latest_row db (vpath r) = Some t" "b = vid t"
        by (cases "latest_row db (vpath r)") auto
      ultimately show ?thesis
        using latest_in[of db "vpath r" t] latest_greatest[OF assms(1), of "vpath r" t]
        by (auto simp: insert_row_def)
    qed
  qed
qed

lemma capture_linear:
  assumes "store_ok fp contents db" "linear db" "capture fp now later fails p content trig retention db = (res, db')"
  shows "linear db'"
  using assms(3)
proof (cases rule: capture_cases)
  case (inserted data base enc depth r)
  have "linear (insert_row r db)"
    by (rule insert_linear[OF assms(1, 2)]) (use encode_base[OF inserted(1)] inserted(2) in auto)
  then show ?thesis
    using inserted(3) by (auto elim!: prune_below dest: delete_linear)
qed (simp add: assms(2))

lemma protect_linear:
  assumes "store_ok fp contents db" "linear db" "protect fp now fails p content operation db = (res, db')"
  shows "linear db'"
  using assms(3)
proof (cases rule: protect_cases)
  case (inserted r)
  have "linear (insert_row r db)"
    by (rule insert_linear[OF assms(1, 2)]) (simp add: inserted(1))
  then show ?thesis
    by (simp add: inserted(2) linear_def)
qed (simp add: assms(2))

lemma metadata_linear: "linear db \<Longrightarrow> linear (snd (set_protected_metadata fails i fmt key db))"
  unfolding set_protected_metadata_def Let_def by (auto simp: linear_def split: sum.splits)

lemma repath_linear:
  assumes "linear db" "\<And>r s. r \<in> set (versions db) \<Longrightarrow> s \<in> set (versions db) \<Longrightarrow>
    f (vpath r) = f (vpath s) \<Longrightarrow> vpath r = vpath s"
  shows "linear (repath f db)"
  using assms unfolding linear_def repath_def by (auto; metis)

lemma foldl_update_paths:
  assumes "distinct ps" "\<And>p. p \<in> set ps \<Longrightarrow> g p \<notin> set ps"
  shows "foldl (\<lambda>db p. update_path (g p) p db) db ps = repath (\<lambda>p. if p \<in> set ps then g p else p) db"
  using assms
proof (induction ps arbitrary: db)
  case Nil
  then show ?case by (simp add: repath_def)
next
  case (Cons p ps)
  have "foldl (\<lambda>db p. update_path (g p) p db) db (p # ps) =
      repath (\<lambda>q. if q \<in> set ps then g q else q) (update_path (g p) p db)"
    using Cons by simp
  also have "\<dots> = repath (\<lambda>q. if q \<in> set (p # ps) then g q else q) db"
    unfolding update_path_repath repath_repath using Cons.prems
    by (intro arg_cong[of _ _ "\<lambda>f. repath f db"]) (auto simp: fun_eq_iff)
  finally show ?case .
qed

lemma under_moved: "below_path old p \<Longrightarrow> below_path new (new @ drop (length old) p)"
proof -
  assume "below_path old p"
  then consider "p = old" | s where "p = old @ ''/'' @ s"
    unfolding below_path_def by (metis append_assoc append_take_drop_id)
  then show ?thesis
    by cases (simp_all add: below_path_def)
qed

lemma below_split: "below_path old p \<Longrightarrow> p = old @ drop (length old) p"
proof -
  assume "below_path old p"
  then consider "p = old" | s where "p = old @ ''/'' @ s"
    unfolding below_path_def by (metis append_assoc append_take_drop_id)
  then show ?thesis
    by cases simp_all
qed

lemma moved_inj:
  assumes "below_path old p" "below_path old q" "new @ drop (length old) p = new @ drop (length old) q"
  shows "p = q"
  using below_split[OF assms(1)] below_split[OF assms(2)] assms(3) by simp

lemma rename_linear:
  assumes "linear db" "\<And>r. r \<in> set (versions db) \<Longrightarrow> \<not> below_path (normalize_relative new) (vpath r)"
  shows "linear (snd (rename_path fails old new directory db))"
proof -
  let ?old = "normalize_relative old" and ?new = "normalize_relative new"
  let ?g = "\<lambda>p. ?new @ drop (length ?old) p" and ?ps = "filter (below_path ?old) (remdups (map vpath (versions db)))"
  have single: "linear (update_path ?new ?old db)"
    unfolding update_path_repath
    by (rule repath_linear[OF assms(1)]) (use assms(2) in \<open>auto simp: below_path_def split: if_splits\<close>)
  have "?g p \<notin> set ?ps" if "p \<in> set ?ps" for p
    using under_moved[of ?old p ?new] that assms(2) by auto
  then have "foldl (\<lambda>db p. update_path (?g p) p db) db ?ps = repath (\<lambda>p. if p \<in> set ?ps then ?g p else p) db"
    by (intro foldl_update_paths) auto
  moreover have "linear (repath (\<lambda>p. if p \<in> set ?ps then ?g p else p) db)"
  proof (rule repath_linear[OF assms(1)])
    fix r s assume r: "r \<in> set (versions db)" and s: "s \<in> set (versions db)"
      and eq: "(if vpath r \<in> set ?ps then ?g (vpath r) else vpath r) = (if vpath s \<in> set ?ps then ?g (vpath s) else vpath s)"
    define P where "P = set ?ps"
    have new: "vpath r \<noteq> ?g p \<and> vpath s \<noteq> ?g p \<and> below_path ?old p" if "p \<in> P" for p
      using assms(2)[OF r] assms(2)[OF s] under_moved[of ?old p ?new] that by (auto simp: P_def)
    show "vpath r = vpath s"
      using eq[folded P_def] new[of "vpath r"] new[of "vpath s"] moved_inj[of ?old "vpath r" "vpath s" ?new]
      by (cases "vpath r \<in> P"; cases "vpath s \<in> P") auto
  qed
  ultimately have "linear (foldl (\<lambda>db p. update_path (?g p) p db) db ?ps)"
    by simp
  then show ?thesis
    using assms(1) single unfolding rename_path_def Let_def by simp
qed

text \<open>Calls that rename no history onto another one.\<close>

inductive tidy_step :: "(string \<Rightarrow> string) \<Rightarrow> database \<Rightarrow> database \<Rightarrow> bool" for fp where
  capture: "tidy_step fp db (snd (capture fp now later fails p content trig retention db))"
| protect: "tidy_step fp db (snd (protect fp now fails p content operation db))"
| metadata: "tidy_step fp db (snd (set_protected_metadata fails i fmt key db))"
| rename: "(\<And>r. r \<in> set (versions db) \<Longrightarrow> \<not> below_path (normalize_relative new) (vpath r)) \<Longrightarrow>
    tidy_step fp db (snd (rename_path fails old new directory db))"

lemma tidy_store_step: "tidy_step fp db db' \<Longrightarrow> store_step fp db db'"
  by (induction rule: tidy_step.induct) (auto intro: store_step.intros)

lemma tidy_linear: "tidy_step fp db db' \<Longrightarrow> store_ok fp contents db \<Longrightarrow> linear db \<Longrightarrow> linear db'"
  by (induction rule: tidy_step.induct)
    (auto intro: capture_linear[OF _ _ prod.collapse[symmetric]] protect_linear[OF _ _ prod.collapse[symmetric]]
      metadata_linear rename_linear)

lemma tidy_run:
  "(tidy_step fp)\<^sup>*\<^sup>* new_database db \<Longrightarrow> (\<exists>contents. store_ok fp contents db) \<and> linear db"
proof (induction rule: rtranclp_induct)
  case base
  then show ?case
    using new_database_ok[of fp] by (auto simp: linear_def new_database_def)
next
  case (step db db')
  then show ?case
    using tidy_linear[OF step(2)] step_grows[OF tidy_store_step[OF step(2)]] unfolding grows_def by blast
qed

text \<open>
  Claim C28. Capturing succeeds. In a store in which no history was renamed onto another one, and
  whose database executes its statements, \<open>capture\<close> of a valid path returns a version for every
  content and every retention: the chain of deltas is never too deep or damaged, and removing
  old versions never violates a reference.
\<close>

theorem capture_succeeds:
  assumes "(tidy_step fp)\<^sup>*\<^sup>* new_database db" "valid_relative_document_path p"
  shows "\<exists>inserted i db'. capture fp now later (\<lambda>_. False) p content trig retention db = (Inr (inserted, i), db') \<and>
    linear db'"
proof -
  obtain contents where ok: "store_ok fp contents db" and lin: "linear db"
    using tidy_run[OF assms(1)] by blast
  have "\<exists>enc. encode_version fp (\<lambda>_. False) db (latest_row db (normalize_relative p)) content = Inr enc"
    using reconstruct_ok[OF ok, of "\<lambda>_. False"] latest_in[of db "normalize_relative p"]
    unfolding encode_version_def by (auto simp: Let_def split: option.splits)
  then obtain data base enc depth where
    enc: "encode_version fp (\<lambda>_. False) db (latest_row db (normalize_relative p)) content = Inr (data, base, enc, depth)"
    by (metis prod_cases4)
  define r where "r = \<lparr>vid = 0, vpath = normalize_relative p, created_at_ms = now, vtrigger = trig, base_id = base,
      encoding = enc, payload = data, content_size = int (length content), content_hash = fp content,
      chain_depth = depth\<rparr>"
  have "store_ok fp (contents(last_id db + 1 := content)) (insert_row r db)"
    by (rule encoded_row_ok[OF ok enc]) (simp_all add: r_def)
  moreover have "linear (insert_row r db)"
    by (rule insert_linear[OF ok lin]) (use encode_base[OF enc] in \<open>auto simp: r_def\<close>)
  ultimately obtain db' where "prune (\<lambda>_. False) (normalize_relative p) (later - the retention * 1000) (insert_row r db) = (Inr (), db')"
    using prune_ok by blast
  then have "\<exists>x db''. capture fp now later (\<lambda>_. False) p content trig retention db = (Inr x, db'')"
    unfolding r_def
    by (cases "retention \<noteq> None \<and> 0 < the retention") (simp_all add: capture_def Let_def enc assms(2) ex_bool_eq del: not_None_eq)
  then obtain inserted i db'' where "capture fp now later (\<lambda>_. False) p content trig retention db = (Inr (inserted, i), db'')"
    by auto
  then show ?thesis
    using capture_linear[OF ok lin] by blast
qed

lemma empty_run: "(tidy_step fp)\<^sup>*\<^sup>* new_database new_database"
  by simp

theorem capture_succeeds_witness:
  "\<exists>inserted i db'. capture id 9 9 (\<lambda>_. False) ''notes/a.xml'' ''text'' ''save'' (Some 60)
     (snd (capture id 5 5 (\<lambda>_. False) ''notes/a.xml'' ''some text'' ''save'' None new_database)) =
     (Inr (inserted, i), db')"
proof -
  have "(tidy_step id)\<^sup>*\<^sup>* new_database
      (snd (capture id 5 5 (\<lambda>_. False) ''notes/a.xml'' ''some text'' ''save'' None new_database))"
    by (rule r_into_rtranclp, rule tidy_step.capture)
  moreover have "valid_relative_document_path ''notes/a.xml''"
    by code_simp
  ultimately show ?thesis
    using capture_succeeds by blast
qed

section \<open>Where it ends\<close>

definition sample_text :: string where
  "sample_text = ''a paragraph of text that is long enough for a delta to be stored''"

definition save :: "int \<Rightarrow> string \<Rightarrow> string \<Rightarrow> database \<Rightarrow> database" where
  "save now p s db = snd (capture id now now (\<lambda>_. False) p (sample_text @ s) ''save'' None db)"

definition merged_history :: database where
  "merged_history =
     snd (rename_path (\<lambda>_. False) ''a'' ''b'' False
       (save 4000 ''b'' ''2'' (save 3000 ''a'' ''2'' (save 2000 ''b'' ''1'' (save 1000 ''a'' ''1'' new_database)))))"

text \<open>
  A document is renamed onto a path that has a history of its own, for example that of
  a document that was deleted. From then on the two histories are one, whose versions refer to
  bases across each other; removing old versions violates a reference and \<open>capture\<close> reports
  a failure, although it has stored the version.
\<close>

theorem rename_merge_breaks_capture:
  "fst (capture id 4500 4500 (\<lambda>_. False) ''b'' (sample_text @ ''3'') ''save'' (Some 1) merged_history) = Inl Foreign_key"
  by code_simp

end
