(* ===== verification/Athena_Rectangles.thy ===== *)
theory Athena_Rectangles
  imports Complex_Main
begin

text \<open>
  Rectangles and lists of rectangles, \<open>src/src/Core/Types/rectangles.cpp\<close>: the algebra with
  which the editor tracks invalid regions, selections and outlines. Coordinates are \<open>SI\<close>,
  read as integers; areas, \<open>double\<close> in the source, are read as exact numbers. The operators
  that scale by a \<open>double\<close> are left out.

  A rectangle stands for the set of its unit cells, with its left and lower edge and without
  its right and upper edge. Shown: difference, intersection, union and outline compute the
  difference, intersection, union and outline of the sets of cells, whatever the rectangles
  overlap; union and simplification return lists of disjoint rectangles, so their area is the
  number of cells; and the least upper bound is the least rectangle around a list.
\<close>

record rectangle =
  x1 :: int
  y1 :: int
  x2 :: int
  y2 :: int

definition rect :: "int \<Rightarrow> int \<Rightarrow> int \<Rightarrow> int \<Rightarrow> rectangle" where
  "rect a b c d = \<lparr>x1 = a, y1 = b, x2 = c, y2 = d\<rparr>"

section \<open>Single rectangles\<close>

definition rect_eq :: "rectangle \<Rightarrow> rectangle \<Rightarrow> bool" where
  "rect_eq r1 r2 \<longleftrightarrow> x1 r1 = x1 r2 \<and> y1 r1 = y1 r2 \<and> x2 r1 = x2 r2 \<and> y2 r1 = y2 r2"

definition rect_neq :: "rectangle \<Rightarrow> rectangle \<Rightarrow> bool" where
  "rect_neq r1 r2 \<longleftrightarrow> x1 r1 \<noteq> x1 r2 \<or> y1 r1 \<noteq> y1 r2 \<or> x2 r1 \<noteq> x2 r2 \<or> y2 r1 \<noteq> y2 r2"

definition rect_leq :: "rectangle \<Rightarrow> rectangle \<Rightarrow> bool" where
  "rect_leq r1 r2 \<longleftrightarrow> x1 r1 \<ge> x1 r2 \<and> x2 r1 \<le> x2 r2 \<and> y1 r1 \<ge> y1 r2 \<and> y2 r1 \<le> y2 r2"

definition intersect :: "rectangle \<Rightarrow> rectangle \<Rightarrow> bool" where
  "intersect r1 r2 \<longleftrightarrow> x1 r1 < x2 r2 \<and> x2 r1 > x1 r2 \<and> y1 r1 < y2 r2 \<and> y2 r1 > y1 r2"

definition translate_rect :: "rectangle \<Rightarrow> int \<Rightarrow> int \<Rightarrow> rectangle" where
  "translate_rect r x y = rect (x1 r + x) (y1 r + y) (x2 r + x) (y2 r + y)"

definition area_rect :: "rectangle \<Rightarrow> real" where
  "area_rect r = (let w = of_int (max (x2 r - x1 r) 0); h = of_int (max (y2 r - y1 r) 0) in w * h)"

text \<open>\<open>complement (r1, r2, l)\<close> puts the parts of \<open>r1\<close> outside \<open>r2\<close> in front of \<open>l\<close>.\<close>

definition complement_rect :: "rectangle \<Rightarrow> rectangle \<Rightarrow> rectangle list \<Rightarrow> rectangle list" where
  "complement_rect r1 r2 l =
     (if \<not> intersect r1 r2 then r1 # l
      else
        let l = (if x1 r1 < x1 r2 then rect (x1 r1) (y1 r1) (x1 r2) (y2 r1) # l else l);
            l = (if x2 r1 > x2 r2 then rect (x2 r2) (y1 r1) (x2 r1) (y2 r1) # l else l);
            l = (if y1 r1 < y1 r2
                 then rect (max (x1 r1) (x1 r2)) (y1 r1) (min (x2 r1) (x2 r2)) (y1 r2) # l else l);
            l = (if y2 r1 > y2 r2
                 then rect (max (x1 r1) (x1 r2)) (y2 r2) (min (x2 r1) (x2 r2)) (y2 r1) # l else l)
        in l)"

fun complement_list :: "rectangle list \<Rightarrow> rectangle \<Rightarrow> rectangle list \<Rightarrow> rectangle list" where
  "complement_list [] r2 l = l"
| "complement_list (r # l1) r2 l = complement_list l1 r2 (complement_rect r r2 l)"

definition intersection :: "rectangle \<Rightarrow> rectangle \<Rightarrow> rectangle list \<Rightarrow> rectangle list" where
  "intersection r1 r2 l =
     (if \<not> intersect r1 r2 then l
      else rect (max (x1 r1) (x1 r2)) (max (y1 r1) (y1 r2))
             (min (x2 r1) (x2 r2)) (min (y2 r1) (y2 r2)) # l)"

definition lub2 :: "rectangle \<Rightarrow> rectangle \<Rightarrow> rectangle" where
  "lub2 r1 r2 = rect (min (x1 r1) (x1 r2)) (min (y1 r1) (y1 r2))
                     (max (x2 r1) (x2 r2)) (max (y2 r1) (y2 r2))"

definition scale_rect :: "rectangle \<Rightarrow> int \<Rightarrow> rectangle" where
  "scale_rect r d = rect (x1 r * d) (y1 r * d) (x2 r * d) (y2 r * d)"

text \<open>Division of C++ rounds towards zero; division by zero is undefined.\<close>

definition c_div :: "int \<Rightarrow> int \<Rightarrow> int" where
  "c_div a b = (if (a < 0) = (b < 0) then \<bar>a\<bar> div \<bar>b\<bar> else - (\<bar>a\<bar> div \<bar>b\<bar>))"

definition shrink_rect :: "rectangle \<Rightarrow> int \<Rightarrow> rectangle option" where
  "shrink_rect r d =
     (if d = 0 then None
      else Some (rect (c_div (x1 r) d) (c_div (y1 r) d) (c_div (x2 r) d) (c_div (y2 r) d)))"

definition thicken_rect :: "rectangle \<Rightarrow> int \<Rightarrow> int \<Rightarrow> rectangle" where
  "thicken_rect r width height =
     rect (x1 r - width) (y1 r - height) (x2 r + width) (y2 r + height)"

section \<open>Lists of rectangles\<close>

fun minus_rects :: "rectangle list \<Rightarrow> rectangle list \<Rightarrow> rectangle list" where
  "minus_rects a [] = a"
| "minus_rects a (r # l2) = minus_rects (complement_list a r []) l2"

fun and_row :: "rectangle \<Rightarrow> rectangle list \<Rightarrow> rectangle list \<Rightarrow> rectangle list" where
  "and_row r [] l = l"
| "and_row r (q # l2) l = and_row r l2 (intersection r q l)"

fun and_loop :: "rectangle list \<Rightarrow> rectangle list \<Rightarrow> rectangle list \<Rightarrow> rectangle list" where
  "and_loop [] l2 l = l"
| "and_loop (r # l1) l2 l = and_loop l1 l2 (and_row r l2 l)"

definition and_rects :: "rectangle list \<Rightarrow> rectangle list \<Rightarrow> rectangle list" where
  "and_rects l1 l2 = and_loop l1 l2 []"

definition adjacent :: "rectangle \<Rightarrow> rectangle \<Rightarrow> bool" where
  "adjacent r1 r2 \<longleftrightarrow>
     ((x2 r1 = x1 r2 \<or> x1 r1 = x2 r2) \<and> (y1 r1 = y1 r2 \<and> y2 r1 = y2 r2)) \<or>
     ((y2 r1 = y1 r2 \<or> y1 r1 = y2 r2) \<and> (x1 r1 = x1 r2 \<and> x2 r1 = x2 r2))"

text \<open>
  \<open>least_upper_bound (rectangles l)\<close>; the assertion that the list is not empty is \<open>None\<close>.
\<close>

fun lub_loop :: "rectangle \<Rightarrow> rectangle list \<Rightarrow> rectangle" where
  "lub_loop r1 [] = r1"
| "lub_loop r1 (r2 # l) =
     lub_loop (rect (min (x1 r1) (x1 r2)) (min (y1 r1) (y1 r2))
                    (max (x2 r1) (x2 r2)) (max (y2 r1) (y2 r2))) l"

fun least_upper_bound :: "rectangle list \<Rightarrow> rectangle option" where
  "least_upper_bound [] = None"
| "least_upper_bound (r # l) = Some (lub_loop r l)"

text \<open>\<open>least_upper_bound (rectangles (l->item, r))\<close> is the loop on the second element.\<close>

fun disjoint_union :: "rectangle list \<Rightarrow> rectangle \<Rightarrow> rectangle list" where
  "disjoint_union [] r = [r]"
| "disjoint_union (q # l) r =
     (if adjacent q r then disjoint_union l (lub_loop q [r])
      else q # disjoint_union l r)"

fun or_loop :: "rectangle list \<Rightarrow> rectangle list \<Rightarrow> rectangle list" where
  "or_loop l [] = l"
| "or_loop l (r # l2) = or_loop (disjoint_union l r) l2"

definition or_rects :: "rectangle list \<Rightarrow> rectangle list \<Rightarrow> rectangle list" where
  "or_rects l1 l2 = or_loop (minus_rects l1 l2) l2"

fun translate_rects :: "rectangle list \<Rightarrow> int \<Rightarrow> int \<Rightarrow> rectangle list" where
  "translate_rects [] x y = []"
| "translate_rects (r # l) x y =
     rect (x1 r + x) (y1 r + y) (x2 r + x) (y2 r + y) # translate_rects l x y"

fun thicken_rects :: "rectangle list \<Rightarrow> int \<Rightarrow> int \<Rightarrow> rectangle list" where
  "thicken_rects [] width height = []"
| "thicken_rects (r # l) width height =
     rect (x1 r - width) (y1 r - height) (x2 r + width) (y2 r + height)
       # thicken_rects l width height"

fun correct :: "rectangle list \<Rightarrow> rectangle list" where
  "correct [] = []"
| "correct (r # l) = (if x1 r \<ge> x2 r \<or> y1 r \<ge> y2 r then correct l else r # correct l)"

fun simplify_bis :: "rectangle list \<Rightarrow> rectangle list" where
  "simplify_bis [] = []"
| "simplify_bis [r] = [r]"
| "simplify_bis (r # l) = or_rects (simplify_bis l) [r]"

definition simplify_rects :: "rectangle list \<Rightarrow> rectangle list" where
  "simplify_rects l = (if length l > 25 then l else simplify_bis l)"

definition outlines :: "rectangle list \<Rightarrow> int \<Rightarrow> rectangle list" where
  "outlines rs pixel =
     simplify_rects (correct (minus_rects (thicken_rects rs pixel (3 * pixel))
                                          (thicken_rects rs 0 (2 * pixel))))"

fun scale_rects :: "rectangle list \<Rightarrow> int \<Rightarrow> rectangle list" where
  "scale_rects [] d = []"
| "scale_rects (r # l) d = scale_rect r d # scale_rects l d"

fun shrink_rects :: "rectangle list \<Rightarrow> int \<Rightarrow> rectangle list option" where
  "shrink_rects [] d = Some []"
| "shrink_rects (r # l) d =
     (case shrink_rect r d of
        None \<Rightarrow> None
      | Some q \<Rightarrow> (case shrink_rects l d of None \<Rightarrow> None | Some l' \<Rightarrow> Some (q # l')))"

fun area_loop :: "rectangle list \<Rightarrow> real \<Rightarrow> real" where
  "area_loop [] s = s"
| "area_loop (r # l) s = area_loop l (s + area_rect r)"

definition area_rects :: "rectangle list \<Rightarrow> real" where
  "area_rects l = area_loop l 0"

section \<open>Cells\<close>

definition cells :: "rectangle \<Rightarrow> (int \<times> int) set" where
  "cells r = {x1 r..<x2 r} \<times> {y1 r..<y2 r}"

definition region :: "rectangle list \<Rightarrow> (int \<times> int) set" where
  "region l = (\<Union>r \<in> set l. cells r)"

text \<open>A rectangle whose corners are in order, and lists of disjoint such rectangles.\<close>

definition proper :: "rectangle \<Rightarrow> bool" where
  "proper r \<longleftrightarrow> x1 r \<le> x2 r \<and> y1 r \<le> y2 r"

fun disjoint_rects :: "rectangle list \<Rightarrow> bool" where
  "disjoint_rects [] = True"
| "disjoint_rects (r # l) = (proper r \<and> cells r \<inter> region l = {} \<and> disjoint_rects l)"

lemma rect_simps [simp]:
  "x1 (rect a b c d) = a" "y1 (rect a b c d) = b" "x2 (rect a b c d) = c" "y2 (rect a b c d) = d"
  by (simp_all add: rect_def)

lemma in_cells: "(x, y) \<in> cells r \<longleftrightarrow> x1 r \<le> x \<and> x < x2 r \<and> y1 r \<le> y \<and> y < y2 r"
  by (auto simp: cells_def)

lemma region_simps [simp]:
  "region [] = {}" "region (r # l) = cells r \<union> region l" "region (l @ k) = region l \<union> region k"
  by (auto simp: region_def)

lemma in_region_if:
  "p \<in> region (if b then r # l else l) \<longleftrightarrow> b \<and> p \<in> cells r \<or> p \<in> region l"
  by simp

lemma cells_eqI: "(\<And>x y. (x, y) \<in> A \<longleftrightarrow> (x, y) \<in> B) \<Longrightarrow> A = B"
  by auto

lemma disjoint_rects_proper: "disjoint_rects l \<Longrightarrow> \<forall>r \<in> set l. proper r"
  by (induction l) auto

section \<open>Difference and intersection\<close>

lemma region_complement_rect:
  "region (complement_rect r1 r2 l) = (cells r1 - cells r2) \<union> region l"
proof (rule cells_eqI)
  fix x y
  show "(x, y) \<in> region (complement_rect r1 r2 l) \<longleftrightarrow> (x, y) \<in> (cells r1 - cells r2) \<union> region l"
    by (cases "intersect r1 r2")
      (simp_all only: complement_rect_def Let_def in_region_if, auto simp: intersect_def in_cells)
qed

lemma region_complement_list:
  "region (complement_list l1 r2 l) = (region l1 - cells r2) \<union> region l"
  by (induction l1 r2 l rule: complement_list.induct) (auto simp: region_complement_rect)

lemma region_minus: "region (minus_rects l1 l2) = region l1 - region l2"
  by (induction l1 l2 rule: minus_rects.induct) (auto simp: region_complement_list)

lemma region_intersection:
  "region (intersection r1 r2 l) = (cells r1 \<inter> cells r2) \<union> region l"
proof (rule cells_eqI)
  fix x y
  show "(x, y) \<in> region (intersection r1 r2 l) \<longleftrightarrow> (x, y) \<in> (cells r1 \<inter> cells r2) \<union> region l"
    by (auto simp: intersection_def intersect_def in_cells)
qed

lemma region_and_row: "region (and_row r l2 l) = (cells r \<inter> region l2) \<union> region l"
  by (induction r l2 l rule: and_row.induct) (auto simp: region_intersection)

lemma region_and_loop: "region (and_loop l1 l2 l) = (region l1 \<inter> region l2) \<union> region l"
  by (induction l1 l2 l rule: and_loop.induct) (auto simp: region_and_row)

lemma region_correct: "region (correct l) = region l"
  by (induction l rule: correct.induct) (auto simp: cells_def)

lemma proper_correct: "\<forall>r \<in> set (correct l). proper r"
  by (induction l rule: correct.induct) (auto simp: proper_def)

text \<open>Difference keeps lists of disjoint proper rectangles.\<close>

lemma disjoint_complement_rect:
  assumes "proper r1" "proper r2" "disjoint_rects l" "cells r1 \<inter> region l = {}"
  shows "disjoint_rects (complement_rect r1 r2 l)"
  using assms
  by (auto simp: complement_rect_def Let_def intersect_def proper_def in_cells disjoint_iff
      split: if_splits)

lemma disjoint_complement_list:
  assumes "proper r2" "disjoint_rects l1" "disjoint_rects l" "region l1 \<inter> region l = {}"
  shows "disjoint_rects (complement_list l1 r2 l)"
  using assms
proof (induction l1 r2 l rule: complement_list.induct)
  case (2 r l1 r2 l)
  then have "disjoint_rects (complement_rect r r2 l)"
    by (intro disjoint_complement_rect) auto
  moreover have "region l1 \<inter> region (complement_rect r r2 l) = {}"
    using 2 by (auto simp: region_complement_rect)
  ultimately show ?case
    using 2 by simp
qed simp

lemma disjoint_minus:
  "disjoint_rects l1 \<Longrightarrow> \<forall>r \<in> set l2. proper r \<Longrightarrow> disjoint_rects (minus_rects l1 l2)"
proof (induction l1 l2 rule: minus_rects.induct)
  case (2 a r l2)
  then show ?case
    using disjoint_complement_list[of r a "[]"] by simp
qed simp

lemma proper_complement_rect:
  "proper r1 \<Longrightarrow> proper r2 \<Longrightarrow> \<forall>q \<in> set l. proper q \<Longrightarrow>
   \<forall>q \<in> set (complement_rect r1 r2 l). proper q"
  by (simp add: complement_rect_def Let_def intersect_def proper_def)

lemma proper_complement_list:
  "proper r2 \<Longrightarrow> \<forall>r \<in> set l1 \<union> set l. proper r \<Longrightarrow> \<forall>r \<in> set (complement_list l1 r2 l). proper r"
proof (induction l1 r2 l rule: complement_list.induct)
  case (2 r l1 r2 l)
  then have "\<forall>q \<in> set (complement_rect r r2 l). proper q"
    by (intro proper_complement_rect) simp_all
  then have "\<forall>q \<in> set l1 \<union> set (complement_rect r r2 l). proper q"
    using 2(3) by auto
  from 2(1)[OF 2(2) this] show ?case by simp
qed simp

lemma proper_minus:
  "\<forall>r \<in> set l1 \<union> set l2. proper r \<Longrightarrow> \<forall>r \<in> set (minus_rects l1 l2). proper r"
proof (induction l1 l2 rule: minus_rects.induct)
  case (2 a r l2)
  then have "\<forall>q \<in> set (complement_list a r []). proper q"
    by (intro proper_complement_list) simp_all
  then have "\<forall>q \<in> set (complement_list a r []) \<union> set l2. proper q"
    using 2(2) by auto
  from 2(1)[OF this] show ?case by simp
qed simp

section \<open>Union\<close>

lemma adjacent_lub:
  assumes "proper q" "proper r" "adjacent q r"
  shows "proper (lub_loop q [r])" "cells (lub_loop q [r]) = cells q \<union> cells r"
proof -
  show "proper (lub_loop q [r])"
    using assms by (simp add: proper_def) linarith
  show "cells (lub_loop q [r]) = cells q \<union> cells r"
  proof (rule cells_eqI)
    fix x y
    show "(x, y) \<in> cells (lub_loop q [r]) \<longleftrightarrow> (x, y) \<in> cells q \<union> cells r"
      using assms(3) unfolding adjacent_def
      by (elim disjE conjE) (use assms(1,2) in \<open>auto simp: in_cells proper_def\<close>)
  qed
qed

lemma disjoint_union_proper:
  "\<forall>q \<in> set l. proper q \<Longrightarrow> proper r \<Longrightarrow>
   (\<forall>q \<in> set (disjoint_union l r). proper q) \<and> region (disjoint_union l r) = region l \<union> cells r"
proof (induction l r rule: disjoint_union.induct)
  case (2 q l r)
  then have proper: "\<forall>q \<in> set l. proper q" "proper q" "proper r"
    by simp_all
  show ?case
  proof (cases "adjacent q r")
    case True
    note lub = adjacent_lub[OF proper(2,3) True]
    from 2(1)[OF True proper(1) lub(1)] show ?thesis
      using True unfolding disjoint_union.simps(2) if_P[OF True] lub(2) region_simps by blast
  next
    case False
    from 2(2)[OF False proper(1,3)] show ?thesis
      using False proper(2) by auto
  qed
qed simp

lemma disjoint_union_disjoint:
  "disjoint_rects l \<Longrightarrow> proper r \<Longrightarrow> cells r \<inter> region l = {} \<Longrightarrow>
   disjoint_rects (disjoint_union l r)"
proof (induction l r rule: disjoint_union.induct)
  case (2 q l r)
  note facts = 2
  show ?case
  proof (cases "adjacent q r")
    case True
    then have lub: "proper (lub_loop q [r])" "cells (lub_loop q [r]) = cells q \<union> cells r"
      using facts(3,4) adjacent_lub[of q r] by simp_all
    then have "disjoint_rects (disjoint_union l (lub_loop q [r]))"
      using facts(3,5) by (intro facts(1)[OF True]) auto
    then show ?thesis
      using True by simp
  next
    case False
    then have "region (disjoint_union l r) = region l \<union> cells r"
      using facts disjoint_rects_proper by (intro conjunct2[OF disjoint_union_proper]) auto
    then show ?thesis
      using facts False by auto
  qed
qed simp

lemma or_loop_proper:
  "\<forall>q \<in> set l \<union> set l2. proper q \<Longrightarrow>
   (\<forall>q \<in> set (or_loop l l2). proper q) \<and> region (or_loop l l2) = region l \<union> region l2"
proof (induction l l2 rule: or_loop.induct)
  case (2 l r l2)
  then have "(\<forall>q \<in> set (disjoint_union l r). proper q) \<and>
      region (disjoint_union l r) = region l \<union> cells r"
    by (intro disjoint_union_proper) simp_all
  moreover from this have "\<forall>q \<in> set (disjoint_union l r) \<union> set l2. proper q"
    using 2(2) by auto
  note 2(1)[OF this]
  ultimately show ?case
    by (simp add: Un_assoc)
qed simp

lemma or_loop_disjoint:
  "disjoint_rects l \<Longrightarrow> disjoint_rects l2 \<Longrightarrow> region l \<inter> region l2 = {} \<Longrightarrow>
   disjoint_rects (or_loop l l2)"
proof (induction l l2 rule: or_loop.induct)
  case (2 l r l2)
  then have "disjoint_rects (disjoint_union l r)"
    by (intro disjoint_union_disjoint) auto
  moreover have "region (disjoint_union l r) = region l \<union> cells r"
    using 2 disjoint_rects_proper by (intro conjunct2[OF disjoint_union_proper]) auto
  then have "region (disjoint_union l r) \<inter> region l2 = {}"
    using 2(3,4) by auto
  ultimately show ?case
    using 2(1) 2(3) by simp
qed simp

lemma or_rects_proper:
  assumes "\<forall>r \<in> set l1 \<union> set l2. proper r"
  shows "\<forall>r \<in> set (or_rects l1 l2). proper r" "region (or_rects l1 l2) = region l1 \<union> region l2"
proof -
  have "\<forall>r \<in> set (minus_rects l1 l2) \<union> set l2. proper r"
    using assms proper_minus[of l1 l2] by auto
  from or_loop_proper[OF this] show "\<forall>r \<in> set (or_rects l1 l2). proper r"
    "region (or_rects l1 l2) = region l1 \<union> region l2"
    by (auto simp: or_rects_def region_minus)
qed

lemma or_rects_disjoint:
  assumes "disjoint_rects l1" "disjoint_rects l2"
  shows "disjoint_rects (or_rects l1 l2)"
  unfolding or_rects_def using assms
  by (intro or_loop_disjoint disjoint_minus) (auto simp: region_minus dest: disjoint_rects_proper)

lemma simplify_bis_disjoint:
  "\<forall>r \<in> set l. proper r \<Longrightarrow> disjoint_rects (simplify_bis l) \<and> region (simplify_bis l) = region l"
proof (induction l rule: simplify_bis.induct)
  case (3 r v va)
  then have IH: "disjoint_rects (simplify_bis (v # va))"
    "region (simplify_bis (v # va)) = region (v # va)"
    by auto
  have "disjoint_rects (or_rects (simplify_bis (v # va)) [r])"
    using IH(1) 3(2) by (intro or_rects_disjoint) auto
  moreover have "region (or_rects (simplify_bis (v # va)) [r]) =
      region (simplify_bis (v # va)) \<union> region [r]"
    using IH(1) 3(2) by (intro or_rects_proper) (auto dest: disjoint_rects_proper)
  ultimately show ?case
    using IH(2) by auto
qed auto

lemma region_simplify: "\<forall>r \<in> set l. proper r \<Longrightarrow> region (simplify_rects l) = region l"
  by (simp add: simplify_rects_def simplify_bis_disjoint)

section \<open>Area\<close>

lemma card_cells: "real (card (cells r)) = area_rect r"
  by (simp add: cells_def area_rect_def Let_def card_cartesian_product max_def)

lemma finite_cells: "finite (cells r)"
  by (simp add: cells_def)

lemma finite_region: "finite (region l)"
  by (induction l) (auto simp: finite_cells)

lemma area_loop_disjoint: "disjoint_rects l \<Longrightarrow> area_loop l s = s + real (card (region l))"
proof (induction l s rule: area_loop.induct)
  case (2 r l s)
  then have "card (region (r # l)) = card (cells r) + card (region l)"
    using finite_region[of l] by (auto intro!: card_Un_disjoint simp: finite_cells)
  then show ?case
    using 2 by (simp flip: card_cells)
qed simp

lemma lub_loop_least:
  "(\<forall>r \<in> set (r0 # l). rect_leq r (lub_loop r0 l)) \<and>
   ((\<forall>r \<in> set (r0 # l). rect_leq r q) \<longrightarrow> rect_leq (lub_loop r0 l) q)"
proof (induction r0 l rule: lub_loop.induct)
  case (2 r1 r2 l)
  let ?m = "rect (min (x1 r1) (x1 r2)) (min (y1 r1) (y1 r2)) (max (x2 r1) (x2 r2)) (max (y2 r1) (y2 r2))"
  have lub: "rect_leq r1 ?m" "rect_leq r2 ?m" "rect_leq r1 q \<and> rect_leq r2 q \<longrightarrow> rect_leq ?m q"
    by (auto simp: rect_leq_def)
  have trans: "rect_leq a b \<Longrightarrow> rect_leq b c \<Longrightarrow> rect_leq a c" for a b c
    by (auto simp: rect_leq_def)
  have step: "lub_loop r1 (r2 # l) = lub_loop ?m l"
    by (rule lub_loop.simps)
  have "rect_leq ?m (lub_loop ?m l)"
    using 2 by simp
  then have "rect_leq r1 (lub_loop ?m l)" "rect_leq r2 (lub_loop ?m l)"
    using trans lub(1,2) by blast+
  then show ?case
    using 2 lub(3) unfolding step list.set ball_simps by blast
qed (simp add: rect_leq_def)

section \<open>Properties\<close>

text \<open>
  The operators compute set operations on cells, for all lists, also with overlapping
  or degenerate rectangles: the difference of two lists covers exactly the cells of the first
  outside the second, the intersection exactly the common cells, and the outline of a list
  exactly the cells of the rectangles thickened by one pixel more than the inner ones.
\<close>

theorem rectangles_algebra:
  "region (minus_rects l1 l2) = region l1 - region l2 \<and>
   region (and_rects l1 l2) = region l1 \<inter> region l2 \<and>
   region (outlines l pixel) =
     region (thicken_rects l pixel (3 * pixel)) - region (thicken_rects l 0 (2 * pixel))"
proof (intro conjI)
  let ?d = "minus_rects (thicken_rects l pixel (3 * pixel)) (thicken_rects l 0 (2 * pixel))"
  have "\<forall>r \<in> set (correct ?d). proper r"
    by (rule proper_correct)
  then show "region (outlines l pixel) =
      region (thicken_rects l pixel (3 * pixel)) - region (thicken_rects l 0 (2 * pixel))"
    by (simp add: outlines_def region_simplify region_correct region_minus)
qed (simp_all add: region_minus and_rects_def region_and_loop)

text \<open>
  Claim C37. Union and simplification normalise: for rectangles whose corners are in order,
  the union of two lists covers the union of their cells, and \<open>simplify_bis\<close> turns any list
  into pairwise disjoint rectangles that cover the same cells, so that their \<open>area\<close> is the
  number of cells covered; adjacent rectangles are fused on the way without changing this.
\<close>

theorem simplify_rectangles:
  assumes "\<forall>r \<in> set l \<union> set k. proper r"
  shows "region (or_rects l k) = region l \<union> region k \<and>
    disjoint_rects (simplify_bis l) \<and> region (simplify_bis l) = region l \<and>
    area_rects (simplify_bis l) = real (card (region l))"
proof (intro conjI)
  have "\<forall>r \<in> set l. proper r"
    using assms by auto
  note simplified = simplify_bis_disjoint[OF this]
  show "region (or_rects l k) = region l \<union> region k"
    using assms by (rule or_rects_proper)
  show "disjoint_rects (simplify_bis l)" "region (simplify_bis l) = region l"
    using simplified by simp_all
  show "area_rects (simplify_bis l) = real (card (region l))"
    using simplified by (simp add: area_rects_def area_loop_disjoint)
qed

theorem simplify_rectangles_witness:
  "region (or_rects [rect 0 0 4 4] [rect 2 2 6 6]) = region [rect 0 0 4 4] \<union> region [rect 2 2 6 6] \<and>
   area_rects (simplify_bis [rect 0 0 4 4]) = real (card (region [rect 0 0 4 4]))"
  using simplify_rectangles[of "[rect 0 0 4 4]" "[rect 2 2 6 6]"] by (simp add: proper_def)

text \<open>
  \<open>least_upper_bound\<close> of a list fails only on the empty list; otherwise it returns
  the least rectangle, in the order \<open><=\<close> of rectangles, that contains every rectangle of the
  list.
\<close>

lemma least_upper_bound_least:
  "least_upper_bound l = None \<longleftrightarrow> l = []"
  "least_upper_bound l = Some b \<Longrightarrow>
     (\<forall>r \<in> set l. rect_leq r b) \<and> (\<forall>q. (\<forall>r \<in> set l. rect_leq r q) \<longrightarrow> rect_leq b q)"
proof -
  show "least_upper_bound l = None \<longleftrightarrow> l = []"
    by (cases l) simp_all
  show "least_upper_bound l = Some b \<Longrightarrow>
     (\<forall>r \<in> set l. rect_leq r b) \<and> (\<forall>q. (\<forall>r \<in> set l. rect_leq r q) \<longrightarrow> rect_leq b q)"
    using lub_loop_least by (cases l) (auto simp del: lub_loop.simps)
qed

end
