(* ===== verification/Athena_Merge_Sort.thy ===== *)
theory Athena_Merge_Sort
  imports "HOL-Library.Multiset"
begin

text \<open>
  The merge sort of \<open>src/src/Core/Text/merge_sort.hpp\<close>, which sorts in place with a buffer
  of the size of the array, and its variant that permutes a second array along. Arrays are
  lists with an update by index; all indices stay in range, as the lemmas show. The left half
  is never longer than the right half, which is what makes the last copy of the merge safe: it
  moves the rest of the left half to the right without overwriting what is still to be read.

  Shown, for every total and transitive comparison: the result is sorted, is a permutation of
  the input and keeps the order of equivalent elements; the variant sorts the pairs.
\<close>

section \<open>Sorting one array\<close>

text \<open>The merge loop: it reads \<open>a\<close>, writes the buffer and returns \<open>i\<close>, \<open>k\<close> and the buffer.\<close>

function merge_loop ::
  "('a \<Rightarrow> 'a \<Rightarrow> bool) \<Rightarrow> 'a list \<Rightarrow> nat \<Rightarrow> nat \<Rightarrow> nat \<Rightarrow> nat \<Rightarrow> nat \<Rightarrow> 'a list \<Rightarrow> nat \<times> nat \<times> 'a list" where
  "merge_loop leq a i j k middle fin merge_buf =
     (if i < middle \<and> j < fin then
        if leq (a ! i) (a ! j)
        then merge_loop leq a (Suc i) j (Suc k) middle fin (merge_buf[k := a ! i])
        else merge_loop leq a i (Suc j) (Suc k) middle fin (merge_buf[k := a ! j])
      else (i, k, merge_buf))"
  by pat_completeness auto

termination
  by (relation "measure (\<lambda>(leq, a, i, j, k, middle, fin, buf). (middle - i) + (fin - j))") auto

text \<open>
  \<open>while (i != middle) a[k++]= a[i++]\<close>. The merge loop leaves \<open>i \<le> middle\<close>, so the test is
  the same as \<open>i < middle\<close>.
\<close>

function rest_loop :: "'a list \<Rightarrow> nat \<Rightarrow> nat \<Rightarrow> nat \<Rightarrow> 'a list" where
  "rest_loop a i k middle =
     (if i < middle then rest_loop (a[k := a ! i]) (Suc i) (Suc k) middle else a)"
  by pat_completeness auto

termination
  by (relation "measure (\<lambda>(a, i, k, middle). middle - i)") auto

text \<open>\<open>for (i= start; i < j; i++) a[i]= merge_buf[i]\<close>.\<close>

function back_loop :: "'a list \<Rightarrow> 'a list \<Rightarrow> nat \<Rightarrow> nat \<Rightarrow> 'a list" where
  "back_loop a merge_buf i j =
     (if i < j then back_loop (a[i := merge_buf ! i]) merge_buf (Suc i) j else a)"
  by pat_completeness auto

termination
  by (relation "measure (\<lambda>(a, buf, i, j). j - i)") auto

declare merge_loop.simps [simp del] rest_loop.simps [simp del] back_loop.simps [simp del]

function merge_sort_sub ::
  "('a \<Rightarrow> 'a \<Rightarrow> bool) \<Rightarrow> 'a list \<Rightarrow> nat \<Rightarrow> nat \<Rightarrow> 'a list \<Rightarrow> 'a list \<times> 'a list" where
  "merge_sort_sub leq a start fin merge_buf =
     (if fin - start \<le> 1 then (a, merge_buf)
      else if fin - start = 2 then
        (if \<not> leq (a ! start) (a ! Suc start) then
           let merge_buf = merge_buf[start := a ! start];
               a = a[start := a ! Suc start];
               a = a[Suc start := merge_buf ! start]
           in (a, merge_buf)
         else (a, merge_buf))
      else
        let middle = (start + fin) div 2;
            (a, merge_buf) = merge_sort_sub leq a start middle merge_buf;
            (a, merge_buf) = merge_sort_sub leq a middle fin merge_buf;
            (i, k, merge_buf) = merge_loop leq a start middle start middle fin merge_buf;
            j = k;
            a = rest_loop a i k middle;
            a = back_loop a merge_buf start j
        in (a, merge_buf))"
  by pat_completeness auto

termination
  by (relation "measure (\<lambda>(leq, a, start, fin, buf). fin - start)") auto

declare merge_sort_sub.simps [simp del]

text \<open>The buffer \<open>array<T> merge_buf (N(a))\<close> starts with default values.\<close>

definition merge_sort_leq :: "('a \<Rightarrow> 'a \<Rightarrow> bool) \<Rightarrow> 'a \<Rightarrow> 'a list \<Rightarrow> 'a list" where
  "merge_sort_leq leq dflt a =
     fst (merge_sort_sub leq a 0 (length a) (replicate (length a) dflt))"

definition less_eq_operator :: "'a :: linorder \<Rightarrow> 'a \<Rightarrow> bool" where
  "less_eq_operator a b \<longleftrightarrow> a \<le> b"

definition merge_sort :: "'a :: linorder \<Rightarrow> 'a list \<Rightarrow> 'a list" where
  "merge_sort dflt a = merge_sort_leq less_eq_operator dflt a"

section \<open>Sorting two arrays on the first\<close>

function merge_loop2 ::
  "('a \<Rightarrow> 'a \<Rightarrow> bool) \<Rightarrow> 'a list \<Rightarrow> 'b list \<Rightarrow> nat \<Rightarrow> nat \<Rightarrow> nat \<Rightarrow> nat \<Rightarrow> nat \<Rightarrow> 'a list \<Rightarrow> 'b list
     \<Rightarrow> nat \<times> nat \<times> 'a list \<times> 'b list" where
  "merge_loop2 leq a b i j k middle fin ma mb =
     (if i < middle \<and> j < fin then
        if leq (a ! i) (a ! j)
        then merge_loop2 leq a b (Suc i) j (Suc k) middle fin (ma[k := a ! i]) (mb[k := b ! i])
        else merge_loop2 leq a b i (Suc j) (Suc k) middle fin (ma[k := a ! j]) (mb[k := b ! j])
      else (i, k, ma, mb))"
  by pat_completeness auto

termination
  by (relation "measure (\<lambda>(leq, a, b, i, j, k, middle, fin, ma, mb). (middle - i) + (fin - j))")
    auto

function rest_loop2 :: "'a list \<Rightarrow> 'b list \<Rightarrow> nat \<Rightarrow> nat \<Rightarrow> nat \<Rightarrow> 'a list \<times> 'b list" where
  "rest_loop2 a b i k middle =
     (if i < middle then rest_loop2 (a[k := a ! i]) (b[k := b ! i]) (Suc i) (Suc k) middle
      else (a, b))"
  by pat_completeness auto

termination
  by (relation "measure (\<lambda>(a, b, i, k, middle). middle - i)") auto

function back_loop2 ::
  "'a list \<Rightarrow> 'b list \<Rightarrow> 'a list \<Rightarrow> 'b list \<Rightarrow> nat \<Rightarrow> nat \<Rightarrow> 'a list \<times> 'b list" where
  "back_loop2 a b ma mb i j =
     (if i < j then back_loop2 (a[i := ma ! i]) (b[i := mb ! i]) ma mb (Suc i) j else (a, b))"
  by pat_completeness auto

termination
  by (relation "measure (\<lambda>(a, b, ma, mb, i, j). j - i)") auto

declare merge_loop2.simps [simp del] rest_loop2.simps [simp del] back_loop2.simps [simp del]

function merge_sort_sub2 ::
  "('a \<Rightarrow> 'a \<Rightarrow> bool) \<Rightarrow> 'a list \<Rightarrow> 'b list \<Rightarrow> nat \<Rightarrow> nat \<Rightarrow> 'a list \<Rightarrow> 'b list
     \<Rightarrow> 'a list \<times> 'b list \<times> 'a list \<times> 'b list" where
  "merge_sort_sub2 leq a b start fin ma mb =
     (if fin - start \<le> 1 then (a, b, ma, mb)
      else if fin - start = 2 then
        (if \<not> leq (a ! start) (a ! Suc start) then
           let ma = ma[start := a ! start];
               a = a[start := a ! Suc start];
               a = a[Suc start := ma ! start];
               mb = mb[start := b ! start];
               b = b[start := b ! Suc start];
               b = b[Suc start := mb ! start]
           in (a, b, ma, mb)
         else (a, b, ma, mb))
      else
        let middle = (start + fin) div 2;
            (a, b, ma, mb) = merge_sort_sub2 leq a b start middle ma mb;
            (a, b, ma, mb) = merge_sort_sub2 leq a b middle fin ma mb;
            (i, k, ma, mb) = merge_loop2 leq a b start middle start middle fin ma mb;
            j = k;
            (a, b) = rest_loop2 a b i k middle;
            (a, b) = back_loop2 a b ma mb start j
        in (a, b, ma, mb))"
  by pat_completeness auto

termination
  by (relation "measure (\<lambda>(leq, a, b, start, fin, ma, mb). fin - start)") auto

declare merge_sort_sub2.simps [simp del]

text \<open>The assertion that the arrays have the same length is \<open>None\<close>.\<close>

definition merge_sort_leq2 ::
  "('a \<Rightarrow> 'a \<Rightarrow> bool) \<Rightarrow> 'a \<Rightarrow> 'b \<Rightarrow> 'a list \<Rightarrow> 'b list \<Rightarrow> ('a list \<times> 'b list) option" where
  "merge_sort_leq2 leq da db a b =
     (if length a \<noteq> length b then None
      else let (a, b, ma, mb) = merge_sort_sub2 leq a b 0 (length a)
                 (replicate (length a) da) (replicate (length b) db)
           in Some (a, b))"

text \<open>It sorts \<open>a\<close> in place and returns the permutation.\<close>

definition merge_sort_leq_permutation ::
  "('a \<Rightarrow> 'a \<Rightarrow> bool) \<Rightarrow> 'a \<Rightarrow> 'a list \<Rightarrow> ('a list \<times> nat list) option" where
  "merge_sort_leq_permutation leq da a = merge_sort_leq2 leq da 0 a [0..<length a]"

definition permute :: "'a list \<Rightarrow> nat list \<Rightarrow> 'a list option" where
  "permute a b =
     (if length a \<noteq> length b \<or> (\<exists>i \<in> set b. i \<ge> length a) then None
      else Some (map (\<lambda>i. a ! (b ! i)) [0..<length a]))"

section \<open>Slices\<close>

definition slice :: "'a list \<Rightarrow> nat \<Rightarrow> nat \<Rightarrow> 'a list" where
  "slice l i j = take (j - i) (drop i l)"

lemma slice_Cons: "i < j \<Longrightarrow> i < length l \<Longrightarrow> slice l i j = l ! i # slice l (Suc i) j"
  by (simp add: slice_def Cons_nth_drop_Suc[symmetric] take_Cons' Suc_diff_Suc)

lemma slice_empty [simp]: "j \<le> i \<Longrightarrow> slice l i j = []"
  by (simp add: slice_def)

lemma length_slice [simp]: "j \<le> length l \<Longrightarrow> length (slice l i j) = j - i"
  by (simp add: slice_def)

lemma slice_cong:
  assumes "length l = length l'" "\<And>n. i \<le> n \<Longrightarrow> n < j \<Longrightarrow> l ! n = l' ! n"
  shows "slice l i j = slice l' i j"
  using assms by (auto simp: slice_def intro!: nth_equalityI)

lemma slice_split: "i \<le> j \<Longrightarrow> j \<le> k \<Longrightarrow> slice l i k = slice l i j @ slice l j k"
  using take_add[of "j - i" "k - j" "drop i l"] by (simp add: slice_def add.commute)

lemma slice_parts: "i \<le> j \<Longrightarrow> take i l @ slice l i j @ drop j l = l"
  by (metis append_take_drop_id drop_drop le_add_diff_inverse2 slice_def)

lemma slice_drop: "i \<le> j \<Longrightarrow> slice l i j @ drop j l = drop i l"
  by (metis append_take_drop_id drop_drop le_add_diff_inverse2 slice_def)

section \<open>The merge\<close>

fun merge :: "('a \<Rightarrow> 'a \<Rightarrow> bool) \<Rightarrow> 'a list \<Rightarrow> 'a list \<Rightarrow> 'a list" where
  "merge leq (x # xs) (y # ys) =
     (if leq x y then x # merge leq xs (y # ys) else y # merge leq (x # xs) ys)"
| "merge leq [] ys = ys"
| "merge leq xs [] = xs"

lemma merge_Nil2 [simp]: "merge leq xs [] = xs"
  by (cases xs) simp_all

lemma merge_loop_merge:
  assumes "i \<le> middle" "middle \<le> j" "j \<le> fin" "fin \<le> length a"
    "k + (middle - i) + (fin - j) \<le> length buf"
    "merge_loop leq a i j k middle fin buf = (i', k', buf')"
  shows "i \<le> i' \<and> i' \<le> middle \<and> k \<le> k' \<and> length buf' = length buf \<and> (\<forall>n < k. buf' ! n = buf ! n) \<and>
    (\<exists>j'. j \<le> j' \<and> j' \<le> fin \<and> (i' = middle \<or> j' = fin) \<and> k' + i + j = k + i' + j' \<and>
       merge leq (slice a i middle) (slice a j fin) =
       slice buf' k k' @ slice a i' middle @ slice a j' fin)"
  using assms
proof (induction leq a i j k middle fin buf rule: merge_loop.induct)
  case (1 leq a i j k middle fin buf)
  show ?case
  proof (cases "i < middle \<and> j < fin")
    case False
    then have "i' = i" "k' = k" "buf' = buf"
      using 1(8) by (auto simp: merge_loop.simps[of leq a i j])
    then show ?thesis
      using False 1(3-7) by (auto intro!: exI[of _ j])
  next
    case True
    then have sl: "slice a i middle = a ! i # slice a (Suc i) middle"
      "slice a j fin = a ! j # slice a (Suc j) fin"
      using 1(3-6) by (simp_all add: slice_Cons)
    have k: "k < length buf"
      using 1(7) True by linarith
    show ?thesis
    proof (cases "leq (a ! i) (a ! j)")
      case le: True
      have "merge_loop leq a (Suc i) j (Suc k) middle fin (buf[k := a ! i]) = (i', k', buf')"
        using 1(8) True le by (simp add: merge_loop.simps[of leq a i j])
      moreover have "Suc i \<le> middle" "Suc k + (middle - Suc i) + (fin - j) \<le> length (buf[k := a ! i])"
        using True 1(7) by auto
      ultimately obtain j' where
        IH: "Suc i \<le> i'" "i' \<le> middle" "Suc k \<le> k'" "length buf' = length buf"
        "\<forall>n < Suc k. buf' ! n = buf[k := a ! i] ! n" "j \<le> j'" "j' \<le> fin" "i' = middle \<or> j' = fin"
        "k' + Suc i + j = Suc k + i' + j'"
        "merge leq (slice a (Suc i) middle) (slice a j fin) =
         slice buf' (Suc k) k' @ slice a i' middle @ slice a j' fin"
        using 1(1)[OF True le] 1(4-6) by auto
      moreover have "slice buf' k k' = a ! i # slice buf' (Suc k) k'"
        using IH(3,4,5) k by (simp add: slice_Cons)
      ultimately show ?thesis
        using sl le by (auto intro!: exI[of _ j'])
    next
      case le: False
      have "merge_loop leq a i (Suc j) (Suc k) middle fin (buf[k := a ! j]) = (i', k', buf')"
        using 1(8) True le by (simp add: merge_loop.simps[of leq a i j])
      moreover have "middle \<le> Suc j" "Suc j \<le> fin"
        "Suc k + (middle - i) + (fin - Suc j) \<le> length (buf[k := a ! j])"
        using True 1(4,7) by auto
      ultimately obtain j' where
        IH: "i \<le> i'" "i' \<le> middle" "Suc k \<le> k'" "length buf' = length buf"
        "\<forall>n < Suc k. buf' ! n = buf[k := a ! j] ! n" "Suc j \<le> j'" "j' \<le> fin" "i' = middle \<or> j' = fin"
        "k' + i + Suc j = Suc k + i' + j'"
        "merge leq (slice a i middle) (slice a (Suc j) fin) =
         slice buf' (Suc k) k' @ slice a i' middle @ slice a j' fin"
        using 1(2)[OF True le] 1(3,6) by auto
      moreover have "slice buf' k k' = a ! j # slice buf' (Suc k) k'"
        using IH(3,4,5) k by (simp add: slice_Cons)
      ultimately show ?thesis
        using sl le by (auto intro!: exI[of _ j'])
    qed
  qed
qed

text \<open>The rest of the left half is moved behind \<open>middle\<close>, so nothing is overwritten too early.\<close>

lemma rest_loop_eq:
  "i \<le> middle \<Longrightarrow> middle \<le> k \<Longrightarrow> k + (middle - i) \<le> length a \<Longrightarrow>
   rest_loop a i k middle = take k a @ slice a i middle @ drop (k + (middle - i)) a"
proof (induction a i k middle rule: rest_loop.induct)
  case (1 a i k middle)
  show ?case
  proof (cases "i < middle")
    case True
    let ?a = "a[k := a ! i]"
    have "rest_loop a i k middle = rest_loop ?a (Suc i) (Suc k) middle"
      using True by (simp add: rest_loop.simps[of a i])
    also have "\<dots> = take (Suc k) ?a @ slice ?a (Suc i) middle @ drop (Suc k + (middle - Suc i)) ?a"
      using True 1(2-4) by (intro 1(1)) auto
    also have "slice ?a (Suc i) middle = slice a (Suc i) middle"
      using 1(3) by (intro slice_cong) auto
    also have "take (Suc k) ?a = take k a @ [a ! i]"
      using True 1(2-4) by (simp add: take_Suc_conv_app_nth)
    also have "drop (Suc k + (middle - Suc i)) ?a = drop (k + (middle - i)) a"
      using True by (simp add: Suc_diff_Suc)
    also have "(take k a @ [a ! i]) @ slice a (Suc i) middle @ drop (k + (middle - i)) a =
        take k a @ slice a i middle @ drop (k + (middle - i)) a"
      using True 1(2-4) by (simp add: slice_Cons)
    finally show ?thesis .
  next
    case False
    then show ?thesis
      using 1(2) by (subst rest_loop.simps) simp
  qed
qed

lemma back_loop_eq:
  "i \<le> j \<Longrightarrow> j \<le> length a \<Longrightarrow> j \<le> length buf \<Longrightarrow>
   back_loop a buf i j = take i a @ slice buf i j @ drop j a"
proof (induction a buf i j rule: back_loop.induct)
  case (1 a buf i j)
  show ?case
  proof (cases "i < j")
    case True
    let ?a = "a[i := buf ! i]"
    have "back_loop a buf i j = back_loop ?a buf (Suc i) j"
      using True by (simp add: back_loop.simps[of a buf i])
    also have "\<dots> = take (Suc i) ?a @ slice buf (Suc i) j @ drop j ?a"
      using True 1(2-4) by (intro 1(1)) auto
    also have "\<dots> = take i a @ slice buf i j @ drop j a"
      using True 1(2-4) by (simp add: take_Suc_conv_app_nth slice_Cons)
    finally show ?thesis .
  next
    case False
    then show ?thesis
      using 1(2) by (subst back_loop.simps) simp
  qed
qed

lemma in_place_merge:
  assumes bounds: "start \<le> middle" "middle \<le> fin" "fin \<le> length a" "length buf = length a"
    and half: "middle - start \<le> fin - middle"
    and loop: "merge_loop leq a start middle start middle fin buf = (i, k, buf')"
  shows "back_loop (rest_loop a i k middle) buf' start k =
         take start a @ merge leq (slice a start middle) (slice a middle fin) @ drop fin a"
    and "length buf' = length a"
proof -
  obtain j where m: "start \<le> i" "i \<le> middle" "start \<le> k" "length buf' = length a"
    "middle \<le> j" "j \<le> fin" "i = middle \<or> j = fin" "k + middle = i + j"
    "merge leq (slice a start middle) (slice a middle fin) =
       slice buf' start k @ slice a i middle @ slice a j fin"
    using merge_loop_merge[OF bounds(1) order_refl bounds(2,3) _ loop] bounds by auto
  show "length buf' = length a" by (rule m(4))
  have k: "k \<le> length a"
    using m bounds by linarith
  have len: "length (rest_loop a i k middle) = length a" for a :: "'a list" and i k
    by (induction a i k middle rule: rest_loop.induct) (subst rest_loop.simps, simp)
  have rest: "drop k (rest_loop a i k middle) = slice a i middle @ slice a j fin @ drop fin a"
    "take start (rest_loop a i k middle) = take start a"
  proof -
    consider "i = middle" "k = j" | "j = fin" "i \<le> middle" "middle \<le> k" "k + (middle - i) = fin"
      using m half bounds by linarith
    then have "drop k (rest_loop a i k middle) = slice a i middle @ slice a j fin @ drop fin a \<and>
        take start (rest_loop a i k middle) = take start a"
    proof cases
      case 1
      then show ?thesis
        using slice_drop[OF m(6), of a] by (subst (1 2) rest_loop.simps) simp
    next
      case 2
      then have "rest_loop a i k middle = take k a @ slice a i middle @ drop fin a"
        using rest_loop_eq[of i middle k a] bounds by simp
      then show ?thesis
        using 2 m k by simp
    qed
    then show "drop k (rest_loop a i k middle) = slice a i middle @ slice a j fin @ drop fin a"
      "take start (rest_loop a i k middle) = take start a" by simp_all
  qed
  show "back_loop (rest_loop a i k middle) buf' start k =
         take start a @ merge leq (slice a start middle) (slice a middle fin) @ drop fin a"
    using back_loop_eq[of start k "rest_loop a i k middle" buf'] m k rest by (simp add: len)
qed

section \<open>The reference sort\<close>

fun msort :: "('a \<Rightarrow> 'a \<Rightarrow> bool) \<Rightarrow> 'a list \<Rightarrow> 'a list" where
  "msort leq [] = []"
| "msort leq [x] = [x]"
| "msort leq (x # y # zs) =
     merge leq (msort leq (take (length (x # y # zs) div 2) (x # y # zs)))
               (msort leq (drop (length (x # y # zs) div 2) (x # y # zs)))"

lemma msort_pair: "msort leq [x, y] = (if leq x y then [x, y] else [y, x])"
  by simp

lemma msort_split:
  "2 \<le> length xs \<Longrightarrow> msort leq xs =
     merge leq (msort leq (take (length xs div 2) xs)) (msort leq (drop (length xs div 2) xs))"
  by (cases "(leq, xs)" rule: msort.cases) simp_all

lemma length_merge [simp]: "length (merge leq xs ys) = length xs + length ys"
  by (induction leq xs ys rule: merge.induct) simp_all

lemma mset_merge [simp]: "mset (merge leq xs ys) = mset xs + mset ys"
  by (induction leq xs ys rule: merge.induct) simp_all

lemma set_merge: "set (merge leq xs ys) = set xs \<union> set ys"
  by (induction leq xs ys rule: merge.induct) auto

lemma mset_msort [simp]: "mset (msort leq xs) = mset xs"
proof (induction leq xs rule: msort.induct)
  case (3 leq x y zs)
  then show ?case
    by (simp only: msort.simps mset_merge) (metis append_take_drop_id mset_append)
qed simp_all

lemma length_msort [simp]: "length (msort leq xs) = length xs"
  using mset_msort by (rule mset_eq_length)

lemma set_msort [simp]: "set (msort leq xs) = set xs"
  using mset_msort by (rule mset_eq_setD)

lemma update_two:
  "Suc n < length a \<Longrightarrow> a[n := y, Suc n := x] = take n a @ [y, x] @ drop (Suc (Suc n)) a"
  by (simp add: upd_conv_take_nth_drop list_update_append Cons_nth_drop_Suc[symmetric] take_Suc_conv_app_nth)

lemma halves:
  assumes "2 \<le> fin - start" "fin \<le> length a"
  defines "middle \<equiv> (start + fin) div 2"
  shows "start < middle" "middle < fin" "middle - start \<le> fin - middle"
    and "msort leq (slice a start fin) =
         merge leq (msort leq (slice a start middle)) (msort leq (slice a middle fin))"
proof -
  show m: "start < middle" "middle < fin" "middle - start \<le> fin - middle"
    using assms by (auto simp: middle_def)
  have "length (slice a start fin) div 2 = middle - start"
    using assms by simp
  moreover have "slice a start fin = slice a start middle @ slice a middle fin"
    using m by (intro slice_split) simp_all
  moreover have "length (slice a start middle) = middle - start"
    using m assms(2) by simp
  ultimately show "msort leq (slice a start fin) =
         merge leq (msort leq (slice a start middle)) (msort leq (slice a middle fin))"
    using assms(1,2) by (subst msort_split) simp_all
qed

lemma merge_sort_sub_msort:
  "start \<le> fin \<Longrightarrow> fin \<le> length a \<Longrightarrow> length buf = length a \<Longrightarrow>
   (\<exists>buf'. merge_sort_sub leq a start fin buf =
        (take start a @ msort leq (slice a start fin) @ drop fin a, buf') \<and> length buf' = length a)"
proof (induction leq a start fin buf rule: merge_sort_sub.induct)
  case (1 leq a start fin buf)
  consider "fin = start" | "fin = Suc start" | "fin = Suc (Suc start)" | (split) "2 < fin - start"
    using 1(3) by linarith
  then show ?case
  proof cases
    case 1
    then show ?thesis
      by (subst merge_sort_sub.simps) (simp add: \<open>length buf = length a\<close>)
  next
    case 2
    then show ?thesis
      using 1(4,5) by (subst merge_sort_sub.simps) (simp add: slice_Cons id_take_nth_drop[symmetric])
  next
    case 3
    then have "Suc start < length a"
      using 1(4) by simp
    then show ?thesis
      using 3 1(5) slice_parts[of start "Suc (Suc start)" a]
      by (subst merge_sort_sub.simps) (simp add: Let_def slice_Cons msort_pair update_two)
  next
    case split
    define middle where "middle = (start + fin) div 2"
    have ge: "2 \<le> fin - start" "\<not> fin - start \<le> 1" "fin - start \<noteq> 2"
      using split by auto
    note m = halves[OF ge(1) 1(4), folded middle_def]
    let ?L = "slice a start middle" and ?R = "slice a middle fin"
    let ?a1 = "take start a @ msort leq ?L @ drop middle a"
    obtain b1 where sub1: "merge_sort_sub leq a start middle buf = (?a1, b1)" "length b1 = length a"
      using 1(1)[OF ge(2,3) middle_def] m(1,2) 1(4,5) by auto
    have parts1: "length ?a1 = length a" "take middle ?a1 = take start a @ msort leq ?L"
      "slice ?a1 middle fin = ?R" "drop fin ?a1 = drop fin a"
      using m(1,2) 1(4) by (auto simp: slice_def)
    let ?a2 = "take start a @ msort leq ?L @ msort leq ?R @ drop fin a"
    obtain b2 where sub2: "merge_sort_sub leq ?a1 middle fin b1 = (?a2, b2)" "length b2 = length a"
      using 1(2)[OF ge(2,3) middle_def sub1(1)[symmetric] refl] m(1,2) 1(4) sub1(2) parts1 by auto
    have parts2: "length ?a2 = length a" "take start ?a2 = take start a"
      "slice ?a2 start middle = msort leq ?L" "slice ?a2 middle fin = msort leq ?R"
      "drop fin ?a2 = drop fin a"
      using m(1,2) 1(4) by (auto simp: slice_def)
    obtain i k b3 where loop: "merge_loop leq ?a2 start middle start middle fin b2 = (i, k, b3)"
      by (metis prod_cases3)
    have "back_loop (rest_loop ?a2 i k middle) b3 start k =
        take start a @ msort leq (slice a start fin) @ drop fin a" "length b3 = length a"
      using in_place_merge[OF _ _ _ _ m(3) loop] m sub2(2) 1(4) by (simp_all add: parts2)
    then show ?thesis
      using ge sub1 sub2 loop
      by (subst merge_sort_sub.simps) (simp add: Let_def middle_def[symmetric])
  qed
qed

lemma merge_sort_leq_msort: "merge_sort_leq leq d a = msort leq a"
  using merge_sort_sub_msort[of 0 "length a" a "replicate (length a) d" leq]
  by (auto simp: merge_sort_leq_def slice_def)

section \<open>The contract of a comparison\<close>

text \<open>What the template parameter \<open>LEQ\<close> has to provide.\<close>

locale comparison =
  fixes leq :: "'a \<Rightarrow> 'a \<Rightarrow> bool"
  assumes total: "leq x y \<or> leq y x"
    and trans: "leq x y \<Longrightarrow> leq y z \<Longrightarrow> leq x z"
begin

lemma sorted_merge:
  "sorted_wrt leq xs \<Longrightarrow> sorted_wrt leq ys \<Longrightarrow> sorted_wrt leq (merge leq xs ys)"
proof (induction xs arbitrary: ys)
  case (Cons x xs)
  note outer = this
  from outer(3) show ?case
  proof (induction ys)
    case (Cons y ys)
    show ?case
    proof (cases "leq x y")
      case True
      then have "\<forall>z \<in> set (merge leq xs (y # ys)). leq x z"
        using outer(2) Cons.prems trans[of x y] by (auto simp: set_merge)
      then show ?thesis
        using True outer(1)[of "y # ys"] outer(2) Cons.prems by simp
    next
      case False
      then have "\<forall>z \<in> set (merge leq (x # xs) ys). leq y z"
        using outer(2) Cons.prems trans[of y x] total[of x y] by (auto simp: set_merge)
      then show ?thesis
        using False Cons outer(2) by simp
    qed
  qed (use outer(2) in simp)
qed simp

lemma sorted_msort: "sorted_wrt leq (msort leq xs)"
proof (induction xs rule: measure_induct_rule[of length])
  case (less xs)
  show ?case
  proof (cases "2 \<le> length xs")
    case True
    then show ?thesis
      by (subst msort_split) (auto intro!: sorted_merge less)
  next
    case False
    then show ?thesis
      by (cases "(leq, xs)" rule: msort.cases) auto
  qed
qed

lemma stable_merge:
  "sorted_wrt leq xs \<Longrightarrow>
   filter (\<lambda>u. leq z u \<and> leq u z) (merge leq xs ys) =
   filter (\<lambda>u. leq z u \<and> leq u z) xs @ filter (\<lambda>u. leq z u \<and> leq u z) ys"
proof (induction xs arbitrary: ys)
  case (Cons x xs)
  note outer = this
  show ?case
  proof (induction ys)
    case (Cons y ys)
    show ?case
    proof (cases "leq x y")
      case False
      have "filter (\<lambda>u. leq z u \<and> leq u z) (x # xs) = []" if y: "leq z y" "leq y z"
      proof -
        have "\<not> leq u z" if "u \<in> set (x # xs)" for u
          using that outer(2) y(1) False trans[of x u z] trans[of x z y] by auto
        then show ?thesis
          by (simp add: filter_empty_conv)
      qed
      then show ?thesis
        using False Cons by auto
    qed (use outer in simp)
  qed simp
qed simp

lemma stable_msort:
  "filter (\<lambda>u. leq z u \<and> leq u z) (msort leq xs) = filter (\<lambda>u. leq z u \<and> leq u z) xs"
proof (induction xs rule: measure_induct_rule[of length])
  case (less xs)
  show ?case
  proof (cases "2 \<le> length xs")
    case True
    then have "filter (\<lambda>u. leq z u \<and> leq u z) (msort leq xs) =
        filter (\<lambda>u. leq z u \<and> leq u z) (take (length xs div 2) xs @ drop (length xs div 2) xs)"
      unfolding filter_append
      by (subst msort_split) (simp_all only: stable_merge[OF sorted_msort], simp_all add: less)
    then show ?thesis by simp
  next
    case False
    then show ?thesis
      by (cases "(leq, xs)" rule: msort.cases) auto
  qed
qed

end

interpretation operator: comparison less_eq_operator
  by unfold_locales (auto simp: less_eq_operator_def)

section \<open>The two arrays are sorted together\<close>

definition on_first :: "('a \<Rightarrow> 'a \<Rightarrow> bool) \<Rightarrow> 'a \<times> 'b \<Rightarrow> 'a \<times> 'b \<Rightarrow> bool" where
  "on_first leq p q \<longleftrightarrow> leq (fst p) (fst q)"

lemma merge_loop2_pairs:
  fixes z :: "('a \<times> 'b) list"
  shows "i \<le> middle \<Longrightarrow> middle \<le> j \<Longrightarrow> middle \<le> length z \<Longrightarrow> fin \<le> length z \<Longrightarrow>
   merge_loop2 leq (map fst z) (map snd z) i j k middle fin (map fst m) (map snd m) =
   (let (i', k', m') = merge_loop (on_first leq) z i j k middle fin m
    in (i', k', map fst m', map snd m'))"
proof (induction "on_first leq :: 'a \<times> 'b \<Rightarrow> _" z i j k middle fin m rule: merge_loop.induct)
  case (1 z i j k middle fin m)
  show ?case
  proof (cases "i < middle \<and> j < fin")
    case True
    then show ?thesis
      using 1 by (subst merge_loop.simps, subst merge_loop2.simps)
        (simp add: map_update[symmetric] on_first_def)
  qed (subst merge_loop.simps, subst merge_loop2.simps, auto)
qed

lemma rest_loop2_pairs:
  "middle \<le> length z \<Longrightarrow>
   rest_loop2 (map fst z) (map snd z) i k middle =
   (map fst (rest_loop z i k middle), map snd (rest_loop z i k middle))"
proof (induction z i k middle rule: rest_loop.induct)
  case (1 z i k middle)
  show ?case
  proof (cases "i < middle")
    case True
    then show ?thesis
      using 1 by (subst (1 2) rest_loop.simps, subst rest_loop2.simps) (simp add: map_update[symmetric])
  qed (subst (1 2) rest_loop.simps, subst rest_loop2.simps, simp)
qed

lemma back_loop2_pairs:
  "j \<le> length m \<Longrightarrow>
   back_loop2 (map fst z) (map snd z) (map fst m) (map snd m) i j =
   (map fst (back_loop z m i j), map snd (back_loop z m i j))"
proof (induction z m i j rule: back_loop.induct)
  case (1 z m i j)
  show ?case
  proof (cases "i < j")
    case True
    then show ?thesis
      using 1 by (subst (1 2) back_loop.simps, subst back_loop2.simps) (simp add: map_update[symmetric])
  qed (subst (1 2) back_loop.simps, subst back_loop2.simps, simp)
qed

lemma merge_loop_bounds:
  "i \<le> middle \<Longrightarrow> merge_loop leq a i j k middle fin m = (i', k', m') \<Longrightarrow>
   i' \<le> middle \<and> length m' = length m \<and> k' \<le> k + (middle - i) + (fin - j)"
proof (induction leq a i j k middle fin m rule: merge_loop.induct)
  case (1 leq a i j k middle fin m)
  then show ?case
    using merge_loop.simps[of leq a i j k middle fin m]
    by (cases "i < middle \<and> j < fin"; cases "leq (a ! i) (a ! j)") auto
qed

lemma merge_sort_sub2_pairs:
  fixes z :: "('a \<times> 'b) list"
  shows "start \<le> fin \<Longrightarrow> fin \<le> length z \<Longrightarrow> length m = length z \<Longrightarrow>
   merge_sort_sub2 leq (map fst z) (map snd z) start fin (map fst m) (map snd m) =
   (let (z', m') = merge_sort_sub (on_first leq) z start fin m
    in (map fst z', map snd z', map fst m', map snd m'))"
proof (induction "on_first leq :: 'a \<times> 'b \<Rightarrow> _" z start fin m rule: merge_sort_sub.induct)
  case (1 z start fin m)
  show ?case
  proof (cases "fin - start \<le> 2")
    case True
    then show ?thesis
      using 1(3-5) by (subst merge_sort_sub.simps, subst merge_sort_sub2.simps)
        (simp add: Let_def on_first_def map_update)
  next
    case False
    define middle where "middle = (start + fin) div 2"
    have ge: "\<not> fin - start \<le> 1" "fin - start \<noteq> 2" "2 \<le> fin - start"
      using False by auto
    note mid = halves[OF ge(3) 1(4), folded middle_def]
    obtain z1 m1 where sub1: "merge_sort_sub (on_first leq) z start middle m = (z1, m1)"
      by fastforce
    moreover have len1: "length z1 = length z" "length m1 = length z"
      using merge_sort_sub_msort[of start middle z m "on_first leq"] mid 1(4,5) sub1 by auto
    obtain z2 m2 where sub2: "merge_sort_sub (on_first leq) z1 middle fin m1 = (z2, m2)"
      by fastforce
    moreover have len2: "length z2 = length z" "length m2 = length z"
      using merge_sort_sub_msort[of middle fin z1 m1 "on_first leq"] mid 1(4) sub2 len1 by auto
    obtain i k m3 where loop: "merge_loop (on_first leq) z2 start middle start middle fin m2 = (i, k, m3)"
      by (metis prod_cases3)
    have k: "k \<le> length m3"
      using merge_loop_bounds[OF _ loop] mid len2 1(4) by auto
    have "merge_sort_sub2 leq (map fst z) (map snd z) start middle (map fst m) (map snd m) =
        (map fst z1, map snd z1, map fst m1, map snd m1)"
      using 1(1)[OF ge(1,2) middle_def] sub1 mid(1,2) 1(4,5) by simp
    moreover have "merge_sort_sub2 leq (map fst z1) (map snd z1) middle fin (map fst m1) (map snd m1) =
        (map fst z2, map snd z2, map fst m2, map snd m2)"
      using 1(2)[OF ge(1,2) middle_def sub1[symmetric] refl] sub2 mid(1,2) 1(4) len1 by simp
    moreover have "merge_loop2 leq (map fst z2) (map snd z2) start middle start middle fin
        (map fst m2) (map snd m2) = (i, k, map fst m3, map snd m3)"
      using merge_loop2_pairs[of start middle middle z2 fin leq start m2] loop mid(1,2) len2 1(4)
      by simp
    ultimately show ?thesis
      using ge mid(1,2) len2 1(4) loop k
      by (subst merge_sort_sub.simps, subst merge_sort_sub2.simps)
        (simp add: Let_def middle_def[symmetric] rest_loop2_pairs back_loop2_pairs)
  qed
qed

lemma merge_sort_leq2_zip:
  assumes "length a = length b"
  shows "merge_sort_leq2 leq da db a b =
    (let z = msort (on_first leq) (zip a b) in Some (map fst z, map snd z))"
proof -
  let ?z = "zip a b" and ?m = "replicate (length a) (da, db)"
  obtain m' where "merge_sort_sub (on_first leq) ?z 0 (length a) ?m = (msort (on_first leq) ?z, m')"
    using merge_sort_sub_msort[of 0 "length a" ?z ?m "on_first leq"] assms
    by (auto simp: slice_def)
  then show ?thesis
    using merge_sort_sub2_pairs[of 0 "length a" ?z ?m leq] assms
    by (simp add: merge_sort_leq2_def Let_def)
qed

lemma map_merge: "map fst (merge (on_first leq) xs ys) = merge leq (map fst xs) (map fst ys)"
  by (induction "on_first leq :: 'a \<times> 'b \<Rightarrow> _" xs ys rule: merge.induct) (auto simp: on_first_def)

lemma map_msort: "map fst (msort (on_first leq) xs) = msort leq (map fst xs)"
proof (induction xs rule: measure_induct_rule[of length])
  case (less xs)
  show ?case
  proof (cases "2 \<le> length xs")
    case True
    then show ?thesis
      by (subst (1 2) msort_split) (simp_all add: map_merge less take_map drop_map)
  next
    case False
    then show ?thesis
      by (cases xs rule: remdups_adj.cases) auto
  qed
qed

section \<open>Properties\<close>

text \<open>
  Claim C35. The in-place merge sort is a stable sort: for every comparison that is total and
  transitive the array is sorted afterwards, holds the same elements with the same
  multiplicities, and equivalent elements keep their order; the initial contents of the buffer
  do not matter.
\<close>

theorem merge_sort_leq_correct:
  assumes "\<forall>x y. leq x y \<or> leq y x" "\<forall>x y z. leq x y \<longrightarrow> leq y z \<longrightarrow> leq x z"
  shows "sorted_wrt leq (merge_sort_leq leq dflt a) \<and>
    mset (merge_sort_leq leq dflt a) = mset a \<and>
    filter (\<lambda>u. leq z u \<and> leq u z) (merge_sort_leq leq dflt a) =
      filter (\<lambda>u. leq z u \<and> leq u z) a"
proof (intro conjI)
  have "comparison leq"
    using assms by unfold_locales blast+
  then show "sorted_wrt leq (merge_sort_leq leq dflt a)"
    "filter (\<lambda>u. leq z u \<and> leq u z) (merge_sort_leq leq dflt a) =
     filter (\<lambda>u. leq z u \<and> leq u z) a"
    unfolding merge_sort_leq_msort
    by (simp_all add: comparison.sorted_msort comparison.stable_msort)
  show "mset (merge_sort_leq leq dflt a) = mset a"
    by (simp add: merge_sort_leq_msort)
qed

theorem merge_sort_leq_correct_witness:
  "sorted_wrt (\<lambda>x y :: int. x div 10 \<le> y div 10)
     (merge_sort_leq (\<lambda>x y. x div 10 \<le> y div 10) 0 [31, 12, 35, 17, 4])"
  by (rule merge_sort_leq_correct[THEN conjunct1]) (metis linear, metis order_trans)

text \<open>
  Sorting with a permutation: \<open>merge_sort_leq_permutation\<close> never fails, sorts the
  array exactly as \<open>merge_sort_leq\<close> does, and returns a rearrangement of the indices which,
  handed to \<open>permute\<close> with the original array, gives the sorted array.
\<close>

theorem merge_sort_permutation_correct:
  "\<exists>r p. merge_sort_leq_permutation leq dflt a = Some (r, p) \<and> r = merge_sort_leq leq dflt a \<and>
         mset p = mset [0..<length a] \<and> permute a p = Some r"
proof -
  let ?z = "msort (on_first leq) (zip a [0..<length a])"
  have pairs: "\<forall>q \<in> set ?z. snd q < length a \<and> fst q = a ! snd q"
    by (auto simp: set_zip)
  have "mset (map snd ?z) = mset (map snd (zip a [0..<length a]))"
    by (simp only: mset_map mset_msort)
  then have perm: "mset (map snd ?z) = mset [0..<length a]"
    by (simp only: map_snd_zip length_upt minus_nat.diff_0)
  have "permute a (map snd ?z) = Some (map fst ?z)"
  proof -
    have "a ! snd (?z ! i) = fst (?z ! i)" if "i < length a" for i
      using pairs that by (metis length_msort length_upt length_zip min.idem minus_nat.diff_0 nth_mem)
    moreover have "\<not> (\<exists>i \<in> set (map snd ?z). i \<ge> length a)"
      using pairs unfolding set_map by (metis imageE not_le)
    ultimately show ?thesis
      unfolding permute_def by (simp only: if_False) (auto intro!: nth_equalityI)
  qed
  moreover have "map fst ?z = merge_sort_leq leq dflt a"
    by (simp add: map_msort merge_sort_leq_msort)
  ultimately show ?thesis
    using perm by (simp add: merge_sort_leq_permutation_def merge_sort_leq2_zip Let_def)
qed

text \<open>
  On a linearly ordered type \<open>merge_sort\<close>, the instance with \<open>operator <=\<close>, computes
  the same list as the sort of the library.
\<close>

lemma merge_sort_sort: "merge_sort dflt a = sort a"
proof (rule properties_for_sort[symmetric])
  show "mset (merge_sort dflt a) = mset a"
    by (simp add: merge_sort_def merge_sort_leq_msort)
  show "sorted (merge_sort dflt a)"
    using operator.sorted_msort[of a] unfolding merge_sort_def merge_sort_leq_msort
    by (rule sorted_wrt_mono_rel[rotated]) (simp add: less_eq_operator_def)
qed

end
