(* ===== verification/Athena_Base64.thy ===== *)
theory Athena_Base64
  imports Athena_Prelude
begin

text \<open>
  The base64 codec of \<open>src/src/Core/Text/base64.cpp\<close>. A \<open>char\<close> is signed and is promoted to
  \<open>int\<close> in the arithmetic, which is done on integers here with the same shifts and masks. An
  index outside of a table or an array is \<open>None\<close>.

  Shown: decoding inverts encoding on every string of bytes, with the line breaks that the
  encoder inserts; and the inputs on which the decoder reads outside of its buffer.
\<close>

unbundle bit_operations_syntax

section \<open>Encoding\<close>

definition int_to_b64 :: string where
  "int_to_b64 = ''ABCDEFGHIJKLMNOPQRSTUVWXYZabcdefghijklmnopqrstuvwxyz0123456789+/''"

text \<open>The value of a \<open>char\<close> as an \<open>int\<close>, and the \<open>char\<close> that an \<open>int\<close> is stored as.\<close>

definition char_int :: "char \<Rightarrow> int" where
  "char_int c = (let n = of_char c in if n < 128 then n else n - 256)"

definition int_char :: "int \<Rightarrow> char" where
  "int_char n = char_of (n mod 256)"

definition encode_group :: "char \<Rightarrow> char \<Rightarrow> char \<Rightarrow> string" where
  "encode_group c1 c2 c3 =
     (let idx0 = drop_bit 2 (char_int c1) AND 0x3F;
          idx1 = (push_bit 4 (char_int c1) AND 0x30) + (drop_bit 4 (char_int c2) AND 0x0F);
          idx2 = (push_bit 2 (char_int c2) AND 0x3C) + (drop_bit 6 (char_int c3) AND 0x03);
          idx3 = char_int c3 AND 0x3F
      in [int_to_b64 ! nat idx0, int_to_b64 ! nat idx1, int_to_b64 ! nat idx2,
          int_to_b64 ! nat idx3])"

definition line_break :: "nat \<Rightarrow> string" where
  "line_break i = (if i > 0 \<and> i mod 60 = 0 then [CHR 0x0A] else [])"

function encode_loop :: "string \<Rightarrow> nat \<Rightarrow> string \<Rightarrow> nat \<times> string" where
  "encode_loop s i r =
     (if i + 2 < length s
      then encode_loop s (i + 3)
             (r @ line_break i @ encode_group (s ! i) (s ! (i + 1)) (s ! (i + 2)))
      else (i, r))"
  by pat_completeness auto

termination
  by (relation "measure (\<lambda>(s, i, r). length s - i)") auto

declare encode_loop.simps [simp del]

definition encode_base64 :: "string \<Rightarrow> string" where
  "encode_base64 s =
     (let (i, r) = encode_loop s 0 []; n = int (length s) in
      if int i = n - 1 then
        r @ line_break i @ substr (encode_group (s ! i) (CHR 0x00) (CHR 0x00)) 0 2 @ ''==''
      else if int i = n - 2 then
        r @ line_break i @ substr (encode_group (s ! i) (s ! (i + 1)) (CHR 0x00)) 0 3 @ ''=''
      else r)"

section \<open>Decoding\<close>

definition b64_to_int :: string where
  "b64_to_int =
     ''???????????????????????????????????????????~???'' @ [CHR 0x7F] @ ''tuvwxyz{|}??'' @
     ''?????@ABCDEFGHIJKLMNOPQRSTUVWXY??????Z['' @ [CHR 0x5C] @ '']^_'' @ [CHR 0x60] @
     ''abcdefghijklmnopqrs?????''"

definition b64_ref :: "int \<Rightarrow> int option" where
  "b64_ref c = map_option char_int (array_ref b64_to_int c)"

text \<open>\<open>decode_base64 (array<int>)\<close>: one group of two, three or four digits.\<close>

definition decode_group :: "int list \<Rightarrow> string option" where
  "decode_group ac = do {
     let n = int (length ac);
     c0 \<leftarrow> array_ref ac 0; v1 \<leftarrow> b64_ref c0;
     c1 \<leftarrow> array_ref ac 1; v2 \<leftarrow> b64_ref c1;
     v3 \<leftarrow> (if n > 2 then do { c \<leftarrow> array_ref ac 2; v \<leftarrow> b64_ref c; Some (v - 64) } else Some 0);
     v4 \<leftarrow> (if n > 3 then do { c \<leftarrow> array_ref ac 3; v \<leftarrow> b64_ref c; Some (v - 64) } else Some 0);
     let n1 = v1 - 64; let n2 = v2 - 64; let n3 = v3; let n4 = v4;
     let r = [int_char ((push_bit 2 n1 AND 0xFC) + (drop_bit 4 n2 AND 0x03)),
              int_char ((push_bit 4 n2 AND 0xF0) + (drop_bit 2 n3 AND 0x0F)),
              int_char ((push_bit 6 n3 AND 0xC0) + (n4 AND 0x3F))];
     Some (substr r 0 (n - 1))
   }"

text \<open>The loop over the characters; the counter \<open>cnt\<close> is the length of \<open>tmp\<close>.\<close>

fun decode_loop :: "string \<Rightarrow> int list \<Rightarrow> string \<Rightarrow> string option" where
  "decode_loop [] tmp r = Some r"
| "decode_loop (c # cs) tmp r = do {
     v \<leftarrow> b64_ref (char_int c);
     let tmp = (if v \<noteq> char_int CHR ''?'' then tmp @ [char_int c] else tmp);
     let fin = (v = char_int CHR ''?'' \<and> c = CHR ''='');
     (if length tmp = 4 \<or> fin then do {
        g \<leftarrow> decode_group tmp;
        if fin then Some (r @ g) else decode_loop cs [] (r @ g)
      }
      else decode_loop cs tmp r)
   }"

definition decode_base64 :: "string \<Rightarrow> string option" where
  "decode_base64 s = decode_loop s [] []"

section \<open>One group\<close>

lemma mask_mod:
  "x AND 0x3F = x mod 64" "x AND 0x0F = x mod 16" "x AND 0x03 = x mod (4 :: int)"
  using take_bit_eq_mask[of 6 x] take_bit_eq_mask[of 4 x] take_bit_eq_mask[of 2 x]
  by (simp_all add: take_bit_eq_mod mask_eq_exp_minus_1)

lemma mask_shifted:
  "push_bit 4 x AND 0x30 = x mod 4 * 16" "push_bit 2 x AND 0x3C = x mod 16 * (4 :: int)"
  using push_bit_and[of 4 x 3] push_bit_and[of 2 x 15]
  by (simp_all add: mask_mod push_bit_eq_mult)

lemma of_char_bounds: "0 \<le> (of_char c :: int)" "(of_char c :: int) < 256"
  by (simp_all add: of_char_def) 

lemma shifted_byte:
  fixes u :: int
  shows "(u - 256) div 4 = u div 4 - 64" "(u - 256) div 16 = u div 16 - 16"
    "(u - 256) div 64 = u div 64 - 4"
  subgoal using div_mult_self1[of 4 u "- 64"] by simp
  subgoal using div_mult_self1[of 16 u "- 16"] by simp
  subgoal using div_mult_self1[of 64 u "- 4"] by simp
  done

lemma shifted_byte_mod:
  fixes u :: int
  shows "(u - 256) mod 4 = u mod 4" "(u - 256) mod 16 = u mod 16" "(u - 256) mod 64 = u mod 64"
  subgoal using mod_mult_self1[of u "- 64" 4] by simp
  subgoal using mod_mult_self1[of u "- 16" 16] by simp
  subgoal using mod_mult_self1[of u "- 4" 64] by simp
  done

lemma small_byte:
  fixes u :: int
  assumes "0 \<le> u" "u < 256"
  shows "u div 4 mod 64 = u div 4" "u div 16 mod 16 = u div 16" "u div 64 mod 4 = u div 64"
    "(u div 4 - 64) mod 64 = u div 4" "(u div 16 - 16) mod 16 = u div 16"
    "(u div 64 - 4) mod 4 = u div 64"
proof -
  have b: "0 \<le> u div 4" "u div 4 < 64" "0 \<le> u div 16" "u div 16 < 16" "0 \<le> u div 64" "u div 64 < 4"
    using assms by auto
  then show "u div 4 mod 64 = u div 4" "u div 16 mod 16 = u div 16" "u div 64 mod 4 = u div 64"
    by (simp_all add: mod_pos_pos_trivial)
  then show "(u div 4 - 64) mod 64 = u div 4" "(u div 16 - 16) mod 16 = u div 16"
    "(u div 64 - 4) mod 4 = u div 64"
    by (metis minus_mod_self2)+
qed

lemma encode_bits:
  "drop_bit 2 (char_int c) AND 0x3F = of_char c div 4"
  "push_bit 4 (char_int c) AND 0x30 = of_char c mod 4 * 16"
  "drop_bit 4 (char_int c) AND 0x0F = of_char c div 16"
  "push_bit 2 (char_int c) AND 0x3C = of_char c mod 16 * 4"
  "drop_bit 6 (char_int c) AND 0x03 = of_char c div 64"
  "char_int c AND 0x3F = of_char c mod 64"
  using of_char_bounds[of c]
  by (simp_all add: mask_mod mask_shifted drop_bit_eq_div char_int_def Let_def shifted_byte
      shifted_byte_mod small_byte)

lemma digit_table:
  "d < 64 \<Longrightarrow> b64_ref (char_int (int_to_b64 ! d)) = Some (64 + int d)"
proof -
  have "list_all (\<lambda>d. b64_ref (char_int (int_to_b64 ! d)) = Some (64 + int d)) [0..<64]"
    by code_simp
  then show "d < 64 \<Longrightarrow> b64_ref (char_int (int_to_b64 ! d)) = Some (64 + int d)"
    by (simp add: list_all_iff)
qed

lemma decode_bits:
  assumes "0 \<le> n" "n < 64"
  shows "push_bit 2 n AND 0xFC = n * (4 :: int)" "drop_bit 4 n AND 0x03 = n div 16"
    "push_bit 4 n AND 0xF0 = n mod 16 * 16" "drop_bit 2 n AND 0x0F = n div 4"
    "push_bit 6 n AND 0xC0 = n mod 4 * 64" "n AND 0x3F = n"
proof -
  have all: "P n" if "list_all P (map int [0..<64])" for P
    using that assms by (auto simp: list_all_iff image_iff dest: bspec[of _ _ "nat n"])
  show "push_bit 2 n AND 0xFC = n * (4 :: int)" "drop_bit 4 n AND 0x03 = n div 16"
    "push_bit 4 n AND 0xF0 = n mod 16 * 16" "drop_bit 2 n AND 0x0F = n div 4"
    "push_bit 6 n AND 0xC0 = n mod 4 * 64" "n AND 0x3F = n"
    by (rule all, code_simp)+
qed

lemma int_char_of_char: "n = of_char c \<Longrightarrow> int_char n = c"
  by (simp add: int_char_def)

lemma digit_table_int:
  "0 \<le> k \<Longrightarrow> k < 64 \<Longrightarrow> b64_ref (char_int (int_to_b64 ! nat k)) = Some (64 + k)"
  using digit_table[of "nat k"] by simp

text \<open>The four digits of a group as numbers, and the bytes that they stand for.\<close>

definition digits :: "char \<Rightarrow> char \<Rightarrow> char \<Rightarrow> int \<times> int \<times> int \<times> int" where
  "digits a b c =
     (of_char a div 4, of_char a mod 4 * 16 + of_char b div 16,
      of_char b mod 16 * 4 + of_char c div 64, of_char c mod 64)"

lemma digits_parts:
  assumes "digits a b c = (k0, k1, k2, k3)"
  obtains a1 a0 b1 b0 c1 c0 where
    "of_char a = a1 * 4 + a0" "of_char b = b1 * 16 + b0" "of_char c = c1 * 64 + c0"
    "0 \<le> a0" "a0 < 4" "0 \<le> a1" "a1 < 64" "0 \<le> b0" "b0 < 16" "0 \<le> b1" "b1 < 16"
    "0 \<le> c0" "c0 < 64" "0 \<le> c1" "c1 < (4 :: int)"
    "k0 = a1" "k1 = a0 * 16 + b1" "k2 = b0 * 4 + c1" "k3 = c0"
proof
  show "of_char a = of_char a div 4 * 4 + of_char a mod (4 :: int)"
    "of_char b = of_char b div 16 * 16 + of_char b mod (16 :: int)"
    "of_char c = of_char c div 64 * 64 + of_char c mod (64 :: int)"
    by simp_all
  show "0 \<le> of_char a mod (4 :: int)" "of_char a mod 4 < (4 :: int)"
    "0 \<le> of_char b mod (16 :: int)" "of_char b mod 16 < (16 :: int)"
    "0 \<le> of_char c mod (64 :: int)" "of_char c mod 64 < (64 :: int)"
    by simp_all
  show "0 \<le> of_char a div (4 :: int)" "0 \<le> of_char b div (16 :: int)" "0 \<le> of_char c div (64 :: int)"
    "of_char a div 4 < (64 :: int)" "of_char b div 16 < (16 :: int)" "of_char c div 64 < (4 :: int)"
    using of_char_bounds[of a] of_char_bounds[of b] of_char_bounds[of c]
    by (simp_all add: pos_imp_zdiv_nonneg_iff div_less_iff_less_mult)
qed (use assms in \<open>simp_all add: digits_def\<close>)

lemma digits_bounds:
  assumes "digits a b c = (k0, k1, k2, k3)"
  shows "0 \<le> k0" "k0 < 64" "0 \<le> k1" "k1 < 64" "0 \<le> k2" "k2 < 64" "0 \<le> k3" "k3 < 64"
  by (rule digits_parts[OF assms]; linarith)+

lemma carry:
  "0 \<le> q \<Longrightarrow> q < 16 \<Longrightarrow> (p * 16 + q) div 16 = (p :: int)"
  "0 \<le> q \<Longrightarrow> q < 16 \<Longrightarrow> (p * 16 + q) mod 16 = q"
  "0 \<le> q \<Longrightarrow> q < 4 \<Longrightarrow> (p * 4 + q) div 4 = p"
  "0 \<le> q \<Longrightarrow> q < 4 \<Longrightarrow> (p * 4 + q) mod 4 = q"
  by simp_all

lemma digits_bytes:
  assumes "digits a b c = (k0, k1, k2, k3)"
  shows "k0 * 4 + k1 div 16 = of_char a" "k1 mod 16 * 16 + k2 div 4 = of_char b"
    "k2 mod 4 * 64 + k3 = of_char c"
  by (rule digits_parts[OF assms]; simp only: carry)+

lemma encode_group_digits:
  "digits a b c = (k0, k1, k2, k3) \<Longrightarrow>
   encode_group a b c =
     [int_to_b64 ! nat k0, int_to_b64 ! nat k1, int_to_b64 ! nat k2, int_to_b64 ! nat k3]"
  by (simp add: encode_group_def Let_def encode_bits digits_def)

lemmas group_simps = array_ref_def decode_group_def digit_table_int decode_bits substr_def
  int_char_of_char

lemma decode_group_full:
  assumes "digits a b c = (k0, k1, k2, k3)"
  shows "decode_group (map char_int (encode_group a b c)) = Some [a, b, c]"
  using digits_bounds[OF assms] digits_bytes[OF assms]
  by (simp add: encode_group_digits[OF assms] group_simps)

lemma decode_group_two:
  assumes "digits a b CHR 0x00 = (k0, k1, k2, k3)"
  shows "decode_group (map char_int (take 3 (encode_group a b CHR 0x00))) = Some [a, b]"
  using digits_bounds[OF assms] digits_bytes[OF assms]
  by (simp add: encode_group_digits[OF assms] group_simps)

lemma decode_group_one:
  assumes "digits a CHR 0x00 CHR 0x00 = (k0, k1, k2, k3)"
  shows "decode_group (map char_int (take 2 (encode_group a CHR 0x00 CHR 0x00))) = Some [a]"
  using digits_bounds[OF assms] digits_bytes[OF assms]
  by (simp add: encode_group_digits[OF assms] group_simps)

section \<open>The loops\<close>

lemma mark_value: "char_int CHR ''?'' = 63"
  by code_simp

lemma special_chars: "b64_ref (char_int CHR 0x0A) = Some 63" "b64_ref (char_int CHR ''='') = Some 63"
  by code_simp+

lemma decode_loop_group:
  "decode_loop (encode_group a b c @ cs) [] r = decode_loop cs [] (r @ [a, b, c])"
proof -
  obtain k0 k1 k2 k3 where k: "digits a b c = (k0, k1, k2, k3)"
    by (metis prod_cases4)
  show ?thesis
    using digits_bounds[OF k] decode_group_full[OF k]
    by (simp add: encode_group_digits[OF k] digit_table_int mark_value)
qed

lemma decode_loop_two:
  "decode_loop (take 3 (encode_group a b CHR 0x00) @ ''='' @ cs) [] r = Some (r @ [a, b])"
proof -
  obtain k0 k1 k2 k3 where k: "digits a b CHR 0x00 = (k0, k1, k2, k3)"
    by (metis prod_cases4)
  show ?thesis
    using digits_bounds[OF k] decode_group_two[OF k]
    by (simp add: encode_group_digits[OF k] digit_table_int mark_value special_chars)
qed

lemma decode_loop_one:
  "decode_loop (take 2 (encode_group a CHR 0x00 CHR 0x00) @ ''='' @ cs) [] r = Some (r @ [a])"
proof -
  obtain k0 k1 k2 k3 where k: "digits a CHR 0x00 CHR 0x00 = (k0, k1, k2, k3)"
    by (metis prod_cases4)
  show ?thesis
    using digits_bounds[OF k] decode_group_one[OF k]
    by (simp add: encode_group_digits[OF k] digit_table_int mark_value special_chars)
qed

lemma decode_loop_break: "decode_loop (line_break i @ cs) [] r = decode_loop cs [] r"
  by (simp add: line_break_def special_chars mark_value)

lemma take_three:
  "i + 2 < length s \<Longrightarrow> take i s @ [s ! i, s ! Suc i, s ! Suc (Suc i)] = take (i + 3) s"
  by (simp add: numeral_3_eq_3 take_Suc_conv_app_nth)

lemma encode_loop_decodes:
  assumes "i \<le> length s" "\<And>cs. decode_loop (r @ cs) [] [] = decode_loop cs [] (take i s)"
    "encode_loop s i r = (i', r')"
  shows "i' \<le> length s \<and> length s \<le> i' + 2 \<and>
    (\<forall>cs. decode_loop (r' @ cs) [] [] = decode_loop cs [] (take i' s))"
  using assms
proof (induction s i r rule: encode_loop.induct)
  case (1 s i r)
  show ?case
  proof (cases "i + 2 < length s")
    case True
    let ?r = "r @ line_break i @ encode_group (s ! i) (s ! (i + 1)) (s ! (i + 2))"
    have "decode_loop (?r @ cs) [] [] = decode_loop cs [] (take (i + 3) s)" for cs
      using 1(3)[of "line_break i @ encode_group (s ! i) (s ! (i + 1)) (s ! (i + 2)) @ cs"] True
      by (simp only: append_assoc decode_loop_break decode_loop_group)
        (simp add: take_three)
    moreover have "encode_loop s (i + 3) ?r = (i', r')"
      using 1(4) True by (simp only: encode_loop.simps[of s i] if_True)
    ultimately show ?thesis
      using 1(1)[OF True] True by simp
  next
    case False
    then have "i' = i" "r' = r"
      using 1(4) by (simp_all add: encode_loop.simps[of s i])
    then show ?thesis
      using 1(2,3) False by auto
  qed
qed

section \<open>Properties\<close>

text \<open>
  Round trip of base64: \<open>decode_base64\<close> gives back every string of bytes that
  \<open>encode_base64\<close> encoded, including bytes above 127, which are negative as a \<open>char\<close>, and the
  line breaks after every sixty bytes; the decoder never reads outside of its tables there.
\<close>

theorem base64_roundtrip: "decode_base64 (encode_base64 s) = Some s"
proof -
  obtain i r where loop: "encode_loop s 0 [] = (i, r)"
    by fastforce
  have i: "i \<le> length s" "length s \<le> i + 2"
    and r: "\<And>cs. decode_loop (r @ cs) [] [] = decode_loop cs [] (take i s)"
    using encode_loop_decodes[of 0 s "[]", OF _ _ loop] by simp_all
  consider "length s = i" | "length s = Suc i" | "length s = i + 2"
    using i by linarith
  then show ?thesis
  proof cases
    case 1
    then show ?thesis
      using r[of "[]"] by (simp add: decode_base64_def encode_base64_def loop)
  next
    case 2
    then have "decode_base64 (encode_base64 s) = Some (take i s @ [s ! i])"
      using r[of "line_break i @ take 2 (encode_group (s ! i) CHR 0x00 CHR 0x00) @ ''==''"]
        decode_loop_one[of "s ! i" "''=''" "take i s"]
      by (simp add: decode_base64_def encode_base64_def loop substr_prefix decode_loop_break
          encode_group_def Let_def del: decode_loop.simps)
    then show ?thesis
      using 2 take_Suc_conv_app_nth[of i s] by simp
  next
    case 3
    then have "decode_base64 (encode_base64 s) = Some (take i s @ [s ! i, s ! Suc i])"
      using r[of "line_break i @ take 3 (encode_group (s ! i) (s ! Suc i) CHR 0x00) @ ''=''"]
        decode_loop_two[of "s ! i" "s ! Suc i" "[]" "take i s"]
      by (simp add: decode_base64_def encode_base64_def loop substr_prefix decode_loop_break
          encode_group_def Let_def del: decode_loop.simps)
    then show ?thesis
      using 3 take_Suc_conv_app_nth[of i s] take_Suc_conv_app_nth[of "Suc i" s] by simp
  qed
qed

text \<open>
  Where the decoder leaves its arrays: a padding sign that follows complete groups,
  or a single digit, makes \<open>decode_base64\<close> read the digits of a group that it does not have,
  and a byte above 127 indexes \<open>b64_to_int\<close> with a negative number. None of these inputs is an
  output of the encoder, but the decoder is run on payloads of imported files.
\<close>

theorem decode_base64_out_of_range:
  "decode_base64 ''QUJD='' = None \<and> decode_base64 ''Q='' = None \<and>
   decode_base64 (''QUJD'' @ [CHR 0xE9]) = None \<and> decode_base64 ''QUJD'' = Some ''ABC''"
  by (intro conjI; code_simp)

end
