(* ===== verification/Athena_Text.thy ===== *)
theory Athena_Text
  imports Athena_Prelude "HOL-Library.Word"
begin

unbundle bit_operations_syntax

text \<open>
  Characters and strings, the first half of \<open>src/src/Core/Text/analyze.cpp\<close>: character
  classes and case, the eight-bit encodings, numbers as strings, the internal encoding of
  documents, in which \<open><name>\<close> stands for one symbol, and quoting. A \<open>char\<close> is a byte; where
  the source scans a string from left to right with an index that only grows, the model recurses
  on the part of the string from that index on.

  Shown: the encodings and quotations are inverted by their decoders, tokens partition a string,
  and moving backwards inverts moving forwards on strings in which brackets are balanced, which
  \<open>tm_correct\<close> produces.
\<close>

section \<open>Characters\<close>

definition code :: "char \<Rightarrow> nat" where
  "code c = of_char c"

definition between :: "char \<Rightarrow> char \<Rightarrow> char \<Rightarrow> bool" where
  "between a c b \<longleftrightarrow> code a \<le> code c \<and> code c \<le> code b"

definition is_alpha :: "char \<Rightarrow> bool" where
  "is_alpha c \<longleftrightarrow> between CHR ''a'' c CHR ''z'' \<or> between CHR ''A'' c CHR ''Z''"

definition is_locase :: "char \<Rightarrow> bool" where
  "is_locase c \<longleftrightarrow> between CHR ''a'' c CHR ''z''"

definition is_upcase :: "char \<Rightarrow> bool" where
  "is_upcase c \<longleftrightarrow> between CHR ''A'' c CHR ''Z''"

definition is_digit :: "char \<Rightarrow> bool" where
  "is_digit c \<longleftrightarrow> between CHR ''0'' c CHR ''9''"

definition is_hex_digit :: "char \<Rightarrow> bool" where
  "is_hex_digit c \<longleftrightarrow>
     between CHR ''0'' c CHR ''9'' \<or> between CHR ''A'' c CHR ''F'' \<or> between CHR ''a'' c CHR ''f''"

definition is_numeric :: "char \<Rightarrow> bool" where
  "is_numeric c \<longleftrightarrow> between CHR ''0'' c CHR ''9'' \<or> c = CHR ''.''"

definition is_punctuation :: "char \<Rightarrow> bool" where
  "is_punctuation c \<longleftrightarrow>
     c = CHR ''.'' \<or> c = CHR '','' \<or> c = CHR '':'' \<or> c = CHR 0x27 \<or> c = CHR 0x60 \<or>
     c = CHR '';'' \<or> c = CHR ''!'' \<or> c = CHR ''?''"

definition is_space :: "char \<Rightarrow> bool" where
  "is_space c \<longleftrightarrow> c = CHR '' '' \<or> c = CHR 0x09 \<or> c = CHR 0x0A \<or> c = CHR 0x0D"

definition is_iso_alpha :: "char \<Rightarrow> bool" where
  "is_iso_alpha c \<longleftrightarrow>
     between CHR ''a'' c CHR ''z'' \<or> between CHR ''A'' c CHR ''Z'' \<or>
     (code c \<ge> 128 \<and> code c \<noteq> 159 \<and> code c \<noteq> 189 \<and> code c \<noteq> 190 \<and> code c \<noteq> 191)"

definition is_iso_locase :: "char \<Rightarrow> bool" where
  "is_iso_locase c \<longleftrightarrow>
     between CHR ''a'' c CHR ''z'' \<or> (code c \<ge> 160 \<and> code c < 189) \<or> code c \<ge> 224"

definition is_iso_upcase :: "char \<Rightarrow> bool" where
  "is_iso_upcase c \<longleftrightarrow>
     between CHR ''A'' c CHR ''Z'' \<or> (code c \<ge> 128 \<and> code c < 159) \<or>
     (code c \<ge> 192 \<and> code c < 224)"

definition is_alpha_string :: "string \<Rightarrow> bool" where
  "is_alpha_string s \<longleftrightarrow> s \<noteq> [] \<and> list_all is_alpha s"

definition is_locase_alpha :: "string \<Rightarrow> bool" where
  "is_locase_alpha s \<longleftrightarrow> s \<noteq> [] \<and> list_all (\<lambda>c. between CHR ''a'' c CHR ''z'') s"

definition is_iso_alpha_string :: "string \<Rightarrow> bool" where
  "is_iso_alpha_string s \<longleftrightarrow> s \<noteq> [] \<and> list_all is_iso_alpha s"

definition is_numeric_string :: "string \<Rightarrow> bool" where
  "is_numeric_string s \<longleftrightarrow> s \<noteq> [] \<and> list_all is_numeric s"

definition upcase :: "char \<Rightarrow> char" where
  "upcase c = (if is_iso_locase c then char_of (code c - 32) else c)"

definition locase :: "char \<Rightarrow> char" where
  "locase c = (if is_iso_upcase c then char_of (code c + 32) else c)"

definition closing_delimiter :: "char \<Rightarrow> char" where
  "closing_delimiter c =
     (if c = CHR ''{'' then CHR ''}'' else if c = CHR ''('' then CHR '')''
      else if c = CHR ''['' then CHR '']'' else c)"

definition upcase_first :: "string \<Rightarrow> string" where
  "upcase_first s =
     (if s = [] \<or> \<not> is_iso_locase (hd s) then s else char_of (code (hd s) - 32) # tl s)"

definition locase_first :: "string \<Rightarrow> string" where
  "locase_first s =
     (if s = [] \<or> \<not> is_iso_upcase (hd s) then s else char_of (code (hd s) + 32) # tl s)"

definition upcase_all :: "string \<Rightarrow> string" where
  "upcase_all s = map (\<lambda>c. if \<not> is_iso_locase c then c else char_of (code c - 32)) s"

definition locase_all :: "string \<Rightarrow> string" where
  "locase_all s = map (\<lambda>c. if \<not> is_iso_upcase c then c else char_of (code c + 32)) s"

definition string_minus :: "string \<Rightarrow> string \<Rightarrow> string" where
  "string_minus s1 s2 = filter (\<lambda>c. \<not> list_ex (\<lambda>d. c = d) s2) s1"

definition string_union :: "string \<Rightarrow> string \<Rightarrow> string" where
  "string_union s1 s2 = string_minus s1 s2 @ s2"

section \<open>Eight-bit encodings\<close>

text \<open>The apostrophe is \<open>0x27\<close>.\<close>

definition spanish_table :: "(char \<times> char) list" where
  "spanish_table =
     [(CHR ''A'', CHR 0xC1), (CHR ''E'', CHR 0xC9), (CHR ''I'', CHR 0xCD), (CHR ''N'', CHR 0xD1),
      (CHR ''O'', CHR 0xD3), (CHR ''U'', CHR 0xDA), (CHR ''Y'', CHR 0xDD), (CHR ''a'', CHR 0xE1),
      (CHR ''e'', CHR 0xE9), (CHR ''i'', CHR 0xED), (CHR ''n'', CHR 0xF1), (CHR ''o'', CHR 0xF3),
      (CHR ''u'', CHR 0xFA), (CHR ''y'', CHR 0xFD)]"

fun ispanish_to_spanish :: "string \<Rightarrow> string" where
  "ispanish_to_spanish [] = []"
| "ispanish_to_spanish [c] = [c]"
| "ispanish_to_spanish (c # d # s) =
     (if c = CHR 0x27 then
        (case map_of spanish_table d of
           Some e \<Rightarrow> e # ispanish_to_spanish s
         | None \<Rightarrow> CHR 0x27 # d # ispanish_to_spanish s)
      else c # ispanish_to_spanish (d # s))"

definition spanish_to_ispanish :: "string \<Rightarrow> string" where
  "spanish_to_ispanish s =
     concat (map (\<lambda>c. case map_of (map prod.swap spanish_table) c of
                        Some d \<Rightarrow> [CHR 0x27, d] | None \<Rightarrow> [c]) s)"

definition igerman_to_german :: "string \<Rightarrow> string" where
  "igerman_to_german s = map (\<lambda>c. if c = CHR 0xDF then CHR 0xFF else c) s"

definition german_to_igerman :: "string \<Rightarrow> string" where
  "german_to_igerman s = map (\<lambda>c. if c = CHR 0xFF then CHR 0xDF else c) s"

text \<open>
  The tables are given by their bytes. The source file is in UTF-8, so each of the characters
  that it holds literally in \<open>il2_to_cork_string\<close> takes two or three bytes.
\<close>

definition il2_to_cork_string :: "nat list" where
  "il2_to_cork_string =
     [0x80, 0x81, 0x82, 0x83, 0x84, 0x85, 0x86, 0x87, 0x88, 0x89, 0x8A, 0x8B, 0x8C, 0x8D, 0x8E,
      0x8F, 0x90, 0x91, 0x92, 0x93, 0x94, 0x95, 0x96, 0x97, 0x98, 0x99, 0x9A, 0x9B, 0x9C, 0x9D,
      0x9E, 0x9F, 0x20, 0x10, 0x8A, 0x20, 0x89, 0x91, 0x9F, 0xC2, 0xA8, 0x92, 0x93, 0x94, 0x99,
      0xE2, 0x80, 0x90, 0x9A, 0x9B, 0x20, 0xA1, 0xCB, 0x9B, 0xAA, 0xC2, 0xB4, 0xA9, 0xB1, 0xCB,
      0x87, 0xC2, 0xB8, 0xB2, 0xB3, 0xB4, 0xB9, 0xCB, 0x9D, 0xBA, 0xBB, 0x8F, 0xC1, 0xC2, 0x80,
      0xC4, 0x88, 0x82, 0xC7, 0x83, 0xC9, 0x86, 0xCB, 0x85, 0xCD, 0xCE, 0x84, 0xD0, 0x8B, 0x8C,
      0xD3, 0xD4, 0x8E, 0xD6, 0x2E, 0x90, 0x97, 0xDA, 0x96, 0xDC, 0xDD, 0x95, 0xFF, 0xAF, 0xE1,
      0xE2, 0xA0, 0xE4, 0xA8, 0xA2, 0xE7, 0xA3, 0xE9, 0xA6, 0xEB, 0xA5, 0xED, 0xEE, 0xA4, 0x9E,
      0xAB, 0xAC, 0xF3, 0xF4, 0xAE, 0xF6, 0x2F, 0xB0, 0xB7, 0xFA, 0xB6, 0xFC, 0xFD, 0xB5, 0x20]"

definition cork_to_il2_string :: "nat list" where
  "cork_to_il2_string =
     [0xC3, 0xA1, 0xC6, 0xC8, 0xCF, 0xCC, 0xCA, 0x47, 0xC5, 0xA5, 0xA3, 0xD1, 0xD2, 0x20, 0xD5,
      0xC0, 0xD8, 0xA6, 0xA9, 0xAA, 0xAB, 0xDE, 0xDB, 0xD9, 0x59, 0xAC, 0xAE, 0xAF, 0x49, 0x49,
      0xF0, 0xA7, 0xE3, 0xB1, 0xE6, 0xE8, 0xEF, 0xEC, 0xEA, 0x67, 0xE5, 0xB5, 0xB3, 0xF1, 0xF2,
      0x20, 0xF5, 0xE0, 0xF8, 0xB6, 0xB9, 0xBA, 0xBB, 0xFE, 0xFB, 0xF9, 0x79, 0xBC, 0xBE, 0xBF,
      0x69, 0x21, 0x3F, 0x4C, 0x41, 0xC1, 0xC2, 0x41, 0xC4, 0x41, 0x41, 0xC7, 0x45, 0xC9, 0x45,
      0xCB, 0x49, 0xCD, 0xCE, 0x49, 0xD0, 0x4E, 0x4F, 0xD3, 0xD4, 0x4F, 0xD6, 0x4F, 0x4F, 0x55,
      0xDA, 0x55, 0xDC, 0xDD, 0x20, 0x53, 0x61, 0xE1, 0xE2, 0x61, 0xE4, 0x61, 0x61, 0xE7, 0x65,
      0xE9, 0x65, 0xEB, 0x69, 0xED, 0xEE, 0x69, 0xF0, 0x6E, 0x6F, 0xF3, 0xF4, 0x6F, 0xF6, 0x6F,
      0x6F, 0x75, 0xFA, 0x75, 0xFC, 0xFD, 0x20, 0xDF]"

definition il2_to_cork_char :: "char \<Rightarrow> char" where
  "il2_to_cork_char c = (if code c < 128 then c else char_of (il2_to_cork_string ! (code c - 128)))"

definition cork_to_il2_char :: "char \<Rightarrow> char" where
  "cork_to_il2_char c = (if code c < 128 then c else char_of (cork_to_il2_string ! (code c - 128)))"

definition il2_to_cork :: "string \<Rightarrow> string" where
  "il2_to_cork s = map il2_to_cork_char s"

definition cork_to_il2 :: "string \<Rightarrow> string" where
  "cork_to_il2 s = map cork_to_il2_char s"

definition koi8_to_iso_string :: "nat list" where
  "koi8_to_iso_string =
     [0xE1, 0xE2, 0xF7, 0xE7, 0xE4, 0xE5, 0xF6, 0xFA, 0xE9, 0xEA, 0xEB, 0xEC, 0xED, 0xEE, 0xEF,
      0xF0, 0xF2, 0xF3, 0xF4, 0xF5, 0xE6, 0xE8, 0xE3, 0xFE, 0xFB, 0xFD, 0xFF, 0xF9, 0xF8, 0xFC,
      0xE0, 0xF1, 0xC1, 0xC2, 0xD7, 0xC7, 0xC4, 0xC5, 0xD6, 0xDA, 0xC9, 0xCA, 0xCB, 0xCC, 0xCD,
      0xCE, 0xCF, 0xD0, 0xD2, 0xD3, 0xD4, 0xD5, 0xC6, 0xC8, 0xC3, 0xDE, 0xDB, 0xDD, 0xDF, 0xD9,
      0xD8, 0xDC, 0xC0, 0xD1]"

definition iso_to_koi8_string :: "nat list" where
  "iso_to_koi8_string =
     [0xFE, 0xE0, 0xE1, 0xF6, 0xE4, 0xE5, 0xF4, 0xE3, 0xF5, 0xE8, 0xE9, 0xEA, 0xEB, 0xEC, 0xED,
      0xEE, 0xEF, 0xFF, 0xF0, 0xF1, 0xF2, 0xF3, 0xE6, 0xE2, 0xFC, 0xFB, 0xE7, 0xF8, 0xFD, 0xF9,
      0xF7, 0xFA, 0xDE, 0xC0, 0xC1, 0xD6, 0xC4, 0xC5, 0xD4, 0xC3, 0xD5, 0xC8, 0xC9, 0xCA, 0xCB,
      0xCC, 0xCD, 0xCE, 0xCF, 0xDF, 0xD0, 0xD1, 0xD2, 0xD3, 0xC6, 0xC2, 0xDC, 0xDB, 0xC7, 0xD8,
      0xDD, 0xD9, 0xD7, 0xDA]"

definition ukrainian_table :: "(char \<times> char) list" where
  "ukrainian_table =
     [(CHR ''I'', CHR 0xB6), (CHR 0x88, CHR 0xB7), (CHR 0x99, CHR 0xB4), (CHR 0x80, CHR 0xBD),
      (CHR ''i'', CHR 0xA6), (CHR 0xA8, CHR 0xA7), (CHR 0xB9, CHR 0xA4), (CHR 0xA0, CHR 0xAD)]"

definition koi8_to_iso_char :: "char \<Rightarrow> bool \<Rightarrow> char" where
  "koi8_to_iso_char c ukrainian =
     (if code c = 156 then CHR 0xB3
      else if code c = 188 then CHR 0xA3
      else case (if ukrainian then map_of ukrainian_table c else None) of
             Some d \<Rightarrow> d
           | None \<Rightarrow> if code c < 192 then c else char_of (koi8_to_iso_string ! (code c - 192)))"

definition iso_to_koi8_char :: "char \<Rightarrow> bool \<Rightarrow> char" where
  "iso_to_koi8_char c ukrainian =
     (if c = CHR 0xB3 then char_of (156 :: nat)
      else if c = CHR 0xA3 then char_of (188 :: nat)
      else case (if ukrainian then map_of (map prod.swap ukrainian_table) c else None) of
             Some d \<Rightarrow> d
           | None \<Rightarrow> if code c < 192 then c else char_of (iso_to_koi8_string ! (code c - 192)))"

definition koi8_to_iso :: "string \<Rightarrow> string" where
  "koi8_to_iso s = map (\<lambda>c. koi8_to_iso_char c False) s"

definition iso_to_koi8 :: "string \<Rightarrow> string" where
  "iso_to_koi8 s = map (\<lambda>c. iso_to_koi8_char c False) s"

definition koi8uk_to_iso :: "string \<Rightarrow> string" where
  "koi8uk_to_iso s = map (\<lambda>c. koi8_to_iso_char c True) s"

definition iso_to_koi8uk :: "string \<Rightarrow> string" where
  "iso_to_koi8uk s = map (\<lambda>c. iso_to_koi8_char c True) s"

section \<open>Numbers as strings\<close>

definition ones :: "string list" where
  "ones = [[], ''i'', ''ii'', ''iii'', ''iv'', ''v'', ''vi'', ''vii'', ''viii'', ''ix'']"

definition tens :: "string list" where
  "tens = [[], ''x'', ''xx'', ''xxx'', ''xl'', ''l'', ''lx'', ''lxx'', ''lxxx'', ''xc'']"

definition hundreds :: "string list" where
  "hundreds = [[], ''c'', ''cc'', ''ccc'', ''cd'', ''d'', ''dc'', ''dcc'', ''dccc'', ''cm'']"

definition thousands :: "string list" where
  "thousands = [[], ''m'', ''mm'', ''mmm'']"

text \<open>The part of \<open>roman_nr\<close> for a number from 0 to 3999.\<close>

definition roman_pos :: "int \<Rightarrow> string" where
  "roman_pos nr =
     (if nr = 0 then ''o''
      else thousands ! nat (nr div 1000 mod 10) @ hundreds ! nat (nr div 100 mod 10) @
           tens ! nat (nr div 10 mod 10) @ ones ! nat (nr mod 10))"

definition roman_nr :: "int \<Rightarrow> string" where
  "roman_nr nr =
     (if nr > 3999 then ''?'' else if nr < - 3999 then ''-?''
      else if nr < 0 then ''-'' @ roman_pos (- nr) else roman_pos nr)"

definition Roman_nr :: "int \<Rightarrow> string" where
  "Roman_nr nr = upcase_all (roman_nr nr)"

function alpha_nr :: "int \<Rightarrow> string" where
  "alpha_nr nr =
     (if nr < 0 then ''-'' @ alpha_nr (- nr)
      else if nr = 0 then ''0''
      else if nr \<le> 26 then [char_of (code CHR ''a'' + nat nr - 1)]
      else alpha_nr ((nr - 1) div 26) @ alpha_nr ((nr - 1) mod 26 + 1))"
  by pat_completeness auto

termination
  by (relation "measure (\<lambda>nr. 2 * nat \<bar>nr\<bar> + (if nr < 0 then 1 else 0))") auto

declare alpha_nr.simps [simp del]

definition Alpha_nr :: "int \<Rightarrow> string" where
  "Alpha_nr nr = upcase_all (alpha_nr nr)"

text \<open>For 0 the remainder of C++ is \<open>-1\<close>, no case of the switch applies and the symbol is empty.\<close>

definition fnsymbol_nr :: "int \<Rightarrow> string" where
  "fnsymbol_nr nr =
     (let nr = \<bar>nr\<bar>;
          m = (if nr = 0 then - 1 else (nr - 1) mod 6);
          n = (if nr = 0 then 1 else (nr - 1) div 6 + 1);
          sym = (if m = 0 then ''<asterisk>'' else if m = 1 then ''<dag>''
                 else if m = 2 then ''<ddag>'' else if m = 3 then ''<paragraph>''
                 else if m = 4 then ''<endofline>'' else if m = 5 then ''||'' else [])
      in concat (replicate (nat n) sym))"

definition hex_string :: string where
  "hex_string = ''0123456789ABCDEF''"

text \<open>An \<open>int\<close> has 32 bits. The least one is its own negation, so that the recursion does not end.\<close>

partial_function (option) as_hexadecimal :: "32 word \<Rightarrow> string option" where
  "as_hexadecimal i =
     (if sint i < 0 then do { s \<leftarrow> as_hexadecimal (- i); Some (''-'' @ s) }
      else if sint i < 16 then Some [hex_string ! unat (i AND 15)]
      else do { s \<leftarrow> as_hexadecimal (signed_drop_bit 4 i); Some (s @ [hex_string ! unat (i AND 15)]) })"

text \<open>\<open>as_hexadecimal (i, len)\<close>; it recurses forever for a length below 1.\<close>

fun as_hexadecimal_len :: "int \<Rightarrow> nat \<Rightarrow> string option" where
  "as_hexadecimal_len i 0 = None"
| "as_hexadecimal_len i (Suc 0) = Some [hex_string ! nat (i mod 16)]"
| "as_hexadecimal_len i (Suc (Suc len)) =
     map_option (\<lambda>r. r @ [hex_string ! nat (i mod 16)]) (as_hexadecimal_len (i div 16) (Suc len))"

text \<open>Too many digits wrap around.\<close>

definition hex_digit :: "char \<Rightarrow> 32 word" where
  "hex_digit c =
     (if is_digit c then word_of_nat (code c) - word_of_nat (code CHR ''0'') else 0) +
     (if between CHR ''A'' c CHR ''F'' then word_of_nat (code c) + 10 - word_of_nat (code CHR ''A'') else 0) +
     (if between CHR ''a'' c CHR ''f'' then word_of_nat (code c) + 10 - word_of_nat (code CHR ''a'') else 0)"

fun from_hexadecimal :: "string \<Rightarrow> 32 word" where
  "from_hexadecimal [] = 0"
| "from_hexadecimal (c # s) =
     (if c = CHR ''-'' then - from_hexadecimal s
      else foldl (\<lambda>res d. push_bit 4 res + hex_digit d) 0 (c # s))"

section \<open>The internal encoding\<close>

definition tm_encode :: "string \<Rightarrow> string" where
  "tm_encode s =
     concat (map (\<lambda>c. if c = CHR ''<'' then ''<less>'' else if c = CHR ''>'' then ''<gtr>'' else [c]) s)"

text \<open>
  The token that starts at a \<open><\<close>, up to and with the next \<open>>\<close> if there is one; the argument
  is the string behind the \<open><\<close>.
\<close>

definition bracket_body :: "string \<Rightarrow> string" where
  "bracket_body cs = takeWhile (\<lambda>c. c \<noteq> CHR ''>'') cs"

definition bracket_closed :: "string \<Rightarrow> bool" where
  "bracket_closed cs \<longleftrightarrow> length (bracket_body cs) < length cs"

function tm_decode_loop :: "string \<Rightarrow> string \<Rightarrow> string" where
  "tm_decode_loop [] r = r"
| "tm_decode_loop (c # cs) r =
     (if c = CHR ''<'' then
        let body = bracket_body cs;
            closed = bracket_closed cs;
            tok = c # body @ (if closed then ''>'' else []);
            r = (if tok = ''<less>'' then r @ ''<''
                 else if tok = ''<gtr>'' then r @ ''>''
                 else if length tok = 7 \<and> tok ! 1 = CHR ''#'' \<and> last tok = CHR ''>'' then r @ tok
                 else r)
        in if \<not> closed then r else tm_decode_loop (drop (Suc (length body)) cs) r
      else if c \<noteq> CHR ''>'' then tm_decode_loop cs (r @ [c])
      else tm_decode_loop cs r)"
  by pat_completeness auto

termination
  by (relation "measure (\<lambda>(s, r). length s)") (auto simp: less_Suc_eq_le)

definition tm_decode :: "string \<Rightarrow> string" where
  "tm_decode s = tm_decode_loop s []"

function tm_var_encode :: "string \<Rightarrow> string" where
  "tm_var_encode [] = []"
| "tm_var_encode (c # cs) =
     (if c = CHR ''<'' then
        if cs \<noteq> [] \<and> hd cs = CHR ''#'' then
          c # bracket_body cs @ (if bracket_closed cs then ''>'' else []) @
          tm_var_encode (drop (Suc (length (bracket_body cs))) cs)
        else ''<less>'' @ tm_var_encode cs
      else if c = CHR ''>'' then ''<gtr>'' @ tm_var_encode cs
      else c # tm_var_encode cs)"
  by pat_completeness auto

termination
  by (relation "measure length") (auto simp: less_Suc_eq_le)

function tm_correct :: "string \<Rightarrow> string" where
  "tm_correct [] = []"
| "tm_correct (c # cs) =
     (if c = CHR ''<'' then
        let body = bracket_body cs; flag = list_all (\<lambda>d. d \<noteq> CHR ''<'') body in
        if \<not> bracket_closed cs then []
        else (if flag then c # body @ ''>'' else []) @ tm_correct (drop (Suc (length body)) cs)
      else if c \<noteq> CHR ''>'' then c # tm_correct cs
      else tm_correct cs)"
  by pat_completeness auto

termination
  by (relation "measure length") (auto simp: less_Suc_eq_le)

declare tm_decode_loop.simps [simp del] tm_var_encode.simps [simp del] tm_correct.simps [simp del]

text \<open>\<open>tm_char_forwards\<close> and \<open>tm_char_backwards\<close> at a position in range.\<close>

function skip_to_gt :: "string \<Rightarrow> nat \<Rightarrow> nat" where
  "skip_to_gt s pos =
     (if pos < length s \<and> s ! pos \<noteq> CHR ''>'' then skip_to_gt s (Suc pos) else pos)"
  by pat_completeness auto

termination
  by (relation "measure (\<lambda>(s, pos). length s - pos)") auto

declare skip_to_gt.simps [simp del]

definition tm_next :: "string \<Rightarrow> nat \<Rightarrow> nat" where
  "tm_next s pos =
     (if pos = length s then pos
      else if s ! pos \<noteq> CHR ''<'' then Suc pos
      else let pos = skip_to_gt s pos in if pos < length s then Suc pos else pos)"

fun back_to_lt :: "string \<Rightarrow> nat \<Rightarrow> nat" where
  "back_to_lt s 0 = 0"
| "back_to_lt s (Suc pos) = (if s ! pos \<noteq> CHR ''<'' then back_to_lt s pos else Suc pos)"

definition tm_prev :: "string \<Rightarrow> nat \<Rightarrow> nat" where
  "tm_prev s pos =
     (if pos = 0 then pos
      else if s ! (pos - 1) \<noteq> CHR ''>'' then pos - 1
      else let pos = back_to_lt s pos in if pos > 0 then pos - 1 else pos)"

text \<open>The operations themselves, with the assertion on the position.\<close>

definition tm_char_forwards :: "string \<Rightarrow> int \<Rightarrow> int option" where
  "tm_char_forwards s pos =
     (if 0 \<le> pos \<and> pos \<le> int (length s) then Some (int (tm_next s (nat pos))) else None)"

definition tm_char_backwards :: "string \<Rightarrow> int \<Rightarrow> int option" where
  "tm_char_backwards s pos =
     (if 0 \<le> pos \<and> pos \<le> int (length s) then Some (int (tm_prev s (nat pos))) else None)"

definition tm_char_next :: "string \<Rightarrow> int \<Rightarrow> int option" where
  "tm_char_next s pos = tm_char_forwards s pos"

definition tm_char_previous :: "string \<Rightarrow> int \<Rightarrow> int option" where
  "tm_char_previous s pos = tm_char_backwards s pos"

lemma skip_to_gt_bounds:
  "pos \<le> length s \<Longrightarrow> pos \<le> skip_to_gt s pos \<and> skip_to_gt s pos \<le> length s"
proof (induction s pos rule: skip_to_gt.induct)
  case (1 s pos)
  then show ?case
    by (cases "pos < length s \<and> s ! pos \<noteq> CHR ''>''") (auto simp: skip_to_gt.simps[of s pos])
qed

lemma skip_to_gt_less: "pos < length s \<Longrightarrow> s ! pos \<noteq> CHR ''>'' \<Longrightarrow> pos < skip_to_gt s pos"
  using skip_to_gt_bounds[of "Suc pos" s] by (simp add: skip_to_gt.simps[of s pos])

lemma tm_next_bounds: "pos < length s \<Longrightarrow> pos < tm_next s pos \<and> tm_next s pos \<le> length s"
  using skip_to_gt_bounds[of pos s] skip_to_gt_less[of pos s] by (auto simp: tm_next_def Let_def)

definition tm_forward_access :: "string \<Rightarrow> nat \<Rightarrow> string" where
  "tm_forward_access s k =
     (let start = (tm_next s ^^ k) 0 in substr s (int start) (int (tm_next s start)))"

definition tm_backward_access :: "string \<Rightarrow> nat \<Rightarrow> string" where
  "tm_backward_access s k =
     (let fin = (tm_prev s ^^ k) (length s) in substr s (int (tm_prev s fin)) (int fin))"

function tm_length_loop :: "string \<Rightarrow> nat \<Rightarrow> nat \<Rightarrow> nat" where
  "tm_length_loop s pos i =
     (if pos < length s then tm_length_loop s (tm_next s pos) (Suc i) else i)"
  by pat_completeness auto

termination
  by (relation "measure (\<lambda>(s, pos, i). length s - pos)") (auto dest: tm_next_bounds)

definition tm_string_length :: "string \<Rightarrow> nat" where
  "tm_string_length s = tm_length_loop s 0 0"

function tm_tokenize_loop :: "string \<Rightarrow> nat \<Rightarrow> string list \<Rightarrow> string list" where
  "tm_tokenize_loop s pos r =
     (if pos < length s
      then tm_tokenize_loop s (tm_next s pos) (r @ [substr s (int pos) (int (tm_next s pos))])
      else r)"
  by pat_completeness auto

termination
  by (relation "measure (\<lambda>(s, pos, r). length s - pos)") (auto dest: tm_next_bounds)

declare tm_length_loop.simps [simp del] tm_tokenize_loop.simps [simp del]

definition tm_tokenize :: "string \<Rightarrow> string list" where
  "tm_tokenize s = tm_tokenize_loop s 0 []"

definition tm_recompose :: "string list \<Rightarrow> string" where
  "tm_recompose a = concat a"

function unicode_loop :: "string \<Rightarrow> nat \<Rightarrow> bool" where
  "unicode_loop s i =
     (if i + 1 < length s then
        if s ! i = CHR ''<'' \<and> s ! (i + 1) = CHR ''#'' then True else unicode_loop s (tm_next s i)
      else False)"
  by pat_completeness auto

termination
  by (relation "measure (\<lambda>(s, i). length s - i)") (auto dest: tm_next_bounds[rotated] simp: tm_next_bounds diff_less_mono2)

definition contains_unicode_char :: "string \<Rightarrow> bool" where
  "contains_unicode_char s = unicode_loop s 0"

section \<open>Quoting\<close>

text \<open>The double quote is \<open>0x22\<close>, the backslash is \<open>0x5C\<close>.\<close>

definition is_quoted :: "string \<Rightarrow> bool" where
  "is_quoted s \<longleftrightarrow> length s \<ge> 2 \<and> hd s = CHR 0x22 \<and> last s = CHR 0x22"

definition scm_quote :: "string \<Rightarrow> string" where
  "scm_quote s =
     CHR 0x22 # concat (map (\<lambda>c. if c = CHR 0x22 \<or> c = CHR 0x5C then [CHR 0x5C, c] else [c]) s) @
     [CHR 0x22]"

text \<open>
  The loop of \<open>scm_unquote\<close> on the part from \<open>i\<close> on, with the closing quote; an escaped quote
  counts only if it is not the closing one.
\<close>

fun unquote_loop :: "string \<Rightarrow> string" where
  "unquote_loop (c # d # s) =
     (if c = CHR 0x5C \<and> (d = CHR 0x5C \<or> (d = CHR 0x22 \<and> s \<noteq> []))
      then d # unquote_loop s else c # unquote_loop (d # s))"
| "unquote_loop s = []"

definition scm_unquote :: "string \<Rightarrow> string" where
  "scm_unquote s = (if is_quoted s then unquote_loop (tl s) else s)"

definition raw_quote :: "string \<Rightarrow> string" where
  "raw_quote s = [CHR 0x22] @ s @ [CHR 0x22]"

definition raw_unquote :: "string \<Rightarrow> string" where
  "raw_unquote s = (if is_quoted s then substr s 1 (int (length s) - 1) else s)"

definition escape_sh :: "string \<Rightarrow> string" where
  "escape_sh s =
     concat (map (\<lambda>c. if c \<in> set ''()<>?&$ '' \<or> c = CHR 0x60 \<or> c = CHR 0x22 \<or> c = CHR 0x5C
                      then [CHR 0x5C, c] else if c = CHR 0x0A then [CHR 0x5C, CHR ''n''] else [c]) s)"

definition escape_spaces :: "string \<Rightarrow> string" where
  "escape_spaces s = concat (map (\<lambda>c. if c = CHR '' '' then [CHR 0x5C, c] else [c]) s)"

definition dos_to_better :: "string \<Rightarrow> string" where
  "dos_to_better s = filter (\<lambda>c. c \<noteq> CHR 0x0D) s"

fun unescape_hex_bytes :: "string \<Rightarrow> string" where
  "unescape_hex_bytes (c # x # h # l # s) =
     (if c = CHR 0x5C \<and> x = CHR ''x'' \<and> is_hex_digit h \<and> is_hex_digit l
      then char_of (unat (from_hexadecimal [h, l])) # unescape_hex_bytes s
      else c # unescape_hex_bytes (x # h # l # s))"
| "unescape_hex_bytes s = s"

section \<open>Cases and encodings\<close>

lemma code_less [simp]: "code c < 256"
  by (simp add: code_def)

lemma code_char_of [simp]: "n < 256 \<Longrightarrow> code (char_of n) = n"
  by (simp add: code_def)

lemma char_of_code [simp]: "char_of (code c) = c"
  by (simp add: code_def)

lemma code_letters:
  "code CHR ''a'' = 97" "code CHR ''z'' = 122" "code CHR ''A'' = 65" "code CHR ''Z'' = 90"
  by (simp_all add: code_def)

lemma iso_case_codes:
  "is_iso_locase c \<longleftrightarrow> (97 \<le> code c \<and> code c \<le> 122) \<or> (160 \<le> code c \<and> code c < 189) \<or> 224 \<le> code c"
  "is_iso_upcase c \<longleftrightarrow> (65 \<le> code c \<and> code c \<le> 90) \<or> (128 \<le> code c \<and> code c < 159) \<or>
     (192 \<le> code c \<and> code c < 224)"
  by (simp_all add: is_iso_locase_def is_iso_upcase_def between_def code_letters)

text \<open>Every small letter has a capital from which it is recovered.\<close>

lemma locase_upcase:
  assumes "is_iso_locase c"
  shows "is_iso_upcase (upcase c)" "locase (upcase c) = c"
proof -
  have ge: "32 \<le> code c"
    using assms by (auto simp: iso_case_codes)
  have up: "upcase c = char_of (code c - 32)"
    using assms by (simp add: upcase_def)
  have code: "code (upcase c) = code c - 32"
    unfolding up by (rule code_char_of) (use code_less[of c] in linarith)
  then show upper: "is_iso_upcase (upcase c)"
    using assms ge code_less[of c] unfolding iso_case_codes by linarith
  show "locase (upcase c) = c"
    using upper code ge by (simp add: locase_def)
qed

lemma locase_all_upcase_all: "list_all is_iso_locase s \<Longrightarrow> locase_all (upcase_all s) = s"
proof (induction s)
  case (Cons c s)
  then have "is_iso_locase c" by simp
  from locase_upcase[OF this] Cons show ?case
    by (simp add: locase_all_def upcase_all_def upcase_def locase_def)
qed (simp add: locase_all_def upcase_all_def)

lemma string_union_set: "set (string_union s1 s2) = set s1 \<union> set s2"
  by (auto simp: string_union_def string_minus_def list_ex_iff)

text \<open>
  The table for Latin 2 has 135 entries instead of 128, since seven of its characters take more
  than one byte in the source file. From the eighth symbol on every entry is displaced: capital A
  with acute, which has the same code in both encodings, is turned into another character.
\<close>

lemma il2_table_displaced:
  "length il2_to_cork_string = 135" "length cork_to_il2_string = 128"
  "cork_to_il2 [CHR 0xC1] = [CHR 0xC1]" "il2_to_cork [CHR 0xC1] = [CHR 0xB4]"
  by code_simp+

section \<open>Tokens\<close>

lemma tm_decode_loop_char:
  "tm_decode_loop ((if c = CHR ''<'' then ''<less>'' else if c = CHR ''>'' then ''<gtr>'' else [c]) @ cs) r
     = tm_decode_loop cs (r @ [c])"
  by (simp add: tm_decode_loop.simps bracket_body_def bracket_closed_def)

lemma tm_decode_encode_append: "tm_decode_loop (tm_encode s @ cs) r = tm_decode_loop cs (r @ s)"
  by (induction s arbitrary: r)
    (simp_all add: tm_encode_def tm_decode_loop_char del: append_Cons append_Nil, simp_all)

lemma tm_tokenize_loop_concat:
  "pos \<le> length s \<Longrightarrow> concat (tm_tokenize_loop s pos r) = concat r @ drop pos s"
proof (induction s pos r rule: tm_tokenize_loop.induct)
  case (1 s pos r)
  show ?case
  proof (cases "pos < length s")
    case True
    note b = tm_next_bounds[OF True]
    have "substr s (int pos) (int (tm_next s pos)) = take (tm_next s pos - pos) (drop pos s)"
      using b True by (simp add: substr_def nat_diff_distrib)
    moreover have "take (tm_next s pos - pos) (drop pos s) @ drop (tm_next s pos) s = drop pos s"
      using b by (metis append_take_drop_id drop_drop le_add_diff_inverse2 less_imp_le_nat)
    ultimately show ?thesis
      using 1(1)[OF True] b True by (subst tm_tokenize_loop.simps) simp
  next
    case False
    then show ?thesis
      using 1(2) by (subst tm_tokenize_loop.simps) simp
  qed
qed

lemma tm_tokenize_loop_length:
  "pos \<le> length s \<Longrightarrow> length (tm_tokenize_loop s pos r) = tm_length_loop s pos (length r)"
proof (induction s pos r rule: tm_tokenize_loop.induct)
  case (1 s pos r)
  then show ?case
    using tm_next_bounds[of pos s]
    by (cases "pos < length s"; subst tm_tokenize_loop.simps; subst tm_length_loop.simps) simp_all
qed

lemma tm_tokenize_loop_nonempty:
  "pos \<le> length s \<Longrightarrow> [] \<notin> set r \<Longrightarrow> [] \<notin> set (tm_tokenize_loop s pos r)"
proof (induction s pos r rule: tm_tokenize_loop.induct)
  case (1 s pos r)
  show ?case
  proof (cases "pos < length s")
    case True
    note b = tm_next_bounds[OF True]
    then have "substr s (int pos) (int (tm_next s pos)) \<noteq> []"
      using True by (simp add: substr_def)
    then show ?thesis
      using 1(1)[OF True] 1(3) b True by (subst tm_tokenize_loop.simps) simp
  next
    case False
    then show ?thesis
      using 1(3) by (subst tm_tokenize_loop.simps) simp
  qed
qed

text \<open>A token of a well-formed string: an ordinary character or a name in brackets.\<close>

definition plain_char :: "char \<Rightarrow> bool" where
  "plain_char c \<longleftrightarrow> c \<noteq> CHR ''<'' \<and> c \<noteq> CHR ''>''"

inductive token :: "string \<Rightarrow> bool" where
  char: "plain_char c \<Longrightarrow> token [c]"
| name: "list_all plain_char body \<Longrightarrow> token (CHR ''<'' # body @ [CHR ''>''])"

inductive_cases tokenE: "token t"

definition well_formed :: "string \<Rightarrow> bool" where
  "well_formed s \<longleftrightarrow> (\<exists>ts. s = concat ts \<and> list_all token ts)"

lemma skip_to_gt_body:
  "list_all plain_char body \<Longrightarrow>
   skip_to_gt (pre @ body @ CHR ''>'' # post) (length pre) = length pre + length body"
proof (induction body arbitrary: pre)
  case Nil
  then show ?case by (subst skip_to_gt.simps) simp
next
  case (Cons c body)
  then show ?case
    using Cons.IH[of "pre @ [c]"] by (subst skip_to_gt.simps) (simp add: plain_char_def nth_append)
qed

lemma tm_next_token: "token t \<Longrightarrow> tm_next (pre @ t @ post) (length pre) = length pre + length t"
proof (erule tokenE)
  fix body
  assume t: "t = CHR ''<'' # body @ [CHR ''>'']" and body: "list_all plain_char body"
  have "skip_to_gt (pre @ t @ post) (length pre) = length pre + 1 + length body"
    using skip_to_gt_body[OF body, of "pre @ ''<''" post]
    by (subst skip_to_gt.simps) (simp add: t nth_append)
  then show ?thesis
    by (simp add: tm_next_def Let_def t nth_append)
qed (simp add: tm_next_def plain_char_def nth_append)

lemma back_to_lt_body:
  "list_all plain_char body \<Longrightarrow>
   back_to_lt (pre @ CHR ''<'' # body @ post) (length pre + 1 + length body) = length pre + 1"
proof (induction body arbitrary: post rule: rev_induct)
  case (snoc c body)
  then show ?case
    using snoc.IH[of "c # post"] by (simp add: plain_char_def nth_append)
qed (simp add: nth_append)

lemma tm_prev_token: "token t \<Longrightarrow> tm_prev (pre @ t @ post) (length pre + length t) = length pre"
proof (erule tokenE)
  fix body
  assume t: "t = CHR ''<'' # body @ [CHR ''>'']" and body: "list_all plain_char body"
  have "back_to_lt (pre @ t @ post) (length pre + length t) = length pre + 1"
    using back_to_lt_body[OF body, of pre "CHR ''>'' # post"] by (simp add: t nth_append)
  then show ?thesis
    by (simp add: tm_prev_def Let_def t nth_append)
qed (simp add: tm_prev_def plain_char_def nth_append)

lemma tm_tokenize_loop_tokens:
  "list_all token ts \<Longrightarrow>
   tm_tokenize_loop (pre @ concat ts) (length pre) r = r @ ts"
proof (induction ts arbitrary: pre r)
  case Nil
  then show ?case by (subst tm_tokenize_loop.simps) simp
next
  case (Cons t ts)
  then have t: "token t" by simp
  then have "t \<noteq> []" by (auto elim: tokenE)
  then show ?case
    using Cons tm_next_token[OF t, of pre "concat ts"] Cons.IH[of "pre @ t"]
    by (subst tm_tokenize_loop.simps) (simp add: substr_slice substr_def)
qed

lemma well_formed_Nil: "well_formed []"
  unfolding well_formed_def by (intro exI[of _ "[]"]) simp

lemma well_formed_token: "token t \<Longrightarrow> well_formed s \<Longrightarrow> well_formed (t @ s)"
proof -
  assume "token t" "well_formed s"
  then obtain ts where "s = concat ts" "list_all token ts"
    unfolding well_formed_def by blast
  then show "well_formed (t @ s)"
    unfolding well_formed_def using \<open>token t\<close> by (intro exI[of _ "t # ts"]) simp
qed

lemma bracket_body_plain:
  "list_all (\<lambda>d. d \<noteq> CHR ''<'') (bracket_body cs) \<Longrightarrow> list_all plain_char (bracket_body cs)"
  by (auto simp: list_all_iff plain_char_def bracket_body_def dest: set_takeWhileD)

lemma tm_correct_well_formed: "well_formed (tm_correct s)"
proof (induction s rule: tm_correct.induct)
  case 1
  then show ?case by (simp add: tm_correct.simps well_formed_Nil)
next
  case (2 c cs)
  consider (lt) "c = CHR ''<''" | (gt) "c = CHR ''>''" | (plain) "plain_char c"
    by (auto simp: plain_char_def)
  then show ?case
  proof cases
    case lt
    let ?body = "bracket_body cs"
    show ?thesis
    proof (cases "bracket_closed cs")
      case True
      then have "well_formed (tm_correct (drop (Suc (length ?body)) cs))"
        using 2(1)[OF lt refl refl] by simp
      then show ?thesis
        using lt True bracket_body_plain[of cs] well_formed_token[OF token.name[of ?body]]
        by (simp add: tm_correct.simps(2) Let_def)
    qed (simp add: lt tm_correct.simps(2) well_formed_Nil Let_def)
  next
    case gt
    then show ?thesis
      using 2(3) by (simp add: tm_correct.simps(2))
  next
    case plain
    then show ?thesis
      using 2(2) well_formed_token[OF token.char[OF plain]]
      by (simp add: tm_correct.simps(2) plain_char_def)
  qed
qed

lemma tm_correct_token: "token t \<Longrightarrow> tm_correct (t @ s) = t @ tm_correct s"
proof (erule tokenE)
  fix body
  assume t: "t = CHR ''<'' # body @ [CHR ''>'']" and body: "list_all plain_char body"
  then have "bracket_body (body @ CHR ''>'' # s) = body"
    by (auto simp: bracket_body_def list_all_iff plain_char_def takeWhile_append2)
  then show ?thesis
    using body by (auto simp: t tm_correct.simps(2) Let_def bracket_closed_def plain_char_def list_all_iff)
qed (simp add: tm_correct.simps(2) plain_char_def)

lemma tm_correct_tokens: "list_all token ts \<Longrightarrow> tm_correct (concat ts) = concat ts"
  by (induction ts) (simp_all add: tm_correct.simps(1) tm_correct_token)

lemma tm_encode_well_formed: "well_formed (tm_encode s)"
proof (induction s)
  case (Cons c s)
  have "token (if c = CHR ''<'' then ''<less>'' else if c = CHR ''>'' then ''<gtr>'' else [c])"
    using token.name[of "''less''"] token.name[of "''gtr''"] token.char[of c]
    by (simp add: plain_char_def)
  from well_formed_token[OF this Cons] show ?case
    by (simp add: tm_encode_def)
qed (simp add: tm_encode_def well_formed_Nil)

section \<open>Quotation and numbers are read back\<close>

definition quoted_char :: "char \<Rightarrow> string" where
  "quoted_char c = (if c = CHR 0x22 \<or> c = CHR 0x5C then [CHR 0x5C, c] else [c])"

lemma unquote_quoted_char: "t \<noteq> [] \<Longrightarrow> unquote_loop (quoted_char c @ t) = c # unquote_loop t"
  by (cases t) (auto simp: quoted_char_def)

lemma unquote_quote: "unquote_loop (concat (map quoted_char s) @ [CHR 0x22]) = s"
  by (induction s) (simp_all add: unquote_quoted_char)

lemma scm_unquote_quote: "scm_unquote (scm_quote s) = s"
  using unquote_quote[of s]
  by (simp add: scm_unquote_def scm_quote_def is_quoted_def quoted_char_def[abs_def])

lemma raw_unquote_quote: "raw_unquote (raw_quote s) = s"
  by (simp add: raw_unquote_def raw_quote_def is_quoted_def substr_slice)

text \<open>The value of a word over the letters a to z as a number in bijective base 26.\<close>

definition alpha_value :: "string \<Rightarrow> int" where
  "alpha_value s = foldl (\<lambda>v c. v * 26 + (int (code c) - 96)) 0 s"

lemma alpha_value_snoc: "alpha_value (s @ [c]) = alpha_value s * 26 + (int (code c) - 96)"
  by (simp add: alpha_value_def)

lemma alpha_nr_value: "0 < nr \<Longrightarrow> alpha_value (alpha_nr nr) = nr"
proof (induction nr rule: alpha_nr.induct)
  case (1 nr)
  have letter: "alpha_nr k = [char_of (96 + nat k)]" "code (char_of (96 + nat k)) = 96 + nat k"
    if k: "0 < k" "k \<le> 26" for k
  proof -
    have "code CHR ''a'' + nat k - 1 = 96 + nat k"
      by (simp add: code_letters)
    then show "alpha_nr k = [char_of (96 + nat k)]"
      using k by (subst alpha_nr.simps) simp
    show "code (char_of (96 + nat k)) = 96 + nat k"
      using k by (intro code_char_of) simp
  qed
  show ?case
  proof (cases "nr \<le> 26")
    case True
    then show ?thesis
      using 1(4) letter[of nr] by (simp add: alpha_value_def)
  next
    case False
    let ?r = "(nr - 1) mod 26 + 1"
    have r: "0 < ?r" "?r \<le> 26"
      using pos_mod_bound[of 26 "nr - 1"] pos_mod_sign[of 26 "nr - 1"] by linarith+
    have "alpha_nr nr = alpha_nr ((nr - 1) div 26) @ alpha_nr ?r"
      using False 1(4) by (subst alpha_nr.simps) simp
    moreover have "alpha_value (alpha_nr ((nr - 1) div 26)) = (nr - 1) div 26"
      using False 1(2,4) by auto
    ultimately show ?thesis
      using letter[OF r] r div_mult_mod_eq[of "nr - 1" 26] by (simp add: alpha_value_snoc)
  qed
qed

lemma hex_value: "n < 16 \<Longrightarrow> hex_digit (hex_string ! n) = word_of_nat n \<and> hex_string ! n \<noteq> CHR ''-''"
proof -
  have "list_all (\<lambda>n. hex_digit (hex_string ! n) = word_of_nat n \<and> hex_string ! n \<noteq> CHR ''-'') [0..<16]"
    by code_simp
  then show "n < 16 \<Longrightarrow> hex_digit (hex_string ! n) = word_of_nat n \<and> hex_string ! n \<noteq> CHR ''-''"
    by (simp add: list_all_iff)
qed

lemma int32_of_nat:
  assumes "n < 2 ^ 31"
  shows "sint (word_of_nat n :: 32 word) = int n" and "unat (word_of_nat n AND 15 :: 32 word) = n mod 16"
    and "signed_drop_bit 4 (word_of_nat n :: 32 word) = word_of_nat (n div 16)"
proof -
  have s: "sint (word_of_nat m :: 32 word) = int m" if "m < 2 ^ 31" for m
  proof -
    have "signed_take_bit 31 (int m) = int m"
      by (rule signed_take_bit_int_eq_self) (use that in simp_all)
    then show ?thesis
      by (simp add: signed_of_nat)
  qed
  show "sint (word_of_nat n :: 32 word) = int n"
    by (rule s[OF assms])
  have "unat (word_of_nat n :: 32 word) = n"
    using assms by (simp add: unat_of_nat)
  moreover have "n AND 15 = n mod 16"
    using take_bit_eq_mask[of 4 n] by (simp add: take_bit_eq_mod mask_eq_exp_minus_1)
  ultimately show "unat (word_of_nat n AND 15 :: 32 word) = n mod 16"
    by (simp add: unsigned_and_eq)
  have "sint (signed_drop_bit 4 (word_of_nat n :: 32 word)) = int n div 16"
    by (simp add: sint_signed_drop_bit_eq s[OF assms] drop_bit_eq_div)
  also have "\<dots> = sint (word_of_nat (n div 16) :: 32 word)"
    using s[of "n div 16"] assms by (simp add: zdiv_int)
  finally show "signed_drop_bit 4 (word_of_nat n :: 32 word) = word_of_nat (n div 16)"
    by (rule signed_word_eqI)
qed

lemma least32: "sint (push_bit 31 1 :: 32 word) = - (2 ^ 31)" "- push_bit 31 1 = (push_bit 31 1 :: 32 word)"
  by code_simp+

lemma int32_cases:
  obtains (nonneg) n where "i = word_of_nat n" "n < 2 ^ 31"
    | (neg) n where "i = - word_of_nat n" "n < 2 ^ 31" "sint i < 0" "i \<noteq> push_bit 31 1"
    | (least) "i = push_bit 31 (1 :: 32 word)"
proof -
  have b: "- (2 ^ 31) \<le> sint i" "sint i < 2 ^ 31"
    using sint_greater_eq[of i] sint_less[of i] by simp_all
  have i: "word_of_int (sint i) = i"
    by simp
  consider "0 \<le> sint i" | "sint i < 0" "sint i \<noteq> - (2 ^ 31)" | "sint i = - (2 ^ 31)"
    by linarith
  then show thesis
  proof cases
    case 1
    then have "i = word_of_nat (nat (sint i))"
      using i by (metis of_int_of_nat_eq int_nat_eq)
    then show thesis
      using nonneg[of "nat (sint i)"] 1 b by (simp add: nat_less_iff)
  next
    case 2
    then have "int (nat (- sint i)) = - sint i"
      by simp
    then have "i = - word_of_nat (nat (- sint i))"
      using i by (metis of_int_of_nat_eq of_int_minus minus_minus)
    moreover have "nat (- sint i) < 2 ^ 31" "i \<noteq> push_bit 31 1"
      using 2 b least32 by (auto simp: nat_less_iff)
    ultimately show thesis
      using neg[of "nat (- sint i)"] 2 by blast
  next
    case 3
    then show thesis
      using least32(1) by (intro least signed_word_eqI) simp
  qed
qed

lemma as_hexadecimal_digits:
  "n < 2 ^ 31 \<Longrightarrow> \<exists>c s. as_hexadecimal (word_of_nat n) = Some (c # s) \<and> c \<noteq> CHR ''-'' \<and>
     foldl (\<lambda>res d. push_bit 4 res + hex_digit d) 0 (c # s) = word_of_nat n"
proof (induction n rule: less_induct)
  case (less n)
  note w = int32_of_nat[OF less.prems]
  have d: "hex_digit (hex_string ! (n mod 16)) = word_of_nat (n mod 16)" "hex_string ! (n mod 16) \<noteq> CHR ''-''"
    using hex_value[of "n mod 16"] by simp_all
  show ?case
  proof (cases "n < 16")
    case True
    then show ?thesis
      using d w by (simp add: as_hexadecimal.simps[of "word_of_nat n"])
  next
    case False
    then obtain c s where c: "as_hexadecimal (word_of_nat (n div 16)) = Some (c # s)" "c \<noteq> CHR ''-''"
      "foldl (\<lambda>res d. push_bit 4 res + hex_digit d) 0 (c # s) = word_of_nat (n div 16)"
      using less.IH[of "n div 16"] less.prems by fastforce
    have "push_bit 4 (word_of_nat (n div 16)) + word_of_nat (n mod 16) = (word_of_nat (n div 16 * 16 + n mod 16) :: 32 word)"
      by (simp only: of_nat_add of_nat_mult) (simp add: push_bit_eq_mult)
    then have "push_bit 4 (word_of_nat (n div 16)) + word_of_nat (n mod 16) = (word_of_nat n :: 32 word)"
      by simp
    then show ?thesis
      using c d(1) w False by (simp add: as_hexadecimal.simps[of "word_of_nat n"])
  qed
qed

lemma as_hexadecimal_neg: "sint i < 0 \<Longrightarrow> as_hexadecimal i = do { s \<leftarrow> as_hexadecimal (- i); Some (''-'' @ s) }"
  by (subst as_hexadecimal.simps) simp

lemma as_hexadecimal_least: "as_hexadecimal (push_bit 31 1) = None"
proof -
  have "as_hexadecimal (push_bit 31 1) = do { s \<leftarrow> as_hexadecimal (push_bit 31 1); Some (''-'' @ s) }"
    by (rule as_hexadecimal_neg[of "push_bit 31 1", unfolded least32(2)]) (subst least32(1), simp)
  then show ?thesis
    by (cases "as_hexadecimal (push_bit 31 1)") auto
qed

lemma from_hexadecimal_as_hexadecimal:
  "map_option from_hexadecimal (as_hexadecimal i) = (if i = push_bit 31 1 then None else Some i)"
proof (cases i rule: int32_cases)
  case (nonneg n)
  then have "i \<noteq> push_bit 31 1"
    using int32_of_nat(1)[OF nonneg(2)] least32(1) by auto
  then show ?thesis
    using as_hexadecimal_digits[OF nonneg(2)] nonneg(1) by auto
next
  case (neg n)
  then have "- i = word_of_nat n"
    by simp
  then show ?thesis
    using as_hexadecimal_digits[OF neg(2)] as_hexadecimal_neg[OF neg(3)] neg(1, 4) by auto
next
  case least
  then show ?thesis
    using as_hexadecimal_least by simp
qed

section \<open>Properties\<close>

text \<open>
  Claim C38. Verbatim text survives the internal encoding: \<open>tm_decode\<close> gives back every string
  that \<open>tm_encode\<close> encoded, with all its angle brackets, and the encoded string is well formed.
  Scheme quotation and the hexadecimal form of a 32-bit integer are read back as well, except that
  \<open>as_hexadecimal\<close> does not return for the least integer, which is its own negation.
\<close>

theorem text_roundtrips:
  "tm_decode (tm_encode s) = s \<and> well_formed (tm_encode s) \<and>
   scm_unquote (scm_quote s) = s \<and> raw_unquote (raw_quote s) = s \<and>
   map_option from_hexadecimal (as_hexadecimal i) = (if i = push_bit 31 1 then None else Some i)"
proof (intro conjI)
  show "tm_decode (tm_encode s) = s"
    using tm_decode_encode_append[of s "[]" "[]"] by (simp add: tm_decode_def tm_decode_loop.simps)
qed (simp_all add: tm_encode_well_formed scm_unquote_quote raw_unquote_quote
      from_hexadecimal_as_hexadecimal)

text \<open>
  Tokens partition a string: whatever the string, also with unbalanced brackets,
  \<open>tm_recompose\<close> puts the tokens of \<open>tm_tokenize\<close> together to the same string, no token is
  empty, and \<open>tm_string_length\<close> counts them.
\<close>

theorem tm_tokenize_partition:
  "tm_recompose (tm_tokenize s) = s \<and> [] \<notin> set (tm_tokenize s) \<and>
   length (tm_tokenize s) = tm_string_length s"
  using tm_tokenize_loop_concat[of 0 s "[]"] tm_tokenize_loop_nonempty[of 0 s "[]"]
    tm_tokenize_loop_length[of 0 s "[]"]
  by (simp add: tm_recompose_def tm_tokenize_def tm_string_length_def)

text \<open>
  Cursor movement: on a string made of well-formed tokens, \<open>tm_char_forwards\<close> goes
  from the start of each token to its end and \<open>tm_char_backwards\<close> goes back from there, so the
  cursor never stops inside of a symbol; \<open>tm_tokenize\<close> finds exactly these tokens and
  \<open>tm_correct\<close> changes nothing, while it turns every other string into a well-formed one.
\<close>

theorem tm_movement:
  assumes "list_all token (ts @ [t] @ us)"
  shows "tm_char_forwards (concat (ts @ [t] @ us)) (int (length (concat ts))) =
      Some (int (length (concat (ts @ [t])))) \<and>
    tm_char_backwards (concat (ts @ [t] @ us)) (int (length (concat (ts @ [t])))) =
      Some (int (length (concat ts))) \<and>
    tm_tokenize (concat (ts @ [t] @ us)) = ts @ [t] @ us \<and>
    tm_correct (concat (ts @ [t] @ us)) = concat (ts @ [t] @ us) \<and>
    well_formed (tm_correct s)"
proof (intro conjI)
  have t: "token t" and all: "list_all token (ts @ t # us)"
    using assms by simp_all
  show "tm_char_forwards (concat (ts @ [t] @ us)) (int (length (concat ts))) =
      Some (int (length (concat (ts @ [t]))))"
    using tm_next_token[OF t, of "concat ts" "concat us"] by (simp add: tm_char_forwards_def)
  show "tm_char_backwards (concat (ts @ [t] @ us)) (int (length (concat (ts @ [t])))) =
      Some (int (length (concat ts)))"
    using tm_prev_token[OF t, of "concat ts" "concat us"]
    by (simp add: tm_char_backwards_def nat_add_distrib)
  show "tm_tokenize (concat (ts @ [t] @ us)) = ts @ [t] @ us"
    using tm_tokenize_loop_tokens[OF assms, of "[]" "[]"] by (simp add: tm_tokenize_def)
  show "tm_correct (concat (ts @ [t] @ us)) = concat (ts @ [t] @ us)"
    by (rule tm_correct_tokens[OF assms])
  show "well_formed (tm_correct s)"
    by (rule tm_correct_well_formed)
qed

theorem tm_movement_witness:
  "tm_char_forwards ''a<alpha>b'' 1 = Some 8 \<and> tm_char_backwards ''a<alpha>b'' 8 = Some 1"
proof -
  have "list_all token ([''a''] @ [''<alpha>''] @ [''b''])"
    using token.char[of "CHR ''a''"] token.char[of "CHR ''b''"] token.name[of "''alpha''"]
    by (simp add: plain_char_def)
  from tm_movement[OF this] show ?thesis by simp
qed

end
