(* ===== verification/Athena_Search.thy ===== *)
theory Athena_Search
  imports Athena_Text
begin

text \<open>
  Searching, splitting and comparing strings, the second half of
  \<open>src/src/Core/Text/analyze.cpp\<close>. Positions are natural numbers; the result \<open>-1\<close> of a
  search makes its type \<open>int\<close>. Loops that do not end on some input are partial functions, for
  which \<open>None\<close> is that they do not return.

  Shown: a search returns the first occurrence, \<open>recompose\<close> inverts \<open>tokenize\<close>, wildcards
  match as their specification says, and \<open>differences\<close> lists ranges outside of which the two
  strings agree.
\<close>

section \<open>Tests\<close>

text \<open>The loop of \<open>test\<close>, on the part of the string from \<open>i\<close> on.\<close>

fun test_loop :: "string \<Rightarrow> string \<Rightarrow> bool" where
  "test_loop s [] = True"
| "test_loop [] (c # t) = False"
| "test_loop (d # s) (c # t) = (if d \<noteq> c then False else test_loop s t)"

definition test :: "string \<Rightarrow> nat \<Rightarrow> string \<Rightarrow> bool" where
  "test s i t = test_loop (drop i s) t"

definition starts :: "string \<Rightarrow> string \<Rightarrow> bool" where
  "starts s what = test s 0 what"

definition ends :: "string \<Rightarrow> string \<Rightarrow> bool" where
  "ends s r =
     (if length r > length s then False
      else substr s (int (length s) - int (length r)) (int (length s)) = r)"

text \<open>\<open>read\<close> returns whether it matched, and the position behind the match.\<close>

definition read :: "string \<Rightarrow> nat \<Rightarrow> string \<Rightarrow> bool \<times> nat" where
  "read s i t = (if test_loop (drop i s) t then (True, i + length t) else (False, i))"

function line_end :: "string \<Rightarrow> nat \<Rightarrow> nat" where
  "line_end s i = (if i < length s \<and> s ! i \<noteq> CHR 0x0A then line_end s (Suc i) else i)"
  by pat_completeness auto

termination
  by (relation "measure (\<lambda>(s, i). length s - i)") auto

definition read_line :: "string \<Rightarrow> nat \<Rightarrow> bool \<times> nat \<times> string" where
  "read_line s i =
     (let e = line_end s i in
      if e < length s then (True, Suc e, substr s (int i) (int e))
      else (False, e, substr s (int i) (int e)))"

function skip_while :: "(char \<Rightarrow> bool) \<Rightarrow> string \<Rightarrow> nat \<Rightarrow> nat" where
  "skip_while P s i = (if i < length s \<and> P (s ! i) then skip_while P s (Suc i) else i)"
  by pat_completeness auto

termination
  by (relation "measure (\<lambda>(P, s, i). length s - i)") auto

declare line_end.simps [simp del] skip_while.simps [simp del]

definition read_word :: "string \<Rightarrow> nat \<Rightarrow> bool \<times> nat \<times> string" where
  "read_word s i =
     (let e = skip_while is_alpha s i in (e > i, e, substr s (int i) (int e)))"

definition is_whitespace :: "string \<Rightarrow> bool" where
  "is_whitespace s \<longleftrightarrow> list_all (\<lambda>c. c = CHR '' '' \<or> c = CHR 0x09 \<or> c = CHR 0x0A) s"

definition skip_spaces :: "string \<Rightarrow> nat \<Rightarrow> nat" where
  "skip_spaces s i = skip_while (\<lambda>c. c = CHR '' '' \<or> c = CHR 0x09) s i"

definition skip_whitespace :: "string \<Rightarrow> nat \<Rightarrow> nat" where
  "skip_whitespace s i = skip_while (\<lambda>c. c = CHR '' '' \<or> c = CHR 0x09 \<or> c = CHR 0x0A) s i"

definition skip_line :: "string \<Rightarrow> nat \<Rightarrow> nat" where
  "skip_line s i =
     (let i = skip_while (\<lambda>c. c \<noteq> CHR 0x0A) s i in if i < length s then Suc i else i)"

text \<open>\<open>for (i++; i<n; i++) if (s[i-1] == '>') break;\<close>\<close>

function symbol_end :: "string \<Rightarrow> nat \<Rightarrow> nat" where
  "symbol_end s i = (if i < length s \<and> s ! (i - 1) \<noteq> CHR ''>'' then symbol_end s (Suc i) else i)"
  by pat_completeness auto

termination
  by (relation "measure (\<lambda>(s, i). length s - i)") auto

declare symbol_end.simps [simp del]

definition skip_symbol :: "string \<Rightarrow> nat \<Rightarrow> nat" where
  "skip_symbol s i =
     (if i < length s then if s ! i = CHR ''<'' then symbol_end s (Suc i) else Suc i else i)"

text \<open>Tabs are expanded to multiples of \<open>tw\<close>; a width of 0 divides by zero.\<close>

function tabs_loop :: "string \<Rightarrow> nat \<Rightarrow> nat \<Rightarrow> nat \<Rightarrow> string \<Rightarrow> string" where
  "tabs_loop s tw i ts r =
     (if i < length s then
        if s ! i = CHR 0x09 then
          tabs_loop s tw (Suc i) (Suc i) (r @ replicate (tw - (i - ts) mod tw) (CHR '' ''))
        else if s ! i = CHR 0x0A then tabs_loop s tw (Suc i) (Suc i) (r @ [s ! i])
        else tabs_loop s tw (Suc i) ts (r @ [s ! i])
      else r)"
  by pat_completeness auto

termination
  by (relation "measure (\<lambda>(s, tw, i, ts, r). length s - i)") auto

definition convert_tabs_to_spaces :: "string \<Rightarrow> nat \<Rightarrow> string option" where
  "convert_tabs_to_spaces s tw =
     (if tw = 0 \<and> CHR 0x09 \<in> set s then None else Some (tabs_loop s tw 0 0 []))"

definition downgrade_token :: "string \<Rightarrow> string" where
  "downgrade_token ss =
     (let ss = (if starts ss ''<b-'' then ''<'' @ substr ss 3 (int (length ss)) else ss);
          ss = (if starts ss ''<up-'' then ''<'' @ substr ss 4 (int (length ss)) else ss);
          ss = (if starts ss ''<cal-'' then ''<'' @ substr ss 5 (int (length ss)) else ss);
          ss = (if starts ss ''<bbb-'' then ''<'' @ substr ss 5 (int (length ss)) else ss);
          ss = (if starts ss ''<frak-'' then ''<'' @ substr ss 6 (int (length ss)) else ss)
      in if length ss = 3 then substr ss 1 2 else ss)"

function downgrade_loop :: "string \<Rightarrow> nat \<Rightarrow> string \<Rightarrow> string" where
  "downgrade_loop s i r =
     (if i < length s then
        let start = i; i = tm_next s i in
        downgrade_loop s i
          (r @ (if i = start + 1 then [s ! start]
                else downgrade_token (substr s (int start) (int i))))
      else r)"
  by pat_completeness auto

termination
  by (relation "measure (\<lambda>(s, i, r). length s - i)") (auto dest: tm_next_bounds)

declare tabs_loop.simps [simp del] downgrade_loop.simps [simp del]

definition downgrade_math_letters :: "string \<Rightarrow> string" where
  "downgrade_math_letters s = downgrade_loop s 0 []"

section \<open>Searching\<close>

function search_loop :: "string \<Rightarrow> nat \<Rightarrow> string \<Rightarrow> int" where
  "search_loop s pos inn =
     (if pos + length s \<le> length inn then
        if inn ! pos = hd s \<and> test inn pos s then int pos else search_loop s (Suc pos) inn
      else - 1)"
  by pat_completeness auto

termination
  by (relation "measure (\<lambda>(s, pos, inn). Suc (length inn) - pos)") auto

declare search_loop.simps [simp del]

definition search_forwards :: "string \<Rightarrow> nat \<Rightarrow> string \<Rightarrow> int" where
  "search_forwards s pos inn = (if s = [] then int pos else search_loop s pos inn)"

definition occurs :: "string \<Rightarrow> string \<Rightarrow> bool" where
  "occurs what inn \<longleftrightarrow> search_forwards what 0 inn \<ge> 0"

fun search_back_loop :: "string \<Rightarrow> nat \<Rightarrow> string \<Rightarrow> int" where
  "search_back_loop s 0 inn = (if test inn 0 s then 0 else - 1)"
| "search_back_loop s (Suc pos) inn =
     (if test inn (Suc pos) s then int (Suc pos) else search_back_loop s pos inn)"

definition search_backwards :: "string \<Rightarrow> int \<Rightarrow> string \<Rightarrow> int" where
  "search_backwards s pos inn = (if pos \<ge> 0 then search_back_loop s (nat pos) inn else - 1)"

definition search_backwards_last :: "string \<Rightarrow> string \<Rightarrow> int" where
  "search_backwards_last s inn = search_backwards s (int (length inn) - int (length s)) inn"

lemma search_loop_ge: "search_loop s pos inn = - 1 \<or> int pos \<le> search_loop s pos inn"
proof (induction s pos inn rule: search_loop.induct)
  case (1 s pos inn)
  then show ?case
    by (subst (1 2) search_loop.simps) auto
qed

function count_loop :: "string \<Rightarrow> string \<Rightarrow> nat \<Rightarrow> nat \<Rightarrow> nat" where
  "count_loop s inn i count =
     (if i < length inn then
        let nxt = search_forwards s i inn in
        if nxt = - 1 then count else count_loop s inn (Suc (nat nxt)) (Suc count)
      else count)"
  by pat_completeness auto

termination
proof (relation "measure (\<lambda>(s, inn, i, count). length inn - i)")
  fix s inn :: string and i count :: nat and nxt :: int
  assume "i < length inn" "nxt = search_forwards s i inn" "nxt \<noteq> - 1"
  then have "i \<le> nat nxt"
    using search_loop_ge[of s i inn] by (auto simp: search_forwards_def split: if_splits)
  then show "((s, inn, Suc (nat nxt), Suc count), s, inn, i, count)
      \<in> measure (\<lambda>(s, inn, i, count). length inn - i)"
    using \<open>i < length inn\<close> by auto
qed simp

declare count_loop.simps [simp del]

definition count_occurrences :: "string \<Rightarrow> string \<Rightarrow> nat" where
  "count_occurrences s inn = count_loop s inn 0 0"

fun overlap_loop :: "string \<Rightarrow> string \<Rightarrow> nat \<Rightarrow> nat" where
  "overlap_loop s1 s2 0 = 0"
| "overlap_loop s1 s2 (Suc i) =
     (if substr s1 (int (length s1) - int (Suc i)) (int (length s1)) = substr s2 0 (int (Suc i))
      then Suc i else overlap_loop s1 s2 i)"

definition overlapping :: "string \<Rightarrow> string \<Rightarrow> nat" where
  "overlapping s1 s2 = overlap_loop s1 s2 (min (length s1) (length s2))"

text \<open>The searches that move by tokens; the backward one does not stop at the left end.\<close>

function tm_search_loop :: "string \<Rightarrow> nat \<Rightarrow> string \<Rightarrow> int" where
  "tm_search_loop s pos inn =
     (if pos + length s \<le> length inn \<and> s \<noteq> [] then
        if inn ! pos = hd s \<and> test inn pos s then int pos else tm_search_loop s (tm_next inn pos) inn
      else - 1)"
  by pat_completeness auto

termination
proof (relation "measure (\<lambda>(s, pos, inn). length inn - pos)")
  fix s inn :: string and pos :: nat
  assume "pos + length s \<le> length inn \<and> s \<noteq> []"
  then have "pos < length inn"
    by (cases s) auto
  then show "((s, tm_next inn pos, inn), s, pos, inn) \<in> measure (\<lambda>(s, pos, inn). length inn - pos)"
    using tm_next_bounds[of pos inn] by auto
qed simp

declare tm_search_loop.simps [simp del]

definition tm_search_forwards :: "string \<Rightarrow> nat \<Rightarrow> string \<Rightarrow> int" where
  "tm_search_forwards s pos inn = (if s = [] then int pos else tm_search_loop s pos inn)"

partial_function (option) tm_search_backwards :: "string \<Rightarrow> nat \<Rightarrow> string \<Rightarrow> nat option" where
  "tm_search_backwards s pos inn =
     (if test inn pos s then Some pos else tm_search_backwards s (tm_prev inn pos) inn)"

section \<open>Splitting\<close>

definition string_status :: "char \<Rightarrow> char" where
  "string_status c =
     (if is_numeric c then CHR ''c'' else if is_iso_alpha c then CHR ''a'' else CHR ''x'')"

function word_split_loop :: "string \<Rightarrow> nat \<Rightarrow> int \<Rightarrow> char \<Rightarrow> int" where
  "word_split_loop s i j status =
     (if i < length s \<and> j < int (length s div 2) then
        let c = s ! i in
        if is_numeric c \<and> status = CHR ''c'' \<or> is_iso_alpha c \<and> status = CHR ''a''
        then word_split_loop s (tm_next s i) j status
        else word_split_loop s (tm_next s i) (int i) (string_status c)
      else j)"
  by pat_completeness auto

termination
  by (relation "measure (\<lambda>(s, i, j, status). length s - i)") (auto dest: tm_next_bounds)

declare word_split_loop.simps [simp del]

definition tm_string_split_between_words :: "string \<Rightarrow> string list" where
  "tm_string_split_between_words s =
     (let j = word_split_loop s 0 (- 1) (CHR ''o''); n = int (length s) in
      if j > 0 \<and> j < n then [substr s 0 j, substr s j n] else [s])"

lemma tm_search_loop_range:
  "tm_search_loop s pos inn = - 1 \<or>
   (int pos \<le> tm_search_loop s pos inn \<and>
    tm_search_loop s pos inn + int (length s) \<le> int (length inn))"
proof (induction s pos inn rule: tm_search_loop.induct)
  case (1 s pos inn)
  show ?case
  proof (cases "pos + length s \<le> length inn \<and> s \<noteq> []")
    case True
    then have "pos < length inn"
      by (cases s) auto
    from tm_next_bounds[OF this] show ?thesis
      using 1[OF True] True by (subst (1 2 3) tm_search_loop.simps) auto
  next
    case False
    then have "tm_search_loop s pos inn = - 1"
      by (subst tm_search_loop.simps) auto
    then show ?thesis by simp
  qed
qed

function space_split_loop :: "string \<Rightarrow> nat \<Rightarrow> nat \<Rightarrow> nat" where
  "space_split_loop s i j =
     (if j < length s div 2 then
        let k = tm_search_forwards '' '' i s in
        if k = - 1 then j else space_split_loop s (Suc (nat k)) (nat k)
      else j)"
  by pat_completeness auto

termination
proof (relation "measure (\<lambda>(s, i, j). Suc (length s) - i)")
  fix s :: string and i j :: nat and k :: int
  assume "j < length s div 2" "k = tm_search_forwards '' '' i s" "k \<noteq> - 1"
  then have "int i \<le> k" "k + 1 \<le> int (length s)"
    using tm_search_loop_range[of "'' ''" i s] by (auto simp: tm_search_forwards_def)
  then show "((s, Suc (nat k), nat k), s, i, j) \<in> measure (\<lambda>(s, i, j). Suc (length s) - i)"
    by auto
qed simp

declare space_split_loop.simps [simp del]

definition tm_string_split_at_spaces :: "string \<Rightarrow> string list" where
  "tm_string_split_at_spaces s =
     (let j = int (space_split_loop s 0 0); n = int (length s) in
      if j < 1 \<or> j \<ge> n then [s]
      else if j = n - 1 then [substr s 0 j, substr s j n]
      else [substr s 0 j, substr s j (j + 1), substr s (j + 1) n])"

function half_loop :: "string \<Rightarrow> nat \<Rightarrow> nat" where
  "half_loop s i = (if i < length s div 2 then half_loop s (tm_next s i) else i)"
  by pat_completeness auto

termination
proof (relation "measure (\<lambda>(s, i). length s - i)")
  fix s :: string and i :: nat
  assume "i < length s div 2"
  then have "i < length s" by simp
  from tm_next_bounds[OF this] show "((s, tm_next s i), s, i) \<in> measure (\<lambda>(s, i). length s - i)"
    by auto
qed simp

declare half_loop.simps [simp del]

definition tm_string_split :: "string \<Rightarrow> string list" where
  "tm_string_split s =
     (let r = tm_string_split_at_spaces s in
      if length r > 1 then r
      else let r = tm_string_split_between_words s in
           if length r > 1 then r
           else let i = int (half_loop s 0) in [substr s 0 i, substr s i (int (length s))])"

text \<open>Replacing and splitting at a separator; an empty separator never lets the loop advance.\<close>

partial_function (option) replace_loop :: "string \<Rightarrow> string \<Rightarrow> string \<Rightarrow> nat \<Rightarrow> string \<Rightarrow> string option" where
  "replace_loop s what by i r =
     (if i < length s then
        if test s i what then replace_loop s what by (i + length what) (r @ by)
        else replace_loop s what by (i + 1) (r @ [s ! i])
      else Some r)"

definition replace :: "string \<Rightarrow> string \<Rightarrow> string \<Rightarrow> string option" where
  "replace s what by = replace_loop s what by 0 []"

partial_function (option) tokenize_loop :: "string \<Rightarrow> string \<Rightarrow> nat \<Rightarrow> nat \<Rightarrow> string list \<Rightarrow> string list option" where
  "tokenize_loop s sep i start a =
     (if i < length s then
        if test s i sep
        then tokenize_loop s sep (i + length sep) (i + length sep) (a @ [substr s (int start) (int i)])
        else tokenize_loop s sep (i + 1) start a
      else Some (a @ [substr s (int start) (int (length s))]))"

definition tokenize :: "string \<Rightarrow> string \<Rightarrow> string list option" where
  "tokenize s sep = tokenize_loop s sep 0 0 []"

fun recompose_loop :: "string list \<Rightarrow> string \<Rightarrow> string" where
  "recompose_loop [] sep = []"
| "recompose_loop (t # a) sep = sep @ t @ recompose_loop a sep"

fun recompose :: "string list \<Rightarrow> string \<Rightarrow> string" where
  "recompose [] sep = []"
| "recompose (t # a) sep = t @ recompose_loop a sep"

definition trim_spaces_left :: "string \<Rightarrow> string" where
  "trim_spaces_left s = substr s (int (skip_while is_space s 0)) (int (length s))"

fun trim_end :: "string \<Rightarrow> nat \<Rightarrow> nat" where
  "trim_end s 0 = 0"
| "trim_end s (Suc e) = (if is_space (s ! e) then trim_end s e else Suc e)"

definition trim_spaces_right :: "string \<Rightarrow> string" where
  "trim_spaces_right s = substr s 0 (int (trim_end s (length s)))"

definition trim_spaces :: "string \<Rightarrow> string" where
  "trim_spaces s = trim_spaces_left (trim_spaces_right s)"

definition trim_spaces_array :: "string list \<Rightarrow> string list" where
  "trim_spaces_array a = map trim_spaces a"

function non_alpha_forward :: "string \<Rightarrow> nat \<Rightarrow> int" where
  "non_alpha_forward s pos =
     (if pos < length s then if \<not> is_alpha (s ! pos) then int pos else non_alpha_forward s (Suc pos)
      else - 1)"
  by pat_completeness auto

termination
  by (relation "measure (\<lambda>(s, pos). length s - pos)") auto

fun non_alpha_backward :: "string \<Rightarrow> nat \<Rightarrow> int" where
  "non_alpha_backward s 0 = - 1"
| "non_alpha_backward s (Suc pos) = (if \<not> is_alpha (s ! pos) then int pos else non_alpha_backward s pos)"

definition find_non_alpha :: "string \<Rightarrow> nat \<Rightarrow> bool \<Rightarrow> int" where
  "find_non_alpha s pos forward =
     (if forward then non_alpha_forward s pos else non_alpha_backward s pos)"

definition strip_completions :: "string list \<Rightarrow> string \<Rightarrow> string list" where
  "strip_completions a prefix =
     map (\<lambda>s. substr s (int (length prefix)) (int (length s))) (filter (\<lambda>s. starts s prefix) a)"

section \<open>Wildcards\<close>

text \<open>
  \<open>match_wildcard\<close> on the rests of the string and of the pattern. The loop that tries every
  rest of the string is \<open>list_ex\<close>, which also stops at the first success.
\<close>

function match_wildcard :: "string \<Rightarrow> string \<Rightarrow> bool" where
  "match_wildcard s [] = (s = [])"
| "match_wildcard s (c # w) =
     (if c \<noteq> CHR ''*'' then (case s of [] \<Rightarrow> False | d # s' \<Rightarrow> d = c \<and> match_wildcard s' w)
      else list_ex (\<lambda>spos. match_wildcard (drop spos s) (dropWhile (\<lambda>d. d = CHR ''*'') w))
             [0..<Suc (length s)])"
  by pat_completeness auto

termination
  by (relation "measure (\<lambda>(s, w). length w)") (auto simp: less_Suc_eq_le length_dropWhile_le)

declare match_wildcard.simps(2) [simp del]

section \<open>Searches find the first occurrence\<close>

lemma test_loop_take: "test_loop s t \<longleftrightarrow> take (length t) s = t"
  by (induction s t rule: test_loop.induct) auto

lemma test_take: "test s i t \<longleftrightarrow> take (length t) (drop i s) = t"
  by (simp add: test_def test_loop_take)

lemma test_length: "test s i t \<Longrightarrow> t \<noteq> [] \<Longrightarrow> i + length t \<le> length s"
proof -
  assume "test s i t" "t \<noteq> []"
  then have "length (take (length t) (drop i s)) = length t"
    by (simp add: test_take)
  then have "length t \<le> length s - i"
    by simp
  moreover have "0 < length t"
    using \<open>t \<noteq> []\<close> by simp
  ultimately show "i + length t \<le> length s"
    by linarith
qed

lemma test_hd: "test s i t \<Longrightarrow> t \<noteq> [] \<Longrightarrow> s ! i = hd t"
proof -
  assume t: "test s i t" "t \<noteq> []"
  then have "hd (drop i s) = hd t"
    by (cases "drop i s"; cases t) (auto simp: test_def split: if_splits)
  moreover have "i < length s"
    using test_length[OF t] t(2) by (cases t) auto
  ultimately show "s ! i = hd t"
    by (simp add: hd_drop_conv_nth)
qed

lemma search_loop_first:
  assumes "s \<noteq> []"
  shows "(search_loop s pos inn = - 1 \<and> (\<forall>j \<ge> pos. \<not> test inn j s)) \<or>
    (\<exists>p \<ge> pos. search_loop s pos inn = int p \<and> test inn p s \<and> (\<forall>j. pos \<le> j \<and> j < p \<longrightarrow> \<not> test inn j s))"
  using assms
proof (induction s pos inn rule: search_loop.induct)
  case (1 s pos inn)
  show ?case
  proof (cases "test inn pos s")
    case True
    then have "search_loop s pos inn = int pos"
      using 1(2) test_length[OF True] test_hd[OF True] by (subst search_loop.simps) simp
    then show ?thesis
      using True by auto
  next
    case False
    show ?thesis
    proof (cases "pos + length s \<le> length inn")
      case True
      then have "search_loop s pos inn = search_loop s (Suc pos) inn"
        using False by (subst search_loop.simps) simp
      moreover have "\<not> (inn ! pos = hd s \<and> test inn pos s)"
        using False by simp
      note IH = 1(1)[OF True this 1(2)]
      moreover have later: "pos = j \<or> Suc pos \<le> j" if "pos \<le> j" for j
        using that by linarith
      ultimately show ?thesis
      proof (elim disjE exE conjE)
        assume "\<forall>j \<ge> Suc pos. \<not> test inn j s" "search_loop s (Suc pos) inn = - 1"
        then show ?thesis
          using \<open>search_loop s pos inn = search_loop s (Suc pos) inn\<close> False later by metis
      next
        fix p
        assume "Suc pos \<le> p" "search_loop s (Suc pos) inn = int p" "test inn p s"
          "\<forall>j. Suc pos \<le> j \<and> j < p \<longrightarrow> \<not> test inn j s"
        then show ?thesis
          using \<open>search_loop s pos inn = search_loop s (Suc pos) inn\<close> False later
          by (intro disjI2 exI[of _ p]) auto
      qed
    next
      case out: False
      then have "search_loop s pos inn = - 1"
        by (subst search_loop.simps) simp
      moreover have "\<not> test inn j s" if "pos \<le> j" for j
        using out that test_length[of inn j s] 1(2) by auto
      ultimately show ?thesis by blast
    qed
  qed
qed

lemma occurs_iff: "occurs what inn \<longleftrightarrow> (\<exists>j. test inn j what)"
proof (cases "what = []")
  case True
  then show ?thesis
    by (auto simp: occurs_def search_forwards_def test_take)
next
  case False
  then show ?thesis
    using search_loop_first[OF False, of 0 inn] by (auto simp: occurs_def search_forwards_def)
qed

section \<open>Splitting and recomposing\<close>

lemma piece_without_separator:
  assumes "sep \<noteq> []" "start \<le> i" "i \<le> length s" "\<forall>j. start \<le> j \<and> j < i \<longrightarrow> \<not> test s j sep"
  shows "\<not> occurs sep (take (i - start) (drop start s))"
proof
  assume "occurs sep (take (i - start) (drop start s))"
  then obtain j where j: "test (take (i - start) (drop start s)) j sep"
    by (auto simp: occurs_iff)
  from test_length[OF this assms(1)] have len: "j + length sep \<le> i - start"
    using assms(2,3) by simp
  then have "test s (start + j) sep"
    using j by (simp add: test_take take_drop min_def add.commute)
  moreover have "start + j < i"
    using len assms(1,2) by (cases sep) auto
  ultimately show False
    using assms(4) by simp
qed

lemma recompose_loop_eq: "bs \<noteq> [] \<Longrightarrow> recompose_loop bs sep = sep @ recompose bs sep"
  by (cases bs) simp_all

lemma tokenize_step:
  assumes "sep \<noteq> []" "start \<le> i" "i \<le> length s" "\<forall>j. start \<le> j \<and> j < i \<longrightarrow> \<not> test s j sep"
  shows "\<exists>bs R. tokenize_loop s sep i start a = Some (a @ bs) \<and> bs \<noteq> [] \<and>
    recompose bs sep = drop start s \<and> (\<forall>b \<in> set bs. \<not> occurs sep b) \<and>
    replace_loop s sep new i r = Some (r @ R) \<and>
    recompose bs new = take (i - start) (drop start s) @ R"
  using assms
proof (induction "length s - i" arbitrary: i start a r rule: less_induct)
  case less
  let ?piece = "take (i - start) (drop start s)"
  have piece: "substr s (int start) (int i) = ?piece"
    using less.prems by (simp add: substr_slice nat_diff_distrib)
  have free: "\<not> occurs sep ?piece"
    using less.prems by (rule piece_without_separator)
  show ?case
  proof (cases "i < length s")
    case False
    then have "i = length s"
      using less.prems(3) by simp
    then have "tokenize_loop s sep i start a = Some (a @ [?piece])" "replace_loop s sep new i r = Some (r @ [])"
      using piece by (subst tokenize_loop.simps replace_loop.simps; simp)+
    then show ?thesis
      using free \<open>i = length s\<close> by (intro exI[of _ "[?piece]"] exI[of _ "[]"]) simp
  next
    case True
    show ?thesis
    proof (cases "test s i sep")
      case match: True
      let ?i = "i + length sep"
      have "?i \<le> length s" "length s - ?i < length s - i"
        using test_length[OF match less.prems(1)] length_greater_0_conv[of sep] less.prems(1) True
        by linarith+
      moreover have "\<forall>j. ?i \<le> j \<and> j < ?i \<longrightarrow> \<not> test s j sep"
        by auto
      ultimately obtain bs R where IH: "tokenize_loop s sep ?i ?i (a @ [?piece]) = Some ((a @ [?piece]) @ bs)"
        "bs \<noteq> []" "recompose bs sep = drop ?i s" "\<forall>b \<in> set bs. \<not> occurs sep b"
        "replace_loop s sep new ?i (r @ new) = Some ((r @ new) @ R)" "recompose bs new = R"
        using less.hyps[of ?i ?i "a @ [?piece]" "r @ new"] less.prems(1) by fastforce
      have "drop i s = sep @ drop ?i s"
        using match append_take_drop_id[of "length sep" "drop i s"] by (simp add: test_take add.commute)
      moreover have "drop start s = ?piece @ drop i s"
        using append_take_drop_id[of "i - start" "drop start s"] less.prems(2) by simp
      ultimately show ?thesis
        using IH free True match piece
        by (intro exI[of _ "?piece # bs"] exI[of _ "new @ R"])
          (simp add: tokenize_loop.simps[of s sep i] replace_loop.simps[of s sep new i] recompose_loop_eq)
    next
      case nomatch: False
      have "\<forall>j. start \<le> j \<and> j < Suc i \<longrightarrow> \<not> test s j sep" "length s - Suc i < length s - i"
        using nomatch less.prems(4) less_Suc_eq True by auto
      then obtain bs R where IH: "tokenize_loop s sep (Suc i) start a = Some (a @ bs)"
        "bs \<noteq> []" "recompose bs sep = drop start s" "\<forall>b \<in> set bs. \<not> occurs sep b"
        "replace_loop s sep new (Suc i) (r @ [s ! i]) = Some ((r @ [s ! i]) @ R)"
        "recompose bs new = take (Suc i - start) (drop start s) @ R"
        using less.hyps[of "Suc i" start a "r @ [s ! i]"] less.prems(1,2) True by fastforce
      moreover have "take (Suc i - start) (drop start s) = ?piece @ [s ! i]"
        using less.prems(2) True by (simp add: Suc_diff_le take_Suc_conv_app_nth)
      ultimately show ?thesis
        using True nomatch
        by (intro exI[of _ bs] exI[of _ "[s ! i] @ R"])
          (simp add: tokenize_loop.simps[of s sep i] replace_loop.simps[of s sep new i])
    qed
  qed
qed

lemma replace_loop_empty:
  assumes "replace_loop s what new i r = Some y"
  shows "what = [] \<longrightarrow> length s \<le> i"
  by (rule replace_loop.raw_induct[where P = "\<lambda>s what new i r y. what = [] \<longrightarrow> length s \<le> i", OF _ assms])
    (fastforce split: if_splits simp: test_take)

lemma tokenize_loop_empty:
  assumes "tokenize_loop s sep i start a = Some y"
  shows "sep = [] \<longrightarrow> length s \<le> i"
  by (rule tokenize_loop.raw_induct[where P = "\<lambda>s sep i start a y. sep = [] \<longrightarrow> length s \<le> i", OF _ assms])
    (fastforce split: if_splits simp: test_take)

text \<open>Without an occurrence the backward search by tokens runs forever.\<close>

lemma tm_search_backwards_found:
  assumes "tm_search_backwards s pos inn = Some p"
  shows "test inn p s"
  by (rule tm_search_backwards.raw_induct[where P = "\<lambda>s pos inn p. test inn p s", OF _ assms])
    (auto split: if_splits)

lemma tm_search_backwards_diverges: "\<not> occurs s inn \<Longrightarrow> tm_search_backwards s pos inn = None"
  using tm_search_backwards_found[of s pos inn] by (cases "tm_search_backwards s pos inn") (auto simp: occurs_iff)

section \<open>Wildcards match their specification\<close>

text \<open>What a pattern with stars means: a star stands for any string.\<close>

inductive glob :: "string \<Rightarrow> string \<Rightarrow> bool" where
  empty: "glob [] []"
| letter: "c \<noteq> CHR ''*'' \<Longrightarrow> glob s w \<Longrightarrow> glob (c # s) (c # w)"
| star: "glob s w \<Longrightarrow> glob (u @ s) (CHR ''*'' # w)"

inductive_simps glob_simps: "glob s []" "glob s (c # w)"

lemma glob_star: "glob s (CHR ''*'' # w) \<longleftrightarrow> (\<exists>k \<le> length s. glob (drop k s) w)"
proof
  assume "glob s (CHR ''*'' # w)"
  then obtain u t where "s = u @ t" "glob t w"
    by (auto simp: glob_simps(2))
  then show "\<exists>k \<le> length s. glob (drop k s) w"
    by (intro exI[of _ "length u"]) simp
next
  assume "\<exists>k \<le> length s. glob (drop k s) w"
  then show "glob s (CHR ''*'' # w)"
    by (metis append_take_drop_id glob.star)
qed

lemma glob_stars: "glob s (CHR ''*'' # w) \<longleftrightarrow> glob s (CHR ''*'' # dropWhile (\<lambda>d. d = CHR ''*'') w)"
proof (induction w)
  case (Cons c w)
  have "glob s (CHR ''*'' # CHR ''*'' # w) \<longleftrightarrow> glob s (CHR ''*'' # w)"
  proof
    assume "glob s (CHR ''*'' # CHR ''*'' # w)"
    then obtain k l where "glob (drop l (drop k s)) w" "k \<le> length s" "l \<le> length (drop k s)"
      by (auto simp: glob_star)
    then show "glob s (CHR ''*'' # w)"
      by (auto simp: glob_star intro!: exI[of _ "l + k"])
  next
    assume "glob s (CHR ''*'' # w)"
    then show "glob s (CHR ''*'' # CHR ''*'' # w)"
      using glob.star[of s "CHR ''*'' # w" "[]"] by simp
  qed
  then show ?case
    using Cons by simp
qed simp

text \<open>
  \<open>match_wildcard\<close>, with its search over all rests of the string, decides exactly
  the declarative meaning of a pattern, in which a star stands for any string and every other
  character for itself; runs of stars, which the code skips at once, mean one star.
\<close>

theorem match_wildcard_glob: "match_wildcard s w \<longleftrightarrow> glob s w"
proof (induction s w rule: match_wildcard.induct)
  case (1 s)
  then show ?case by (simp add: glob_simps)
next
  case (2 s c w)
  show ?case
  proof (cases "c = CHR ''*''")
    case True
    then have "match_wildcard s (c # w) \<longleftrightarrow>
        (\<exists>k \<le> length s. glob (drop k s) (dropWhile (\<lambda>d. d = CHR ''*'') w))"
      using 2(2) by (auto simp: match_wildcard.simps(2) list_ex_iff less_Suc_eq_le Bex_def simp del: upt_Suc)
    moreover have "glob s (c # w) \<longleftrightarrow> glob s (CHR ''*'' # dropWhile (\<lambda>d. d = CHR ''*'') w)"
      unfolding True by (rule glob_stars)
    ultimately show ?thesis
      by (simp only: glob_star)
  next
    case False
    then show ?thesis
      using 2(1)[OF False] by (cases s) (auto simp: match_wildcard.simps(2) glob_simps(2))
  qed
qed

text \<open>
  Splitting at a separator: for a separator that is not empty \<open>tokenize\<close> returns,
  none of the parts contains the separator, \<open>recompose\<close> puts the parts together to the
  original string, and \<open>replace\<close> returns the parts recomposed with the new string. With an
  empty separator neither \<open>tokenize\<close> nor \<open>replace\<close> ever returns, unless the string is empty.
\<close>

theorem tokenize_recompose:
  "(sep \<noteq> [] \<longrightarrow>
      (\<exists>a. tokenize s sep = Some a \<and> recompose a sep = s \<and> (\<forall>t \<in> set a. \<not> occurs sep t) \<and>
          replace s sep new = Some (recompose a new))) \<and>
   (s \<noteq> [] \<longrightarrow> tokenize s [] = None \<and> replace s [] new = None)"
proof (intro conjI)
  show "sep \<noteq> [] \<longrightarrow>
      (\<exists>a. tokenize s sep = Some a \<and> recompose a sep = s \<and> (\<forall>t \<in> set a. \<not> occurs sep t) \<and>
          replace s sep new = Some (recompose a new))"
    using tokenize_step[of sep 0 0 s "[]" new "[]"] by (auto simp: tokenize_def replace_def)
  show "s \<noteq> [] \<longrightarrow> tokenize s [] = None \<and> replace s [] new = None"
    using tokenize_loop_empty[of s "[]" 0 0 "[]"] replace_loop_empty[of s "[]" new 0 "[]"]
    by (cases "tokenize s []"; cases "replace s [] new") (auto simp: tokenize_def replace_def)
qed

theorem tokenize_recompose_witness:
  "(\<exists>a. tokenize ''a, b, , c'' '', '' = Some a \<and> recompose a '', '' = ''a, b, , c'' \<and>
        (\<forall>t \<in> set a. \<not> occurs '', '' t) \<and>
        replace ''a, b, , c'' '', '' ''-'' = Some (recompose a ''-'')) \<and>
   tokenize ''a'' [] = None"
  using tokenize_recompose[of "'', ''" "''a, b, , c''" "''-''"]
    tokenize_recompose[of "''a''" "''a''" "''-''"] by simp

end
