(* ===== verification/Athena_Differences.thy ===== *)
theory Athena_Differences
  imports Athena_Search
begin

text \<open>
  The comparison of two strings at the end of \<open>src/src/Core/Text/analyze.cpp\<close>:
  \<open>differences\<close> computes an array of quadruples \<open>i1, j1, i2, j2\<close>, each saying that the part
  of the first string from \<open>i1\<close> to \<open>j1\<close> was replaced by the part of the second from \<open>i2\<close>
  to \<open>j2\<close>, and \<open>distance\<close> adds up their sizes. Positions are natural numbers. The recursion
  ends because the common part that \<open>find_common\<close> picks never reaches the right ends.
\<close>

section \<open>The common part\<close>

function right_run :: "string \<Rightarrow> string \<Rightarrow> nat \<Rightarrow> nat \<Rightarrow> nat \<Rightarrow> nat" where
  "right_run s1 s2 c1 c2 r =
     (if c1 + r < length s1 \<and> c2 + r < length s2 \<and> s1 ! (c1 + r) = s2 ! (c2 + r)
      then right_run s1 s2 c1 c2 (Suc r) else r)"
  by pat_completeness auto

termination
  by (relation "measure (\<lambda>(s1, s2, c1, c2, r). length s1 - (c1 + r))") auto

function left_run :: "string \<Rightarrow> string \<Rightarrow> nat \<Rightarrow> nat \<Rightarrow> nat \<Rightarrow> nat" where
  "left_run s1 s2 c1 c2 l =
     (if l < c1 \<and> l < c2 \<and> s1 ! (c1 - l - 1) = s2 ! (c2 - l - 1)
      then left_run s1 s2 c1 c2 (Suc l) else l)"
  by pat_completeness auto

termination
  by (relation "measure (\<lambda>(s1, s2, c1, c2, l). c1 - l)") auto

declare right_run.simps [simp del] left_run.simps [simp del]

text \<open>The loop of \<open>find_longest\<close> over \<open>c2\<close>, with the best result \<open>bc\<close>, \<open>bl\<close>, \<open>br\<close> so far.\<close>

function longest_loop ::
  "string \<Rightarrow> string \<Rightarrow> nat \<Rightarrow> nat \<Rightarrow> nat \<Rightarrow> nat \<Rightarrow> nat \<Rightarrow> nat \<times> nat \<times> nat" where
  "longest_loop s1 s2 c1 c2 bc bl br =
     (if c2 < length s2 then
        if s1 ! c1 = s2 ! c2 then
          let r = right_run s1 s2 c1 c2 0; l = left_run s1 s2 c1 c2 0 in
          if l + r > bl + br then longest_loop s1 s2 c1 (Suc c2) c2 l r
          else longest_loop s1 s2 c1 (Suc c2) bc bl br
        else longest_loop s1 s2 c1 (Suc c2) bc bl br
      else (bc, bl, br))"
  by pat_completeness auto

termination
  by (relation "measure (\<lambda>(s1, s2, c1, c2, bc, bl, br). length s2 - c2)") auto

declare longest_loop.simps [simp del]

text \<open>It returns the length and the new values of the reference parameters.\<close>

definition find_longest :: "string \<Rightarrow> string \<Rightarrow> nat \<Rightarrow> nat \<times> nat \<times> nat" where
  "find_longest s1 s2 c1 =
     (let (bc, bl, br) = longest_loop s1 s2 c1 0 0 0 0 in
      if bl + br > 0 then (bl + br, c1 - bl, bc - bl) else (bl + br, c1, length s2))"

fun common_loop ::
  "string \<Rightarrow> string \<Rightarrow> nat \<Rightarrow> nat list \<Rightarrow> nat \<Rightarrow> nat \<Rightarrow> nat \<Rightarrow> nat \<times> nat" where
  "common_loop s1 s2 t [] best_len c1 c2 = (c1, c2)"
| "common_loop s1 s2 t (k # ks) best_len c1 c2 =
     (let (len, a1, a2) = find_longest s1 s2 ((k * length s1) div t) in
      if len > best_len then common_loop s1 s2 t ks len a1 a2
      else common_loop s1 s2 t ks best_len c1 c2)"

definition find_common :: "string \<Rightarrow> string \<Rightarrow> nat \<times> nat" where
  "find_common s1 s2 =
     (if length s1 = 0 \<or> length s2 = 0 then (0, 0)
      else let t = min (min (length s1) (length s2)) 6 in common_loop s1 s2 t [1..<t] 0 0 0)"

section \<open>The common part ends before the strings do\<close>

lemma longest_loop_range:
  "longest_loop s1 s2 c1 c2 bc bl br = (bc', bl', br') \<Longrightarrow> bc < length s2 \<or> bl + br = 0 \<Longrightarrow>
   bc' < length s2 \<or> bl' + br' = 0"
proof (induction s1 s2 c1 c2 bc bl br rule: longest_loop.induct)
  case (1 s1 s2 c1 c2 bc bl br)
  show ?case
  proof (cases "c2 < length s2 \<and> s1 ! c1 = s2 ! c2 \<and>
      left_run s1 s2 c1 c2 0 + right_run s1 s2 c1 c2 0 > bl + br")
    case True
    then show ?thesis
      using 1(1)[OF _ _ refl refl] 1(4) longest_loop.simps[of s1 s2 c1 c2 bc bl br]
      by (simp add: Let_def)
  next
    case False
    then show ?thesis
      using 1 longest_loop.simps[of s1 s2 c1 c2 bc bl br]
      by (cases "c2 < length s2"; cases "s1 ! c1 = s2 ! c2") (simp_all add: Let_def)
  qed
qed

lemma find_longest_range:
  assumes "find_longest s1 s2 c1 = (len, a1, a2)" "c1 < length s1" "0 < len"
  shows "a1 < length s1" "a2 < length s2"
proof -
  obtain bc bl br where loop: "longest_loop s1 s2 c1 0 0 0 0 = (bc, bl, br)"
    by (metis prod_cases3)
  have "bc < length s2 \<or> bl + br = 0"
    using longest_loop_range[OF loop] by simp
  then show "a1 < length s1" "a2 < length s2"
    using assms loop by (auto simp: find_longest_def split: if_splits)
qed

lemma common_loop_range:
  assumes "\<forall>k \<in> set ks. k < t" "0 < length s1"
  shows "common_loop s1 s2 t ks best c1 c2 = (d1, d2) \<Longrightarrow>
    (c1, c2) = (0, 0) \<or> (c1 < length s1 \<and> c2 < length s2) \<Longrightarrow>
    (d1, d2) = (0, 0) \<or> (d1 < length s1 \<and> d2 < length s2)"
  using assms
proof (induction s1 s2 t ks best c1 c2 rule: common_loop.induct)
  case (2 s1 s2 t k ks best c1 c2)
  obtain len a1 a2 where longest: "find_longest s1 s2 ((k * length s1) div t) = (len, a1, a2)"
    by (metis prod_cases3)
  have "k * length s1 div t < length s1"
    using 2(5,6) by (intro less_mult_imp_div_less) (auto simp: mult.commute)
  from find_longest_range[OF longest this] show ?case
    using 2 longest by (auto split: if_splits)
qed simp

lemma find_common_range:
  "find_common s1 s2 = (c1, c2) \<Longrightarrow> (c1, c2) = (0, 0) \<or> (c1 < length s1 \<and> c2 < length s2)"
  using common_loop_range[of "[1..<min (min (length s1) (length s2)) 6]"
      "min (min (length s1) (length s2)) 6" s1 s2 0 0 0 c1 c2]
  by (auto simp: find_common_def Let_def split: if_splits)

section \<open>The differences\<close>

text \<open>The two loops that strip equal characters on the left and on the right.\<close>

function trim_left :: "string \<Rightarrow> string \<Rightarrow> nat \<Rightarrow> nat \<Rightarrow> nat \<times> nat" where
  "trim_left s1 s2 i1 i2 =
     (if i1 < length s1 \<and> i2 < length s2 \<and> s1 ! i1 = s2 ! i2
      then trim_left s1 s2 (Suc i1) (Suc i2) else (i1, i2))"
  by pat_completeness auto

termination
  by (relation "measure (\<lambda>(s1, s2, i1, i2). length s1 - i1)") auto

function trim_right :: "string \<Rightarrow> string \<Rightarrow> nat \<Rightarrow> nat \<Rightarrow> nat \<Rightarrow> nat \<Rightarrow> nat \<times> nat" where
  "trim_right s1 s2 i1 i2 j1 j2 =
     (if i1 < j1 \<and> i2 < j2 \<and> s1 ! (j1 - 1) = s2 ! (j2 - 1)
      then trim_right s1 s2 i1 i2 (j1 - 1) (j2 - 1) else (j1, j2))"
  by pat_completeness auto

termination
  by (relation "measure (\<lambda>(s1, s2, i1, i2, j1, j2). j1)") auto

declare trim_left.simps [simp del] trim_right.simps [simp del]

lemma trim_left_common:
  "trim_left s1 s2 i1 i2 = (k1, k2) \<Longrightarrow> i1 \<le> length s1 \<Longrightarrow> i2 \<le> length s2 \<Longrightarrow>
   take i1 s1 = take i2 s2 \<Longrightarrow> k1 \<le> length s1 \<and> k2 \<le> length s2 \<and> take k1 s1 = take k2 s2"
proof (induction s1 s2 i1 i2 rule: trim_left.induct)
  case (1 s1 s2 i1 i2)
  then show ?case
    using trim_left.simps[of s1 s2 i1 i2]
    by (cases "i1 < length s1 \<and> i2 < length s2 \<and> s1 ! i1 = s2 ! i2")
      (auto simp: take_Suc_conv_app_nth)
qed

lemma trim_right_common:
  "trim_right s1 s2 i1 i2 j1 j2 = (k1, k2) \<Longrightarrow> i1 \<le> j1 \<Longrightarrow> i2 \<le> j2 \<Longrightarrow> j1 \<le> length s1 \<Longrightarrow>
   j2 \<le> length s2 \<Longrightarrow> drop j1 s1 = drop j2 s2 \<Longrightarrow>
   i1 \<le> k1 \<and> k1 \<le> j1 \<and> i2 \<le> k2 \<and> k2 \<le> j2 \<and> drop k1 s1 = drop k2 s2"
proof (induction s1 s2 i1 i2 j1 j2 rule: trim_right.induct)
  case (1 s1 s2 i1 i2 j1 j2)
  show ?case
  proof (cases "i1 < j1 \<and> i2 < j2 \<and> s1 ! (j1 - 1) = s2 ! (j2 - 1)")
    case True
    then have "j1 - 1 < length s1" "j2 - 1 < length s2" "Suc (j1 - 1) = j1" "Suc (j2 - 1) = j2"
      using 1(5,6) by auto
    then have "drop (j1 - 1) s1 = drop (j2 - 1) s2"
      using True 1(7) Cons_nth_drop_Suc[of "j1 - 1" s1] Cons_nth_drop_Suc[of "j2 - 1" s2] by simp
    moreover have "trim_right s1 s2 i1 i2 (j1 - 1) (j2 - 1) = (k1, k2)"
      using 1(2) True trim_right.simps[of s1 s2 i1 i2 j1 j2] by simp
    ultimately have "i1 \<le> k1 \<and> k1 \<le> j1 - 1 \<and> i2 \<le> k2 \<and> k2 \<le> j2 - 1 \<and> drop k1 s1 = drop k2 s2"
      using 1(1)[OF True] True 1(5,6) by auto
    then show ?thesis
      by (metis diff_le_self le_trans)
  next
    case False
    then show ?thesis
      using 1(2-7) trim_right.simps[of s1 s2 i1 i2 j1 j2] by auto
  qed
qed

text \<open>The loops that move the positions of a result; an array of quadruples is a flat list.\<close>

fun shift_quads :: "nat list \<Rightarrow> nat \<Rightarrow> nat \<Rightarrow> nat list" where
  "shift_quads (a # b # c # d # r) x y = (a + x) # (b + x) # (c + y) # (d + y) # shift_quads r x y"
| "shift_quads r x y = r"

definition part :: "string \<Rightarrow> nat \<Rightarrow> nat \<Rightarrow> string" where
  "part s i j = substr s (int i) (int j)"

lemma part_eq: "i \<le> j \<Longrightarrow> j \<le> length s \<Longrightarrow> part s i j = take (j - i) (drop i s)"
  by (simp add: part_def substr_slice nat_diff_distrib)

lemma trims:
  assumes "trim_left s1 s2 0 0 = (i1, i2)" "trim_right s1 s2 i1 i2 (length s1) (length s2) = (j1, j2)"
  shows "i1 \<le> j1" "j1 \<le> length s1" "i2 \<le> j2" "j2 \<le> length s2"
    "take i1 s1 = take i2 s2" "drop j1 s1 = drop j2 s2"
  using trim_left_common[OF assms(1)] trim_right_common[OF assms(2)] by auto

lemma length_part: "i \<le> j \<Longrightarrow> j \<le> length s \<Longrightarrow> length (part s i j) = j - i"
  by (simp add: part_eq)

lemma trims_shorter:
  assumes "(i1, i2) = trim_left s1 s2 0 0"
    and "(j1, j2) = trim_right s1 s2 i1 i2 (length s1) (length s2)"
    and "0 < i1 \<or> 0 < i2 \<or> j1 < length s1 \<or> j2 < length s2"
  shows "length (part s1 i1 j1) + length (part s2 i2 j2) < length s1 + length s2"
  using trims[OF assms(1)[symmetric] assms(2)[symmetric]] assms(3) by (auto simp: length_part)

lemma common_shorter:
  assumes "(c1, c2) = find_common s1 s2" "0 < c1 \<or> 0 < c2"
  shows "length (part s1 0 c1) + length (part s2 0 c2) < length s1 + length s2"
    and "length (part s1 c1 (length s1)) + length (part s2 c2 (length s2)) < length s1 + length s2"
  using find_common_range[OF assms(1)[symmetric]] assms(2) by (auto simp: length_part)

function differences :: "string \<Rightarrow> string \<Rightarrow> nat list" where
  "differences s1 s2 =
     (let n1 = length s1; n2 = length s2;
          (i1, i2) = trim_left s1 s2 0 0;
          (j1, j2) = trim_right s1 s2 i1 i2 n1 n2
      in if i1 = j1 \<and> i2 = j2 then []
         else if i1 > 0 \<or> i2 > 0 \<or> j1 < n1 \<or> j2 < n2 then
           shift_quads (differences (part s1 i1 j1) (part s2 i2 j2)) i1 i2
         else
           let (c1, c2) = find_common s1 s2 in
           if c1 = 0 \<and> c2 = 0 then [i1, j1, i2, j2]
           else
             let r1 = differences (part s1 0 c1) (part s2 0 c2);
                 r2 = differences (part s1 c1 n1) (part s2 c2 n2)
             in r1 @ shift_quads r2 c1 c2)"
  by pat_completeness auto

termination
  apply (relation "measure (\<lambda>(s1, s2). length s1 + length s2)")
  subgoal by simp
  subgoal by (auto intro: trims_shorter)
  subgoal by (auto intro: common_shorter(1))
  subgoal by (auto intro: common_shorter(2))
  done

declare differences.simps [simp del]

fun distance_loop :: "nat list \<Rightarrow> int" where
  "distance_loop (a # b # c # d # r) = max (int b - int a) (int d - int c) + distance_loop r"
| "distance_loop r = 0"

definition distance :: "string \<Rightarrow> string \<Rightarrow> int" where
  "distance s1 s2 = distance_loop (differences s1 s2)"

section \<open>What the quadruples mean\<close>

text \<open>
  From the positions \<open>p\<close> and \<open>q\<close> on, the strings agree up to the first listed range, continue
  behind it, and agree behind the last one.
\<close>

fun explains :: "string \<Rightarrow> string \<Rightarrow> nat \<Rightarrow> nat \<Rightarrow> nat list \<Rightarrow> bool" where
  "explains s1 s2 p q [] \<longleftrightarrow> drop p s1 = drop q s2 \<and> p \<le> length s1 \<and> q \<le> length s2"
| "explains s1 s2 p q (a # b # c # d # r) \<longleftrightarrow>
     p \<le> a \<and> a \<le> b \<and> b \<le> length s1 \<and> q \<le> c \<and> c \<le> d \<and> d \<le> length s2 \<and>
     part s1 p a = part s2 q c \<and> explains s1 s2 b d r"
| "explains s1 s2 p q r \<longleftrightarrow> False"

text \<open>The second string rebuilt from the first one and the listed parts.\<close>

fun rebuild :: "string \<Rightarrow> string \<Rightarrow> nat \<Rightarrow> nat list \<Rightarrow> string" where
  "rebuild s1 s2 p (a # b # c # d # r) = part s1 p a @ part s2 c d @ rebuild s1 s2 b r"
| "rebuild s1 s2 p r = drop p s1"

lemma part_part: "q \<le> c \<Longrightarrow> c \<le> d \<Longrightarrow> d \<le> length s \<Longrightarrow> part s q c @ part s c d = part s q d"
  using take_add[of "c - q" "d - c" "drop q s"] by (simp add: part_eq)

lemma part_drop: "q \<le> d \<Longrightarrow> d \<le> length s \<Longrightarrow> part s q d @ drop d s = drop q s"
  by (simp add: part_eq) (metis append_take_drop_id drop_drop le_add_diff_inverse2)

lemma explains_rebuild: "explains s1 s2 p q r \<Longrightarrow> rebuild s1 s2 p r = drop q s2"
proof (induction s1 s2 p q r rule: explains.induct)
  case (2 s1 s2 p q a b c d r)
  then show ?case
    using part_part[of q c d s2] part_drop[of q d s2] by (simp flip: append_assoc)
qed auto

lemma part_append:
  "j \<le> length b \<Longrightarrow> i \<le> j \<Longrightarrow> part (a @ b) (i + length a) (j + length a) = part b i j"
  by (simp add: part_eq)

lemma explains_shift:
  "explains b1 b2 p q r \<Longrightarrow>
   explains (a1 @ b1) (a2 @ b2) (p + length a1) (q + length a2) (shift_quads r (length a1) (length a2))"
  by (induction b1 b2 p q r rule: explains.induct) (auto simp: part_append)

lemma part_across:
  "p \<le> length a \<Longrightarrow> j \<le> length b \<Longrightarrow> part (a @ b) p (j + length a) = drop p a @ take j b"
  by (simp add: part_eq)

lemma part_left: "i \<le> j \<Longrightarrow> j \<le> length a \<Longrightarrow> part (a @ b) i j = part a i j"
  by (simp add: part_eq)

lemma explains_append:
  assumes "explains b1 b2 0 0 r2"
  shows "explains a1 a2 p q r1 \<Longrightarrow>
    explains (a1 @ b1) (a2 @ b2) p q (r1 @ shift_quads r2 (length a1) (length a2))"
proof (induction a1 a2 p q r1 rule: explains.induct)
  case (1 a1 a2 p q)
  show ?case
  proof (cases "(b1, b2, 0 :: nat, 0 :: nat, r2)" rule: explains.cases)
    case (1 s1 s2 p' q')
    then show ?thesis
      using \<open>explains a1 a2 p q []\<close> assms by simp
  next
    case (2 s1 s2 p' q' a b c d r)
    have rest: "explains b1 b2 b d r"
      using assms 2 by simp
    have "part (a1 @ b1) p (a + length a1) = part (a2 @ b2) q (c + length a2)"
    proof -
      have "part (a1 @ b1) p (a + length a1) = drop p a1 @ take a b1"
        using \<open>explains a1 a2 p q []\<close> assms 2 by (intro part_across) auto
      moreover have "part (a2 @ b2) q (c + length a2) = drop q a2 @ take c b2"
        using \<open>explains a1 a2 p q []\<close> assms 2 by (intro part_across) auto
      moreover have "take a b1 = take c b2"
        using assms 2 part_eq[of 0 a b1] part_eq[of 0 c b2] by auto
      ultimately show ?thesis
        using \<open>explains a1 a2 p q []\<close> by simp
    qed
    then show ?thesis
      using \<open>explains a1 a2 p q []\<close> assms 2 explains_shift[OF rest, of a1 a2] by simp
  qed (use assms in auto)
next
  case (2 a1 a2 p q a b c d r)
  then show ?case
    by (simp add: part_left)
qed auto

lemma explains_same: "explains s s 0 0 []"
  by simp

lemma split_middle:
  "i \<le> j \<Longrightarrow> j \<le> length s \<Longrightarrow> s = take i s @ part s i j @ drop j s"
  using part_drop[of i j s] by simp

lemma split_two: "c \<le> length s \<Longrightarrow> s = part s 0 c @ part s c (length s)"
  by (simp add: part_eq)

lemma differences_trimmed:
  assumes trim: "trim_left s1 s2 0 0 = (i1, i2)" "trim_right s1 s2 i1 i2 (length s1) (length s2) = (j1, j2)"
    and mid: "explains (part s1 i1 j1) (part s2 i2 j2) 0 0 r"
  shows "explains s1 s2 0 0 (shift_quads r i1 i2)"
proof -
  note t = trims[OF trim]
  have "explains (part s1 i1 j1 @ drop j1 s1) (part s2 i2 j2 @ drop j2 s2) 0 0 (r @ shift_quads [] 0 0)"
    using explains_append[OF explains_same[of "drop j1 s1"] mid] t(6) by simp
  from explains_append[OF this explains_same[of "take i1 s1"]] t
  have "explains (take i1 s1 @ part s1 i1 j1 @ drop j1 s1) (take i2 s2 @ part s2 i2 j2 @ drop j2 s2) 0 0
      (shift_quads r (length (take i1 s1)) (length (take i1 s1)))"
    by simp
  moreover have "length (take i1 s1) = i1" "i1 = i2"
    using t(1-4) arg_cong[OF t(5), of length] by auto
  ultimately show ?thesis
    using split_middle[OF t(1,2)] split_middle[OF t(3,4)] by simp
qed

lemma explains_differences: "explains s1 s2 0 0 (differences s1 s2)"
proof (induction s1 s2 rule: differences.induct)
  case (1 s1 s2)
  obtain i1 i2 where left: "trim_left s1 s2 0 0 = (i1, i2)" by fastforce
  obtain j1 j2 where right: "trim_right s1 s2 i1 i2 (length s1) (length s2) = (j1, j2)" by fastforce
  obtain c1 c2 where common: "find_common s1 s2 = (c1, c2)" by fastforce
  note t = trims[OF left right]
  note unfold = differences.simps[of s1 s2] left right common
  consider (same) "i1 = j1 \<and> i2 = j2"
    | (trimmed) "\<not> (i1 = j1 \<and> i2 = j2)" "0 < i1 \<or> 0 < i2 \<or> j1 < length s1 \<or> j2 < length s2"
    | (whole) "\<not> (i1 = j1 \<and> i2 = j2)" "\<not> (0 < i1 \<or> 0 < i2 \<or> j1 < length s1 \<or> j2 < length s2)" "c1 = 0 \<and> c2 = 0"
    | (halves) "\<not> (i1 = j1 \<and> i2 = j2)" "\<not> (0 < i1 \<or> 0 < i2 \<or> j1 < length s1 \<or> j2 < length s2)" "\<not> (c1 = 0 \<and> c2 = 0)"
    by blast
  then show ?case
  proof cases
    case same
    then have "differences s1 s2 = []"
      using right by (simp add: unfold Let_def)
    moreover have "s1 = s2"
      using same t(5,6) by (metis append_take_drop_id)
    ultimately show ?thesis by simp
  next
    case trimmed
    have "explains (part s1 i1 j1) (part s2 i2 j2) 0 0 (differences (part s1 i1 j1) (part s2 i2 j2))"
      using 1(1)[OF refl refl refl left[symmetric] refl right[symmetric] trimmed] .
    from differences_trimmed[OF left right this] show ?thesis
      using trimmed by (auto simp: unfold Let_def)
  next
    case whole
    have "differences s1 s2 = [i1, j1, i2, j2]"
      unfolding differences.simps[of s1 s2] Let_def left right common prod.case
        if_not_P[OF whole(1)] if_not_P[OF whole(2)] if_P[OF whole(3)] ..
    then show ?thesis
      using whole t by (simp add: part_eq)
  next
    case halves
    have c: "c1 \<le> length s1" "c2 \<le> length s2"
      using find_common_range[OF common] by auto
    have first: "explains (part s1 0 c1) (part s2 0 c2) 0 0 (differences (part s1 0 c1) (part s2 0 c2))"
      using 1(2)[OF refl refl refl left[symmetric] refl right[symmetric] halves(1,2) refl common[symmetric] halves(3)] .
    have second: "explains (part s1 c1 (length s1)) (part s2 c2 (length s2)) 0 0
        (differences (part s1 c1 (length s1)) (part s2 c2 (length s2)))"
      using 1(3)[OF refl refl refl left[symmetric] refl right[symmetric] halves(1,2) refl common[symmetric] halves(3) refl] .
    have "explains (part s1 0 c1 @ part s1 c1 (length s1)) (part s2 0 c2 @ part s2 c2 (length s2)) 0 0
       (differences (part s1 0 c1) (part s2 0 c2) @
        shift_quads (differences (part s1 c1 (length s1)) (part s2 c2 (length s2))) c1 c2)"
      using explains_append[OF second first] c by (simp add: length_part)
    moreover have "differences s1 s2 = differences (part s1 0 c1) (part s2 0 c2) @
        shift_quads (differences (part s1 c1 (length s1)) (part s2 c2 (length s2))) c1 c2"
      unfolding differences.simps[of s1 s2] Let_def left right common prod.case
        if_not_P[OF halves(1)] if_not_P[OF halves(2)] if_not_P[OF halves(3)] ..
    ultimately show ?thesis
      using split_two[OF c(1)] split_two[OF c(2)] by simp
  qed
qed

lemma distance_loop_pos: "explains s1 s2 p q r \<Longrightarrow> 0 \<le> distance_loop r"
  by (induction s1 s2 p q r rule: explains.induct) auto

lemma distance_loop_0:
  "explains s1 s2 p q r \<Longrightarrow> distance_loop r = 0 \<Longrightarrow> drop p s1 = drop q s2"
proof (induction s1 s2 p q r rule: explains.induct)
  case (2 s1 s2 p q a b c d r)
  then have "0 \<le> distance_loop r" "0 \<le> max (int b - int a) (int d - int c)"
    using distance_loop_pos[of s1 s2 b d r] by auto
  then have "distance_loop r = 0" "a = b" "c = d"
    using 2(2,3) by auto
  moreover from this have "drop b s1 = drop d s2"
    using 2 by simp
  ultimately show ?case
    using 2(2) part_drop[of p b s1] part_drop[of q d s2] by simp
qed auto

lemma trim_left_same: "i \<le> length s \<Longrightarrow> trim_left s s i i = (length s, length s)"
proof (induction "length s - i" arbitrary: i)
  case 0
  then show ?case by (subst trim_left.simps) simp
next
  case (Suc n)
  then show ?case by (subst trim_left.simps) simp
qed

lemma differences_same: "differences s s = []"
proof -
  have "trim_right s s (length s) (length s) (length s) (length s) = (length s, length s)"
    by (subst trim_right.simps) simp
  then show ?thesis
    using trim_left_same[of 0 s] by (simp add: differences.simps[of s s])
qed

section \<open>Properties\<close>

text \<open>
  Claim C36. \<open>differences\<close> ends on all strings and explains the second string from the first:
  the ranges it lists are in order and within the strings, outside of them the strings agree,
  and replacing them turns the first string into the second. Their total size, \<open>distance\<close>, is
  never negative and is zero exactly for equal strings.
\<close>

theorem differences_correct:
  "explains s1 s2 0 0 (differences s1 s2) \<and>
   rebuild s1 s2 0 (differences s1 s2) = s2 \<and>
   0 \<le> distance s1 s2 \<and> (distance s1 s2 = 0 \<longleftrightarrow> s1 = s2)"
proof (intro conjI)
  show e: "explains s1 s2 0 0 (differences s1 s2)"
    by (rule explains_differences)
  show "rebuild s1 s2 0 (differences s1 s2) = s2"
    using explains_rebuild[OF e] by simp
  show "0 \<le> distance s1 s2"
    using distance_loop_pos[OF e] by (simp add: distance_def)
  show "distance s1 s2 = 0 \<longleftrightarrow> s1 = s2"
    using distance_loop_0[OF e] by (auto simp: distance_def differences_same)
qed

end
