(* ===== verification/Athena_Hashmap.thy ===== *)
theory Athena_Hashmap
  imports "HOL-Library.Monad_Syntax" "HOL-Library.Multiset" Complex_Main
begin

text \<open>
  The hash tables of \<open>src/src/Core/Containers/hashmap.cpp\<close> and \<open>hashmap_extra.cpp\<close>, which
  the typesetter and the observers use for their environments. A table is an array of \<open>n\<close>
  lists of entries, where \<open>n\<close> is a power of two, with a default value \<open>init\<close>. The hash function
  of the key type is a parameter; \<open>hash (x) & (n-1)\<close> is the bitwise conjunction on integers.
  \<open>U& bracket_rw (x)\<close> returns a reference; here it takes the update that the caller makes
  through the reference, so that \<open>h (x)= v\<close> is \<open>bracket_rw hash (\<lambda>_. v) h x\<close>. The tables that an
  operation reads and writes are different objects.

  Shown: a table refines a finite map through all operations that grow and shrink it, the
  number of entries is counted and bounded by the load; and where the code deviates from that:
  \<open>clear\<close> and \<open>==\<close>.
\<close>

unbundle bit_operations_syntax

datatype ('k, 'v) hashentry = Entry (ecode: int) (ekey: 'k) (im: 'v)

record ('k, 'v) hashmap =
  hsize :: nat
  hn :: nat
  hmax :: nat
  hinit :: 'v
  ha :: "('k, 'v) hashentry list list"

definition new_hashmap :: "'v \<Rightarrow> nat \<Rightarrow> nat \<Rightarrow> ('k, 'v) hashmap" where
  "new_hashmap init n mx = \<lparr>hsize = 0, hn = n, hmax = mx, hinit = init, ha = replicate n []\<rparr>"

definition slot :: "nat \<Rightarrow> int \<Rightarrow> nat" where
  "slot n hv = nat (hv AND (int n - 1))"

section \<open>Operations\<close>

fun rehash_list :: "('k \<Rightarrow> int) \<Rightarrow> nat \<Rightarrow> ('k, 'v) hashentry list \<Rightarrow> ('k, 'v) hashentry list list \<Rightarrow>
    ('k, 'v) hashentry list list" where
  "rehash_list hash n [] a = a"
| "rehash_list hash n (e # l) a =
     (let i = slot n (hash (ekey e)) in rehash_list hash n l (a[i := e # a ! i]))"

fun rehash :: "('k \<Rightarrow> int) \<Rightarrow> nat \<Rightarrow> ('k, 'v) hashentry list list \<Rightarrow> ('k, 'v) hashentry list list \<Rightarrow>
    ('k, 'v) hashentry list list" where
  "rehash hash n [] a = a"
| "rehash hash n (l # olda) a = rehash hash n olda (rehash_list hash n l a)"

definition hashmap_resize :: "('k \<Rightarrow> int) \<Rightarrow> nat \<Rightarrow> ('k, 'v) hashmap \<Rightarrow> ('k, 'v) hashmap" where
  "hashmap_resize hash n2 h = h\<lparr>hn := n2, ha := rehash hash n2 (ha h) (replicate n2 [])\<rparr>"

text \<open>The search for an entry in a list.\<close>

fun find_entry :: "int \<Rightarrow> 'k \<Rightarrow> ('k, 'v) hashentry list \<Rightarrow> 'v option" where
  "find_entry hv x [] = None"
| "find_entry hv x (e # l) = (if ecode e = hv \<and> ekey e = x then Some (im e) else find_entry hv x l)"

fun update_entry :: "int \<Rightarrow> 'k \<Rightarrow> ('v \<Rightarrow> 'v) \<Rightarrow> ('k, 'v) hashentry list \<Rightarrow> ('k, 'v) hashentry list" where
  "update_entry hv x f [] = []"
| "update_entry hv x f (e # l) =
     (if ecode e = hv \<and> ekey e = x then Entry (ecode e) (ekey e) (f (im e)) # l
      else e # update_entry hv x f l)"

fun remove_entry :: "int \<Rightarrow> 'k \<Rightarrow> ('k, 'v) hashentry list \<Rightarrow> ('k, 'v) hashentry list" where
  "remove_entry hv x [] = []"
| "remove_entry hv x (e # l) = (if ecode e = hv \<and> ekey e = x then l else e # remove_entry hv x l)"

definition bucket_find :: "('k \<Rightarrow> int) \<Rightarrow> ('k, 'v) hashmap \<Rightarrow> 'k \<Rightarrow> 'v option" where
  "bucket_find hash h x = find_entry (hash x) x (ha h ! slot (hn h) (hash x))"

definition contains :: "('k \<Rightarrow> int) \<Rightarrow> ('k, 'v) hashmap \<Rightarrow> 'k \<Rightarrow> bool" where
  "contains hash h x \<longleftrightarrow> bucket_find hash h x \<noteq> None"

definition empty :: "('k, 'v) hashmap \<Rightarrow> bool" where
  "empty h \<longleftrightarrow> hsize h = 0"

definition insert_new :: "('k \<Rightarrow> int) \<Rightarrow> ('k, 'v) hashmap \<Rightarrow> 'k \<Rightarrow> 'v \<Rightarrow> ('k, 'v) hashmap" where
  "insert_new hash h x v =
     (let h = (if hsize h \<ge> hn h * hmax h then hashmap_resize hash (hn h * 2) h else h);
          i = slot (hn h) (hash x)
      in h\<lparr>ha := (ha h)[i := Entry (hash x) x v # ha h ! i], hsize := hsize h + 1\<rparr>)"

definition bracket_rw :: "('k \<Rightarrow> int) \<Rightarrow> ('v \<Rightarrow> 'v) \<Rightarrow> ('k, 'v) hashmap \<Rightarrow> 'k \<Rightarrow> ('k, 'v) hashmap" where
  "bracket_rw hash f h x =
     (let i = slot (hn h) (hash x) in
      if bucket_find hash h x \<noteq> None then h\<lparr>ha := (ha h)[i := update_entry (hash x) x f (ha h ! i)]\<rparr>
      else insert_new hash h x (f (hinit h)))"

definition bracket_ro :: "('k \<Rightarrow> int) \<Rightarrow> ('k, 'v) hashmap \<Rightarrow> 'k \<Rightarrow> 'v" where
  "bracket_ro hash h x = (case bucket_find hash h x of Some v \<Rightarrow> v | None \<Rightarrow> hinit h)"

definition reset :: "('k \<Rightarrow> int) \<Rightarrow> ('k, 'v) hashmap \<Rightarrow> 'k \<Rightarrow> ('k, 'v) hashmap" where
  "reset hash h x =
     (let i = slot (hn h) (hash x) in
      if bucket_find hash h x \<noteq> None then
        let h = h\<lparr>ha := (ha h)[i := remove_entry (hash x) x (ha h ! i)], hsize := hsize h - 1\<rparr>
        in if hsize h < (hn h div 2) * hmax h then hashmap_resize hash (hn h div 2) h else h
      else h)"

text \<open>\<open>clear\<close> empties the array and leaves \<open>size\<close> as it is.\<close>

definition hashmap_clear :: "('k, 'v) hashmap \<Rightarrow> ('k, 'v) hashmap" where
  "hashmap_clear h = h\<lparr>ha := replicate (hn h) []\<rparr>"

text \<open>The order in which \<open>generate\<close> and the loops over all entries visit them.\<close>

definition entries :: "('k, 'v) hashmap \<Rightarrow> ('k, 'v) hashentry list" where
  "entries h = concat (ha h)"

definition generate :: "('k, 'v) hashmap \<Rightarrow> 'k list" where
  "generate h = map ekey (entries h)"

definition hashmap_join :: "('k \<Rightarrow> int) \<Rightarrow> ('k, 'v) hashmap \<Rightarrow> ('k, 'v) hashmap \<Rightarrow> ('k, 'v) hashmap" where
  "hashmap_join hash h h2 = foldl (\<lambda>h e. bracket_rw hash (\<lambda>_. im e) h (ekey e)) h (entries h2)"

definition hashmap_eq :: "('k \<Rightarrow> int) \<Rightarrow> ('k, 'v) hashmap \<Rightarrow> ('k, 'v) hashmap \<Rightarrow> bool" where
  "hashmap_eq hash h1 h2 \<longleftrightarrow>
     hsize h1 = hsize h2 \<and> list_all (\<lambda>e. bracket_ro hash h2 (ekey e) = im e) (entries h1)"

section \<open>Patches of tables\<close>

definition write_back :: "('k \<Rightarrow> int) \<Rightarrow> ('k, 'v) hashmap \<Rightarrow> 'k \<Rightarrow> ('k, 'v) hashmap \<Rightarrow> ('k, 'v) hashmap" where
  "write_back hash h x base =
     (if bucket_find hash h x \<noteq> None then h
      else insert_new hash h x
             (case bucket_find hash base x of Some v \<Rightarrow> v | None \<Rightarrow> hinit base))"

definition pre_patch_step :: "('k \<Rightarrow> int) \<Rightarrow> ('k, 'v) hashmap \<Rightarrow> ('k, 'v) hashmap \<Rightarrow> ('k, 'v) hashentry \<Rightarrow>
    ('k, 'v) hashmap" where
  "pre_patch_step hash base h e =
     (let x = ekey e; y = (if contains hash h x then bracket_ro hash h x else im e)
      in if bracket_ro hash base x = y then reset hash h x else bracket_rw hash (\<lambda>_. y) h x)"

definition pre_patch :: "('k \<Rightarrow> int) \<Rightarrow> ('k, 'v) hashmap \<Rightarrow> ('k, 'v) hashmap \<Rightarrow> ('k, 'v) hashmap \<Rightarrow>
    ('k, 'v) hashmap" where
  "pre_patch hash h patch base = foldl (pre_patch_step hash base) h (entries patch)"

definition post_patch_step :: "('k \<Rightarrow> int) \<Rightarrow> ('k, 'v) hashmap \<Rightarrow> ('k, 'v) hashmap \<Rightarrow> ('k, 'v) hashentry \<Rightarrow>
    ('k, 'v) hashmap" where
  "post_patch_step hash base h e =
     (let x = ekey e; y = im e
      in if bracket_ro hash base x = y then reset hash h x else bracket_rw hash (\<lambda>_. y) h x)"

definition post_patch :: "('k \<Rightarrow> int) \<Rightarrow> ('k, 'v) hashmap \<Rightarrow> ('k, 'v) hashmap \<Rightarrow> ('k, 'v) hashmap \<Rightarrow>
    ('k, 'v) hashmap" where
  "post_patch hash h patch base = foldl (post_patch_step hash base) h (entries patch)"

fun copy_list :: "('k, 'v) hashentry list \<Rightarrow> ('k, 'v) hashentry list" where
  "copy_list [] = []"
| "copy_list (e # l) = Entry (ecode e) (ekey e) (im e) # copy_list l"

definition copy_hashmap :: "('k, 'v) hashmap \<Rightarrow> ('k, 'v) hashmap" where
  "copy_hashmap h =
     (new_hashmap (hinit h) (hn h) (hmax h))\<lparr>hsize := hsize h, ha := map copy_list (ha h)\<rparr>"

definition changes :: "('k \<Rightarrow> int) \<Rightarrow> ('k, 'v) hashmap \<Rightarrow> ('k, 'v) hashmap \<Rightarrow> ('k, 'v) hashmap" where
  "changes hash patch base =
     foldl (\<lambda>h e. if im e \<noteq> bracket_ro hash base (ekey e)
                  then bracket_rw hash (\<lambda>_. im e) h (ekey e) else h)
       (new_hashmap (hinit base) 1 1) (entries patch)"

definition invert_patch :: "('k \<Rightarrow> int) \<Rightarrow> ('k, 'v) hashmap \<Rightarrow> ('k, 'v) hashmap \<Rightarrow> ('k, 'v) hashmap" where
  "invert_patch hash patch base =
     foldl (\<lambda>h e. if im e \<noteq> bracket_ro hash base (ekey e)
                  then bracket_rw hash (\<lambda>_. bracket_ro hash base (ekey e)) h (ekey e) else h)
       (new_hashmap (hinit base) 1 1) (entries patch)"

section \<open>The invariant\<close>

text \<open>Every entry is in the list of its hash value, keys occur once, \<open>size\<close> counts the entries.\<close>

definition buckets_ok :: "('k \<Rightarrow> int) \<Rightarrow> nat \<Rightarrow> ('k, 'v) hashentry list list \<Rightarrow> bool" where
  "buckets_ok hash n a \<longleftrightarrow>
     length a = n \<and>
     (\<forall>i < n. \<forall>e \<in> set (a ! i). ecode e = hash (ekey e) \<and> slot n (hash (ekey e)) = i) \<and>
     (\<forall>i < n. distinct (map ekey (a ! i)))"

definition hashmap_ok :: "('k \<Rightarrow> int) \<Rightarrow> ('k, 'v) hashmap \<Rightarrow> bool" where
  "hashmap_ok hash h \<longleftrightarrow>
     (\<exists>k. hn h = 2 ^ k) \<and> 0 < hmax h \<and> buckets_ok hash (hn h) (ha h) \<and>
     hsize h = length (entries h) \<and> hsize h \<le> hn h * hmax h"

text \<open>The map that a table stands for.\<close>

definition pairs :: "('k, 'v) hashentry list \<Rightarrow> ('k \<times> 'v) list" where
  "pairs l = map (\<lambda>e. (ekey e, im e)) l"

definition hmap :: "('k, 'v) hashmap \<Rightarrow> 'k \<rightharpoonup> 'v" where
  "hmap h = map_of (pairs (entries h))"

lemma slot_less: "0 < n \<Longrightarrow> slot n hv < n"
proof -
  assume "0 < n"
  then have "0 \<le> hv AND (int n - 1)" "hv AND (int n - 1) \<le> int n - 1"
    by (simp_all add: AND_upper2)
  then have "hv AND (int n - 1) < int n"
    by linarith
  then show "slot n hv < n"
    using \<open>0 \<le> hv AND (int n - 1)\<close> unfolding slot_def by (metis nat_less_iff)
qed

lemma slot_mod: "slot (2 ^ k) hv = nat (hv mod 2 ^ k)"
  using take_bit_eq_mask[of k hv] by (simp add: slot_def take_bit_eq_mod mask_eq_exp_minus_1)

lemma keys_pairs: "map fst (pairs l) = map ekey l"
  by (simp add: pairs_def)

lemma set_pairs: "(x, v) \<in> set (pairs l) \<longleftrightarrow> (\<exists>e \<in> set l. ekey e = x \<and> im e = v)"
  by (auto simp: pairs_def)

lemma buckets_distinct:
  assumes "buckets_ok hash n a"
  shows "distinct (map ekey (concat a))"
proof -
  have "distinct (map ekey (concat (take m a)))" if "m \<le> n" for m
    using that
  proof (induction m)
    case (Suc m)
    have m: "m < length a"
      using Suc.prems assms by (simp add: buckets_ok_def)
    have "ekey e \<noteq> ekey e'" if "e \<in> set (concat (take m a))" "e' \<in> set (a ! m)" for e e'
    proof -
      from that(1) obtain i where i: "i < m" "e \<in> set (a ! i)"
        using m by (auto simp: in_set_conv_nth[of _ "take m a"])
      then have "slot n (hash (ekey e)) = i"
        using assms m Suc.prems by (auto simp: buckets_ok_def)
      moreover have "slot n (hash (ekey e')) = m"
        using assms m Suc.prems that(2) by (auto simp: buckets_ok_def)
      ultimately show ?thesis
        using i(1) by auto
    qed
    then have "ekey ` set (concat (take m a)) \<inter> ekey ` set (a ! m) = {}"
      by blast
    moreover have "distinct (map ekey (a ! m))"
      using assms m by (simp add: buckets_ok_def)
    ultimately show ?case
      using Suc m by (simp add: take_Suc_conv_app_nth del: set_concat)
  qed simp
  from this[of n] show ?thesis
    using assms by (simp add: buckets_ok_def)
qed

lemma buckets_entry:
  assumes "buckets_ok hash n a" "0 < n" "e \<in> set (concat a)"
  shows "ecode e = hash (ekey e)" "e \<in> set (a ! slot n (hash (ekey e)))"
  using assms by (auto simp: buckets_ok_def in_set_conv_nth[of _ a])

lemma find_entry_map_of:
  "(\<And>e. e \<in> set l \<Longrightarrow> ecode e = hash (ekey e)) \<Longrightarrow> find_entry (hash x) x l = map_of (pairs l) x"
  by (induction l) (auto simp: pairs_def)

lemma option_eqI: "(\<And>v. p = Some v \<longleftrightarrow> q = Some v) \<Longrightarrow> p = q"
  by (metis not_Some_eq)

lemma map_of_pairs_iff:
  "distinct (map ekey l) \<Longrightarrow> map_of (pairs l) x = Some v \<longleftrightarrow> (\<exists>e \<in> set l. ekey e = x \<and> im e = v)"
  by (subst map_of_eq_Some_iff) (simp_all only: keys_pairs set_pairs)

lemma map_of_buckets:
  assumes "buckets_ok hash n a" "0 < n"
  shows "map_of (pairs (concat a)) x = map_of (pairs (a ! slot n (hash x))) x"
proof (rule option_eqI)
  fix v
  have i: "slot n (hash x) < length a" "distinct (map ekey (a ! slot n (hash x)))"
    using assms slot_less[of n "hash x"] by (auto simp: buckets_ok_def)
  then have "a ! slot n (hash x) \<in> set a"
    by simp
  then show "map_of (pairs (concat a)) x = Some v \<longleftrightarrow> map_of (pairs (a ! slot n (hash x))) x = Some v"
    unfolding map_of_pairs_iff[OF buckets_distinct[OF assms(1)]] map_of_pairs_iff[OF i(2)]
    using buckets_entry[OF assms] by (metis UN_I set_concat)
qed

lemma buckets_update:
  assumes "buckets_ok hash n a" "i < n"
    and "\<And>e. e \<in> set l \<Longrightarrow> ecode e = hash (ekey e) \<and> slot n (hash (ekey e)) = i" "distinct (map ekey l)"
  shows "buckets_ok hash n (a[i := l])"
  using assms by (auto simp: buckets_ok_def nth_list_update)

lemma map_of_update:
  assumes "buckets_ok hash n a" "i < n"
    and "\<And>e. e \<in> set l \<Longrightarrow> ecode e = hash (ekey e) \<and> slot n (hash (ekey e)) = i" "distinct (map ekey l)"
  shows "map_of (pairs (concat (a[i := l]))) x =
    (if slot n (hash x) = i then map_of (pairs l) x else map_of (pairs (concat a)) x)"
proof -
  have "0 < n" "length a = n"
    using assms by (auto simp: buckets_ok_def)
  then show ?thesis
    using map_of_buckets[OF buckets_update[OF assms]] map_of_buckets[OF assms(1)] assms(2) by simp
qed

lemma mset_concat_update:
  "i < length a \<Longrightarrow> mset (concat (a[i := e # a ! i])) = add_mset e (mset (concat a))"
proof (induction a arbitrary: i)
  case (Cons l a)
  then show ?case
    by (cases i) auto
qed simp

lemma length_concat_update:
  "i < length a \<Longrightarrow> length (concat (a[i := l])) + length (a ! i) = length (concat a) + length l"
proof (induction a arbitrary: i)
  case (Cons l a)
  then show ?case
    by (cases i) auto
qed simp

section \<open>Resizing\<close>

lemma rehash_list_append: "rehash_list hash n (l @ l') a = rehash_list hash n l' (rehash_list hash n l a)"
  by (induction l arbitrary: a) (simp_all add: Let_def)

lemma rehash_concat: "rehash hash n olda a = rehash_list hash n (concat olda) a"
  by (induction olda arbitrary: a) (simp_all add: rehash_list_append)

lemma rehash_list_ok:
  assumes "0 < n" "buckets_ok hash n a" "\<And>e. e \<in> set l \<Longrightarrow> ecode e = hash (ekey e)"
    and "distinct (map ekey (l @ concat a))"
  shows "buckets_ok hash n (rehash_list hash n l a) \<and>
    mset (concat (rehash_list hash n l a)) = mset l + mset (concat a)"
  using assms
proof (induction l arbitrary: a)
  case (Cons e l)
  define i where "i = slot n (hash (ekey e))"
  have i: "i < n" "i < length a"
    using Cons.prems slot_less[of n] by (auto simp: i_def buckets_ok_def)
  then have bucket: "a ! i \<in> set a"
    by simp
  have ok: "buckets_ok hash n (a[i := e # a ! i])"
  proof (rule buckets_update[OF Cons.prems(2) i(1)])
    show "distinct (map ekey (e # a ! i))"
      using Cons.prems(2, 4) bucket i by (fastforce simp: buckets_ok_def)
  next
    fix e' assume "e' \<in> set (e # a ! i)"
    then show "ecode e' = hash (ekey e') \<and> slot n (hash (ekey e')) = i"
      using Cons.prems(2, 3) i by (auto simp: buckets_ok_def i_def)
  qed
  have m: "mset (concat (a[i := e # a ! i])) = add_mset e (mset (concat a))"
    by (rule mset_concat_update[OF i(2)])
  then have "mset (map ekey (l @ concat (a[i := e # a ! i]))) = mset (map ekey ((e # l) @ concat a))"
    by (simp add: image_mset_add_mset)
  then have "distinct (map ekey (l @ concat (a[i := e # a ! i])))"
    using Cons.prems(4) mset_eq_imp_distinct_iff by blast
  from Cons.IH[OF Cons.prems(1) ok _ this] show ?case
    using Cons.prems(3) m by (simp add: i_def[symmetric])
qed simp

lemma buckets_ok_empty: "buckets_ok hash n (replicate n [])"
  by (simp add: buckets_ok_def)

lemma concat_replicate_Nil: "concat (replicate n []) = []"
  by (induction n) simp_all

lemma resize_ok:
  assumes "buckets_ok hash (hn h) (ha h)" "0 < hn h" "0 < n"
  shows "buckets_ok hash n (ha (hashmap_resize hash n h))" "hn (hashmap_resize hash n h) = n"
    "hmax (hashmap_resize hash n h) = hmax h" "hinit (hashmap_resize hash n h) = hinit h" "hsize (hashmap_resize hash n h) = hsize h"
    "length (entries (hashmap_resize hash n h)) = length (entries h)" "hmap (hashmap_resize hash n h) = hmap h"
proof -
  have "buckets_ok hash n (rehash_list hash n (concat (ha h)) (replicate n [])) \<and>
      mset (concat (rehash_list hash n (concat (ha h)) (replicate n []))) =
      mset (concat (ha h)) + mset (concat (replicate n []))"
    by (rule rehash_list_ok[OF assms(3) buckets_ok_empty])
      (use buckets_entry[OF assms(1, 2)] buckets_distinct[OF assms(1)] in
        \<open>auto simp: concat_replicate_Nil simp del: set_concat\<close>)
  then have ok: "buckets_ok hash n (ha (hashmap_resize hash n h))"
    and m: "mset (entries (hashmap_resize hash n h)) = mset (entries h)"
    by (simp_all add: hashmap_resize_def entries_def rehash_concat concat_replicate_Nil)
  show "buckets_ok hash n (ha (hashmap_resize hash n h))"
    by (rule ok)
  show "length (entries (hashmap_resize hash n h)) = length (entries h)"
    by (rule mset_eq_length[OF m])
  have "set (pairs (entries (hashmap_resize hash n h))) = set (pairs (entries h))"
    using mset_eq_setD[OF m] by (simp add: pairs_def)
  moreover have "distinct (map fst (pairs (entries (hashmap_resize hash n h))))" "distinct (map fst (pairs (entries h)))"
    unfolding keys_pairs entries_def by (rule buckets_distinct, fact)+
  ultimately show "hmap (hashmap_resize hash n h) = hmap h"
    unfolding hmap_def by (simp add: map_of_inject_set)
qed (simp_all add: hashmap_resize_def)

section \<open>Refinement of finite maps\<close>

lemma hashmap_okD:
  assumes "hashmap_ok hash h"
  shows "0 < hn h" "buckets_ok hash (hn h) (ha h)" "slot (hn h) (hash x) < hn h"
    "bucket_find hash h x = hmap h x" "hmap h x = map_of (pairs (ha h ! slot (hn h) (hash x))) x"
proof -
  show n: "0 < hn h" and ok: "buckets_ok hash (hn h) (ha h)"
    using assms by (auto simp: hashmap_ok_def)
  show i: "slot (hn h) (hash x) < hn h"
    by (rule slot_less[OF n])
  have "\<And>e. e \<in> set (ha h ! slot (hn h) (hash x)) \<Longrightarrow> ecode e = hash (ekey e)"
    using ok i by (auto simp: buckets_ok_def)
  then show "bucket_find hash h x = hmap h x" "hmap h x = map_of (pairs (ha h ! slot (hn h) (hash x))) x"
    using map_of_buckets[OF ok n, of x] by (simp_all add: bucket_find_def find_entry_map_of hmap_def entries_def)
qed

lemma bracket_ro_hmap:
  "hashmap_ok hash h \<Longrightarrow> bracket_ro hash h x = (case hmap h x of Some v \<Rightarrow> v | None \<Rightarrow> hinit h)"
  by (simp add: bracket_ro_def hashmap_okD)

lemma contains_hmap: "hashmap_ok hash h \<Longrightarrow> contains hash h x \<longleftrightarrow> x \<in> dom (hmap h)"
  by (auto simp: contains_def hashmap_okD)

lemma entries_keys: "hashmap_ok hash h \<Longrightarrow> distinct (map ekey (entries h))"
  unfolding entries_def by (rule buckets_distinct) (rule hashmap_okD)

lemma hmap_iff: "hashmap_ok hash h \<Longrightarrow> hmap h x = Some v \<longleftrightarrow> (\<exists>e \<in> set (entries h). ekey e = x \<and> im e = v)"
  by (simp add: hmap_def map_of_pairs_iff entries_keys)

lemma size_hmap:
  assumes "hashmap_ok hash h"
  shows "hsize h = card (dom (hmap h))"
proof -
  have "dom (hmap h) = set (map ekey (entries h))"
    unfolding hmap_def dom_map_of_conv_image_fst set_map[symmetric] keys_pairs ..
  then show ?thesis
    using assms distinct_card[OF entries_keys[OF assms]] by (simp add: hashmap_ok_def del: set_map)
qed

lemma hmap_new: "hmap (new_hashmap init n mx) = Map.empty" "hinit (new_hashmap init n mx) = init"
  by (simp_all add: hmap_def new_hashmap_def entries_def concat_replicate_Nil pairs_def)

lemma hashmap_ok_new: "0 < mx \<Longrightarrow> hashmap_ok hash (new_hashmap init (2 ^ k) mx)"
  by (auto simp: hashmap_ok_def new_hashmap_def buckets_ok_empty entries_def concat_replicate_Nil)

text \<open>One list of the array is replaced.\<close>

lemma set_bucket:
  assumes "hashmap_ok hash h" "i = slot (hn h) (hash x)"
    and "\<And>e. e \<in> set l \<Longrightarrow> e \<in> set (ha h ! i) \<or> ecode e = hash (ekey e) \<and> ekey e = x"
    and "distinct (map ekey l)" "map_of (pairs l) = (map_of (pairs (ha h ! i)))(x := r)"
  shows "buckets_ok hash (hn h) ((ha h)[i := l])"
    "map_of (pairs (concat ((ha h)[i := l]))) = (hmap h)(x := r)"
proof -
  note h = hashmap_okD[OF assms(1)]
  have i: "i < hn h"
    using h(3) assms(2) by simp
  have l: "ecode e = hash (ekey e) \<and> slot (hn h) (hash (ekey e)) = i" if "e \<in> set l" for e
    using assms(2, 3) that h(2) i by (auto simp: buckets_ok_def)
  show "buckets_ok hash (hn h) ((ha h)[i := l])"
    by (rule buckets_update[OF h(2) i l assms(4)])
  show "map_of (pairs (concat ((ha h)[i := l]))) = (hmap h)(x := r)"
    using map_of_update[OF h(2) i l assms(4)] assms(2, 5) h(5)
    by (auto simp: fun_eq_iff hmap_def entries_def)
qed

lemma update_entry_keys:
  "map ekey (update_entry hv x f l) = map ekey l" "length (update_entry hv x f l) = length l"
  by (induction l) simp_all

lemma update_entry_set: "e \<in> set (update_entry hv x f l) \<Longrightarrow> e \<in> set l \<or> ecode e = hv \<and> ekey e = x"
  by (induction l) (auto split: if_splits)

lemma update_entry_map:
  assumes "\<And>e. e \<in> set l \<Longrightarrow> ecode e = hash (ekey e)" "map_of (pairs l) x = Some v"
  shows "map_of (pairs (update_entry (hash x) x f l)) = (map_of (pairs l))(x := Some (f v))"
  using assms by (induction l) (auto simp: pairs_def fun_eq_iff split: if_splits)

lemma remove_entry_ok:
  assumes "\<And>e. e \<in> set l \<Longrightarrow> ecode e = hash (ekey e)" "distinct (map ekey l)"
  shows "distinct (map ekey (remove_entry (hash x) x l))"
    "e \<in> set (remove_entry (hash x) x l) \<Longrightarrow> e \<in> set l"
    "map_of (pairs l) x \<noteq> None \<Longrightarrow> length (remove_entry (hash x) x l) + 1 = length l"
    "map_of (pairs (remove_entry (hash x) x l)) = (map_of (pairs l))(x := None)"
proof -
  have s: "set (remove_entry (hash x) x l) \<subseteq> set l" for l :: "('a, 'b) hashentry list"
    by (induction l) auto
  then show "e \<in> set (remove_entry (hash x) x l) \<Longrightarrow> e \<in> set l"
    by auto
  show "distinct (map ekey (remove_entry (hash x) x l))"
    using assms(2)
  proof (induction l)
    case (Cons e l)
    then show ?case
      using image_mono[OF s[of l], of ekey] by auto
  qed simp
  show "map_of (pairs l) x \<noteq> None \<Longrightarrow> length (remove_entry (hash x) x l) + 1 = length l"
    using assms by (induction l) (auto simp: pairs_def split: if_splits)
  show "map_of (pairs (remove_entry (hash x) x l)) = (map_of (pairs l))(x := None)"
    using assms
  proof (induction l)
    case (Cons e l)
    have "ekey e \<notin> set (map fst (pairs l))"
      using Cons.prems(2) by (simp only: keys_pairs) simp
    then show ?case
      using Cons by (auto simp: pairs_def fun_eq_iff map_of_eq_None_iff)
  qed (simp add: pairs_def)
qed

lemma insert_new_ok:
  assumes "hashmap_ok hash h" "hmap h x = None"
  shows "hashmap_ok hash (insert_new hash h x v) \<and> hinit (insert_new hash h x v) = hinit h \<and>
    hmap (insert_new hash h x v) = (hmap h)(x := Some v)"
proof -
  define h' where "h' = (if hsize h \<ge> hn h * hmax h then hashmap_resize hash (hn h * 2) h else h)"
  define i where "i = slot (hn h') (hash x)"
  note ok = hashmap_okD[OF assms(1)]
  note grown = resize_ok[OF ok(2, 1), of "hn h * 2"]
  obtain k where k: "hn h = 2 ^ k"
    using assms(1) by (auto simp: hashmap_ok_def)
  then have "\<exists>j. hn h * 2 = 2 ^ j"
    by (intro exI[of _ "Suc k"]) simp
  moreover have "0 < hn h * hmax h" "hn h * 2 * hmax h = hn h * hmax h + hn h * hmax h"
    using assms(1) ok(1) by (simp_all add: hashmap_ok_def)
  then have "hsize h < hn h * 2 * hmax h"
    using assms(1) unfolding hashmap_ok_def by linarith
  ultimately have h': "hashmap_ok hash h'" "hmap h' = hmap h" "hinit h' = hinit h" "hsize h' < hn h' * hmax h'"
    using assms(1) grown ok(1) unfolding h'_def hashmap_ok_def
    by (simp_all add: not_le less_imp_le)
  have "map_of (pairs (ha h' ! i)) x = None"
    using hashmap_okD(5)[OF h'(1), of x] assms(2) h'(2) by (simp add: i_def)
  then have free: "x \<notin> set (map ekey (ha h' ! i))"
    by (simp add: map_of_eq_None_iff flip: keys_pairs)
  have bucket: "distinct (map ekey (Entry (hash x) x v # ha h' ! i))"
    using free hashmap_okD(2)[OF h'(1)] hashmap_okD(3)[OF h'(1), of x] by (simp add: buckets_ok_def i_def)
  have "e \<in> set (ha h' ! i) \<or> ecode e = hash (ekey e) \<and> ekey e = x"
    if "e \<in> set (Entry (hash x) x v # ha h' ! i)" for e
    using that by auto
  note put = set_bucket[OF h'(1) i_def this bucket, of "Some v"]
  have eq: "insert_new hash h x v =
      h'\<lparr>ha := (ha h')[i := Entry (hash x) x v # ha h' ! i], hsize := hsize h' + 1\<rparr>"
    by (simp add: insert_new_def h'_def i_def Let_def)
  have "length (concat ((ha h')[i := Entry (hash x) x v # ha h' ! i])) = length (entries h') + 1"
    using length_concat_update[of i "ha h'" "Entry (hash x) x v # ha h' ! i"] hashmap_okD(2)[OF h'(1)] hashmap_okD(3)[OF h'(1), of x]
    by (simp add: buckets_ok_def i_def entries_def)
  then show ?thesis
    using h' put unfolding eq hashmap_ok_def by (auto simp: hmap_def entries_def pairs_def)
qed

lemma bracket_rw_ok:
  assumes "hashmap_ok hash h"
  shows "hashmap_ok hash (bracket_rw hash f h x) \<and> hinit (bracket_rw hash f h x) = hinit h \<and>
    hmap (bracket_rw hash f h x) = (hmap h)(x := Some (f (bracket_ro hash h x)))"
proof (cases "hmap h x")
  case None
  then show ?thesis
    using insert_new_ok[OF assms None, of "f (hinit h)"] assms
    by (simp add: bracket_rw_def bracket_ro_hmap hashmap_okD)
next
  case (Some v)
  define i where "i = slot (hn h) (hash x)"
  define l where "l = update_entry (hash x) x f (ha h ! i)"
  note ok = hashmap_okD[OF assms]
  have codes: "\<And>e. e \<in> set (ha h ! i) \<Longrightarrow> ecode e = hash (ekey e)" and d: "distinct (map ekey (ha h ! i))"
    using ok(2) ok(3)[of x] by (auto simp: buckets_ok_def i_def)
  have at: "map_of (pairs (ha h ! i)) x = Some v"
    using Some ok(5)[of x] by (simp add: i_def)
  have "e \<in> set (ha h ! i) \<or> ecode e = hash (ekey e) \<and> ekey e = x" if "e \<in> set l" for e
    using update_entry_set[of e "hash x" x f "ha h ! i"] that by (auto simp: l_def)
  moreover have "distinct (map ekey l)"
    using d by (simp add: l_def update_entry_keys)
  ultimately have l: "buckets_ok hash (hn h) ((ha h)[i := l])"
    "map_of (pairs (concat ((ha h)[i := l]))) = (hmap h)(x := Some (f v))"
    using set_bucket[OF assms i_def, of l "Some (f v)"] update_entry_map[OF codes at, of f]
    by (simp_all add: l_def)
  have "length (concat ((ha h)[i := l])) = length (entries h)"
    using length_concat_update[of i "ha h" l] ok(2) ok(3)[of x]
    by (simp add: buckets_ok_def i_def entries_def l_def update_entry_keys)
  moreover have "bracket_rw hash f h x = h\<lparr>ha := (ha h)[i := l]\<rparr>"
    using Some ok(4)[of x] by (simp add: bracket_rw_def i_def l_def Let_def)
  ultimately show ?thesis
    using assms l Some unfolding hashmap_ok_def
    by (simp add: bracket_ro_hmap[OF assms] hmap_def entries_def)
qed

lemma reset_ok:
  assumes "hashmap_ok hash h"
  shows "hashmap_ok hash (reset hash h x) \<and> hinit (reset hash h x) = hinit h \<and>
    hmap (reset hash h x) = (hmap h)(x := None)"
proof (cases "hmap h x")
  case None
  then show ?thesis
    using assms by (simp add: reset_def hashmap_okD fun_upd_idem)
next
  case (Some v)
  define i where "i = slot (hn h) (hash x)"
  define l where "l = remove_entry (hash x) x (ha h ! i)"
  define h' where "h' = h\<lparr>ha := (ha h)[i := l], hsize := hsize h - 1\<rparr>"
  note ok = hashmap_okD[OF assms]
  have codes: "\<And>e. e \<in> set (ha h ! i) \<Longrightarrow> ecode e = hash (ekey e)" and d: "distinct (map ekey (ha h ! i))"
    using ok(2) ok(3)[of x] by (auto simp: buckets_ok_def i_def)
  note removed = remove_entry_ok[where x = x, OF codes d, folded l_def]
  have l: "buckets_ok hash (hn h) ((ha h)[i := l])"
    "map_of (pairs (concat ((ha h)[i := l]))) = (hmap h)(x := None)"
    by (rule set_bucket[OF assms i_def, of l None]; use removed in blast)+
  have "length l + 1 = length (ha h ! i)"
    using removed(3) Some ok(5)[of x] by (simp add: i_def)
  then have size: "length (concat ((ha h)[i := l])) + 1 = length (entries h)"
    using length_concat_update[of i "ha h" l] ok(2) ok(3)[of x]
    by (simp add: buckets_ok_def i_def entries_def)
  then have h': "hashmap_ok hash h'" "hmap h' = (hmap h)(x := None)" "hinit h' = hinit h"
    using assms l unfolding hashmap_ok_def by (auto simp: h'_def hmap_def entries_def)
  have eq: "reset hash h x =
      (if hsize h' < (hn h' div 2) * hmax h' then hashmap_resize hash (hn h' div 2) h' else h')"
    using Some ok(4)[of x] by (simp add: reset_def h'_def i_def l_def Let_def)
  show ?thesis
  proof (cases "hsize h' < (hn h' div 2) * hmax h'")
    case True
    obtain k where k: "hn h' = 2 ^ k"
      using h'(1) by (auto simp: hashmap_ok_def)
    have "0 < hn h' div 2"
      using True by (cases "hn h' div 2") auto
    with k have "hn h' div 2 = 2 ^ (k - 1)"
      by (cases k) auto
    with True show ?thesis
      using h' resize_ok[OF hashmap_okD(2, 1)[OF h'(1)] \<open>0 < hn h' div 2\<close>] unfolding hashmap_ok_def eq
      by (simp add: less_imp_le)
  qed (use h' eq in simp)
qed

section \<open>The interface of a table\<close>

text \<open>
  What the clients of a table rely on: the map it stands for, its default value and its
  entries, and how writing and removing one key changes them. \<open>foldl_pointwise\<close> is the shape
  of every loop over the entries of one table that changes another one key at a time.
\<close>

locale map_table =
  fixes ok :: "'t \<Rightarrow> bool" and look :: "'t \<Rightarrow> 'k \<Rightarrow> 'v option" and default :: "'t \<Rightarrow> 'v"
    and put :: "'t \<Rightarrow> 'k \<Rightarrow> 'v \<Rightarrow> 't" and del :: "'t \<Rightarrow> 'k \<Rightarrow> 't"
    and els :: "'t \<Rightarrow> ('k \<times> 'v) list"
  assumes put: "ok t \<Longrightarrow> ok (put t k v) \<and> default (put t k v) = default t \<and> look (put t k v) = (look t)(k := Some v)"
    and del: "ok t \<Longrightarrow> ok (del t k) \<and> default (del t k) = default t \<and> look (del t k) = (look t)(k := None)"
    and els: "ok t \<Longrightarrow> distinct (map fst (els t)) \<and> map_of (els t) = look t"
begin

definition pointwise :: "('t \<Rightarrow> 'k \<times> 'v \<Rightarrow> 't) \<Rightarrow> ('k \<Rightarrow> 'v option \<Rightarrow> 'v \<Rightarrow> 'v option) \<Rightarrow> bool" where
  "pointwise step g \<longleftrightarrow> (\<forall>t k v. ok t \<longrightarrow> ok (step t (k, v)) \<and> default (step t (k, v)) = default t \<and>
     look (step t (k, v)) = (look t)(k := g k (look t k) v))"

lemma foldl_pointwise:
  assumes "pointwise step g" "ok t" "distinct (map fst l)"
  shows "ok (foldl step t l) \<and> default (foldl step t l) = default t \<and>
    look (foldl step t l) x = (case map_of l x of None \<Rightarrow> look t x | Some v \<Rightarrow> g x (look t x) v)"
  using assms(2, 3)
proof (induction l arbitrary: t)
  case (Cons e l)
  obtain k v where e: "e = (k, v)"
    by (cases e)
  have step: "ok (step t e)" "default (step t e) = default t" "look (step t e) = (look t)(k := g k (look t k) v)"
    using assms(1) Cons.prems(1) by (auto simp: pointwise_def e)
  have "map_of l k = None"
    using Cons.prems(2) by (simp add: e map_of_eq_None_iff)
  then show ?case
    using Cons.IH[OF step(1)] Cons.prems(2) step(2, 3) by (auto simp: e split: option.splits)
qed simp

lemma foldl_entries:
  assumes "pointwise step g" "ok t" "ok t2"
  shows "ok (foldl step t (els t2)) \<and> default (foldl step t (els t2)) = default t \<and>
    look (foldl step t (els t2)) x = (case look t2 x of None \<Rightarrow> look t x | Some v \<Rightarrow> g x (look t x) v)"
  using foldl_pointwise[OF assms(1, 2), of "els t2" x] els[OF assms(3)] by simp

lemma pointwise_put: "pointwise (\<lambda>t (k, v). put t k (f k v)) (\<lambda>k r v. Some (f k v))"
  by (simp add: pointwise_def put)

lemma pointwise_put_del:
  "pointwise (\<lambda>t (k, v). if c k v then del t k else put t k v) (\<lambda>k r v. if c k v then None else Some v)"
  by (simp add: pointwise_def put del)

lemma pointwise_put_if:
  "pointwise (\<lambda>t (k, v). if c k v then put t k (f k v) else t) (\<lambda>k r v. if c k v then Some (f k v) else r)"
  by (simp add: pointwise_def put)

end

text \<open>\<open>h (x)= v\<close> writes through the reference that \<open>bracket_rw\<close> returns.\<close>

definition assign_entry :: "('k \<Rightarrow> int) \<Rightarrow> ('k, 'v) hashmap \<Rightarrow> 'k \<Rightarrow> 'v \<Rightarrow> ('k, 'v) hashmap" where
  "assign_entry hash h x v = bracket_rw hash (\<lambda>_. v) h x"

definition hentries :: "('k, 'v) hashmap \<Rightarrow> ('k \<times> 'v) list" where
  "hentries h = pairs (entries h)"

interpretation hm: map_table "hashmap_ok hash" hmap hinit "assign_entry hash" "reset hash" hentries
  for hash :: "'k \<Rightarrow> int"
  by unfold_locales
    (simp_all add: assign_entry_def bracket_rw_ok reset_ok hentries_def keys_pairs entries_keys flip: hmap_def)

lemma foldl_hentries: "foldl (\<lambda>h e. step h (ekey e, im e)) h (entries h2) = foldl step h (hentries h2)"
  by (simp add: hentries_def pairs_def foldl_map)

section \<open>Loops over the entries\<close>

lemma join_eq: "hashmap_join hash h h2 = foldl (\<lambda>h (k, v). assign_entry hash h k v) h (hentries h2)"
  unfolding hashmap_join_def assign_entry_def foldl_hentries[symmetric] by simp

lemma join_ok:
  assumes "hashmap_ok hash h" "hashmap_ok hash h2"
  shows "hashmap_ok hash (hashmap_join hash h h2) \<and> hinit (hashmap_join hash h h2) = hinit h \<and>
    hmap (hashmap_join hash h h2) = hmap h ++ hmap h2"
  using hm.foldl_entries[OF hm.pointwise_put[of _ "\<lambda>k v. v"] assms]
  by (auto simp: join_eq fun_eq_iff map_add_def split: option.splits)

lemma post_patch_ok:
  assumes "hashmap_ok hash h" "hashmap_ok hash patch"
  shows "hashmap_ok hash (post_patch hash h patch base) \<and>
    hmap (post_patch hash h patch base) x = (case hmap patch x of None \<Rightarrow> hmap h x
      | Some v \<Rightarrow> if bracket_ro hash base x = v then None else Some v)"
proof -
  have "post_patch hash h patch base =
      foldl (\<lambda>h (k, v). if bracket_ro hash base k = v then reset hash h k else assign_entry hash h k v)
        h (hentries patch)"
    unfolding post_patch_def post_patch_step_def[abs_def] assign_entry_def foldl_hentries[symmetric]
    by (simp add: Let_def)
  then show ?thesis
    using hm.foldl_entries[OF hm.pointwise_put_del[of _ "\<lambda>k v. bracket_ro hash base k = v"] assms] by simp
qed

definition pre_value :: "('k \<Rightarrow> int) \<Rightarrow> ('k, 'v) hashmap \<Rightarrow> 'k \<Rightarrow> 'v option \<Rightarrow> 'v \<Rightarrow> 'v option" where
  "pre_value hash base k r v =
     (let y = (case r of Some w \<Rightarrow> w | None \<Rightarrow> v) in if bracket_ro hash base k = y then None else Some y)"

lemma pre_patch_ok:
  assumes "hashmap_ok hash h" "hashmap_ok hash patch"
  shows "hashmap_ok hash (pre_patch hash h patch base) \<and>
    hmap (pre_patch hash h patch base) x =
      (case hmap patch x of None \<Rightarrow> hmap h x | Some v \<Rightarrow> pre_value hash base x (hmap h x) v)"
proof -
  let ?step = "\<lambda>h (k, v). pre_patch_step hash base h (Entry 0 k v)"
  have "hm.pointwise hash ?step (pre_value hash base)"
    by (auto simp: hm.pointwise_def pre_patch_step_def Let_def contains_hmap bracket_ro_hmap[of _ h for h]
        bracket_rw_ok reset_ok pre_value_def split: option.splits)
  moreover have "pre_patch hash h patch base = foldl ?step h (hentries patch)"
    unfolding pre_patch_def pre_patch_step_def[abs_def] foldl_hentries[symmetric] Let_def
    by (simp only: prod.case hashentry.sel)
  ultimately show ?thesis
    using hm.foldl_entries[OF _ assms] by simp
qed

lemma changes_ok:
  assumes "hashmap_ok hash patch"
  shows "hashmap_ok hash (changes hash patch base) \<and>
    hmap (changes hash patch base) x = (case hmap patch x of None \<Rightarrow> None
      | Some v \<Rightarrow> if v \<noteq> bracket_ro hash base x then Some v else None)"
proof -
  have "changes hash patch base =
      foldl (\<lambda>h (k, v). if v \<noteq> bracket_ro hash base k then assign_entry hash h k v else h)
        (new_hashmap (hinit base) (2 ^ 0) 1) (hentries patch)"
    unfolding changes_def assign_entry_def foldl_hentries[symmetric] by simp
  then show ?thesis
    using hm.foldl_entries[OF hm.pointwise_put_if[of hash "\<lambda>k v. v \<noteq> bracket_ro hash base k" "\<lambda>k v. v"]
        hashmap_ok_new[OF zero_less_one, of hash "hinit base" 0] assms]
    by (simp add: hmap_new split: option.splits)
qed

lemma invert_patch_ok:
  assumes "hashmap_ok hash patch"
  shows "hashmap_ok hash (invert_patch hash patch base) \<and>
    hmap (invert_patch hash patch base) x = (case hmap patch x of None \<Rightarrow> None
      | Some v \<Rightarrow> if v \<noteq> bracket_ro hash base x then Some (bracket_ro hash base x) else None)"
proof -
  have "invert_patch hash patch base =
      foldl (\<lambda>h (k, v). if v \<noteq> bracket_ro hash base k then assign_entry hash h k (bracket_ro hash base k) else h)
        (new_hashmap (hinit base) (2 ^ 0) 1) (hentries patch)"
    unfolding invert_patch_def assign_entry_def foldl_hentries[symmetric] by simp
  then show ?thesis
    using hm.foldl_entries[OF hm.pointwise_put_if[of hash "\<lambda>k v. v \<noteq> bracket_ro hash base k"
          "\<lambda>k v. bracket_ro hash base k"] hashmap_ok_new[OF zero_less_one, of hash "hinit base" 0] assms]
    by (simp add: hmap_new split: option.splits)
qed

lemma copy_hashmap_id: "copy_hashmap h = h"
proof -
  have "copy_list l = l" for l :: "('a, 'b) hashentry list"
    by (induction l) simp_all
  then show ?thesis
    by (cases h) (simp add: copy_hashmap_def new_hashmap_def map_idI)
qed

lemma clear_keeps_size: "hashmap_ok hash h \<Longrightarrow> hmap (hashmap_clear h) = Map.empty \<and> hsize (hashmap_clear h) = hsize h"
  by (simp add: hashmap_clear_def hmap_def entries_def concat_replicate_Nil pairs_def)

definition sample_table :: "(int, int) hashmap" where
  "sample_table = new_hashmap 0 1 1"

definition sample_changes :: "(int, int) hashmap" where
  "sample_changes = bracket_rw id (\<lambda>_. 9) (bracket_rw id (\<lambda>_. 5) sample_table 3) 8"

lemma sample_table_ok: "hashmap_ok id sample_table"
  using hashmap_ok_new[of 1 id 0 0] by (simp add: sample_table_def)

lemma sample_patch_ok: "hashmap_ok id sample_changes"
  unfolding sample_changes_def by (intro conjunct1[OF bracket_rw_ok] sample_table_ok)

text \<open>
  Claim C33. A table is a finite map: reading gives the stored value or the default, \<open>size\<close> is
  the number of keys and stays within the load of the array, and writing, removing and joining
  tables act on the map and keep every entry in the list of its hash value, through every
  resizing of the array.
\<close>

theorem hashmap_refines_map:
  assumes "hashmap_ok hash h" "hashmap_ok hash h2"
  shows "(bracket_ro hash h x = (case hmap h x of Some v \<Rightarrow> v | None \<Rightarrow> hinit h)) \<and>
    (contains hash h x \<longleftrightarrow> x \<in> dom (hmap h)) \<and>
    hsize h = card (dom (hmap h)) \<and> hsize h \<le> hn h * hmax h \<and>
    (empty h \<longleftrightarrow> hmap h = Map.empty) \<and>
    set (generate h) = dom (hmap h) \<and>
    hashmap_ok hash (bracket_rw hash f h x) \<and>
    hmap (bracket_rw hash f h x) = (hmap h)(x := Some (f (bracket_ro hash h x))) \<and>
    hashmap_ok hash (reset hash h x) \<and> hmap (reset hash h x) = (hmap h)(x := None) \<and>
    hashmap_ok hash (hashmap_join hash h h2) \<and> hmap (hashmap_join hash h h2) = hmap h ++ hmap h2"
proof -
  have "finite (dom (hmap h))"
    by (simp add: hmap_def finite_dom_map_of)
  then have "empty h \<longleftrightarrow> hmap h = Map.empty"
    using size_hmap[OF assms(1)] by (auto simp: empty_def)
  moreover have "set (generate h) = dom (hmap h)"
    unfolding generate_def hmap_def dom_map_of_conv_image_fst set_map[symmetric] keys_pairs ..
  moreover have "hsize h \<le> hn h * hmax h"
    using assms(1) by (simp add: hashmap_ok_def)
  ultimately show ?thesis
    using assms bracket_rw_ok[OF assms(1)] reset_ok[OF assms(1)] join_ok[OF assms]
    by (intro conjI) (simp_all add: bracket_ro_hmap contains_hmap size_hmap)
qed

theorem hashmap_refines_map_witness:
  "hmap (hashmap_join id sample_changes sample_table) = hmap sample_changes ++ hmap sample_table \<and>
   hmap (reset id sample_changes 3) = (hmap sample_changes)(3 := None) \<and>
   hsize sample_changes = card (dom (hmap sample_changes))"
  using hashmap_refines_map[OF sample_patch_ok sample_table_ok] by blast

text \<open>The value that is read when \<open>h\<close> lies over \<open>base\<close>.\<close>

definition over :: "('k \<Rightarrow> int) \<Rightarrow> ('k, 'v) hashmap \<Rightarrow> ('k, 'v) hashmap \<Rightarrow> 'k \<Rightarrow> 'v" where
  "over hash base h x = (if contains hash h x then bracket_ro hash h x else bracket_ro hash base x)"

lemma over_hmap:
  "hashmap_ok hash h \<Longrightarrow>
   over hash base h x = (case hmap h x of Some v \<Rightarrow> v | None \<Rightarrow> bracket_ro hash base x)"
  by (auto simp: over_def contains_hmap bracket_ro_hmap split: option.splits)

text \<open>
  Patches of environments. Reading through \<open>post_patch\<close> gives the value of the patch
  where it has one, reading through \<open>pre_patch\<close> gives the own value first; both leave no entry
  that repeats the base. The changes of a patch have its effect on the base, and the
  inverse of a patch takes its effect back.
\<close>

theorem hashmap_patches:
  assumes "hashmap_ok hash h" "hashmap_ok hash patch" "hashmap_ok hash base"
  shows "over hash base (post_patch hash h patch base) x =
      (if contains hash patch x then bracket_ro hash patch x else over hash base h x) \<and>
    over hash base (pre_patch hash h patch base) x =
      (if contains hash patch x \<and> \<not> contains hash h x then bracket_ro hash patch x
       else over hash base h x) \<and>
    bracket_ro hash (hashmap_join hash base (changes hash patch base)) x = bracket_ro hash (hashmap_join hash base patch) x \<and>
    bracket_ro hash (hashmap_join hash (hashmap_join hash base patch) (invert_patch hash patch base)) x =
      bracket_ro hash base x"
proof (intro conjI)
  have post: "hashmap_ok hash (post_patch hash h patch base)"
    and pre: "hashmap_ok hash (pre_patch hash h patch base)"
    using post_patch_ok[OF assms(1, 2)] pre_patch_ok[OF assms(1, 2)] by simp_all
  show "over hash base (post_patch hash h patch base) x =
      (if contains hash patch x then bracket_ro hash patch x else over hash base h x)"
    using assms post_patch_ok[OF assms(1, 2), of base x]
    by (auto simp: over_hmap[OF post] over_hmap contains_hmap bracket_ro_hmap[of hash patch] split: option.splits)
  show "over hash base (pre_patch hash h patch base) x =
      (if contains hash patch x \<and> \<not> contains hash h x then bracket_ro hash patch x
       else over hash base h x)"
    using assms pre_patch_ok[OF assms(1, 2), of base x]
    by (auto simp: over_hmap[OF pre] over_hmap contains_hmap bracket_ro_hmap[of hash patch] pre_value_def
        Let_def split: option.splits if_splits)
  note joined = join_ok[OF assms(3, 2)]
    and changed = join_ok[OF assms(3) conjunct1[OF changes_ok[OF assms(2)]], of base]
  show "bracket_ro hash (hashmap_join hash base (changes hash patch base)) x = bracket_ro hash (hashmap_join hash base patch) x"
    using joined changed assms(3) changes_ok[OF assms(2), of base x]
    by (auto simp: bracket_ro_hmap map_add_def split: option.splits if_splits)
  show "bracket_ro hash (hashmap_join hash (hashmap_join hash base patch) (invert_patch hash patch base)) x =
      bracket_ro hash base x"
    using joined join_ok[OF conjunct1[OF joined] conjunct1[OF invert_patch_ok[OF assms(2)]], of base]
      assms(3) invert_patch_ok[OF assms(2), of base x]
    by (auto simp: bracket_ro_hmap map_add_def split: option.splits if_splits)
qed

theorem hashmap_patches_witness:
  "bracket_ro id (hashmap_join id (hashmap_join id sample_table sample_changes) (invert_patch id sample_changes sample_table)) 8 = 0 \<and>
   over id sample_table (post_patch id sample_table sample_changes sample_table) 8 = 9"
proof -
  have "bracket_ro id sample_table 8 = 0" "contains id sample_changes 8" "bracket_ro id sample_changes 8 = 9"
    by code_simp+
  then show ?thesis
    using hashmap_patches[OF sample_table_ok sample_patch_ok sample_table_ok, of 8] by simp
qed

text \<open>
  \<open>==\<close> reads the keys of the first table in the second, where a missing key reads as the
  default: it is not symmetric. \<open>clear\<close> leaves \<open>size\<close>, so that a cleared table is not \<open>empty\<close>.
\<close>

lemma hashmap_eq_asymmetric:
  "hashmap_eq id (bracket_rw id (\<lambda>_. 0) sample_table 1) (bracket_rw id (\<lambda>_. 5) sample_table 2) \<and>
   \<not> hashmap_eq id (bracket_rw id (\<lambda>_. 5) sample_table 2) (bracket_rw id (\<lambda>_. 0) sample_table 1)"
  by code_simp

section \<open>The hyphenation cache\<close>

text \<open>
  \<open>get_hyphens\<close> of \<open>text_language.cpp\<close> keeps the hyphens of words in a table which it clears
  when it holds 8192 words. As \<open>clear\<close> leaves \<open>size\<close>, the table is cleared again by every
  further word that it does not hold: from then on it never holds more than one word.
\<close>

definition get_hyphens :: "('k \<Rightarrow> int) \<Rightarrow> ('k \<Rightarrow> 'v) \<Rightarrow> ('k, 'v) hashmap \<Rightarrow> 'k \<Rightarrow> 'v \<times> ('k, 'v) hashmap" where
  "get_hyphens hash hyphens hyphen_cache s =
     (if contains hash hyphen_cache s then (bracket_ro hash hyphen_cache s, hyphen_cache)
      else let hyphen_cache = (if hsize hyphen_cache \<ge> 8192 then hashmap_clear hyphen_cache else hyphen_cache);
               result = hyphens s
           in (result, bracket_rw hash (\<lambda>_. result) hyphen_cache s))"

lemma resize_empty: "entries h = [] \<Longrightarrow> ha (hashmap_resize hash n h) = replicate n []"
  by (simp add: hashmap_resize_def rehash_concat entries_def del: concat_eq_Nil_conv)

lemma entries_update: "i < n \<Longrightarrow> concat ((replicate n [])[i := [e]]) = [e]"
  by (induction n arbitrary: i) (auto simp: concat_replicate_Nil split: nat.split)

lemma hyphen_cache_thrashes:
  assumes "0 < hn h" "8192 \<le> hsize h" "\<not> contains hash h s"
  shows "8192 \<le> hsize (snd (get_hyphens hash hyphens h s)) \<and>
    entries (snd (get_hyphens hash hyphens h s)) = [Entry (hash s) s (hyphens s)]"
proof -
  define c where "c = hashmap_clear h"
  define d where "d = (if hsize c \<ge> hn c * hmax c then hashmap_resize hash (hn c * 2) c else c)"
  have c: "entries c = []" "hsize c = hsize h" "ha c = replicate (hn c) []" "0 < hn c"
    using assms(1) by (simp_all add: c_def hashmap_clear_def entries_def concat_replicate_Nil)
  have d: "ha d = replicate (hn d) []" "0 < hn d" "hsize d = hsize h"
    using c resize_empty[OF c(1)] by (auto simp: d_def hashmap_resize_def)
  have "bucket_find hash c s = None"
    using c slot_less[OF c(4)] by (simp add: bucket_find_def)
  then have "snd (get_hyphens hash hyphens h s) =
      d\<lparr>ha := (ha d)[slot (hn d) (hash s) := [Entry (hash s) s (hyphens s)]], hsize := hsize d + 1\<rparr>"
    using assms(2, 3) d slot_less[OF d(2), of "hash s"]
    by (simp add: get_hyphens_def bracket_rw_def insert_new_def Let_def flip: c_def d_def)
  then show ?thesis
    using assms(2) d entries_update[OF slot_less[OF d(2)]] by (simp add: entries_def)
qed

end
