(* ===== verification/Athena_Rel_Hashmap.thy ===== *)
theory Athena_Rel_Hashmap
  imports Athena_Hashmap
begin

text \<open>
  The relative hash tables of \<open>src/src/Core/Containers/rel_hashmap.cpp\<close>: a stack of tables, where
  a key has the value of the topmost table that contains it. The typesetter makes local changes
  of its environment in a new top table, which it discards or merges afterwards. The null
  pointer is the empty list; a failing assertion is \<open>None\<close>.

  Shown: the top table is a transaction over the tables below; \<open>shorten\<close> takes it back and
  \<open>merge\<close> confirms it, \<open>find_changes\<close> and \<open>find_differences\<close> compute the changes of a step.
\<close>

type_synonym ('k, 'v) rel_hashmap = "('k, 'v) hashmap list"

fun rel_get :: "('k \<Rightarrow> int) \<Rightarrow> ('k, 'v) rel_hashmap \<Rightarrow> 'k \<Rightarrow> 'v option" where
  "rel_get hash [] x = None"
| "rel_get hash (item # next) x =
     (if contains hash item x \<or> next = [] then Some (bracket_ro hash item x) else rel_get hash next x)"

fun rel_contains :: "('k \<Rightarrow> int) \<Rightarrow> ('k, 'v) rel_hashmap \<Rightarrow> 'k \<Rightarrow> bool" where
  "rel_contains hash [] x \<longleftrightarrow> False"
| "rel_contains hash (item # next) x \<longleftrightarrow>
     (if contains hash item x then True else if next = [] then False else rel_contains hash next x)"

text \<open>\<open>operator ()\<close> returns a reference into the top table, through which the caller applies \<open>f\<close>.\<close>

fun rel_call :: "('k \<Rightarrow> int) \<Rightarrow> ('v \<Rightarrow> 'v) \<Rightarrow> ('k, 'v) rel_hashmap \<Rightarrow> 'k \<Rightarrow> ('k, 'v) rel_hashmap option" where
  "rel_call hash f [] x = None"
| "rel_call hash f (item # next) x =
     (if contains hash item x then Some (bracket_rw hash f item x # next)
      else if next \<noteq> [] \<and> rel_contains hash next x then
        do { v \<leftarrow> rel_get hash next x;
             Some (bracket_rw hash f (bracket_rw hash (\<lambda>_. v) item x) x # next) }
      else Some (bracket_rw hash f item x # next))"

fun extend :: "('k, 'v) rel_hashmap \<Rightarrow> ('k, 'v) rel_hashmap option" where
  "extend [] = None"
| "extend (item # next) = Some (new_hashmap (hinit item) 1 1 # item # next)"

fun shorten :: "('k, 'v) rel_hashmap \<Rightarrow> ('k, 'v) rel_hashmap option" where
  "shorten (item # item2 # next) = Some (item2 # next)"
| "shorten r = None"

fun change :: "('k \<Rightarrow> int) \<Rightarrow> ('k, 'v) rel_hashmap \<Rightarrow> ('k, 'v) hashmap \<Rightarrow> ('k, 'v) rel_hashmap option" where
  "change hash [] CH = None"
| "change hash (item # next) CH =
     Some (foldl (\<lambda>item e. bracket_rw hash (\<lambda>_. im e) item (ekey e)) item (entries CH) # next)"

fun rel_merge :: "('k \<Rightarrow> int) \<Rightarrow> ('k, 'v) rel_hashmap \<Rightarrow> ('k, 'v) rel_hashmap option" where
  "rel_merge hash (item # item2 # next) =
     do { next' \<leftarrow> change hash (item2 # next) item; shorten (item # next') }"
| "rel_merge hash r = None"

text \<open>The first loop collects entries in front of a list, the second one walks that list.\<close>

fun find_equal :: "('k \<Rightarrow> int) \<Rightarrow> ('k, 'v) rel_hashmap \<Rightarrow> ('k, 'v) hashentry list \<Rightarrow>
    ('k, 'v) hashentry list \<Rightarrow> ('k, 'v) hashentry list" where
  "find_equal hash h [] remove = remove"
| "find_equal hash h (e # l) remove =
     find_equal hash h l (if rel_get hash h (ekey e) = Some (im e) then e # remove else remove)"

fun remove_all :: "('k \<Rightarrow> int) \<Rightarrow> ('k, 'v) hashentry list \<Rightarrow> ('k, 'v) hashmap \<Rightarrow> ('k, 'v) hashmap" where
  "remove_all hash [] CH = CH"
| "remove_all hash (e # remove) CH = remove_all hash remove (reset hash CH (ekey e))"

definition find_changes :: "('k \<Rightarrow> int) \<Rightarrow> ('k, 'v) rel_hashmap \<Rightarrow> ('k, 'v) hashmap \<Rightarrow> ('k, 'v) hashmap" where
  "find_changes hash r CH = remove_all hash (find_equal hash r (entries CH) []) CH"

fun find_missing :: "('k \<Rightarrow> int) \<Rightarrow> ('k, 'v) hashmap \<Rightarrow> ('k, 'v) hashentry list \<Rightarrow>
    ('k, 'v) hashentry list \<Rightarrow> ('k, 'v) hashentry list" where
  "find_missing hash CH [] add = add"
| "find_missing hash CH (e # l) add =
     find_missing hash CH l (if \<not> contains hash CH (ekey e) then e # add else add)"

fun add_all :: "('k \<Rightarrow> int) \<Rightarrow> ('k, 'v) rel_hashmap \<Rightarrow> ('k, 'v) hashentry list \<Rightarrow> ('k, 'v) hashmap \<Rightarrow>
    ('k, 'v) hashmap option" where
  "add_all hash next [] CH = Some CH"
| "add_all hash next (e # add) CH =
     do { v \<leftarrow> rel_get hash next (ekey e); add_all hash next add (bracket_rw hash (\<lambda>_. v) CH (ekey e)) }"

fun find_differences :: "('k \<Rightarrow> int) \<Rightarrow> ('k, 'v) rel_hashmap \<Rightarrow> ('k, 'v) hashmap \<Rightarrow> ('k, 'v) hashmap option" where
  "find_differences hash [] CH = None"
| "find_differences hash (item # next) CH =
     do { CH' \<leftarrow> add_all hash next (find_missing hash CH (entries item) []) CH;
          Some (find_changes hash (item # next) CH') }"

section \<open>The map of a stack\<close>

definition rel_ok :: "('k \<Rightarrow> int) \<Rightarrow> ('k, 'v) rel_hashmap \<Rightarrow> bool" where
  "rel_ok hash r \<longleftrightarrow>
     r \<noteq> [] \<and> list_all (\<lambda>h. hashmap_ok hash h \<and> hinit h = hinit (hd r)) r"

fun rel_look :: "('k, 'v) rel_hashmap \<Rightarrow> 'k \<rightharpoonup> 'v" where
  "rel_look [] = Map.empty"
| "rel_look (item # next) = rel_look next ++ hmap item"

definition rel_read :: "('k, 'v) rel_hashmap \<Rightarrow> 'k \<Rightarrow> 'v" where
  "rel_read r x = (case rel_look r x of Some v \<Rightarrow> v | None \<Rightarrow> hinit (hd r))"

lemma rel_ok_Cons: "rel_ok hash (h # r) \<longleftrightarrow>
    hashmap_ok hash h \<and> (r = [] \<or> rel_ok hash r \<and> hinit (hd r) = hinit h)"
  by (cases r) (auto simp: rel_ok_def list_all_iff)

lemma rel_get_read: "rel_ok hash r \<Longrightarrow> rel_get hash r x = Some (rel_read r x)"
proof (induction r)
  case (Cons h r)
  then show ?case
    by (cases "hmap h x")
      (auto simp: rel_ok_Cons rel_read_def contains_hmap bracket_ro_hmap map_add_def split: option.splits)
qed (simp add: rel_ok_def)

lemma rel_contains_look: "rel_ok hash r \<Longrightarrow> rel_contains hash r x \<longleftrightarrow> x \<in> dom (rel_look r)"
proof (induction r)
  case (Cons h r)
  then show ?case
    by (cases "r = []") (auto simp: rel_ok_Cons contains_hmap)
qed (simp add: rel_ok_def)

lemma rel_read_Cons: "rel_ok hash (h # r) \<Longrightarrow>
    rel_read (h # r) x = (case hmap h x of Some v \<Rightarrow> v | None \<Rightarrow> (if r = [] then hinit h else rel_read r x))"
  by (auto simp: rel_ok_Cons rel_read_def map_add_def split: option.splits)

context map_table
begin

lemma foldl_del:
  "ok t \<Longrightarrow> ok (foldl del t ks) \<and> default (foldl del t ks) = default t \<and>
    look (foldl del t ks) x = (if x \<in> set ks then None else look t x)"
proof (induction ks arbitrary: t)
  case (Cons k ks)
  then show ?case
    using del[OF Cons.prems, of k] by simp
qed simp

end

lemma change_eq: "change hash (h # r) CH = Some (hashmap_join hash h CH # r)"
  by (simp add: hashmap_join_def)

lemma find_equal_eq:
  "find_equal hash r l acc = rev (filter (\<lambda>e. rel_get hash r (ekey e) = Some (im e)) l) @ acc"
  by (induction l arbitrary: acc) auto

lemma find_missing_eq:
  "find_missing hash CH l acc = rev (filter (\<lambda>e. \<not> contains hash CH (ekey e)) l) @ acc"
  by (induction l arbitrary: acc) auto

lemma remove_all_eq: "remove_all hash l CH = foldl (reset hash) CH (map ekey l)"
  by (induction l arbitrary: CH) simp_all

lemma find_changes_ok:
  assumes "rel_ok hash r" "hashmap_ok hash CH"
  shows "hashmap_ok hash (find_changes hash r CH) \<and> hinit (find_changes hash r CH) = hinit CH \<and>
    hmap (find_changes hash r CH) x = (if hmap CH x = Some (rel_read r x) then None else hmap CH x)"
proof -
  have "x \<in> ekey ` {e \<in> set (entries CH). rel_read r (ekey e) = im e} \<longleftrightarrow> hmap CH x = Some (rel_read r x)"
    using hmap_iff[OF assms(2), of x "rel_read r x"] by auto
  then show ?thesis
    using hm.foldl_del[OF assms(2), of "map ekey (find_equal hash r (entries CH) [])" x]
    by (simp add: find_changes_def remove_all_eq find_equal_eq rel_get_read[OF assms(1)])
qed

lemma add_all_ok:
  assumes "l = [] \<or> rel_ok hash next" "hashmap_ok hash CH"
  shows "\<exists>CH'. add_all hash next l CH = Some CH' \<and> hashmap_ok hash CH' \<and> hinit CH' = hinit CH \<and>
    hmap CH' x = (if x \<in> ekey ` set l then Some (rel_read next x) else hmap CH x)"
  using assms
proof (induction l arbitrary: CH)
  case (Cons e l)
  then have "rel_ok hash next"
    by simp
  moreover note put = bracket_rw_ok[OF Cons.prems(2), of "\<lambda>_. rel_read next (ekey e)" "ekey e"]
  ultimately show ?case
    using Cons.IH[OF _ conjunct1[OF put]] put by (auto simp: rel_get_read split: if_splits)
qed simp

lemma find_differences_ok:
  assumes "rel_ok hash (item # next)" "hashmap_ok hash CH" "next \<noteq> []"
  shows "\<exists>CH'. find_differences hash (item # next) CH = Some CH' \<and> hashmap_ok hash CH' \<and> hinit CH' = hinit CH \<and>
    hmap CH' x = (let w = (if x \<in> dom (hmap item) \<and> hmap CH x = None then Some (rel_read next x) else hmap CH x)
      in if w = Some (rel_read (item # next) x) then None else w)"
proof -
  have next_ok: "rel_ok hash next" and item: "hashmap_ok hash item"
    using assms by (simp_all add: rel_ok_Cons)
  have "x \<in> ekey ` {e \<in> set (entries item). \<not> contains hash CH (ekey e)} \<longleftrightarrow>
      x \<in> dom (hmap item) \<and> hmap CH x = None"
    using hmap_iff[OF item, of x] by (auto simp: contains_hmap[OF assms(2)] image_iff)
  then obtain CH' where "add_all hash next (find_missing hash CH (entries item) []) CH = Some CH'"
    "hashmap_ok hash CH'" "hinit CH' = hinit CH"
    "hmap CH' x = (if x \<in> dom (hmap item) \<and> hmap CH x = None then Some (rel_read next x) else hmap CH x)"
    using add_all_ok[OF disjI2[OF next_ok] assms(2), of "find_missing hash CH (entries item) []" x]
    by (auto simp: find_missing_eq)
  then show ?thesis
    using find_changes_ok[OF assms(1), of CH' x] by simp
qed

section \<open>Transactions\<close>

lemma call_ok:
  assumes "rel_ok hash (item # next)"
  shows "\<exists>item'. rel_call hash f (item # next) x = Some (item' # next) \<and> rel_ok hash (item' # next) \<and>
    rel_read (item' # next) = (rel_read (item # next))(x := f (rel_read (item # next) x))"
proof -
  have item: "hashmap_ok hash item"
    using assms by (simp add: rel_ok_Cons)
  have below: "rel_get hash next x = Some (rel_read next x)" if "next \<noteq> []"
    using assms that by (simp add: rel_ok_Cons rel_get_read)
  have "\<exists>item'. rel_call hash f (item # next) x = Some (item' # next) \<and> hashmap_ok hash item' \<and>
      hinit item' = hinit item \<and> hmap item' = (hmap item)(x := Some (f (rel_read (item # next) x)))"
  proof (cases "contains hash item x \<or> \<not> (next \<noteq> [] \<and> rel_contains hash next x)")
    case True
    then have "rel_call hash f (item # next) x = Some (bracket_rw hash f item x # next)"
      by auto
    moreover have "bracket_ro hash item x = rel_read (item # next) x"
      using True assms rel_contains_look[of hash "next" x] unfolding rel_read_Cons[OF assms]
      by (auto simp: bracket_ro_hmap item contains_hmap rel_ok_Cons rel_read_def domIff split: option.splits)
    ultimately show ?thesis
      using bracket_rw_ok[OF item, of f x] by simp
  next
    case False
    note copied = bracket_rw_ok[OF item, of "\<lambda>_. rel_read next x" x]
    have "rel_read (item # next) x = rel_read next x"
      using False item unfolding rel_read_Cons[OF assms] by (simp add: contains_hmap domIff)
    moreover have "rel_call hash f (item # next) x =
        Some (bracket_rw hash f (bracket_rw hash (\<lambda>_. rel_read next x) item x) x # next)"
      using False below by simp
    ultimately show ?thesis
      using copied bracket_rw_ok[OF conjunct1[OF copied], of f x] by (simp add: bracket_ro_hmap)
  qed
  then obtain item' where item': "rel_call hash f (item # next) x = Some (item' # next)" "hashmap_ok hash item'"
    "hinit item' = hinit item" "hmap item' = (hmap item)(x := Some (f (rel_read (item # next) x)))"
    by blast
  then have ok: "rel_ok hash (item' # next)"
    using assms by (auto simp: rel_ok_Cons)
  show ?thesis
    using item' ok rel_read_Cons[OF ok] rel_read_Cons[OF assms]
    by (auto simp: fun_eq_iff simp del: rel_call.simps split: option.splits)
qed

lemma change_ok:
  assumes "rel_ok hash (item # next)" "hashmap_ok hash CH"
  shows "rel_ok hash (hashmap_join hash item CH # next) \<and> rel_read (hashmap_join hash item CH # next) x =
    (case hmap CH x of Some v \<Rightarrow> v | None \<Rightarrow> rel_read (item # next) x)"
proof -
  have item: "hashmap_ok hash item"
    using assms by (simp add: rel_ok_Cons)
  then have ok: "rel_ok hash (hashmap_join hash item CH # next)"
    using assms join_ok[OF item assms(2)] by (auto simp: rel_ok_Cons)
  show ?thesis
    using ok join_ok[OF item assms(2)] unfolding rel_read_Cons[OF ok] rel_read_Cons[OF assms(1)]
    by (auto simp: map_add_def split: option.splits)
qed

lemma merge_ok:
  assumes "rel_ok hash (item # next)" "next \<noteq> []"
  shows "\<exists>r. rel_merge hash (item # next) = Some r \<and> rel_ok hash r \<and> length r = length next \<and>
    rel_read r = rel_read (item # next)"
proof -
  obtain item2 rest where rest: "next = item2 # rest"
    using assms(2) by (cases "next") auto
  have ok: "rel_ok hash (item2 # rest)" "hashmap_ok hash item"
    using assms by (auto simp: rel_ok_Cons rest)
  have "rel_merge hash (item # next) = Some (hashmap_join hash item2 item # rest)"
    by (simp add: rest hashmap_join_def)
  then show ?thesis
    using change_ok[OF ok] rel_read_Cons[OF assms(1)] assms(2) rest by (auto simp: fun_eq_iff split: option.splits)
qed

lemma extend_ok:
  assumes "rel_ok hash r"
  shows "\<exists>r'. extend r = Some r' \<and> rel_ok hash r' \<and> rel_read r' = rel_read r \<and> shorten r' = Some r"
proof -
  obtain item rest where r: "r = item # rest"
    using assms by (cases r) (auto simp: rel_ok_def)
  have ok: "rel_ok hash (new_hashmap (hinit item) 1 1 # item # rest)"
    using assms hashmap_ok_new[of 1 hash "hinit item" 0] unfolding r
    by (simp add: rel_ok_Cons[of _ "new_hashmap i m n" for i m n] hmap_new)
  then show ?thesis
    using rel_read_Cons[OF ok] by (auto simp: r hmap_new fun_eq_iff)
qed

text \<open>
  Claim C34. The top table is a transaction. A write is seen by the reads that follow and leaves
  the tables below alone, so that \<open>shorten\<close> takes it back; \<open>extend\<close> opens a transaction that
  reads as before and \<open>merge\<close> confirms it without changing any read. \<open>find_changes\<close> drops from a
  set of changes those that assign to a key the value it reads already, and keeps every other one, so that
  applying the rest has the same effect; \<open>find_differences\<close> computes changes that lead from the
  current state to the state below the top table, changed by \<open>CH\<close>, without one that has no effect.
\<close>

theorem rel_hashmap_transactions:
  assumes "rel_ok hash (item # next)" "next \<noteq> []" "hashmap_ok hash CH"
  shows "(\<exists>r. rel_call hash f (item # next) x = Some r \<and> rel_ok hash r \<and> shorten r = Some next \<and>
       rel_read r = (rel_read (item # next))(x := f (rel_read (item # next) x))) \<and>
    (\<exists>r. extend (item # next) = Some r \<and> rel_ok hash r \<and> rel_read r = rel_read (item # next) \<and>
       shorten r = Some (item # next)) \<and>
    (\<exists>r. rel_merge hash (item # next) = Some r \<and> rel_ok hash r \<and> length r = length next \<and>
       rel_read r = rel_read (item # next)) \<and>
    hashmap_ok hash (find_changes hash (item # next) CH) \<and>
    hmap (find_changes hash (item # next) CH) =
      (\<lambda>y. if hmap CH y = Some (rel_read (item # next) y) then None else hmap CH y) \<and>
    (\<exists>r r'. change hash (item # next) CH = Some r \<and>
       change hash (item # next) (find_changes hash (item # next) CH) = Some r' \<and> rel_read r' = rel_read r) \<and>
    (\<exists>CH' r r'. find_differences hash (item # next) CH = Some CH' \<and> hashmap_ok hash CH' \<and>
       (\<forall>y. hmap CH' y \<noteq> Some (rel_read (item # next) y)) \<and> change hash (item # next) CH' = Some r \<and>
       change hash next CH = Some r' \<and> rel_read r = rel_read r')"
proof (intro conjI)
  obtain item2 rest where rest: "next = item2 # rest"
    using assms(2) by (cases "next") auto
  have below: "rel_ok hash (item2 # rest)"
    using assms by (auto simp: rel_ok_Cons rest)
  show "\<exists>r. rel_call hash f (item # next) x = Some r \<and> rel_ok hash r \<and> shorten r = Some next \<and>
      rel_read r = (rel_read (item # next))(x := f (rel_read (item # next) x))"
    using call_ok[OF assms(1), of f x] by (auto simp: rest simp del: rel_call.simps)
  show "\<exists>r. extend (item # next) = Some r \<and> rel_ok hash r \<and> rel_read r = rel_read (item # next) \<and>
      shorten r = Some (item # next)"
    using extend_ok[OF assms(1)] by blast
  show "\<exists>r. rel_merge hash (item # next) = Some r \<and> rel_ok hash r \<and> length r = length next \<and>
      rel_read r = rel_read (item # next)"
    by (rule merge_ok[OF assms(1, 2)])
  show "hashmap_ok hash (find_changes hash (item # next) CH)"
    "hmap (find_changes hash (item # next) CH) =
      (\<lambda>y. if hmap CH y = Some (rel_read (item # next) y) then None else hmap CH y)"
    using find_changes_ok[OF assms(1, 3)] by (simp_all add: fun_eq_iff)
  have "rel_read (hashmap_join hash item (find_changes hash (item # next) CH) # next) y =
      rel_read (hashmap_join hash item CH # next) y" for y
    using change_ok[OF assms(1, 3), of y] find_changes_ok[OF assms(1, 3), of y]
      change_ok[OF assms(1) conjunct1[OF find_changes_ok[OF assms(1, 3)]], of y]
    by (auto split: option.splits if_splits)
  then show "\<exists>r r'. change hash (item # next) CH = Some r \<and>
      change hash (item # next) (find_changes hash (item # next) CH) = Some r' \<and> rel_read r' = rel_read r"
    unfolding change_eq by auto
  obtain CH' where CH': "find_differences hash (item # next) CH = Some CH'" "hashmap_ok hash CH'"
    using find_differences_ok[OF assms(1, 3, 2)] by blast
  have look: "hmap CH' y = (let w = (if y \<in> dom (hmap item) \<and> hmap CH y = None then Some (rel_read next y)
      else hmap CH y) in if w = Some (rel_read (item # next) y) then None else w)" for y
    using find_differences_ok[OF assms(1, 3, 2), of y] CH'(1) by (simp del: find_differences.simps)
  have effective: "\<forall>y. hmap CH' y \<noteq> Some (rel_read (item # next) y)"
    by (simp add: look Let_def)
  have "rel_read (hashmap_join hash item CH' # next) y = rel_read (hashmap_join hash item2 CH # rest) y" for y
  proof -
    show ?thesis
      unfolding change_ok[OF assms(1) CH'(2), THEN conjunct2] change_ok[OF below assms(3), THEN conjunct2] look
        rest[symmetric]
      using rel_read_Cons[OF assms(1), of y] assms(2)
      by (cases "hmap CH y"; cases "hmap item y") (simp_all add: Let_def domIff)
  qed
  then show "\<exists>CH' r r'. find_differences hash (item # next) CH = Some CH' \<and> hashmap_ok hash CH' \<and>
      (\<forall>y. hmap CH' y \<noteq> Some (rel_read (item # next) y)) \<and> change hash (item # next) CH' = Some r \<and>
      change hash next CH = Some r' \<and> rel_read r = rel_read r'"
    using CH' effective change_eq[of hash item "next" CH'] change_eq[of hash item2 rest CH] unfolding rest by blast
qed

theorem rel_hashmap_transactions_witness:
  "\<exists>r. rel_merge id [sample_changes, sample_table] = Some r \<and> rel_read r = rel_read [sample_changes, sample_table]"
proof -
  have "hinit sample_table = hinit sample_changes"
    by code_simp
  then have "rel_ok id [sample_changes, sample_table]"
    using sample_patch_ok sample_table_ok by (simp add: rel_ok_Cons)
  from rel_hashmap_transactions[OF this _ sample_table_ok] show ?thesis
    by blast
qed

end
