(* ===== verification/Athena_Edit_Batch.thy ===== *)
theory Athena_Edit_Batch
  imports Complex_Main
begin

text \<open>
  Edits of several documents at once, \<open>src/src/Document/Model/compound_edit_batch.cpp\<close>. Each
  source document is owned by an actor with a thread of its own. \<open>submit_edit_batch\<close> reserves the
  actors and queues a continuation on each of them; the continuations meet at three barriers, between
  which they prepare, apply, and commit or roll back their part.

  A state holds the variables of the \<open>batch\<close>, the position of every thread in \<open>run\<close> and the
  documents. A step is one section of one thread, either a section under the mutex or a call of
  a callback; the threads take steps in any order. Whether a time limit has passed and whether
  an actor accepts a continuation is the choice of the environment, an argument of the step. The callbacks
  are functions on the document of their actor with a flag that says whether they return;
  otherwise they throw. The messages of the exceptions are parameters. A view that was closed before
  its turn is a \<open>prepare\<close> that throws; the callbacks are total functions, so the check for empty
  ones has no counterpart.

  Shown, for every interleaving: all participants commit or none does, completion is called
  exactly once, with an empty error only when all have committed; a batch always ends, without
  deadlock; and no other batch gets an actor while its document is being edited.
\<close>

section \<open>State\<close>

record 'd edit_participant =
  actor :: int
  view :: int
  prepare :: "'d \<Rightarrow> bool"
  apply_edit :: "'d \<Rightarrow> 'd \<times> bool"
  rollback :: "'d \<Rightarrow> 'd \<times> bool"
  commit :: "'d \<Rightarrow> 'd \<times> bool"

text \<open>
  The positions of a thread in \<open>run\<close>, \<open>complete\<close> and \<open>submit_edit_batch\<close>. The flag of the
  positions inside \<open>complete\<close> says whether the caller waits for the completion afterwards, which
  it does after the third barrier.
\<close>

datatype pc = Unsubmitted | Queued | Prepare | Fail_prepare | Count_prepared | Wait_prepared | Read_prepared
  | Apply | Fail_apply | Count_applied | Wait_applied | Read_applied | Finalize bool | Fail_finalize bool
  | Count_finished | Wait_finished
  | Complete bool | Release bool string | Call bool string | Mark bool | Wait_completion | Done bool
  | Submit nat | Fail_submit

record 'd batch =
  prepared :: nat
  applied :: nat
  finished :: nat
  admitted :: bool
  preparation_failed :: bool
  apply_failed :: bool
  completed :: bool
  completion_finished :: bool
  batch_error :: string
  threads :: "pc list"
  documents :: "'d list"
  calls :: "string list"
  reservations :: "int set"

section \<open>Steps\<close>

definition fail :: "string \<Rightarrow> bool \<Rightarrow> 'd batch \<Rightarrow> 'd batch" where
  "fail message preparing s =
     (let s = s\<lparr>batch_error := (if batch_error s = [] then message else batch_error s)\<rparr>
      in if preparing then s\<lparr>preparation_failed := True\<rparr> else s\<lparr>apply_failed := True\<rparr>)"

definition goto :: "nat \<Rightarrow> pc \<Rightarrow> 'd batch \<Rightarrow> 'd batch" where
  "goto i p s = s\<lparr>threads := (threads s)[i := p]\<rparr>"

definition set_document :: "nat \<Rightarrow> 'd \<Rightarrow> 'd batch \<Rightarrow> 'd batch" where
  "set_document i d s = s\<lparr>documents := (documents s)[i := d]\<rparr>"

definition after_complete :: "bool \<Rightarrow> pc" where
  "after_complete waits = (if waits then Wait_completion else Done False)"

text \<open>\<open>complete\<close>: the first caller releases the actors and calls the completion.\<close>

definition complete_step :: "'d edit_participant list \<Rightarrow> nat \<Rightarrow> pc \<Rightarrow> 'd batch \<Rightarrow> 'd batch option" where
  "complete_step members i p s = (case p of
      Complete waits \<Rightarrow>
        Some (if completed s then goto i (after_complete waits) s
              else goto i (Release waits (batch_error s)) (s\<lparr>completed := True\<rparr>))
    | Release waits result \<Rightarrow>
        Some (goto i (Call waits result) (s\<lparr>reservations := reservations s - set (map actor members)\<rparr>))
    | Call waits result \<Rightarrow> Some (goto i (Mark waits) (s\<lparr>calls := calls s @ [result]\<rparr>))
    | Mark waits \<Rightarrow> Some (goto i (after_complete waits) (s\<lparr>completion_finished := True\<rparr>))
    | _ \<Rightarrow> None)"

text \<open>\<open>wait (stage)\<close>; at the first barrier a thread gives up when the time limit has passed.\<close>

definition wait_prepared :: "nat \<Rightarrow> nat \<Rightarrow> bool \<Rightarrow> 'd batch \<Rightarrow> 'd batch option" where
  "wait_prepared n i timeout s =
     (if preparation_failed s \<or> admitted s \<and> prepared s = n then Some (goto i Read_prepared s)
      else if timeout then
        Some (goto i Read_prepared (fail ''Source actors are busy; no compound edit was performed'' True s))
      else None)"

text \<open>\<open>run (i)\<close>; \<open>message i\<close> is the message of the exception that a callback of \<open>i\<close> throws.\<close>

definition run_step :: "'d edit_participant list \<Rightarrow> (nat \<Rightarrow> string) \<Rightarrow> nat \<Rightarrow> bool \<Rightarrow> 'd batch \<Rightarrow> 'd batch option" where
  "run_step members message i choice s =
     (let n = length members; member = members ! i; d = documents s ! i; p = threads s ! i in
      case p of
        Queued \<Rightarrow> Some (goto i (if preparation_failed s then Done False else Prepare) s)
      | Prepare \<Rightarrow> Some (goto i (if prepare member d then Count_prepared else Fail_prepare) s)
      | Fail_prepare \<Rightarrow> Some (goto i Count_prepared (fail (message i) True s))
      | Count_prepared \<Rightarrow> Some (goto i Wait_prepared (s\<lparr>prepared := prepared s + 1\<rparr>))
      | Wait_prepared \<Rightarrow> wait_prepared n i choice s
      | Read_prepared \<Rightarrow> Some (goto i (if preparation_failed s then Complete False else Apply) s)
      | Apply \<Rightarrow> (case apply_edit member d of (d', ok) \<Rightarrow>
          Some (goto i (if ok then Count_applied else Fail_apply) (set_document i d' s)))
      | Fail_apply \<Rightarrow> Some (goto i Count_applied (fail (message i) False s))
      | Count_applied \<Rightarrow> Some (goto i Wait_applied (s\<lparr>applied := applied s + 1\<rparr>))
      | Wait_applied \<Rightarrow> if applied s = n then Some (goto i Read_applied s) else None
      | Read_applied \<Rightarrow> Some (goto i (Finalize (apply_failed s)) s)
      | Finalize cancelled \<Rightarrow>
          (case (if cancelled then rollback member d else commit member d) of (d', ok) \<Rightarrow>
             Some (goto i (if ok then Count_finished else Fail_finalize cancelled) (set_document i d' s)))
      | Fail_finalize cancelled \<Rightarrow>
          Some (goto i Count_finished (s\<lparr>batch_error :=
            (if cancelled then ''Compound rollback failed: '' else ''Compound confirmation failed: '') @
              message i\<rparr>))
      | Count_finished \<Rightarrow> Some (goto i Wait_finished (s\<lparr>finished := finished s + 1\<rparr>))
      | Wait_finished \<Rightarrow> if finished s = n then Some (goto i (Complete True) s) else None
      | Wait_completion \<Rightarrow> if completion_finished s then Some (goto i (Done True) s) else None
      | _ \<Rightarrow> complete_step members i p s)"

text \<open>The rest of \<open>submit_edit_batch\<close>, run by the thread after those of the members.\<close>

definition submit_step :: "'d edit_participant list \<Rightarrow> bool \<Rightarrow> 'd batch \<Rightarrow> 'd batch option" where
  "submit_step members accepted s =
     (let n = length members; p = threads s ! n in
      case p of
        Submit i \<Rightarrow>
          Some (if i < n then
                  (if accepted then goto n (Submit (i + 1)) (goto i Queued s) else goto n Fail_submit s)
                else goto n (Done False) (s\<lparr>admitted := True\<rparr>))
      | Fail_submit \<Rightarrow>
          Some (goto n (Complete False) (fail ''Could not queue every source; no compound edit was performed'' True s))
      | _ \<Rightarrow> complete_step members n p s)"

definition thread_step :: "'d edit_participant list \<Rightarrow> (nat \<Rightarrow> string) \<Rightarrow> nat \<Rightarrow> bool \<Rightarrow> 'd batch \<Rightarrow> 'd batch option" where
  "thread_step members message i choice s =
     (if i < length members then run_step members message i choice s
      else if i = length members then submit_step members choice s
      else None)"

inductive batch_step :: "'d edit_participant list \<Rightarrow> (nat \<Rightarrow> string) \<Rightarrow> 'd batch \<Rightarrow> 'd batch \<Rightarrow> bool"
  for members message where
  step: "thread_step members message i choice s = Some s' \<Longrightarrow> batch_step members message s s'"

section \<open>Admission\<close>

datatype refusal = No_participants | Not_distinct | Already_owned

definition start_batch :: "'d edit_participant list \<Rightarrow> 'd list \<Rightarrow> int set \<Rightarrow> 'd batch" where
  "start_batch members ds owned =
     \<lparr>prepared = 0, applied = 0, finished = 0, admitted = False, preparation_failed = False,
      apply_failed = False, completed = False, completion_finished = False, batch_error = [],
      threads = replicate (length members) Unsubmitted @ [Submit 0], documents = ds, calls = [],
      reservations = owned \<union> set (map actor members)\<rparr>"

definition submit_edit_batch :: "'d edit_participant list \<Rightarrow> 'd list \<Rightarrow> int set \<Rightarrow> refusal + 'd batch" where
  "submit_edit_batch members ds owned =
     (if members = [] then Inl No_participants
      else if list_ex (\<lambda>m. actor m = 0 \<or> view m = 0) members \<or> \<not> distinct (map actor members)
      then Inl Not_distinct
      else if list_ex (\<lambda>m. actor m \<in> owned) members then Inl Already_owned
      else Inr (start_batch members ds owned))"

text \<open>
  \<open>submit_source_task\<close> runs one action on the document of one actor, without a batch. The result
  is the document and the calls of its completion.
\<close>

definition submit_source_task :: "('d \<Rightarrow> 'd \<times> bool) \<Rightarrow> string \<Rightarrow> bool \<Rightarrow> 'd \<Rightarrow> 'd \<times> string list" where
  "submit_source_task action message accepted d =
     (if accepted then (case action d of (d', ok) \<Rightarrow> (d', [if ok then [] else message]))
      else (d, [''Source buffer is unavailable or busy'']))"

section \<open>The invariant\<close>

text \<open>Positions after the third barrier, after the document is final, after the second barrier,
  after the edit was counted, and after the first barrier was passed.\<close>

fun ended :: "pc \<Rightarrow> bool" where
  "ended (Complete b) = b"
| "ended (Release b r) = b"
| "ended (Call b r) = b"
| "ended (Mark b) = b"
| "ended Wait_completion = True"
| "ended (Done b) = b"
| "ended _ = False"

definition finished_at :: "pc \<Rightarrow> bool" where
  "finished_at p \<longleftrightarrow> p = Wait_finished \<or> ended p"

fun finalized :: "pc \<Rightarrow> bool" where
  "finalized (Fail_finalize b) = True"
| "finalized Count_finished = True"
| "finalized p = finished_at p"

fun decided :: "pc \<Rightarrow> bool" where
  "decided Read_applied = True"
| "decided (Finalize b) = True"
| "decided p = finalized p"

definition applied_at :: "pc \<Rightarrow> bool" where
  "applied_at p \<longleftrightarrow> p = Wait_applied \<or> decided p"

definition prepared_at :: "pc \<Rightarrow> bool" where
  "prepared_at p \<longleftrightarrow> p \<notin> {Unsubmitted, Queued, Prepare, Fail_prepare, Count_prepared}"

text \<open>All participants will apply.\<close>

definition go :: "nat \<Rightarrow> 'd batch \<Rightarrow> bool" where
  "go n s \<longleftrightarrow> admitted s \<and> prepared s = n \<and> \<not> preparation_failed s"

definition finalize :: "'d edit_participant \<Rightarrow> bool \<Rightarrow> 'd \<Rightarrow> 'd \<times> bool" where
  "finalize m cancelled d = (if cancelled then rollback m d else commit m d)"

definition is_unchanged :: "'d list \<Rightarrow> 'd batch \<Rightarrow> nat \<Rightarrow> bool" where
  "is_unchanged ds s i \<longleftrightarrow> documents s ! i = ds ! i"

definition is_applied :: "'d edit_participant list \<Rightarrow> 'd list \<Rightarrow> 'd batch \<Rightarrow> nat \<Rightarrow> bool" where
  "is_applied members ds s i \<longleftrightarrow>
     go (length members) s \<and> documents s ! i = fst (apply_edit (members ! i) (ds ! i)) \<and>
     (snd (apply_edit (members ! i) (ds ! i)) \<or> apply_failed s)"

definition is_final :: "'d edit_participant list \<Rightarrow> 'd list \<Rightarrow> 'd batch \<Rightarrow> nat \<Rightarrow> bool" where
  "is_final members ds s i \<longleftrightarrow>
     (let d1 = fst (apply_edit (members ! i) (ds ! i)) in
      go (length members) s \<and> applied s = length members \<and>
      (snd (apply_edit (members ! i) (ds ! i)) \<or> apply_failed s) \<and>
      documents s ! i = fst (finalize (members ! i) (apply_failed s) d1) \<and>
      (snd (finalize (members ! i) (apply_failed s) d1) \<or> batch_error s \<noteq> []))"

definition is_ended :: "'d edit_participant list \<Rightarrow> 'd list \<Rightarrow> 'd batch \<Rightarrow> nat \<Rightarrow> bool \<Rightarrow> bool" where
  "is_ended members ds s i b \<longleftrightarrow>
     (if b then is_final members ds s i \<and> finished s = length members
      else is_unchanged ds s i \<and> preparation_failed s)"

definition thread_ok :: "'d edit_participant list \<Rightarrow> 'd list \<Rightarrow> 'd batch \<Rightarrow> nat \<Rightarrow> pc \<Rightarrow> bool" where
  "thread_ok members ds s i p \<longleftrightarrow>
     (let n = length members in
      case p of
        Read_prepared \<Rightarrow> is_unchanged ds s i \<and> (preparation_failed s \<or> go n s)
      | Apply \<Rightarrow> is_unchanged ds s i \<and> go n s
      | Fail_apply \<Rightarrow> go n s \<and> documents s ! i = fst (apply_edit (members ! i) (ds ! i))
      | Count_applied \<Rightarrow> is_applied members ds s i
      | Wait_applied \<Rightarrow> is_applied members ds s i
      | Read_applied \<Rightarrow> is_applied members ds s i \<and> applied s = n
      | Finalize c \<Rightarrow> is_applied members ds s i \<and> applied s = n \<and> c = apply_failed s
      | Fail_finalize c \<Rightarrow> is_final members ds (s\<lparr>batch_error := ''x''\<rparr>) i \<and> c = apply_failed s \<and>
          \<not> snd (finalize (members ! i) c (fst (apply_edit (members ! i) (ds ! i))))
      | Count_finished \<Rightarrow> is_final members ds s i
      | Wait_finished \<Rightarrow> is_final members ds s i
      | Complete b \<Rightarrow> is_ended members ds s i b
      | Release b r \<Rightarrow> is_ended members ds s i b \<and> completed s
      | Call b r \<Rightarrow> is_ended members ds s i b \<and> completed s
      | Mark b \<Rightarrow> is_ended members ds s i b \<and> completed s
      | Wait_completion \<Rightarrow> is_ended members ds s i True \<and> completed s
      | Done b \<Rightarrow> is_ended members ds s i b \<and> (b \<longrightarrow> completed s)
      | Submit k \<Rightarrow> False
      | Fail_submit \<Rightarrow> False
      | _ \<Rightarrow> is_unchanged ds s i)"

definition submitter_ok :: "nat \<Rightarrow> 'd batch \<Rightarrow> pc \<Rightarrow> bool" where
  "submitter_ok n s p \<longleftrightarrow>
     (case p of
        Submit k \<Rightarrow> k \<le> n \<and> \<not> admitted s \<and> (\<forall>i < n. k \<le> i \<longleftrightarrow> threads s ! i = Unsubmitted)
      | Fail_submit \<Rightarrow> \<not> admitted s
      | Done b \<Rightarrow> \<not> b \<and> (admitted s \<and> (\<forall>i < n. threads s ! i \<noteq> Unsubmitted) \<or> preparation_failed s)
      | Complete b \<Rightarrow> \<not> b \<and> preparation_failed s
      | Release b r \<Rightarrow> \<not> b \<and> preparation_failed s
      | Call b r \<Rightarrow> \<not> b \<and> preparation_failed s
      | Mark b \<Rightarrow> \<not> b \<and> preparation_failed s
      | _ \<Rightarrow> False)"

text \<open>Threads that hold the result of the batch and have not yet reported it, and threads that have.\<close>

fun holds_result :: "pc \<Rightarrow> bool" where
  "holds_result (Release b r) = True"
| "holds_result (Call b r) = True"
| "holds_result _ = False"

fun results_of :: "pc \<Rightarrow> string set" where
  "results_of (Release b r) = {r}"
| "results_of (Call b r) = {r}"
| "results_of _ = {}"

definition reported :: "'d batch \<Rightarrow> string set" where
  "reported s = set (calls s) \<union> (\<Union>p \<in> set (threads s). results_of p)"

fun marks :: "pc \<Rightarrow> bool" where
  "marks (Mark b) = True"
| "marks _ = False"

fun releases :: "pc \<Rightarrow> bool" where
  "releases (Release b r) = True"
| "releases _ = False"

text \<open>Threads that will see a failed preparation and complete the batch.\<close>

definition cancels :: "pc \<Rightarrow> bool" where
  "cancels p \<longleftrightarrow> p \<in> {Count_prepared, Wait_prepared, Read_prepared, Complete False}"

definition total :: "(pc \<Rightarrow> bool) \<Rightarrow> 'd batch \<Rightarrow> nat" where
  "total P s = length (filter P (threads s))"

text \<open>How many of the members are at a position.\<close>

definition counted :: "(pc \<Rightarrow> bool) \<Rightarrow> nat \<Rightarrow> 'd batch \<Rightarrow> nat" where
  "counted P n s = length (filter P (take n (threads s)))"

text \<open>A result that was computed: an error when the batch was cancelled.\<close>

definition result_ok :: "'d edit_participant list \<Rightarrow> 'd list \<Rightarrow> 'd batch \<Rightarrow> string \<Rightarrow> bool" where
  "result_ok members ds s r \<longleftrightarrow>
     preparation_failed s \<and> r \<noteq> [] \<or>
     go (length members) s \<and> finished s = length members \<and> batch_error s = r"

definition batch_inv :: "'d edit_participant list \<Rightarrow> 'd list \<Rightarrow> 'd batch \<Rightarrow> bool" where
  "batch_inv members ds s \<longleftrightarrow>
     (let n = length members in
      length (threads s) = n + 1 \<and> length (documents s) = n \<and>
      (\<forall>i < n. thread_ok members ds s i (threads s ! i)) \<and> submitter_ok n s (threads s ! n) \<and>
      prepared s \<le> counted prepared_at n s \<and> applied s = counted applied_at n s \<and>
      finished s = counted finished_at n s \<and>
      (preparation_failed s \<or> apply_failed s \<longrightarrow> batch_error s \<noteq> []) \<and>
      (batch_error s \<noteq> [] \<longrightarrow> preparation_failed s \<or> apply_failed s \<or>
         (\<exists>i < n. \<not> snd (commit (members ! i) (fst (apply_edit (members ! i) (ds ! i)))))) \<and>
      total holds_result s + length (calls s) = (if completed s then 1 else 0) \<and>
      total marks s + (if completion_finished s then 1 else 0) = length (calls s) \<and>
      (preparation_failed s \<longrightarrow> completed s \<or> 0 < total cancels s) \<and>
      (\<forall>r \<in> reported s. result_ok members ds s r))"

lemma start_inv:
  assumes "length ds = length members"
  shows "batch_inv members ds (start_batch members ds owned)"
proof -
  have "documents (start_batch members ds owned) = ds" "threads (start_batch members ds owned) = replicate (length members) Unsubmitted @ [Submit 0]"
    by (simp_all add: start_batch_def)
  then show ?thesis
    using assms
    by (simp add: batch_inv_def thread_ok_def submitter_ok_def start_batch_def nth_append is_unchanged_def
        counted_def total_def reported_def applied_at_def finished_at_def prepared_at_def Let_def)
qed

text \<open>What no later step takes back.\<close>

definition later :: "nat \<Rightarrow> 'd batch \<Rightarrow> 'd batch \<Rightarrow> bool" where
  "later n s s' \<longleftrightarrow>
     (preparation_failed s \<longrightarrow> preparation_failed s') \<and> (go n s \<longrightarrow> go n s') \<and>
     (apply_failed s \<longrightarrow> apply_failed s') \<and> (completed s \<longrightarrow> completed s') \<and>
     (applied s = n \<longrightarrow> applied s' = n \<and> apply_failed s' = apply_failed s) \<and>
     (finished s = n \<longrightarrow> finished s' = n \<and> batch_error s' = batch_error s) \<and>
     (batch_error s \<noteq> [] \<longrightarrow> batch_error s' \<noteq> [])"

lemma is_applied_later:
  "is_applied members ds s i \<Longrightarrow> later (length members) s s' \<Longrightarrow> documents s' ! i = documents s ! i \<Longrightarrow>
   is_applied members ds s' i"
  by (auto simp: is_applied_def later_def)

lemma is_final_later:
  assumes "is_final members ds s i" "later (length members) s s'" "documents s' ! i = documents s ! i"
  shows "is_final members ds s' i"
proof -
  have "applied s' = length members" "apply_failed s' = apply_failed s"
    using assms(1, 2) by (simp_all add: is_final_def later_def Let_def)
  then show ?thesis
    using assms by (auto simp: is_final_def later_def Let_def)
qed

lemma is_ended_later:
  "is_ended members ds s i b \<Longrightarrow> later (length members) s s' \<Longrightarrow> documents s' ! i = documents s ! i \<Longrightarrow>
   is_ended members ds s' i b"
  by (auto simp: is_ended_def is_unchanged_def later_def intro: is_final_later)

lemma thread_ok_later:
  assumes "thread_ok members ds s i p" "later (length members) s s'" "documents s' ! i = documents s ! i"
  shows "thread_ok members ds s' i p"
proof (cases p)
  case (Fail_finalize c)
  then have f: "is_final members ds (s\<lparr>batch_error := ''x''\<rparr>) i" and c: "c = apply_failed s"
    and a: "applied s = length members"
    using assms(1) by (simp_all add: thread_ok_def is_final_def Let_def)
  have "apply_failed s' = apply_failed s" "applied s' = length members"
    using a assms(2) by (simp_all add: later_def)
  then show ?thesis
    using f c assms Fail_finalize by (auto simp: thread_ok_def is_final_def later_def go_def Let_def)
qed (use assms is_applied_later[OF _ assms(2, 3)] is_final_later[OF _ assms(2, 3)] is_ended_later[OF _ assms(2, 3)] in
    \<open>auto simp: thread_ok_def is_unchanged_def later_def Let_def\<close>)

lemma result_ok_later:
  "result_ok members ds s r \<Longrightarrow> later (length members) s s' \<Longrightarrow> result_ok members ds s' r"
  unfolding result_ok_def later_def by auto

section \<open>The invariant is kept\<close>

lemma counted_all: "n \<le> counted P n s \<Longrightarrow> i < n \<Longrightarrow> n < length (threads s) \<Longrightarrow> P (threads s ! i)"
proof -
  assume a: "n \<le> counted P n s" "i < n" "n < length (threads s)"
  then have "length (filter P (take n (threads s))) = length (take n (threads s))"
    using length_filter_le[of P "take n (threads s)"] by (simp add: counted_def)
  then have "filter P (take n (threads s)) = take n (threads s)"
    by (metis filter_id_conv length_filter_less linorder_neq_iff)
  then have "\<forall>x \<in> set (take n (threads s)). P x"
    by (simp only: filter_id_conv)
  moreover have "take n (threads s) ! i \<in> set (take n (threads s))"
    using a(2, 3) by (intro nth_mem) simp
  ultimately show "P (threads s ! i)"
    using a(2) by simp
qed

lemma counted_least: "(\<And>i. i < n \<Longrightarrow> P (threads s ! i)) \<Longrightarrow> n \<le> length (threads s) \<Longrightarrow> counted P n s = n"
proof -
  assume a: "\<And>i. i < n \<Longrightarrow> P (threads s ! i)" "n \<le> length (threads s)"
  then have "\<forall>x \<in> set (take n (threads s)). P x"
    by (auto simp: in_set_conv_nth)
  then have "filter P (take n (threads s)) = take n (threads s)"
    by (simp only: filter_id_conv)
  then show ?thesis
    using a(2) by (simp add: counted_def)
qed

lemma length_filter_update:
  "i < length xs \<Longrightarrow> length (filter P (xs[i := p])) + (if P (xs ! i) then 1 else 0) =
    length (filter P xs) + (if P p then 1 else 0)"
proof (induction xs arbitrary: i)
  case (Cons x xs)
  then show ?case
    by (cases i) auto
qed simp

lemma counted_update:
  assumes "threads s' = (threads s)[i := p]" "i < n" "n < length (threads s)"
  shows "counted P n s' + (if P (threads s ! i) then 1 else 0) = counted P n s + (if P p then 1 else 0)"
proof -
  have "take n (threads s') = (take n (threads s))[i := p]"
    using assms(1, 2) by (simp add: take_update_swap)
  then show ?thesis
    using length_filter_update[of i "take n (threads s)" P p] assms(2, 3) by (simp add: counted_def)
qed

lemma counted_other: "threads s' = (threads s)[n := p] \<Longrightarrow> counted P n s' = counted P n s"
  by (simp add: counted_def)

lemma total_update:
  "threads s' = (threads s)[i := p] \<Longrightarrow> i < length (threads s) \<Longrightarrow>
   total P s' + (if P (threads s ! i) then 1 else 0) = total P s + (if P p then 1 else 0)"
  using length_filter_update[of i "threads s" P p] by (simp add: total_def)

lemma total_pos: "p \<in> set (threads s) \<Longrightarrow> P p \<Longrightarrow> 0 < total P s"
  by (auto simp: total_def filter_empty_conv)

lemma batch_inv_parts:
  assumes "batch_inv members ds s"
  shows "length (threads s) = length members + 1" "length (documents s) = length members"
    "\<forall>i < length members. thread_ok members ds s i (threads s ! i)"
    "submitter_ok (length members) s (threads s ! length members)"
    "prepared s \<le> counted prepared_at (length members) s" "applied s = counted applied_at (length members) s"
    "finished s = counted finished_at (length members) s"
    "preparation_failed s \<or> apply_failed s \<longrightarrow> batch_error s \<noteq> []"
    "total holds_result s + length (calls s) = (if completed s then 1 else 0)"
    "total marks s + (if completion_finished s then 1 else 0) = length (calls s)"
    "preparation_failed s \<longrightarrow> completed s \<or> 0 < total cancels s"
    "batch_error s \<noteq> [] \<longrightarrow> preparation_failed s \<or> apply_failed s \<or>
       (\<exists>i < length members. \<not> snd (commit (members ! i) (fst (apply_edit (members ! i) (ds ! i)))))"
    "\<forall>r \<in> reported s. result_ok members ds s r"
  by (insert assms, unfold batch_inv_def Let_def, (elim conjE, assumption)+)

lemmas batch_invD = batch_inv_parts[rule_format]

text \<open>How a step of a member changes the state: its position, its document and the counters.\<close>

lemma fail_fields:
  "threads (fail m b s) = threads s" "documents (fail m b s) = documents s" "prepared (fail m b s) = prepared s"
  "applied (fail m b s) = applied s" "finished (fail m b s) = finished s" "admitted (fail m b s) = admitted s"
  "completed (fail m b s) = completed s" "completion_finished (fail m b s) = completion_finished s"
  "calls (fail m b s) = calls s" "reservations (fail m b s) = reservations s"
  "preparation_failed (fail m b s) \<longleftrightarrow> b \<or> preparation_failed s"
  "apply_failed (fail m b s) \<longleftrightarrow> \<not> b \<or> apply_failed s"
  "batch_error (fail m b s) = (if batch_error s = [] then m else batch_error s)"
  by (simp_all add: fail_def Let_def)

lemmas step_defs = run_step_def complete_step_def wait_prepared_def goto_def set_document_def after_complete_def Let_def

lemma run_step_frame:
  assumes "run_step members message i choice s = Some s'" "i < length (threads s)"
  shows "threads s' = (threads s)[i := threads s' ! i]" "length (documents s') = length (documents s)"
    "j \<noteq> i \<Longrightarrow> documents s' ! j = documents s ! j" "admitted s' = admitted s"
    "prepared s' = prepared s + (if threads s ! i = Count_prepared then 1 else 0)"
    "applied s' = applied s + (if threads s ! i = Count_applied then 1 else 0)"
    "finished s' = finished s + (if threads s ! i = Count_finished then 1 else 0)"
  by (use assms in \<open>cases "threads s ! i"; auto simp: step_defs fail_fields split: if_splits prod.splits\<close>)+

lemma run_step_positions:
  assumes "run_step members message i choice s = Some s'" "i < length (threads s)"
  shows "prepared_at (threads s ! i) \<or> threads s ! i = Count_prepared \<Longrightarrow> prepared_at (threads s' ! i)"
    "applied_at (threads s' ! i) \<longleftrightarrow> applied_at (threads s ! i) \<or> threads s ! i = Count_applied"
    "finished_at (threads s' ! i) \<longleftrightarrow> finished_at (threads s ! i) \<or> threads s ! i = Count_finished"
    "threads s ! i \<noteq> Unsubmitted" "threads s' ! i \<noteq> Unsubmitted"
  by (use assms in \<open>cases "threads s ! i"; auto simp: step_defs fail_fields prepared_at_def applied_at_def
      finished_at_def split: if_splits prod.splits\<close>)+


lemma run_step_flags:
  assumes "run_step members message i choice s = Some s'"
  shows "preparation_failed s \<Longrightarrow> preparation_failed s'" "apply_failed s \<Longrightarrow> apply_failed s'"
    "completed s \<Longrightarrow> completed s'" "batch_error s \<noteq> [] \<Longrightarrow> batch_error s' \<noteq> []"
    "threads s ! i \<notin> {Fail_apply} \<Longrightarrow> apply_failed s' = apply_failed s"
    "threads s ! i \<notin> {Fail_prepare, Wait_prepared} \<Longrightarrow> preparation_failed s' = preparation_failed s"
    "threads s ! i = Wait_prepared \<Longrightarrow> go (length members) s \<Longrightarrow> preparation_failed s' = preparation_failed s"
    "threads s ! i \<notin> {Fail_prepare, Wait_prepared, Fail_apply} \<Longrightarrow> (\<And>b. threads s ! i \<noteq> Fail_finalize b) \<Longrightarrow>
      batch_error s' = batch_error s"
    "threads s ! i = Wait_prepared \<Longrightarrow> go (length members) s \<Longrightarrow> batch_error s' = batch_error s"
  by (use assms in \<open>cases "threads s ! i"; auto simp: go_def step_defs fail_fields split: if_splits prod.splits\<close>)+

lemma passed_go:
  assumes "batch_inv members ds s" "members \<noteq> []"
  shows "applied s = length members \<Longrightarrow> go (length members) s" "finished s = length members \<Longrightarrow> go (length members) s"
proof -
  note inv = batch_invD[OF assms(1)]
  have n: "0 < length members" "length members < length (threads s)"
    using inv(1) assms(2) by simp_all
  have t: "applied_at (threads s ! 0) \<Longrightarrow> go (length members) s"
    using inv(3)[OF n(1)] by (cases "threads s ! 0")
      (auto simp: thread_ok_def applied_at_def finished_at_def is_applied_def is_final_def is_ended_def go_def Let_def)
  have f: "finished_at (threads s ! 0) \<Longrightarrow> applied_at (threads s ! 0)"
    by (cases "threads s ! 0") (simp_all add: applied_at_def finished_at_def)
  show "applied s = length members \<Longrightarrow> go (length members) s"
    using t counted_all[OF _ n, of applied_at] inv(6) by simp
  show "finished s = length members \<Longrightarrow> go (length members) s"
    using t f counted_all[OF _ n, of finished_at] inv(7) by simp
qed

lemma run_step_later:
  assumes "batch_inv members ds s" "i < length members"
    and step: "run_step members message i choice s = Some s'"
  shows "later (length members) s s'"
proof -
  note inv = batch_invD[OF assms(1)]
  have n: "length members < length (threads s)" "members \<noteq> []"
    using inv(1) assms(2) by auto
  have i: "i < length (threads s)"
    using n assms(2) by simp
  note frame = run_step_frame[OF step i] and flags = run_step_flags[OF step]
  have 1: "prepared s = length members \<Longrightarrow> prepared_at (threads s ! i)"
    using counted_all[OF _ assms(2) n(1), of prepared_at] inv(5) by simp
  have 2: "applied s = length members \<Longrightarrow> applied_at (threads s ! i)"
    using counted_all[OF _ assms(2) n(1), of applied_at] inv(6) by simp
  have 3: "finished s = length members \<Longrightarrow> finished_at (threads s ! i)"
    using counted_all[OF _ assms(2) n(1), of finished_at] inv(7) by simp
  have go: "go (length members) s \<longrightarrow> go (length members) s'"
  proof
    assume g: "go (length members) s"
    then have p: "prepared_at (threads s ! i)" "\<not> preparation_failed s"
      using 1 by (simp_all add: go_def)
    then have "preparation_failed s' = preparation_failed s"
      using flags(6, 7)[OF _] g by (cases "threads s ! i = Wait_prepared") (auto simp: prepared_at_def)
    then show "go (length members) s'"
      using g p frame(4, 5) by (auto simp: go_def prepared_at_def)
  qed
  have app: "applied s' = length members \<and> apply_failed s' = apply_failed s" if "applied s = length members"
  proof -
    have "threads s ! i \<noteq> Count_applied" "threads s ! i \<noteq> Fail_apply"
      using 2[OF that] by (auto simp: applied_at_def finished_at_def)
    then show ?thesis
      using that frame(6) flags(5) by simp
  qed
  have fin: "finished s' = length members \<and> batch_error s' = batch_error s" if f: "finished s = length members"
  proof -
    have "threads s ! i \<notin> {Count_finished, Fail_prepare, Wait_prepared, Fail_apply}" "\<And>b. threads s ! i \<noteq> Fail_finalize b"
      using 3[OF f] by (auto simp: finished_at_def)
    then show ?thesis
      using f frame(7) flags(8) by simp
  qed
  show ?thesis
    using flags(1-4) go app fin by (simp add: later_def)
qed

lemma submit_step_later:
  assumes "batch_inv members ds s" "members \<noteq> []" "submit_step members accepted s = Some s'"
  shows "later (length members) s s'"
  using assms(3) batch_invD(4)[OF assms(1)] passed_go(2)[OF assms(1, 2)]
  by (cases "threads s ! length members"; auto simp: later_def go_def submit_step_def step_defs fail_fields
      submitter_ok_def split: if_splits)


lemma run_step_ok:
  assumes "batch_inv members ds s" "i < length members" "message i \<noteq> []"
    and step: "run_step members message i choice s = Some s'"
  shows "thread_ok members ds s' i (threads s' ! i)"
proof -
  note inv = batch_invD[OF assms(1)]
  have l: "i < length (threads s)" "i < length (documents s)"
    using inv(1, 2) assms(2) by simp_all
  note ok = inv(3)[OF assms(2)]
  show ?thesis
    using ok step l assms(3)
    by (cases "threads s ! i"; auto simp: thread_ok_def is_unchanged_def is_applied_def is_final_def is_ended_def
      go_def finalize_def step_defs fail_fields split: if_splits prod.splits)
qed


lemma run_step_counts:
  assumes "batch_inv members ds s" "i < length members" "run_step members message i choice s = Some s'"
  shows "prepared s' \<le> counted prepared_at (length members) s'"
    "applied s' = counted applied_at (length members) s'" "finished s' = counted finished_at (length members) s'"
proof -
  note inv = batch_invD[OF assms(1)]
  have n: "length members < length (threads s)" and i: "i < length (threads s)"
    using inv(1) assms(2) by simp_all
  note frame = run_step_frame[OF assms(3) i] and pos = run_step_positions[OF assms(3) i]
  have "\<not> prepared_at Count_prepared" "\<not> applied_at Count_applied" "\<not> finished_at Count_finished"
    by (simp_all add: prepared_at_def applied_at_def finished_at_def)
  then show "prepared s' \<le> counted prepared_at (length members) s'"
    "applied s' = counted applied_at (length members) s'" "finished s' = counted finished_at (length members) s'"
    using counted_update[OF frame(1) assms(2) n, of prepared_at] counted_update[OF frame(1) assms(2) n, of applied_at]
      counted_update[OF frame(1) assms(2) n, of finished_at] frame(5, 6, 7) pos(1, 2, 3) inv(5, 6, 7)
    by (auto split: if_splits)
qed

lemma run_step_errors:
  assumes "batch_inv members ds s" "i < length members" "message i \<noteq> []"
    "run_step members message i choice s = Some s'"
  shows "preparation_failed s' \<or> apply_failed s' \<Longrightarrow> batch_error s' \<noteq> []"
    "batch_error s' \<noteq> [] \<Longrightarrow> preparation_failed s' \<or> apply_failed s' \<or>
       (\<exists>i < length members. \<not> snd (commit (members ! i) (fst (apply_edit (members ! i) (ds ! i)))))"
proof -
  note inv = batch_invD[OF assms(1)]
  note ok = inv(3)[OF assms(2)]
  show "preparation_failed s' \<or> apply_failed s' \<Longrightarrow> batch_error s' \<noteq> []"
    using inv(8) assms(3, 4)
    by (cases "threads s ! i"; auto simp: step_defs fail_fields split: if_splits prod.splits)
  assume e: "batch_error s' \<noteq> []"
  show "preparation_failed s' \<or> apply_failed s' \<or>
       (\<exists>i < length members. \<not> snd (commit (members ! i) (fst (apply_edit (members ! i) (ds ! i)))))"
  proof (cases "\<exists>c. threads s ! i = Fail_finalize c")
    case True
    then obtain c where c: "threads s ! i = Fail_finalize c" ..
    then have "apply_failed s' = apply_failed s" "c = apply_failed s"
      "\<not> snd (finalize (members ! i) c (fst (apply_edit (members ! i) (ds ! i))))"
      using ok run_step_flags(5)[OF assms(4)] by (auto simp: thread_ok_def)
    then show ?thesis
      using assms(2) by (cases c) (auto simp: finalize_def)
  next
    case False
    then show ?thesis
      using e inv(12) assms(4) run_step_flags(1, 2)[OF assms(4)]
      by (cases "threads s ! i"; fastforce simp: step_defs fail_fields split: if_splits prod.splits)
  qed
qed

lemma complete_result_ok:
  assumes "batch_inv members ds s" "k \<le> length members" "threads s ! k = Complete b"
  shows "result_ok members ds s (batch_error s)"
proof (cases "k < length members")
  case True
  then show ?thesis
    using batch_invD(3)[OF assms(1) True] batch_invD(8)[OF assms(1)] assms(3)
    by (auto simp: thread_ok_def is_ended_def is_final_def result_ok_def split: if_splits)
next
  case False
  then show ?thesis
    using batch_invD(4, 8)[OF assms(1)] assms(2, 3) by (simp add: submitter_ok_def result_ok_def)
qed


text \<open>What a step inside \<open>complete\<close> does to the result, for a member and for the submitting thread.\<close>

definition results_inv :: "'d edit_participant list \<Rightarrow> 'd list \<Rightarrow> 'd batch \<Rightarrow> bool" where
  "results_inv members ds s \<longleftrightarrow>
     total holds_result s + length (calls s) = (if completed s then 1 else 0) \<and>
     total marks s + (if completion_finished s then 1 else 0) = length (calls s) \<and>
     (preparation_failed s \<longrightarrow> completed s \<or> 0 < total cancels s) \<and>
     (\<forall>r \<in> reported s. result_ok members ds s r)"

lemma reported_update:
  "threads s' = (threads s)[k := p] \<Longrightarrow> calls s' = calls s @ rs \<Longrightarrow>
   reported s' \<subseteq> reported s \<union> set rs \<union> results_of p"
  using set_update_subset_insert[of "threads s" k p] by (auto simp: reported_def)

lemma reported_nth: "k < length (threads s) \<Longrightarrow> r \<in> results_of (threads s ! k) \<Longrightarrow> r \<in> reported s"
  by (auto simp: reported_def)

lemma results_of_holds: "\<not> holds_result p \<Longrightarrow> results_of p = {}"
  by (cases p) simp_all

text \<open>A step that moves a thread, appends \<open>rs\<close> to the calls and may complete or finish.\<close>

lemma results_move:
  assumes inv: "results_inv members ds s" and l: "later (length members) s s'" and k: "k < length (threads s)"
    and t: "threads s' = (threads s)[k := p]" and c: "calls s' = calls s @ rs"
    and holds: "(if holds_result p then 1 else 0) + length rs + (if completed s then 1 else 0) =
      (if holds_result (threads s ! k) then 1 else 0) + (if completed s' then 1 else (0::nat))"
    and marks: "(if marks p then 1 else 0) + (if completion_finished s' then 1 else 0) =
      (if marks (threads s ! k) then 1 else 0) + (if completion_finished s then 1 else 0) + length rs"
    and cancel: "preparation_failed s' \<longrightarrow>
      completed s' \<or> cancels p \<or> preparation_failed s \<and> \<not> completed s \<and> \<not> cancels (threads s ! k)"
    and results: "\<forall>r \<in> set rs \<union> results_of p. result_ok members ds s r"
  shows "results_inv members ds s'"
proof -
  note total = total_update[OF t k]
  have "total holds_result s' + length (calls s') = (if completed s' then 1 else 0)"
    using total[of holds_result] holds inv c by (simp add: results_inv_def)
  moreover have "total marks s' + (if completion_finished s' then 1 else 0) = length (calls s')"
    using total[of marks] marks inv c by (simp add: results_inv_def)
  moreover have "p \<in> set (threads s')"
    using k t by (simp add: set_update_memI)
  then have "preparation_failed s' \<longrightarrow> completed s' \<or> 0 < total cancels s'"
    using total[of cancels] inv cancel total_pos[of p s' cancels] by (auto simp: results_inv_def split: if_splits)
  moreover have "\<forall>r \<in> reported s'. result_ok members ds s' r"
    using reported_update[OF t c] results inv result_ok_later[OF _ l] by (auto simp: results_inv_def)
  ultimately show ?thesis
    by (simp add: results_inv_def)
qed

lemma complete_step_cases:
  assumes "complete_step members k p s = Some s'"
  obtains (First) b where "p = Complete b" "\<not> completed s"
      "s' = goto k (Release b (batch_error s)) (s\<lparr>completed := True\<rparr>)"
    | (Later) b where "p = Complete b" "completed s" "s' = goto k (after_complete b) s"
    | (Releases) b r where "p = Release b r"
      "s' = goto k (Call b r) (s\<lparr>reservations := reservations s - set (map actor members)\<rparr>)"
    | (Calls) b r where "p = Call b r" "s' = goto k (Mark b) (s\<lparr>calls := calls s @ [r]\<rparr>)"
    | (Marks) b where "p = Mark b" "s' = goto k (after_complete b) (s\<lparr>completion_finished := True\<rparr>)"
  using assms by (cases p) (auto simp: complete_step_def split: if_splits)

lemma after_complete_simps:
  "\<not> holds_result (after_complete b)" "\<not> marks (after_complete b)" "\<not> cancels (after_complete b)"
  "\<not> releases (after_complete b)"
  by (simp_all add: after_complete_def cancels_def)

lemma complete_step_results:
  assumes inv: "results_inv members ds s" and l: "later (length members) s s'" and k: "k < length (threads s)"
    and step: "complete_step members k (threads s ! k) s = Some s'"
    and result: "\<And>b. threads s ! k = Complete b \<Longrightarrow> result_ok members ds s (batch_error s)"
  shows "results_inv members ds s'"
  using step
proof (cases rule: complete_step_cases)
  case (First b)
  then show ?thesis
    using result[OF First(1)]
    by (intro results_move[OF inv l k, of "Release b (batch_error s)" "[]"]) (simp_all add: goto_def)
next
  case (Later b)
  then show ?thesis
    by (intro results_move[OF inv l k, of "after_complete b" "[]"])
      (simp_all add: goto_def after_complete_simps results_of_holds)
next
  case (Releases b r)
  then have "result_ok members ds s r" "completed s"
    using inv reported_nth[OF k] total_pos[OF nth_mem[OF k], of holds_result] by (auto simp: results_inv_def split: if_splits)
  then show ?thesis
    using Releases by (intro results_move[OF inv l k, of "Call b r" "[]"]) (simp_all add: goto_def)
next
  case (Calls b r)
  then have "result_ok members ds s r" "completed s"
    using inv reported_nth[OF k] total_pos[OF nth_mem[OF k], of holds_result] by (auto simp: results_inv_def split: if_splits)
  then show ?thesis
    using Calls by (intro results_move[OF inv l k, of "Mark b" "[r]"]) (simp_all add: goto_def)
next
  case (Marks b)
  then have "completed s" "length (calls s) = 1" "\<not> completion_finished s"
    using inv total_pos[OF nth_mem[OF k], of marks] by (auto simp: results_inv_def split: if_splits)
  then show ?thesis
    using Marks by (intro results_move[OF inv l k, of "after_complete b" "[]"])
      (simp_all add: goto_def after_complete_simps results_of_holds)
qed


fun completing :: "pc \<Rightarrow> bool" where
  "completing (Complete b) = True"
| "completing (Release b r) = True"
| "completing (Call b r) = True"
| "completing (Mark b) = True"
| "completing _ = False"

lemma run_step_completing:
  "completing (threads s ! i) \<Longrightarrow> run_step members message i choice s = complete_step members i (threads s ! i) s"
  by (cases "threads s ! i") (simp_all add: run_step_def Let_def)

lemma run_step_other:
  assumes "run_step members message i choice s = Some s'" "i < length (threads s)" "\<not> completing (threads s ! i)"
  shows "completed s' = completed s \<and> completion_finished s' = completion_finished s \<and> calls s' = calls s \<and>
    reservations s' = reservations s \<and> \<not> holds_result (threads s' ! i) \<and> \<not> marks (threads s' ! i) \<and>
    \<not> releases (threads s' ! i)"
  using assms(1, 2, 3)
  by (cases "threads s ! i"; clarsimp simp: step_defs fail_fields split: if_splits prod.splits)

lemma not_completing: "\<not> completing p \<Longrightarrow> \<not> holds_result p \<and> \<not> marks p \<and> \<not> releases p"
  by (cases p) simp_all

lemma run_step_cancels:
  assumes "run_step members message i choice s = Some s'" "i < length (threads s)" "\<not> completing (threads s ! i)"
  shows "preparation_failed s' \<Longrightarrow> cancels (threads s' ! i) \<or> preparation_failed s \<and> \<not> cancels (threads s ! i)"
proof (cases "threads s ! i \<in> {Fail_prepare, Wait_prepared}")
  case True
  then show ?thesis
    using assms by (auto simp: step_defs fail_fields cancels_def split: if_splits)
next
  case False
  assume "preparation_failed s'"
  then have "preparation_failed s"
    using False run_step_flags(6)[OF assms(1)] by simp
  then show ?thesis
    using False assms by (cases "threads s ! i") (auto simp: step_defs cancels_def split: prod.splits)
qed

lemma batch_results: "batch_inv members ds s \<Longrightarrow> results_inv members ds s"
  unfolding results_inv_def using batch_inv_parts(9, 10, 11, 13)[of members ds s] by (intro conjI)

lemma run_step_results:
  assumes inv: "batch_inv members ds s" and i: "i < length members"
    and step: "run_step members message i choice s = Some s'"
  shows "results_inv members ds s'"
proof -
  have k: "i < length (threads s)"
    using batch_invD(1)[OF inv] i by simp
  note l = run_step_later[OF inv i step] and frame = run_step_frame[OF step k]
  show ?thesis
  proof (cases "completing (threads s ! i)")
    case True
    then show ?thesis
      using complete_step_results[OF batch_results[OF inv] l k] step run_step_completing[OF True, of members message choice]
        complete_result_ok[OF inv less_imp_le[OF i]] by simp
  next
    case False
    have "completed s' = completed s" "completion_finished s' = completion_finished s" "calls s' = calls s"
      "\<not> holds_result (threads s' ! i)" "\<not> marks (threads s' ! i)"
      using run_step_other[OF step k False] by blast+
    then show ?thesis
      using results_of_holds not_completing[OF False] run_step_cancels[OF step k False]
      by (intro results_move[OF batch_results[OF inv] l k frame(1), of "[]"]) auto
  qed
qed

lemma batch_invI:
  assumes "results_inv members ds s" "length (threads s) = length members + 1" "length (documents s) = length members"
    "\<forall>i < length members. thread_ok members ds s i (threads s ! i)"
    "submitter_ok (length members) s (threads s ! length members)"
    "prepared s \<le> counted prepared_at (length members) s" "applied s = counted applied_at (length members) s"
    "finished s = counted finished_at (length members) s"
    "preparation_failed s \<or> apply_failed s \<longrightarrow> batch_error s \<noteq> []"
    "batch_error s \<noteq> [] \<longrightarrow> preparation_failed s \<or> apply_failed s \<or>
       (\<exists>i < length members. \<not> snd (commit (members ! i) (fst (apply_edit (members ! i) (ds ! i)))))"
  shows "batch_inv members ds s"
  by (insert assms, unfold batch_inv_def results_inv_def Let_def, elim conjE, intro conjI; assumption)

lemma run_step_inv:
  assumes inv: "batch_inv members ds s" and i: "i < length members" and m: "message i \<noteq> []"
    and step: "run_step members message i choice s = Some s'"
  shows "batch_inv members ds s'"
proof (rule batch_invI[OF run_step_results[OF inv i step]])
  note bs = batch_invD[OF inv]
  have k: "i < length (threads s)"
    using bs(1) i by simp
  note l = run_step_later[OF inv i step] and frame = run_step_frame[OF step k]
  have t: "threads s' ! j = threads s ! j" if "j \<noteq> i" for j
    using that frame(1) by (metis nth_list_update_neq)
  show "length (threads s') = length members + 1"
    using frame(1) bs(1) by (metis length_list_update)
  show "length (documents s') = length members"
    using frame(2) bs(2) by simp
  show "\<forall>j < length members. thread_ok members ds s' j (threads s' ! j)"
  proof (intro allI impI)
    fix j
    assume j: "j < length members"
    show "thread_ok members ds s' j (threads s' ! j)"
    proof (cases "j = i")
      case True
      then show ?thesis
        using run_step_ok[OF inv i m step] by simp
    next
      case False
      then show ?thesis
        using thread_ok_later[OF bs(3)[OF j] l frame(3)[OF False]] t[OF False] by simp
    qed
  qed
  have u: "threads s' ! j = Unsubmitted \<longleftrightarrow> threads s ! j = Unsubmitted" for j
    using t run_step_positions(4, 5)[OF step k] by (cases "j = i") simp_all
  have "threads s' ! length members = threads s ! length members" "preparation_failed s \<longrightarrow> preparation_failed s'"
    using t i l by (simp_all add: later_def)
  then show "submitter_ok (length members) s' (threads s' ! length members)"
    using bs(4) u frame(4) by (cases "threads s ! length members") (auto simp: submitter_ok_def)
  show "prepared s' \<le> counted prepared_at (length members) s'" "applied s' = counted applied_at (length members) s'"
    "finished s' = counted finished_at (length members) s'"
    using run_step_counts[OF inv i step] .
  show "preparation_failed s' \<or> apply_failed s' \<longrightarrow> batch_error s' \<noteq> []"
    "batch_error s' \<noteq> [] \<longrightarrow> preparation_failed s' \<or> apply_failed s' \<or>
       (\<exists>i < length members. \<not> snd (commit (members ! i) (fst (apply_edit (members ! i) (ds ! i)))))"
    using run_step_errors[OF inv i m step] by blast+
qed


section \<open>The submitting thread\<close>

lemma counted_cong:
  assumes "\<And>i. i < n \<Longrightarrow> P (threads s' ! i) = P (threads s ! i)" "length (threads s') = length (threads s)" "n \<le> length (threads s)"
  shows "counted P n s' = counted P n s"
proof -
  have "{i. i < n \<and> P (threads s' ! i)} = {i. i < n \<and> P (threads s ! i)}"
    using assms(1) by auto
  then show ?thesis
    using assms(2, 3) by (simp add: counted_def length_filter_conv_card min_absorb2 cong: conj_cong)
qed

lemma later_refl: "later n s s"
  by (simp add: later_def)

lemma submit_step_cases:
  assumes "submit_step members accepted s = Some s'"
  obtains (Accepted) i where "threads s ! length members = Submit i" "i < length members"
      "s' = goto (length members) (Submit (i + 1)) (goto i Queued s)"
    | (Rejected) i where "threads s ! length members = Submit i" "i < length members"
      "s' = goto (length members) Fail_submit s"
    | (Admitted) i where "threads s ! length members = Submit i" "\<not> i < length members"
      "s' = goto (length members) (Done False) (s\<lparr>admitted := True\<rparr>)"
    | (Fails) m where "m \<noteq> []" "threads s ! length members = Fail_submit"
      "s' = goto (length members) (Complete False) (fail m True s)"
    | (Completes) "complete_step members (length members) (threads s ! length members) s = Some s'"
  using assms by (cases "threads s ! length members") (auto simp: submit_step_def Let_def split: if_splits)

lemma submit_step_results:
  assumes inv: "batch_inv members ds s" and m: "members \<noteq> []" and step: "submit_step members accepted s = Some s'"
  shows "results_inv members ds s'"
proof -
  have k: "length members < length (threads s)"
    using batch_invD(1)[OF inv] by simp
  note l = submit_step_later[OF inv m step] and r = batch_results[OF inv] and ok = batch_invD(4)[OF inv]
  show ?thesis
    using step
  proof (cases rule: submit_step_cases)
    case (Accepted i)
    have "threads s ! i = Unsubmitted"
      using ok Accepted by (auto simp: submitter_ok_def)
    then have 1: "results_inv members ds (goto i Queued s)"
      using k Accepted(2)
      by (intro results_move[OF r, where k = i and p = Queued and rs = "[]"])
        (auto simp: goto_def later_def cancels_def go_def results_inv_def)
    show ?thesis
      using k Accepted
      by (intro results_move[OF 1, where k = "length members" and p = "Submit (i + 1)" and rs = "[]"])
        (auto simp: goto_def later_def cancels_def go_def results_inv_def)
  next
    case (Rejected i)
    then show ?thesis
      using k by (intro results_move[OF r l k, where p = Fail_submit and rs = "[]"]) (auto simp: goto_def cancels_def)
  next
    case (Admitted i)
    then show ?thesis
      using k by (intro results_move[OF r l k, where p = "Done False" and rs = "[]"]) (auto simp: goto_def cancels_def)
  next
    case (Fails m)
    then show ?thesis
      using k by (intro results_move[OF r l k, where p = "Complete False" and rs = "[]"])
        (auto simp: goto_def cancels_def fail_fields)
  next
    case Completes
    then show ?thesis
      using complete_step_results[OF r l k] complete_result_ok[OF inv order_refl] by simp
  qed
qed

lemma complete_step_frame:
  assumes "complete_step members k p s = Some s'"
  shows "documents s' = documents s" "prepared s' = prepared s" "applied s' = applied s" "finished s' = finished s"
    "admitted s' = admitted s" "preparation_failed s' = preparation_failed s" "apply_failed s' = apply_failed s"
    "batch_error s' = batch_error s" "length (threads s') = length (threads s)"
    "j \<noteq> k \<Longrightarrow> threads s' ! j = threads s ! j"
  using assms by (auto elim!: complete_step_cases simp: goto_def)

lemma submit_step_frame:
  assumes inv: "batch_inv members ds s" and step: "submit_step members accepted s = Some s'"
  shows "documents s' = documents s" "prepared s' = prepared s" "applied s' = applied s" "finished s' = finished s"
    "length (threads s') = length (threads s)"
    "i < length members \<Longrightarrow> threads s' ! i = threads s ! i \<or> threads s ! i = Unsubmitted \<and> threads s' ! i = Queued"
    "preparation_failed s' \<or> apply_failed s' \<longrightarrow> batch_error s' \<noteq> []"
    "batch_error s' \<noteq> [] \<longrightarrow> preparation_failed s' \<or> batch_error s \<noteq> []"
    "apply_failed s' = apply_failed s"
proof -
  have ok: "j < length members \<Longrightarrow> threads s ! length members = Submit i \<Longrightarrow> i \<le> j \<Longrightarrow> threads s ! j = Unsubmitted" for i j
    using batch_invD(4)[OF inv] by (simp add: submitter_ok_def)
  have "documents s' = documents s \<and> prepared s' = prepared s \<and> applied s' = applied s \<and> finished s' = finished s \<and>
    length (threads s') = length (threads s) \<and> apply_failed s' = apply_failed s \<and>
    (batch_error s' \<noteq> [] \<longrightarrow> preparation_failed s' \<or> batch_error s \<noteq> []) \<and>
    (preparation_failed s' \<or> apply_failed s' \<longrightarrow> batch_error s' \<noteq> [])"
    using step
  proof (cases rule: submit_step_cases)
    case Completes
    then show ?thesis
      using complete_step_frame[OF Completes] batch_invD(8)[OF inv] by simp
  qed (use batch_invD(8)[OF inv] in \<open>auto simp: goto_def fail_fields\<close>)
  then show "documents s' = documents s" "prepared s' = prepared s" "applied s' = applied s" "finished s' = finished s"
    "length (threads s') = length (threads s)" "apply_failed s' = apply_failed s"
    "batch_error s' \<noteq> [] \<longrightarrow> preparation_failed s' \<or> batch_error s \<noteq> []"
    "preparation_failed s' \<or> apply_failed s' \<longrightarrow> batch_error s' \<noteq> []"
    by blast+
  assume i: "i < length members"
  show "threads s' ! i = threads s ! i \<or> threads s ! i = Unsubmitted \<and> threads s' ! i = Queued"
    using step
  proof (cases rule: submit_step_cases)
    case (Accepted j)
    then show ?thesis
      using ok[OF i] i batch_invD(1)[OF inv] by (auto simp: goto_def nth_list_update)
  next
    case Completes
    then show ?thesis
      using complete_step_frame(10)[OF Completes] i by simp
  qed (use i in \<open>simp_all add: goto_def fail_fields\<close>)
qed

lemma submit_step_inv:
  assumes inv: "batch_inv members ds s" and m: "members \<noteq> []" and step: "submit_step members accepted s = Some s'"
  shows "batch_inv members ds s'"
proof (rule batch_invI[OF submit_step_results[OF inv m step]])
  note bs = batch_invD[OF inv] and frame = submit_step_frame[OF inv step] and l = submit_step_later[OF inv m step]
  have c: "counted P (length members) s' = counted P (length members) s" if "P Queued = P Unsubmitted" for P
  proof (rule counted_cong)
    show "P (threads s' ! i) = P (threads s ! i)" if "i < length members" for i
      using frame(6)[OF that] \<open>P Queued = P Unsubmitted\<close> by metis
  qed (use frame(5) bs(1) in simp_all)
  show "length (threads s') = length members + 1" "length (documents s') = length members"
    using bs(1, 2) frame(1, 5) by simp_all
  show "prepared s' \<le> counted prepared_at (length members) s'" "applied s' = counted applied_at (length members) s'"
    "finished s' = counted finished_at (length members) s'"
    using bs(5-7) frame(2-4) c[of prepared_at] c[of applied_at] c[of finished_at]
    by (simp_all add: prepared_at_def applied_at_def finished_at_def)
  show "preparation_failed s' \<or> apply_failed s' \<longrightarrow> batch_error s' \<noteq> []"
    "batch_error s' \<noteq> [] \<longrightarrow> preparation_failed s' \<or> apply_failed s' \<or>
       (\<exists>i < length members. \<not> snd (commit (members ! i) (fst (apply_edit (members ! i) (ds ! i)))))"
    using frame(7, 8, 9) bs(12) l by (auto simp: later_def)
  show "\<forall>i < length members. thread_ok members ds s' i (threads s' ! i)"
  proof (intro allI impI)
    fix i
    assume i: "i < length members"
    have "thread_ok members ds s' i (threads s ! i)"
      using thread_ok_later[OF bs(3)[OF i] l] frame(1) by simp
    then show "thread_ok members ds s' i (threads s' ! i)"
      using frame(6)[OF i] by (auto simp: thread_ok_def)
  qed
  show "submitter_ok (length members) s' (threads s' ! length members)"
    using step
  proof (cases rule: submit_step_cases)
    case Completes
    then show ?thesis
      using bs(1, 4) by (cases rule: complete_step_cases) (auto simp: submitter_ok_def goto_def after_complete_def)
  qed (use bs(1, 4) in \<open>auto simp: submitter_ok_def goto_def fail_fields nth_list_update split: if_splits\<close>)
qed

lemma batch_step_cases:
  assumes "batch_step members message s s'"
  obtains (Member) i choice where "i < length members" "run_step members message i choice s = Some s'"
    | (Submitter) accepted where "submit_step members accepted s = Some s'"
  using assms by (auto elim!: batch_step.cases simp: thread_step_def split: if_splits)

theorem step_inv:
  assumes "batch_inv members ds s" "members \<noteq> []" "\<forall>i. message i \<noteq> []" "batch_step members message s s'"
  shows "batch_inv members ds s'"
  using assms(4)
proof (cases rule: batch_step_cases)
  case (Member i choice)
  then show ?thesis
    using run_step_inv[OF assms(1) Member(1) _ Member(2)] assms(3) by simp
next
  case (Submitter accepted)
  then show ?thesis
    by (rule submit_step_inv[OF assms(1, 2)])
qed

lemma steps_inv:
  assumes "(batch_step members message)\<^sup>*\<^sup>* s s'" "batch_inv members ds s" "members \<noteq> []" "\<forall>i. message i \<noteq> []"
  shows "batch_inv members ds s'"
  using assms(1, 2) by (induction rule: rtranclp_induct) (auto intro: step_inv[OF _ assms(3, 4)])


section \<open>All or nothing\<close>

lemma cancelled_unchanged:
  assumes "batch_inv members ds s" "preparation_failed s" "i < length members"
  shows "documents s ! i = ds ! i"
proof -
  have "\<not> go (length members) s"
    using assms(2) by (simp add: go_def)
  then show ?thesis
    using batch_invD(3)[OF assms(1, 3)]
    by (cases "threads s ! i")
      (auto simp: thread_ok_def is_unchanged_def is_applied_def is_final_def is_ended_def go_def Let_def split: if_splits)
qed

lemma finished_final:
  assumes "batch_inv members ds s" "finished s = length members" "i < length members"
  shows "is_final members ds s i"
proof -
  note inv = batch_invD[OF assms(1)]
  have "members \<noteq> []"
    using assms(3) by auto
  then have g: "\<not> preparation_failed s"
    using passed_go(2)[OF assms(1) _ assms(2)] by (simp add: go_def)
  have "finished_at (threads s ! i)"
    using counted_all[of "length members" finished_at s i] inv(1, 7) assms(2, 3) by simp
  then show ?thesis
    using inv(3)[OF assms(3)] g
    by (cases "threads s ! i") (auto simp: thread_ok_def finished_at_def is_ended_def split: if_splits)
qed

lemma atomic_inv:
  assumes inv: "batch_inv members ds s" and ds: "length ds = length members" and r: "r \<in> set (calls s)"
  defines "n \<equiv> length members" and "d1 \<equiv> \<lambda>i. fst (apply_edit (members ! i) (ds ! i))"
  shows "calls s = [r]"
    "r = [] \<Longrightarrow> i < n \<Longrightarrow> documents s ! i = fst (commit (members ! i) (d1 i)) \<and>
       snd (apply_edit (members ! i) (ds ! i)) \<and> snd (commit (members ! i) (d1 i))"
    "r \<noteq> [] \<Longrightarrow> documents s = ds \<or> (\<forall>i < n. documents s ! i = fst (rollback (members ! i) (d1 i))) \<or>
       (\<forall>i < n. documents s ! i = fst (commit (members ! i) (d1 i))) \<and> (\<exists>i < n. \<not> snd (commit (members ! i) (d1 i)))"
proof -
  note bs = batch_invD[OF inv]
  have "length (calls s) = 1"
    using bs(9) r by (cases "calls s") (auto split: if_splits)
  then show "calls s = [r]"
    using r by (auto simp: length_Suc_conv)
  have ok: "result_ok members ds s r"
    using bs(13) r by (simp add: reported_def)
  then have final: "is_final members ds s i" if "i < n" "\<not> preparation_failed s" for i
    using that finished_final[OF inv] by (auto simp: result_ok_def n_def)
  show "documents s ! i = fst (commit (members ! i) (d1 i)) \<and>
       snd (apply_edit (members ! i) (ds ! i)) \<and> snd (commit (members ! i) (d1 i))" if "r = []" "i < n"
  proof -
    have "\<not> preparation_failed s" "batch_error s = []"
      using ok that(1) by (auto simp: result_ok_def go_def)
    then show ?thesis
      using final[OF that(2)] bs(8) by (auto simp: is_final_def finalize_def d1_def Let_def)
  qed
  show "documents s = ds \<or> (\<forall>i < n. documents s ! i = fst (rollback (members ! i) (d1 i))) \<or>
       (\<forall>i < n. documents s ! i = fst (commit (members ! i) (d1 i))) \<and> (\<exists>i < n. \<not> snd (commit (members ! i) (d1 i)))"
    if "r \<noteq> []"
  proof (cases "preparation_failed s")
    case True
    then have "documents s = ds"
      using cancelled_unchanged[OF inv True] bs(2) ds by (intro nth_equalityI) simp_all
    then show ?thesis ..
  next
    case False
    then have "batch_error s = r"
      using ok by (simp add: result_ok_def)
    then have "apply_failed s \<or> (\<exists>i < n. \<not> snd (commit (members ! i) (d1 i)))"
      using bs(12) False that by (simp add: n_def d1_def)
    then show ?thesis
      using final[OF _ False] by (cases "apply_failed s") (auto simp: is_final_def finalize_def d1_def Let_def)
  qed
qed


section \<open>The batch ends\<close>

fun rank :: "nat \<Rightarrow> pc \<Rightarrow> nat" where
  "rank n (Done b) = 0"
| "rank n Wait_completion = 1"
| "rank n (Mark b) = 2"
| "rank n (Call b r) = 3"
| "rank n (Release b r) = 4"
| "rank n (Complete b) = 5"
| "rank n Wait_finished = 6"
| "rank n Count_finished = 7"
| "rank n (Fail_finalize c) = 8"
| "rank n (Finalize c) = 9"
| "rank n Read_applied = 10"
| "rank n Wait_applied = 11"
| "rank n Count_applied = 12"
| "rank n Fail_apply = 13"
| "rank n Apply = 14"
| "rank n Read_prepared = 15"
| "rank n Wait_prepared = 16"
| "rank n Count_prepared = 17"
| "rank n Fail_prepare = 18"
| "rank n Prepare = 19"
| "rank n Queued = 20"
| "rank n Unsubmitted = 21"
| "rank n Fail_submit = 6"
| "rank n (Submit k) = n - k + 7"

definition weight :: "nat \<Rightarrow> 'd batch \<Rightarrow> nat" where
  "weight n s = sum_list (map (rank n) (threads s))"

lemma weight_update:
  assumes "k < length (threads s)" "threads s' = (threads s)[k := p]" "rank n p < rank n (threads s ! k)"
  shows "weight n s' < weight n s"
proof -
  have "rank n (threads s ! k) \<le> sum_list (map (rank n) (threads s))"
    using assms(1) by (intro member_le_sum_list) auto
  then show ?thesis
    using assms sum_list_update[of k "map (rank n) (threads s)" "rank n p"] by (simp add: weight_def map_update)
qed

lemma run_step_rank:
  assumes "run_step members message i choice s = Some s'" "i < length (threads s)"
  shows "rank n (threads s' ! i) < rank n (threads s ! i)"
  using assms
  by (cases "threads s ! i"; clarsimp simp: step_defs fail_fields split: if_splits prod.splits)

lemma submit_step_weight:
  assumes inv: "batch_inv members ds s" and step: "submit_step members accepted s = Some s'"
  shows "weight (length members) s' < weight (length members) s"
  using step
proof (cases rule: submit_step_cases)
  case (Accepted i)
  have "threads s ! i = Unsubmitted" "length members < length (threads s)"
    using batch_invD(1, 4)[OF inv] Accepted by (auto simp: submitter_ok_def)
  then have "weight (length members) (goto i Queued s) < weight (length members) s"
    using Accepted(2) by (intro weight_update[where k = i and p = Queued]) (simp_all add: goto_def)
  moreover have "weight (length members) s' < weight (length members) (goto i Queued s)"
    using Accepted \<open>length members < length (threads s)\<close>
    by (intro weight_update[where k = "length members" and p = "Submit (i + 1)"]) (simp_all add: goto_def)
  ultimately show ?thesis
    by simp
next
  case Completes
  then show ?thesis
    using batch_invD(1)[OF inv]
    by (cases rule: complete_step_cases) (auto intro!: weight_update[where k = "length members"] simp: goto_def after_complete_def)
qed (use batch_invD(1)[OF inv] in \<open>auto intro!: weight_update[where k = "length members"] simp: goto_def fail_fields\<close>)

lemma step_weight:
  assumes "batch_inv members ds s" "batch_step members message s s'"
  shows "weight (length members) s' < weight (length members) s"
  using assms(2)
proof (cases rule: batch_step_cases)
  case (Member i choice)
  then have "i < length (threads s)"
    using batch_invD(1)[OF assms(1)] by simp
  then show ?thesis
    using weight_update run_step_frame(1)[OF Member(2)] run_step_rank[OF Member(2)] by metis
next
  case (Submitter accepted)
  then show ?thesis
    by (rule submit_step_weight[OF assms(1)])
qed

text \<open>The positions of a thread that cannot take a step.\<close>

definition stuck :: "'d edit_participant list \<Rightarrow> (nat \<Rightarrow> string) \<Rightarrow> 'd batch \<Rightarrow> bool" where
  "stuck members message s \<longleftrightarrow> (\<forall>s'. \<not> batch_step members message s s')"

lemma complete_step_enabled: "completing p \<Longrightarrow> \<exists>s'. complete_step members k p s = Some s'"
  by (cases p) (auto simp: complete_step_def)

lemma run_step_enabled:
  assumes "run_step members message i True s = None"
  shows "threads s ! i \<in> {Unsubmitted, Done False, Done True, Fail_submit} \<or> (\<exists>k. threads s ! i = Submit k) \<or>
    threads s ! i = Wait_applied \<and> applied s \<noteq> length members \<or>
    threads s ! i = Wait_finished \<and> finished s \<noteq> length members \<or>
    threads s ! i = Wait_completion \<and> \<not> completion_finished s"
proof (cases "threads s ! i")
  case (Done b)
  then show ?thesis
    by (cases b) simp_all
qed (use assms in \<open>auto simp: run_step_def wait_prepared_def complete_step_def Let_def split: if_splits prod.splits\<close>)

lemma stuck_member:
  assumes "batch_inv members ds s" "stuck members message s" "i < length members"
  shows "threads s ! i \<in> {Unsubmitted, Done False, Done True} \<or>
    threads s ! i = Wait_applied \<and> applied s \<noteq> length members \<or>
    threads s ! i = Wait_finished \<and> finished s \<noteq> length members \<or>
    threads s ! i = Wait_completion \<and> \<not> completion_finished s"
proof -
  have "run_step members message i True s = None"
  proof (rule ccontr)
    assume "run_step members message i True s \<noteq> None"
    then obtain s' where "run_step members message i True s = Some s'"
      by auto
    then have "batch_step members message s s'"
      using assms(3) by (intro batch_step.step[of _ _ i True]) (simp add: thread_step_def)
    then show False
      using assms(2) by (simp add: stuck_def)
  qed
  then show ?thesis
    using run_step_enabled[of members message i s] batch_invD(3)[OF assms(1, 3)] by (auto simp: thread_ok_def)
qed

lemma stuck_submitter:
  assumes "batch_inv members ds s" "stuck members message s"
  shows "threads s ! length members = Done False"
proof -
  have "submit_step members True s = None"
  proof (rule ccontr)
    assume "submit_step members True s \<noteq> None"
    then obtain s' where "submit_step members True s = Some s'"
      by auto
    then have "batch_step members message s s'"
      by (intro batch_step.step[of _ _ "length members" True]) (simp add: thread_step_def)
    then show False
      using assms(2) by (simp add: stuck_def)
  qed
  then show ?thesis
    using batch_invD(4)[OF assms(1)]
    by (cases "threads s ! length members") (auto simp: submit_step_def complete_step_def submitter_ok_def Let_def)
qed


lemma stuck_thread:
  assumes inv: "batch_inv members ds s" and "stuck members message s" "p \<in> set (threads s)"
  shows "p \<in> {Unsubmitted, Done False, Done True, Wait_applied, Wait_finished, Wait_completion}"
proof -
  obtain i where "i < length members + 1" "p = threads s ! i"
    using assms(3) batch_invD(1)[OF inv] by (metis in_set_conv_nth)
  then show ?thesis
    using stuck_member[OF inv assms(2), of i] stuck_submitter[OF inv assms(2)] by (cases "i = length members") auto
qed

lemma total_zero: "(\<And>p. p \<in> set (threads s) \<Longrightarrow> \<not> P p) \<Longrightarrow> total P s = 0"
  by (simp add: total_def filter_empty_conv)

lemma stuck_tokens:
  assumes inv: "batch_inv members ds s" and "stuck members message s"
  shows "total holds_result s = 0" "total marks s = 0" "total cancels s = 0" "completed s \<Longrightarrow> completion_finished s"
proof -
  have p: "\<not> holds_result p \<and> \<not> marks p \<and> \<not> cancels p" if "p \<in> set (threads s)" for p
    using stuck_thread[OF assms that] by (auto simp: cancels_def)
  show t: "total holds_result s = 0" "total marks s = 0" "total cancels s = 0"
    using p by (simp_all add: total_zero)
  assume "completed s"
  then have "length (calls s) = 1"
    using batch_invD(9)[OF inv] t(1) by simp
  then show "completion_finished s"
    using batch_invD(10)[OF inv] t(2) by (cases "completion_finished s") simp_all
qed

lemma stuck_done:
  assumes inv: "batch_inv members ds s" and st: "stuck members message s" and i: "i < length members"
  shows "threads s ! i \<in> {Unsubmitted, Done False, Done True}"
proof -
  note bs = batch_invD[OF inv] and tok = stuck_tokens[OF inv st]
  have n: "length members < length (threads s)"
    using bs(1) by simp
  have c: "threads s ! j \<noteq> Wait_completion" if "j < length members" for j
    using bs(3)[OF that] tok(4) stuck_member[OF inv st that] by (auto simp: thread_ok_def)
  have go_applied: "applied s = length members" if g: "go (length members) s"
  proof -
    have "applied_at (threads s ! j)" if j: "j < length members" for j
    proof -
      have "prepared_at (threads s ! j)"
        using counted_all[OF _ j n, of prepared_at] bs(5) g by (simp add: go_def)
      moreover have "threads s ! j \<noteq> Done False"
        using bs(3)[OF j] g by (auto simp: thread_ok_def is_ended_def go_def)
      ultimately show ?thesis
        using stuck_member[OF inv st j] by (auto simp: prepared_at_def applied_at_def finished_at_def)
    qed
    then show ?thesis
      using counted_least[of "length members" applied_at s] n bs(6) by simp
  qed
  have a: "threads s ! j \<noteq> Wait_applied" if j: "j < length members" for j
    using bs(3)[OF j] go_applied stuck_member[OF inv st j] by (auto simp: thread_ok_def is_applied_def)
  have go_finished: "finished s = length members" if g: "go (length members) s"
  proof -
    have "finished_at (threads s ! j)" if j: "j < length members" for j
    proof -
      have "applied_at (threads s ! j)"
        using counted_all[OF _ j n, of applied_at] bs(6) go_applied[OF g] by simp
      then show ?thesis
        using stuck_member[OF inv st j] a[OF j] by (auto simp: applied_at_def finished_at_def)
    qed
    then show ?thesis
      using counted_least[of "length members" finished_at s] n bs(7) by simp
  qed
  have "threads s ! i \<noteq> Wait_finished"
    using bs(3)[OF i] go_finished stuck_member[OF inv st i] by (auto simp: thread_ok_def is_final_def Let_def)
  then show ?thesis
    using a[OF i] c[OF i] stuck_member[OF inv st i] by auto
qed

lemma stuck_called:
  assumes inv: "batch_inv members ds s" and st: "stuck members message s" and m: "members \<noteq> []"
  shows "completed s" "length (calls s) = 1"
proof -
  note bs = batch_invD[OF inv] and tok = stuck_tokens[OF inv st]
  show "completed s"
  proof (cases "preparation_failed s")
    case True
    then show ?thesis
      using bs(11) tok(3) by simp
  next
    case False
    have 0: "0 < length members"
      using m by simp
    have "threads s ! 0 \<noteq> Unsubmitted"
      using bs(4) stuck_submitter[OF inv st] False 0 by (auto simp: submitter_ok_def)
    moreover have "threads s ! 0 \<noteq> Done False"
      using bs(3)[OF 0] False by (auto simp: thread_ok_def is_ended_def)
    ultimately have "threads s ! 0 = Done True"
      using stuck_done[OF inv st 0] by simp
    then show ?thesis
      using bs(3)[OF 0] by (simp add: thread_ok_def)
  qed
  then show "length (calls s) = 1"
    using bs(9) tok(1) by simp
qed

section \<open>Reservations\<close>

definition reserved_inv :: "int set \<Rightarrow> int set \<Rightarrow> 'd batch \<Rightarrow> bool" where
  "reserved_inv R A s \<longleftrightarrow> reservations s = (if completed s \<and> total releases s = 0 then R - A else R)"

lemma releases_holds: "total releases s \<le> total holds_result s"
proof -
  have "releases p \<Longrightarrow> holds_result p" for p
    by (cases p) simp_all
  then have "filter releases (filter holds_result ps) = filter releases ps" for ps
    by (simp add: filter_filter) (metis (mono_tags, lifting))
  then show ?thesis
    unfolding total_def by (metis length_filter_le)
qed


lemma complete_step_reserved:
  assumes inv: "results_inv members ds s" and r: "reserved_inv R (set (map actor members)) s" and k: "k < length (threads s)"
    and step: "complete_step members k (threads s ! k) s = Some s'"
  shows "reserved_inv R (set (map actor members)) s'"
proof -
  have t: "threads s' = (threads s)[k := threads s' ! k]"
    using step k by (auto elim!: complete_step_cases simp: goto_def)
  note total = total_update[OF t k, of releases]
  show ?thesis
    using step
  proof (cases rule: complete_step_cases)
    case (Releases b x)
    have "0 < total releases s" "0 < total holds_result s"
      using nth_mem[OF k] Releases by (auto intro!: total_pos[of "threads s ! k"])
    then have "total releases s = 1" "completed s"
      using releases_holds[of s] inv by (auto simp: results_inv_def split: if_splits)
    then show ?thesis
      using Releases total r k by (simp add: reserved_inv_def goto_def)
  qed (use total r k in \<open>simp_all add: reserved_inv_def goto_def after_complete_simps\<close>)
qed

lemma move_reserved:
  assumes "reserved_inv R A s" "k < length (threads s)" "threads s' = (threads s)[k := p]" "completed s' = completed s"
    "reservations s' = reservations s" "\<not> releases p" "\<not> releases (threads s ! k)"
  shows "reserved_inv R A s'"
  using assms(1, 4-7) total_update[OF assms(3, 2), of releases] by (simp add: reserved_inv_def)

lemma step_reserved:
  assumes inv: "batch_inv members ds s" and r: "reserved_inv R (set (map actor members)) s"
    and step: "batch_step members message s s'"
  shows "reserved_inv R (set (map actor members)) s'"
  using step
proof (cases rule: batch_step_cases)
  case (Member i choice)
  then have k: "i < length (threads s)"
    using batch_invD(1)[OF inv] by simp
  show ?thesis
  proof (cases "completing (threads s ! i)")
    case True
    then show ?thesis
      using complete_step_reserved[OF batch_results[OF inv] r k] Member(2) run_step_completing[OF True, of members message choice]
      by simp
  next
    case False
    then show ?thesis
      using move_reserved[OF r k run_step_frame(1)[OF Member(2) k]] run_step_other[OF Member(2) k False]
        not_completing[OF False] by simp
  qed
next
  case (Submitter accepted)
  have k: "length members < length (threads s)"
    using batch_invD(1)[OF inv] by simp
  show ?thesis
    using Submitter
  proof (cases rule: submit_step_cases)
    case (Accepted i)
    then have "threads s ! i = Unsubmitted"
      using batch_invD(4)[OF inv] by (auto simp: submitter_ok_def)
    then have "reserved_inv R (set (map actor members)) (goto i Queued s)"
      using Accepted(2) k by (intro move_reserved[OF r, where k = i and p = Queued]) (simp_all add: goto_def)
    then show ?thesis
      by (rule move_reserved[where k = "length members" and p = "Submit (i + 1)"])
        (use Accepted k in \<open>simp_all add: goto_def\<close>)
  next
    case Completes
    then show ?thesis
      by (rule complete_step_reserved[OF batch_results[OF inv] r k])
  next
    case (Rejected i)
    then show ?thesis
      by (intro move_reserved[OF r k, where p = Fail_submit]) (simp_all add: goto_def)
  next
    case (Admitted i)
    then show ?thesis
      by (intro move_reserved[OF r k, where p = "Done False"]) (simp_all add: goto_def)
  next
    case (Fails m)
    then show ?thesis
      by (intro move_reserved[OF r k, where p = "Complete False"]) (simp_all add: goto_def fail_fields)
  qed
qed

section \<open>Reachable states\<close>

lemma submit_accepted:
  assumes "submit_edit_batch members ds owned = Inr s"
  shows "s = start_batch members ds owned" "members \<noteq> []" "owned \<inter> set (map actor members) = {}"
  using assms by (auto simp: submit_edit_batch_def list_ex_iff split: if_splits)

lemma reached_inv:
  assumes "submit_edit_batch members ds owned = Inr s0" "length ds = length members" "\<forall>i. message i \<noteq> []"
    "(batch_step members message ^^ k) s0 s"
  shows "batch_inv members ds s" "reserved_inv (owned \<union> set (map actor members)) (set (map actor members)) s"
    "k + weight (length members) s \<le> 22 * length members + 7"
proof -
  note start = submit_accepted[OF assms(1)]
  let ?A = "set (map actor members)"
  have "batch_inv members ds s \<and> reserved_inv (owned \<union> ?A) ?A s \<and> k + weight (length members) s \<le> weight (length members) s0"
    using assms(4)
  proof (induction k arbitrary: s)
    case 0
    have "reserved_inv (owned \<union> ?A) ?A s0"
      unfolding start(1) by (simp add: reserved_inv_def start_batch_def)
    then show ?case
      using 0 start_inv[OF assms(2), of owned] start(1) by simp
  next
    case (Suc k)
    then obtain s1 where 1: "(batch_step members message ^^ k) s0 s1" and step: "batch_step members message s1 s"
      by (auto elim: relpowp_Suc_E)
    note ih = Suc.IH[OF 1]
    then show ?case
      using step_inv[OF _ start(2) assms(3) step] step_reserved[OF _ _ step] step_weight[OF _ step] by fastforce
  qed
  moreover have "weight (length members) s0 = 22 * length members + 7"
    unfolding start(1) by (simp add: weight_def start_batch_def sum_list_replicate)
  ultimately show "batch_inv members ds s" "reserved_inv (owned \<union> ?A) ?A s"
    "k + weight (length members) s \<le> 22 * length members + 7"
    by simp_all
qed

text \<open>A schedule, for evaluation: which thread takes the next step, with the choice of the environment.\<close>

primrec run_schedule :: "'d edit_participant list \<Rightarrow> (nat \<Rightarrow> string) \<Rightarrow> (nat \<times> bool) list \<Rightarrow> 'd batch \<Rightarrow> 'd batch option" where
  "run_schedule members message [] s = Some s"
| "run_schedule members message (x # xs) s =
     (case thread_step members message (fst x) (snd x) s of
        None \<Rightarrow> None
      | Some s' \<Rightarrow> run_schedule members message xs s')"

lemma run_schedule_steps:
  "run_schedule members message xs s = Some s' \<Longrightarrow> (batch_step members message ^^ length xs) s s'"
proof (induction xs arbitrary: s)
  case (Cons x xs)
  then obtain s1 where "thread_step members message (fst x) (snd x) s = Some s1"
    "run_schedule members message xs s1 = Some s'"
    by (auto split: option.splits)
  then show ?case
    using relpowp_Suc_I2[OF batch_step.step Cons.IH] by simp
qed simp

definition sample_members :: "nat edit_participant list" where
  "sample_members =
     [\<lparr>actor = 1, view = 1, prepare = (\<lambda>_. True), apply_edit = (\<lambda>d. (d + 1, True)), rollback = (\<lambda>d. (d - 1, True)),
       commit = (\<lambda>d. (d, True))\<rparr>,
      \<lparr>actor = 2, view = 1, prepare = (\<lambda>_. True), apply_edit = (\<lambda>d. (d + 10, False)), rollback = (\<lambda>d. (d - 10, True)),
       commit = (\<lambda>d. (d, True))\<rparr>]"

definition sample_schedule :: "(nat \<times> bool) list" where
  "sample_schedule =
     map (\<lambda>i. (i, True)) [2, 2, 2, 0, 0, 0, 1, 1, 1, 0, 0, 0, 1, 1, 1, 1, 1, 0, 0, 1, 0, 1, 0, 0, 1, 1, 0, 1, 0, 1,
       0, 0, 0, 0, 1]"

lemma sample_run:
  "map_option (\<lambda>s. (documents s, calls s, threads s))
     (case submit_edit_batch sample_members [5, 7] {} of
        Inl r \<Rightarrow> None
      | Inr s \<Rightarrow> run_schedule sample_members (\<lambda>i. ''no'') sample_schedule s) =
   Some ([5, 7], [''no''], [Done True, Done True, Done False])"
  by code_simp


lemma sample_reached:
  obtains s0 s where "submit_edit_batch sample_members [5, 7] {} = Inr s0"
    "run_schedule sample_members (\<lambda>i. ''no'') sample_schedule s0 = Some s" "documents s = [5, 7]" "calls s = [''no'']"
    "threads s = [Done True, Done True, Done False]"
  using sample_run by (auto split: option.splits sum.splits)

lemma done_stuck: "set (threads s) \<subseteq> range Done \<Longrightarrow> length (threads s) = length members + 1 \<Longrightarrow> stuck members message s"
proof -
  assume a: "set (threads s) \<subseteq> range Done" "length (threads s) = length members + 1"
  have none: "thread_step members message i choice s = None" for i choice
  proof (cases "i \<le> length members")
    case True
    then have "threads s ! i \<in> range Done"
      using a nth_mem[of i "threads s"] by auto
    then obtain b where "threads s ! i = Done b"
      by auto
    then show ?thesis
      using True
      by (cases "i = length members") (simp_all add: thread_step_def run_step_def submit_step_def complete_step_def Let_def)
  next
    case False
    then show ?thesis
      by (simp add: thread_step_def)
  qed
  show ?thesis
    unfolding stuck_def
  proof (intro allI notI)
    fix s'
    assume "batch_step members message s s'"
    then show False
      using none by (auto elim!: batch_step.cases)
  qed
qed

text \<open>The positions at which the document of a member is being changed.\<close>

definition editing :: "pc \<Rightarrow> bool" where
  "editing p \<longleftrightarrow> p \<in> {Apply, Fail_apply, Count_applied, Wait_applied, Read_applied, Count_finished} \<or>
     p \<in> {Finalize False, Finalize True, Fail_finalize False, Fail_finalize True}"

lemma editing_reserved:
  assumes inv: "batch_inv members ds s" and r: "reserved_inv (owned \<union> set (map actor members)) (set (map actor members)) s"
    and i: "i < length members" and e: "editing (threads s ! i)"
  shows "set (map actor members) \<subseteq> reservations s"
proof -
  note bs = batch_invD[OF inv]
  have g: "\<not> preparation_failed s"
    using bs(3)[OF i] e by (auto simp: thread_ok_def editing_def is_applied_def is_final_def go_def Let_def)
  have "\<not> finished_at (threads s ! i)"
    using e by (auto simp: editing_def finished_at_def)
  then have f: "finished s \<noteq> length members"
    using counted_all[of "length members" finished_at s i] bs(1, 7) i by auto
  have "\<not> completed s"
  proof
    assume "completed s"
    then have "calls s \<noteq> [] \<or> 0 < total holds_result s"
      using bs(9) by auto
    moreover have "\<exists>x. x \<in> results_of p" if "holds_result p" for p
      using that by (cases p) simp_all
    ultimately have "reported s \<noteq> {}"
      using total_zero[of s holds_result] by (fastforce simp: reported_def)
    then obtain x where "x \<in> reported s"
      by auto
    then show False
      using bs(13) g f by (auto simp: result_ok_def)
  qed
  then show ?thesis
    using r by (simp add: reserved_inv_def)
qed

text \<open>
  The messages must not be empty: when \<open>prepare\<close> throws an exception without a message, the batch
  is cancelled and completion is told that it succeeded.
\<close>

lemma empty_message_reports_success:
  "map_option (\<lambda>s. (documents s, calls s))
     (case submit_edit_batch (map (\<lambda>m. m\<lparr>prepare := (\<lambda>_. False)\<rparr>) (take 1 sample_members)) [5] {} of
        Inl r \<Rightarrow> None
      | Inr s \<Rightarrow> run_schedule (map (\<lambda>m. m\<lparr>prepare := (\<lambda>_. False)\<rparr>) (take 1 sample_members)) (\<lambda>i. [])
          (map (\<lambda>i. (i, True)) [1, 1, 0, 0, 0, 0, 0, 0, 0, 0, 0, 0]) s) =
   Some ([5], [[]])"
  by code_simp

section \<open>Properties\<close>

text \<open>Claim C12. Safety of the compound edit: in whatever order the threads of an accepted batch
  run, when completion has been called it has been called once, and all participants agree, provided that
  every exception carries a message that is not empty. An
  empty error means that every participant applied and committed its edit; an error means that
  no document was changed, or that every document was rolled back, or that every document was
  committed and a commit broke its contract by throwing. An exception without a message is taken for
  success, see \<open>empty_message_reports_success\<close>.\<close>

theorem compound_edit_atomic:
  assumes "submit_edit_batch members ds owned = Inr s0" "length ds = length members" "\<forall>i. message i \<noteq> []"
    "(batch_step members message ^^ k) s0 s" "r \<in> set (calls s)"
  shows "calls s = [r] \<and>
    (r = [] \<longrightarrow>
       (\<forall>i < length members. snd (apply_edit (members ! i) (ds ! i)) \<and>
          commit (members ! i) (fst (apply_edit (members ! i) (ds ! i))) = (documents s ! i, True))) \<and>
    (r \<noteq> [] \<longrightarrow>
       documents s = ds \<or>
       (\<forall>i < length members. documents s ! i = fst (rollback (members ! i) (fst (apply_edit (members ! i) (ds ! i))))) \<or>
       (\<forall>i < length members. documents s ! i = fst (commit (members ! i) (fst (apply_edit (members ! i) (ds ! i))))) \<and>
       (\<exists>i < length members. \<not> snd (commit (members ! i) (fst (apply_edit (members ! i) (ds ! i))))))"
  using atomic_inv[OF reached_inv(1)[OF assms(1-4)] assms(2, 5)] by (auto simp: prod_eq_iff)

theorem compound_edit_atomic_witness:
  "\<exists>s0 s. submit_edit_batch sample_members [5, 7] {} = Inr s0 \<and>
     run_schedule sample_members (\<lambda>i. ''no'') sample_schedule s0 = Some s \<and>
     calls s = [''no''] \<and> documents s = [5, 7]"
proof -
  obtain s0 s where s0: "submit_edit_batch sample_members [5, 7] {} = Inr s0"
    and s: "run_schedule sample_members (\<lambda>i. ''no'') sample_schedule s0 = Some s"
    and r: "documents s = [5, 7]" "calls s = [''no'']"
    by (rule sample_reached)
  have "calls s = [''no'']"
    using compound_edit_atomic[OF s0 _ _ run_schedule_steps[OF s], of "''no''"] r(2) by (simp add: sample_members_def)
  then show ?thesis
    using s0 s r(1) by blast
qed

text \<open>Claim C13. The batch ends: however the threads are scheduled and whatever the environment
  chooses, as long as every exception carries a message that is not empty, an accepted batch of \<open>n\<close> participants takes at most \<open>22 * n + 7\<close> steps, and when no
  step is possible every continuation that was queued has returned, completion has been
  called exactly once and the actors are released.\<close>

theorem batch_ends:
  assumes "submit_edit_batch members ds owned = Inr s0" "length ds = length members" "\<forall>i. message i \<noteq> []"
    "(batch_step members message ^^ k) s0 s"
  shows "k \<le> 22 * length members + 7 \<and>
    ((\<forall>s'. \<not> batch_step members message s s') \<longrightarrow>
       length (calls s) = 1 \<and> set (threads s) \<subseteq> {Unsubmitted, Done False, Done True} \<and> reservations s = owned)"
proof -
  note inv = reached_inv[OF assms] and start = submit_accepted[OF assms(1)]
  have "length (calls s) = 1 \<and> set (threads s) \<subseteq> {Unsubmitted, Done False, Done True} \<and> reservations s = owned"
    if st: "stuck members message s"
  proof (intro conjI)
    show "length (calls s) = 1"
      by (rule stuck_called(2)[OF inv(1) st start(2)])
    show "set (threads s) \<subseteq> {Unsubmitted, Done False, Done True}"
    proof
      fix p
      assume "p \<in> set (threads s)"
      then obtain i where "i < length members + 1" "p = threads s ! i"
        using batch_invD(1)[OF inv(1)] by (metis in_set_conv_nth)
      then show "p \<in> {Unsubmitted, Done False, Done True}"
        using stuck_done[OF inv(1) st, of i] stuck_submitter[OF inv(1) st] by (cases "i = length members") auto
    qed
    have "total releases s = 0"
      using releases_holds[of s] stuck_tokens(1)[OF inv(1) st] by simp
    then show "reservations s = owned"
      using inv(2) start(3) stuck_called(1)[OF inv(1) st start(2)] by (auto simp: reserved_inv_def)
  qed
  then show ?thesis
    using inv(3) by (simp add: stuck_def)
qed

theorem batch_ends_witness:
  "\<exists>s0 s. submit_edit_batch sample_members [5, 7] {} = Inr s0 \<and>
     run_schedule sample_members (\<lambda>i. ''no'') sample_schedule s0 = Some s \<and>
     length sample_schedule \<le> 22 * length sample_members + 7 \<and> length (calls s) = 1 \<and> reservations s = {}"
proof -
  obtain s0 s where s0: "submit_edit_batch sample_members [5, 7] {} = Inr s0"
    and s: "run_schedule sample_members (\<lambda>i. ''no'') sample_schedule s0 = Some s"
    and t: "threads s = [Done True, Done True, Done False]"
    by (rule sample_reached)
  have "stuck sample_members (\<lambda>i. ''no'') s"
    using t by (intro done_stuck) (auto simp: sample_members_def)
  then have "length sample_schedule \<le> 22 * length sample_members + 7 \<and> length (calls s) = 1 \<and> reservations s = {}"
    using batch_ends[OF s0 _ _ run_schedule_steps[OF s]] by (simp add: sample_members_def stuck_def)
  then show ?thesis
    using s0 s by blast
qed

text \<open>While a thread is applying, committing or rolling back its edit, all actors of
  the batch are reserved, and a further batch that has one of them is refused.\<close>

theorem documents_reserved:
  assumes "submit_edit_batch members ds owned = Inr s0" "length ds = length members" "\<forall>i. message i \<noteq> []"
    "(batch_step members message ^^ k) s0 s"
    "i < length members" "editing (threads s ! i)"
    "m \<in> set members" "m' \<in> set members'" "actor m' = actor m"
  shows "set (map actor members) \<subseteq> reservations s \<and>
    (\<exists>e. submit_edit_batch members' ds' (reservations s) = Inl e)"
proof -
  have r: "set (map actor members) \<subseteq> reservations s"
    using editing_reserved[OF reached_inv(1, 2)[OF assms(1-4)] assms(5, 6)] .
  then have "actor m' \<in> reservations s"
    using assms(7, 9) by auto
  then have "list_ex (\<lambda>m. actor m \<in> reservations s) members'"
    using assms(8) by (auto simp: list_ex_iff)
  then show ?thesis
    using r by (simp add: submit_edit_batch_def)
qed

lemma sample_editing:
  "map_option (\<lambda>s. threads s ! 0)
     (case submit_edit_batch sample_members [5, 7] {} of
        Inl r \<Rightarrow> None
      | Inr s \<Rightarrow> run_schedule sample_members (\<lambda>i. ''no'') (take 12 sample_schedule) s) =
   Some Count_applied"
  by code_simp

theorem documents_reserved_witness:
  "\<exists>s0 s e. submit_edit_batch sample_members [5, 7] {} = Inr s0 \<and>
     run_schedule sample_members (\<lambda>i. ''no'') (take 12 sample_schedule) s0 = Some s \<and>
     submit_edit_batch sample_members [5, 7] (reservations s) = Inl e"
proof -
  obtain s0 s where s0: "submit_edit_batch sample_members [5, 7] {} = Inr s0"
    and s: "run_schedule sample_members (\<lambda>i. ''no'') (take 12 sample_schedule) s0 = Some s"
    and t: "threads s ! 0 = Count_applied"
    using sample_editing by (auto split: option.splits sum.splits)
  have m: "sample_members ! 0 \<in> set sample_members"
    by (simp add: sample_members_def)
  obtain e where "submit_edit_batch sample_members [5, 7] (reservations s) = Inl e"
    using documents_reserved[OF s0 _ _ run_schedule_steps[OF s], of 0 "sample_members ! 0" "sample_members ! 0" sample_members]
      t m by (auto simp: sample_members_def editing_def)
  then show ?thesis
    using s0 s by blast
qed

end
