(* ===== verification/Athena_Revisions.thy ===== *)
theory Athena_Revisions
  imports Athena_Prelude "HOL-Library.AList" "HOL-Library.Char_ord" "HOL-Library.List_Lexorder"
begin

text \<open>
  The journal of revisions of a synchronized vault, \<open>src/src/Sync/Hodarium/revisions.cpp\<close> and
  \<open>revisions.hpp\<close>. A revision of an object (a document, a resource) names the revisions it was
  made from, so that the revisions of an object form a graph, which devices exchange. A store
  keeps the revisions it has received, which of them may be used (\<open>eligible\<close>: a revision
  that merges branches needs an approval), the one that has been applied to the files, and the
  applications that have been started and not finished.

  The tables of the database are the fields of a record; a table is the list of its rows in the order of
  their \<open>rowid\<close>, and a \<open>SELECT\<close> is an expression over them. An operation that throws has
  the value \<open>Inl\<close>, and its transaction leaves the store as it was; errors of SQLite itself are not modelled.
  Descriptors are kept as JSON text in the source and as records here. Parameters: \<open>digest\<close>, the
  hash of the descriptor and payload of a revision; \<open>raw\<close>, the hash of a payload; the size of a
  descriptor; the verification of a decision of the authority and the derivation of its tokens.
\<close>

section \<open>Revisions\<close>

record revision =
  rid :: string
  vault :: string
  object :: string
  origin_member :: string
  format :: string
  semantic_version :: nat
  relative_path :: string
  deleted :: bool
  parents :: "string list"
  payload :: string

datatype store_error = Invalid_descriptor | Tombstone_with_content | Invalid_parent | Identity_mismatch
  | Missing_parent | Foreign_parent | Supplied_identity | Invalid_fingerprint | Unfinished_application
  | Needs_decision | Unknown_revision | Invalid_incoming | Descriptor_budget | Incoming_conflict
  | Staging_budget | Invalid_chunk | Unknown_incoming | Chunk_offset | Incomplete | Hash_mismatch
  | Invalid_limit | Resolution_scope | Unverified_decision | Unrelated_objects | Not_advancing | Rebound_operation
  | Base_changed | Source_path | Invalid_intent | Already_completed | Unknown_operation | Target_exists
  | Fingerprint_missing | Fingerprint_mismatch | Recovery_request | Corrupt_baseline | Invalid_id
  | Unsupported_version

definition digest_id :: "string \<Rightarrow> bool" where
  "digest_id x \<longleftrightarrow> length x = 64 \<and>
     list_all (\<lambda>c. CHR ''0'' \<le> c \<and> c \<le> CHR ''9'' \<or> CHR ''a'' \<le> c \<and> c \<le> CHR ''f'') x"

definition validate_revision :: "revision \<Rightarrow> store_error option" where
  "validate_revision r =
     (if vault r = [] \<or> object r = [] \<or> origin_member r = [] \<or> format r = [] \<or> semantic_version r = 0 \<or>
         length (parents r) > 256 then Some Invalid_descriptor
      else if deleted r \<and> payload r \<noteq> [] then Some Tombstone_with_content
      else if list_all digest_id (parents r) then None
      else Some Invalid_parent)"

definition identity :: "(revision \<Rightarrow> string) \<Rightarrow> revision \<Rightarrow> string" where
  "identity digest r = digest (r\<lparr>rid := []\<rparr>)"

definition seal_revision :: "(revision \<Rightarrow> string) \<Rightarrow> revision \<Rightarrow> store_error + revision" where
  "seal_revision digest value =
     (let r = value\<lparr>parents := remdups_adj (sort (parents value))\<rparr>
      in case validate_revision r of
           Some e \<Rightarrow> Inl e
         | None \<Rightarrow> Inr (r\<lparr>rid := identity digest r\<rparr>))"

section \<open>The store\<close>

record apply_intent =
  operation :: string
  revision_id :: string
  expected_revision :: "string option"
  source_path :: string
  source_fingerprint :: "string option"
  protected_history_version :: int
  completed :: bool

text \<open>An incoming revision: its metadata, the bytes of its payload, and how many have been received.\<close>

record incoming_row =
  metadata :: revision
  buffer :: string
  received :: nat

record revision_store =
  revisions :: "revision list"
  edges :: "(string \<times> string) list"
  fingerprints :: "(string \<times> string) list"
  applied_rows :: "((string \<times> string) \<times> string) list"
  incoming :: "incoming_row list"
  intents :: "((string \<times> string) \<times> apply_intent) list"
  approvals :: "(string \<times> string) list"
  eligibles :: "string list"

definition new_store :: revision_store where
  "new_store = \<lparr>revisions = [], edges = [], fingerprints = [], applied_rows = [], incoming = [], intents = [],
     approvals = [], eligibles = []\<rparr>"

definition find_revision :: "revision_store \<Rightarrow> string \<Rightarrow> revision option" where
  "find_revision s x = find (\<lambda>r. rid r = x) (revisions s)"

text \<open>\<open>offer\<close>: the metadata of a revision and the size of its payload.\<close>

definition offer :: "revision_store \<Rightarrow> string \<Rightarrow> (revision \<times> nat) option" where
  "offer s x = map_option (\<lambda>r. (r\<lparr>payload := []\<rparr>, length (payload r))) (find_revision s x)"

definition get_revision :: "revision_store \<Rightarrow> string \<Rightarrow> revision option" where
  "get_revision s x = find_revision s x"

definition has_revision :: "revision_store \<Rightarrow> string \<Rightarrow> string \<Rightarrow> store_error + bool" where
  "has_revision s v x =
     (if digest_id x then Inr (list_ex (\<lambda>r. vault r = v \<and> rid r = x) (revisions s)) else Inl Invalid_id)"

definition eligible :: "revision_store \<Rightarrow> string \<Rightarrow> bool" where
  "eligible s x \<longleftrightarrow> x \<in> set (eligibles s)"

definition applied_revision :: "revision_store \<Rightarrow> string \<Rightarrow> string \<Rightarrow> string option" where
  "applied_revision s v obj = map_of (applied_rows s) (v, obj)"

definition set_applied :: "string \<Rightarrow> string \<Rightarrow> string \<Rightarrow> revision_store \<Rightarrow> revision_store" where
  "set_applied v obj x s = s\<lparr>applied_rows := AList.update (v, obj) x (applied_rows s)\<rparr>"

definition pending_intent :: "revision_store \<Rightarrow> string \<Rightarrow> string \<Rightarrow> bool" where
  "pending_intent s v obj \<longleftrightarrow> list_ex (\<lambda>(key, i). key = (v, obj) \<and> \<not> completed i) (intents s)"

section \<open>Inserting revisions\<close>

primrec validate_parents :: "revision_store \<Rightarrow> revision \<Rightarrow> string list \<Rightarrow> store_error option" where
  "validate_parents s r [] = None"
| "validate_parents s r (p # ps) =
     (case find_revision s p of
        None \<Rightarrow> Some Missing_parent
      | Some q \<Rightarrow> if vault q \<noteq> vault r \<or> object q \<noteq> object r then Some Foreign_parent else validate_parents s r ps)"

definition insert_revision :: "revision \<Rightarrow> revision_store \<Rightarrow> revision_store" where
  "insert_revision r s = s\<lparr>revisions := revisions s @ [r]\<rparr>"

definition insert_parents :: "revision \<Rightarrow> revision_store \<Rightarrow> revision_store" where
  "insert_parents r s = s\<lparr>edges := edges s @ map (Pair (rid r)) (parents r)\<rparr>"

definition cache_fingerprint :: "string \<Rightarrow> string \<Rightarrow> revision_store \<Rightarrow> revision_store" where
  "cache_fingerprint x h s =
     (if map_of (fingerprints s) x = None then s\<lparr>fingerprints := fingerprints s @ [(x, h)]\<rparr> else s)"

definition parents_eligible :: "revision_store \<Rightarrow> string \<Rightarrow> bool" where
  "parents_eligible s x \<longleftrightarrow> list_all (\<lambda>(c, p). c = x \<longrightarrow> eligible s p) (edges s)"

definition admit_revision :: "string \<Rightarrow> revision_store \<Rightarrow> revision_store" where
  "admit_revision x s =
     (if find_revision s x \<noteq> None \<and>
         (length (filter (\<lambda>(c, p). c = x) (edges s)) < 2 \<or> map_of (approvals s) x \<noteq> None) \<and>
         parents_eligible s x \<and> \<not> eligible s x
      then s\<lparr>eligibles := eligibles s @ [x]\<rparr> else s)"

text \<open>
  Opening a database: one that was written before there was a table of eligible revisions gets it filled in the
  order of receipt.
\<close>

definition open_store :: "nat \<Rightarrow> revision_store \<Rightarrow> store_error + revision_store" where
  "open_store version s =
     (if version > 5 then Inl Unsupported_version
      else Inr (if version < 5 then fold admit_revision (map rid (revisions s)) s else s))"

definition payload_fingerprint ::
    "(string \<Rightarrow> string) \<Rightarrow> string \<Rightarrow> revision_store \<Rightarrow> store_error + string \<times> revision_store" where
  "payload_fingerprint raw x s =
     (case map_of (fingerprints s) x of
        Some h \<Rightarrow> Inr (h, s)
      | None \<Rightarrow>
          (case find_revision s x of
             None \<Rightarrow> Inl Unknown_revision
           | Some r \<Rightarrow> Inr (raw (payload r), cache_fingerprint x (raw (payload r)) s)))"

definition receive_revision ::
    "(revision \<Rightarrow> string) \<Rightarrow> (string \<Rightarrow> string) \<Rightarrow> revision \<Rightarrow> revision_store \<Rightarrow> store_error + bool \<times> revision_store" where
  "receive_revision digest raw r s =
     (case seal_revision digest r of
        Inl e \<Rightarrow> Inl e
      | Inr sealed \<Rightarrow>
          if rid r \<noteq> rid sealed \<or> parents r \<noteq> parents sealed then Inl Identity_mismatch
          else if find_revision s (rid r) \<noteq> None then Inr (False, s)
          else (case validate_parents s r (parents r) of
                  Some e \<Rightarrow> Inl e
                | None \<Rightarrow>
                    Inr (True, cache_fingerprint (rid r) (raw (payload r))
                      (admit_revision (rid r) (insert_parents r (insert_revision r s))))))"

section \<open>Capturing local saves\<close>

definition capture_insert ::
    "(revision \<Rightarrow> string) \<Rightarrow> (string \<Rightarrow> string) \<Rightarrow> revision \<Rightarrow> revision_store \<Rightarrow> string option \<times> revision_store" where
  "capture_insert digest raw value s =
     (let x = identity digest value; r = value\<lparr>rid := x\<rparr>;
          s1 = (if list_ex (\<lambda>q. vault q = vault r \<and> rid q = x) (revisions s) then s
                else cache_fingerprint x (raw (payload r)) (admit_revision x (insert_parents r (insert_revision r s))))
      in (Some x, set_applied (vault r) (object r) x s1))"

definition capture_saved ::
    "(revision \<Rightarrow> string) \<Rightarrow> (string \<Rightarrow> string) \<Rightarrow> revision \<Rightarrow> string option \<Rightarrow> string option \<Rightarrow> revision_store \<Rightarrow>
     store_error + string option \<times> revision_store" where
  "capture_saved digest raw snapshot expected predecessor s =
     (if rid snapshot \<noteq> [] \<or> parents snapshot \<noteq> [] then Inl Supplied_identity
      else case validate_revision snapshot of
        Some e \<Rightarrow> Inl e
      | None \<Rightarrow>
          if predecessor \<noteq> None \<and> \<not> digest_id (the predecessor) then Inl Invalid_fingerprint
          else if applied_revision s (vault snapshot) (object snapshot) \<noteq> expected then Inr (None, s)
          else if pending_intent s (vault snapshot) (object snapshot) then Inl Unfinished_application
          else (case expected of
              None \<Rightarrow> Inr (capture_insert digest raw snapshot s)
            | Some x \<Rightarrow>
                if \<not> eligible s x then Inl Needs_decision
                else (case find_revision s x of
                    None \<Rightarrow> Inl Unknown_revision
                  | Some prior \<Rightarrow>
                      if identity digest (snapshot\<lparr>origin_member := origin_member prior, parents := parents prior\<rparr>) = x
                      then Inr (Some x, s)
                      else (case predecessor of
                          None \<Rightarrow> Inr (capture_insert digest raw (snapshot\<lparr>parents := [x]\<rparr>) s)
                        | Some h \<Rightarrow>
                            if deleted prior then Inr (None, s)
                            else (case payload_fingerprint raw x s of
                                Inl e \<Rightarrow> Inl e
                              | Inr (h', s1) \<Rightarrow>
                                  if h' \<noteq> h then Inr (None, s1)
                                  else Inr (capture_insert digest raw (snapshot\<lparr>parents := [x]\<rparr>) s1))))))"

section \<open>Receiving in pieces\<close>

definition find_incoming :: "revision_store \<Rightarrow> string \<Rightarrow> incoming_row option" where
  "find_incoming s x = find (\<lambda>i. rid (metadata i) = x) (incoming s)"

definition discard_receive :: "string \<Rightarrow> revision_store \<Rightarrow> revision_store" where
  "discard_receive x s = s\<lparr>incoming := filter (\<lambda>i. rid (metadata i) \<noteq> x) (incoming s)\<rparr>"

definition begin_receive ::
    "(revision \<Rightarrow> nat) \<Rightarrow> revision \<Rightarrow> nat \<Rightarrow> revision_store \<Rightarrow> store_error + nat \<times> revision_store" where
  "begin_receive encoded r full s =
     (case validate_revision r of
        Some e \<Rightarrow> Inl e
      | None \<Rightarrow>
          if payload r \<noteq> [] \<or> \<not> digest_id (rid r) \<or> \<not> sorted (parents r) \<or> \<not> distinct_adj (parents r) \<or>
             (deleted r \<and> full \<noteq> 0) \<or> full > 512 * 1024 * 1024 then Inl Invalid_incoming
          else if encoded r > 64 * 1024 then Inl Descriptor_budget
          else (case find_revision s (rid r) of
              Some q \<Rightarrow>
                if q\<lparr>payload := []\<rparr> \<noteq> r \<or> length (payload q) \<noteq> full then Inl Incoming_conflict
                else Inr (full, discard_receive (rid r) s)
            | None \<Rightarrow>
                (case find_incoming s (rid r) of
                   Some i \<Rightarrow>
                     if metadata i \<noteq> r \<or> length (buffer i) \<noteq> full then Inl Incoming_conflict
                     else Inr (received i, s)
                 | None \<Rightarrow>
                     if length (incoming s) \<ge> 32 \<or>
                        sum_list (map (\<lambda>i. length (buffer i)) (incoming s)) + full > 2 * 1024 * 1024 * 1024
                     then Inl Staging_budget
                     else Inr (0, s\<lparr>incoming := incoming s @
                       [\<lparr>metadata = r, buffer = replicate full (CHR 0x00), received = 0\<rparr>]\<rparr>))))"

definition write_chunk :: "string \<Rightarrow> nat \<Rightarrow> string \<Rightarrow> incoming_row \<Rightarrow> incoming_row" where
  "write_chunk x offset bytes i =
     (if rid (metadata i) = x
      then i\<lparr>buffer := take offset (buffer i) @ bytes @ drop (offset + length bytes) (buffer i),
             received := offset + length bytes\<rparr>
      else i)"

definition receive_chunk :: "string \<Rightarrow> nat \<Rightarrow> string \<Rightarrow> revision_store \<Rightarrow> store_error + nat \<times> revision_store" where
  "receive_chunk x offset bytes s =
     (if bytes = [] \<or> length bytes > 256 * 1024 then Inl Invalid_chunk
      else case find_incoming s x of
        None \<Rightarrow> Inl Unknown_incoming
      | Some i \<Rightarrow>
          let full = length (buffer i) in
          if offset \<noteq> received i \<or> offset > full \<or> length bytes > full - offset then Inl Chunk_offset
          else Inr (offset + length bytes, s\<lparr>incoming := map (write_chunk x offset bytes) (incoming s)\<rparr>))"

definition finish_receive ::
    "(revision \<Rightarrow> string) \<Rightarrow> (string \<Rightarrow> string) \<Rightarrow> string \<Rightarrow> revision_store \<Rightarrow> store_error + bool \<times> revision_store" where
  "finish_receive digest raw x s =
     (if find_revision s x \<noteq> None then Inr (False, discard_receive x s)
      else case find_incoming s x of
        None \<Rightarrow> Inl Unknown_incoming
      | Some i \<Rightarrow>
          if length (buffer i) \<noteq> received i then Inl Incomplete
          else let r = (metadata i)\<lparr>payload := buffer i\<rparr> in
            (case validate_parents s r (parents r) of
               Some e \<Rightarrow> Inl e
             | None \<Rightarrow>
                 if identity digest r \<noteq> x then Inl Hash_mismatch
                 else Inr (True, discard_receive x (admit_revision x (insert_parents r
                   (cache_fingerprint x (raw (buffer i)) (insert_revision r s)))))))"

definition payload_chunk :: "revision_store \<Rightarrow> string \<Rightarrow> nat \<Rightarrow> nat \<Rightarrow> store_error + string" where
  "payload_chunk s x offset limit =
     (if limit = 0 \<or> limit > 256 * 1024 then Inl Invalid_limit
      else case find_revision s x of
        None \<Rightarrow> Inl Unknown_revision
      | Some r \<Rightarrow>
          if offset > length (payload r) then Inl Chunk_offset
          else Inr (take (min limit (length (payload r) - offset)) (drop offset (payload r))))"

section \<open>Ancestry\<close>

text \<open>
  The recursive queries: what is reached from \<open>xs\<close> along the pairs of \<open>es\<close>. SQLite adds rows
  until there are no new ones; as many rounds as there are pairs are enough.
\<close>

primrec closure :: "nat \<Rightarrow> ('a \<times> 'a) list \<Rightarrow> 'a list \<Rightarrow> 'a list" where
  "closure 0 es xs = xs"
| "closure (Suc n) es xs = closure n es (remdups (xs @ map snd (filter (\<lambda>(a, b). a \<in> set xs) es)))"

definition ancestors :: "revision_store \<Rightarrow> string \<Rightarrow> string list" where
  "ancestors s x = closure (length (edges s)) (edges s) [x]"

definition descendants :: "revision_store \<Rightarrow> string \<Rightarrow> string list" where
  "descendants s x = closure (length (edges s)) (map prod.swap (edges s)) [x]"

definition ancestor_of :: "revision_store \<Rightarrow> string \<Rightarrow> string \<Rightarrow> bool" where
  "ancestor_of s x y \<longleftrightarrow> x \<in> set (ancestors s y)"

datatype ancestry = Same | Ancestor | Descendant | Concurrent

definition compare_revisions :: "revision_store \<Rightarrow> string \<Rightarrow> string \<Rightarrow> store_error + ancestry" where
  "compare_revisions s x y =
     (case (find_revision s x, find_revision s y) of
        (Some a, Some b) \<Rightarrow>
          if vault a \<noteq> vault b \<or> object a \<noteq> object b then Inl Unrelated_objects
          else if x = y then Inr Same
          else if ancestor_of s x y then Inr Ancestor
          else if ancestor_of s y x then Inr Descendant
          else Inr Concurrent
      | _ \<Rightarrow> Inl Unrelated_objects)"

definition common_ancestors :: "revision_store \<Rightarrow> string \<Rightarrow> string \<Rightarrow> string list" where
  "common_ancestors s x y = filter (\<lambda>z. z \<in> set (ancestors s y)) (remdups (ancestors s x))"

definition merge_bases :: "revision_store \<Rightarrow> string \<Rightarrow> string \<Rightarrow> store_error + string list" where
  "merge_bases s x y =
     (case compare_revisions s x y of
        Inl e \<Rightarrow> Inl e
      | Inr _ \<Rightarrow>
          let common = common_ancestors s x y in
          Inr (sort (filter (\<lambda>z. \<not> list_ex (\<lambda>(c, p). p = z \<and> c \<in> set common) (edges s)) common)))"

text \<open>Whether no eligible revision was made from \<open>x\<close>.\<close>

definition childless :: "revision_store \<Rightarrow> string \<Rightarrow> bool" where
  "childless s x \<longleftrightarrow> \<not> list_ex (\<lambda>(c, p). p = x \<and> eligible s c) (edges s)"

definition heads :: "revision_store \<Rightarrow> string \<Rightarrow> string \<Rightarrow> string list" where
  "heads s v obj = sort (map rid (filter (\<lambda>r. vault r = v \<and> object r = obj \<and> eligible s (rid r) \<and>
     childless s (rid r)) (revisions s)))"

section \<open>Inventories\<close>

definition page_ok :: "nat \<Rightarrow> bool" where
  "page_ok limit \<longleftrightarrow> 0 < limit \<and> limit \<le> 256"

text \<open>Rows are never removed from \<open>revisions\<close>, so that the \<open>rowid\<close> is the position.\<close>

definition row_ids :: "revision_store \<Rightarrow> (nat \<times> revision) list" where
  "row_ids s = zip [1..<length (revisions s) + 1] (revisions s)"

definition inventory_tip :: "revision_store \<Rightarrow> string \<Rightarrow> nat" where
  "inventory_tip s v = fold max (map fst (filter (\<lambda>(n, r). vault r = v) (row_ids s))) 0"

definition inventory_heads ::
    "revision_store \<Rightarrow> string \<Rightarrow> int \<Rightarrow> int \<Rightarrow> nat \<Rightarrow> store_error + (nat \<times> string) list" where
  "inventory_heads s v after thr limit =
     (if after < 0 \<or> thr < after \<or> \<not> page_ok limit then Inl Invalid_limit
      else Inr (take limit (map (\<lambda>(n, r). (n, rid r))
        (filter (\<lambda>(n, r). vault r = v \<and> int n > after \<and> int n \<le> thr \<and>
           \<not> list_ex (\<lambda>(c, p). p = rid r \<and> list_ex (\<lambda>(m, q). rid q = c \<and> int m \<le> thr) (row_ids s)) (edges s))
          (row_ids s)))))"

definition metadata_of :: "revision_store \<Rightarrow> string \<Rightarrow> revision list" where
  "metadata_of s x = map (\<lambda>r. r\<lparr>payload := []\<rparr>) (filter (\<lambda>r. rid r = x) (revisions s))"

definition pending_resolutions :: "revision_store \<Rightarrow> string \<Rightarrow> string \<Rightarrow> nat \<Rightarrow> store_error + revision list" where
  "pending_resolutions s v after limit =
     (if \<not> page_ok limit then Inl Invalid_limit
      else Inr (take limit (map (\<lambda>r. r\<lparr>payload := []\<rparr>) (sort_key rid
        (filter (\<lambda>r. vault r = v \<and> rid r > after \<and> length (filter (\<lambda>(c, p). c = rid r) (edges s)) > 1 \<and>
           map_of (approvals s) (rid r) = None \<and> parents_eligible s (rid r)) (revisions s))))))"

definition applied_page :: "revision_store \<Rightarrow> string \<Rightarrow> string \<Rightarrow> nat \<Rightarrow> store_error + revision list" where
  "applied_page s v after limit =
     (if \<not> page_ok limit then Inl Invalid_limit
      else Inr (take limit (concat (map (\<lambda>((v', obj), x). metadata_of s x)
        (sort_key (\<lambda>((v', obj), x). obj) (filter (\<lambda>((v', obj), x). v' = v \<and> obj > after) (applied_rows s)))))))"

text \<open>The heads of the objects of a vault behind \<open>after\<close>, grouped by object.\<close>

definition object_heads :: "revision_store \<Rightarrow> string \<Rightarrow> string \<Rightarrow> (string \<times> string list) list" where
  "object_heads s v after =
     map (\<lambda>obj. (obj, heads s v obj))
       (sort (remdups (map object (filter (\<lambda>r. vault r = v \<and> object r > after \<and> eligible s (rid r) \<and>
          childless s (rid r)) (revisions s)))))"

definition application_candidates :: "revision_store \<Rightarrow> string \<Rightarrow> string \<Rightarrow> nat \<Rightarrow> store_error + revision list" where
  "application_candidates s v after limit =
     (if \<not> page_ok limit then Inl Invalid_limit
      else Inr (take limit (concat (map (\<lambda>(obj, xs). metadata_of s (hd xs))
        (filter (\<lambda>(obj, xs). length xs = 1 \<and> applied_revision s v obj \<noteq> Some (hd xs) \<and> \<not> pending_intent s v obj)
          (object_heads s v after))))))"

definition conflicts :: "revision_store \<Rightarrow> string \<Rightarrow> string \<Rightarrow> nat \<Rightarrow> store_error + (string \<times> string \<times> nat) list" where
  "conflicts s v after limit =
     (if \<not> page_ok limit then Inl Invalid_limit
      else Inr (take limit (concat (map (\<lambda>(obj, xs). map (\<lambda>r. (obj, relative_path r, length xs)) (metadata_of s (hd xs)))
        (filter (\<lambda>(obj, xs). length xs > 1) (object_heads s v after))))))"

definition file_formats :: "string list" where
  "file_formats = [''ath-xml-v3'', ''ath-resource-avd-v1'', ''ath-resource-blob-v1'', ''ath-resource-style-v1'',
     ''ath-resource-sorter-v1'']"

definition file_heads :: "revision_store \<Rightarrow> string \<Rightarrow> revision list" where
  "file_heads s v = filter (\<lambda>r. vault r = v \<and> eligible s (rid r) \<and> \<not> deleted r \<and> format r \<in> set file_formats \<and>
     childless s (rid r)) (revisions s)"

definition path_collisions :: "revision_store \<Rightarrow> string \<Rightarrow> string \<Rightarrow> nat \<Rightarrow> store_error + (string \<times> revision list) list" where
  "path_collisions s v after limit =
     (if \<not> page_ok limit then Inl Invalid_limit
      else let hs = file_heads s v;
               paths = take limit (sort (filter (\<lambda>path.
                 length (remdups (map object (filter (\<lambda>r. relative_path r = path) hs))) > 1)
                 (remdups (map relative_path (filter (\<lambda>r. relative_path r > after) hs)))))
           in Inr (map (\<lambda>path. (path, map (\<lambda>r. r\<lparr>payload := []\<rparr>)
                (sort_key object (sort_key rid (filter (\<lambda>r. relative_path r = path) hs))))) paths))"

section \<open>Approvals\<close>

record conflict_tokens =
  token_vault :: string
  token_conflict :: string
  token_branches :: string
  token_resolution :: string

record conflict_decision =
  decision_branches :: string
  decision_resolution :: string
  decision_member :: string

definition accept_resolution ::
    "(string \<Rightarrow> string list \<Rightarrow> string \<Rightarrow> conflict_tokens) \<Rightarrow>
     (conflict_tokens \<Rightarrow> (store_error + conflict_decision option)) \<Rightarrow>
     string \<Rightarrow> string \<times> string \<Rightarrow> string \<Rightarrow> string \<Rightarrow> revision_store \<Rightarrow> store_error + bool \<times> revision_store" where
  "accept_resolution derive verify pin_group secret envelope x s =
     (case offer s x of
        None \<Rightarrow> Inl Resolution_scope
      | Some (r, _) \<Rightarrow>
          if length (parents r) < 2 \<or> fst secret \<noteq> pin_group \<or> snd secret \<noteq> vault r then Inl Resolution_scope
          else let tokens = derive (object r) (parents r) (rid r) in
            (case verify tokens of
               Inl e \<Rightarrow> Inl e
             | Inr None \<Rightarrow> Inr (False, s)
             | Inr (Some d) \<Rightarrow>
                 if decision_branches d \<noteq> token_branches tokens \<or> decision_resolution d \<noteq> token_resolution tokens \<or>
                    decision_member d \<noteq> origin_member r then Inr (False, s)
                 else let s1 = (if map_of (approvals s) x = None then s\<lparr>approvals := approvals s @ [(x, envelope)]\<rparr> else s)
                   in Inr (True, fold admit_revision
                        (filter (\<lambda>y. y \<in> set (descendants s1 x)) (map rid (revisions s1))) s1)))"

section \<open>Applying revisions\<close>

definition record_applied ::
    "string \<Rightarrow> string option \<Rightarrow> revision_store \<Rightarrow> store_error + bool \<times> revision_store" where
  "record_applied x expected s =
     (if \<not> eligible s x then Inl Needs_decision
      else case find_revision s x of
        None \<Rightarrow> Inl Unknown_revision
      | Some r \<Rightarrow>
          if pending_intent s (vault r) (object r) then Inl Unfinished_application
          else if applied_revision s (vault r) (object r) \<noteq> expected then Inr (False, s)
          else if (case expected of None \<Rightarrow> False | Some y \<Rightarrow> \<not> ancestor_of s y x) then Inl Not_advancing
          else Inr (True, set_applied (vault r) (object r) x s))"

definition application :: "revision_store \<Rightarrow> string \<Rightarrow> apply_intent option" where
  "application s op = map_option snd (find (\<lambda>(key, i). operation i = op) (intents s))"

text \<open>The descriptor of an intent leaves out its operation and whether it is completed.\<close>

definition intent_descriptor :: "apply_intent \<Rightarrow> apply_intent" where
  "intent_descriptor i = i\<lparr>operation := [], completed := False\<rparr>"

definition intent_ok :: "apply_intent \<Rightarrow> bool \<Rightarrow> bool" where
  "intent_ok i allow_completed \<longleftrightarrow>
     operation i \<noteq> [] \<and> length (operation i) \<le> 256 \<and> CHR 0x00 \<notin> set (operation i) \<and>
     (allow_completed \<or> \<not> completed i) \<and> digest_id (revision_id i) \<and>
     (case expected_revision i of None \<Rightarrow> True | Some y \<Rightarrow> digest_id y) \<and>
     source_path i \<noteq> [] \<and> length (source_path i) \<le> 64 * 1024 \<and>
     (case source_fingerprint i of
        None \<Rightarrow> protected_history_version i = 0
      | Some h \<Rightarrow> digest_id h \<and> protected_history_version i > 0)"

text \<open>Whether the application leads from the revision it expects to a successor of it.\<close>

definition base_error :: "revision_store \<Rightarrow> apply_intent \<Rightarrow> revision \<Rightarrow> store_error option" where
  "base_error s i r =
     (case expected_revision i of
        None \<Rightarrow> if source_path i \<noteq> relative_path r then Some Source_path else None
      | Some y \<Rightarrow>
          (case offer s y of
             None \<Rightarrow> Some Not_advancing
           | Some (q, _) \<Rightarrow>
               if relative_path q \<noteq> source_path i then Some Not_advancing
               else (case compare_revisions s y (rid r) of
                   Inl e \<Rightarrow> Some e
                 | Inr c \<Rightarrow> if c \<noteq> Ancestor then Some Not_advancing else None)))"

definition prepare_apply :: "apply_intent \<Rightarrow> revision_store \<Rightarrow> store_error + bool \<times> revision_store" where
  "prepare_apply i s =
     (if \<not> intent_ok i False then Inl Invalid_intent
      else case application s (operation i) of
        Some j \<Rightarrow> if intent_descriptor j \<noteq> intent_descriptor i then Inl Rebound_operation else Inr (False, s)
      | None \<Rightarrow>
          (case offer s (revision_id i) of
             None \<Rightarrow> Inl Unknown_revision
           | Some (r, _) \<Rightarrow>
               if \<not> eligible s (revision_id i) then Inl Needs_decision
               else if applied_revision s (vault r) (object r) \<noteq> expected_revision i then Inl Base_changed
               else (case base_error s i r of
                   Some e \<Rightarrow> Inl e
                 | None \<Rightarrow>
                     if pending_intent s (vault r) (object r) then Inl Unfinished_application
                     else Inr (True, s\<lparr>intents := intents s @ [((vault r, object r), i)]\<rparr>))))"

definition abandon_unpublished_apply :: "string \<Rightarrow> revision_store \<Rightarrow> store_error + bool \<times> revision_store" where
  "abandon_unpublished_apply op s =
     (case application s op of
        None \<Rightarrow> Inr (False, s)
      | Some i \<Rightarrow>
          if completed i then Inl Already_completed
          else (case offer s (revision_id i) of
              None \<Rightarrow> Inl Unknown_revision
            | Some (r, _) \<Rightarrow>
                if applied_revision s (vault r) (object r) \<noteq> expected_revision i then Inl Base_changed
                else Inr (True, s\<lparr>intents := filter (\<lambda>(key, j). operation j \<noteq> op) (intents s)\<rparr>)))"

definition pending_applications :: "revision_store \<Rightarrow> string \<Rightarrow> string \<Rightarrow> nat \<Rightarrow> store_error + apply_intent list" where
  "pending_applications s v after limit =
     (if \<not> page_ok limit then Inl Invalid_limit
      else Inr (take limit (sort_key operation (map snd
        (filter (\<lambda>((v', obj), i). v' = v \<and> \<not> completed i \<and> operation i > after) (intents s))))))"

definition complete_intent :: "string \<Rightarrow> revision_store \<Rightarrow> revision_store" where
  "complete_intent op s = s\<lparr>intents := map (\<lambda>(key, i). (key, if operation i = op then i\<lparr>completed := True\<rparr> else i)) (intents s)\<rparr>"

definition finish_apply ::
    "(string \<Rightarrow> string) \<Rightarrow> string \<Rightarrow> string option \<Rightarrow> revision_store \<Rightarrow> store_error + bool \<times> revision_store" where
  "finish_apply raw op observed s =
     (case application s op of
        None \<Rightarrow> Inl Unknown_operation
      | Some i \<Rightarrow>
          if completed i then Inr (False, s)
          else (case offer s (revision_id i) of
              None \<Rightarrow> Inl Unknown_revision
            | Some (r, _) \<Rightarrow>
                if \<not> eligible s (revision_id i) then Inl Needs_decision
                else if applied_revision s (vault r) (object r) \<noteq> expected_revision i then Inl Base_changed
                else
                  (case (if deleted r then (if observed \<noteq> None then Inl Target_exists else Inr s)
                         else if observed = None \<or> \<not> digest_id (the observed) then Inl Fingerprint_missing
                         else (case payload_fingerprint raw (rid r) s of
                                 Inl e \<Rightarrow> Inl e
                               | Inr (h, s1) \<Rightarrow> if h \<noteq> the observed then Inl Fingerprint_mismatch else Inr s1)) of
                     Inl e \<Rightarrow> Inl e
                   | Inr s1 \<Rightarrow> Inr (True, complete_intent op (set_applied (vault r) (object r) (rid r) s1)))))"

section \<open>Recovery\<close>

text \<open>
  The applied deletions of another journal become roots of this one. \<open>same\<close> says that both are
  the same file, \<open>member_ok\<close> that the identity of the new member is well formed.
\<close>

primrec recovery_roots ::
    "(revision \<Rightarrow> string) \<Rightarrow> string \<Rightarrow> string \<Rightarrow> revision_store \<Rightarrow> ((string \<times> string) \<times> string) list \<Rightarrow>
     store_error + revision list" where
  "recovery_roots digest v member previous [] = Inr []"
| "recovery_roots digest v member previous (row # rows) =
     (case find_revision previous (snd row) of
        None \<Rightarrow> recovery_roots digest v member previous rows
      | Some r \<Rightarrow>
          if pending_intent previous (fst (fst row)) (snd (fst row)) then Inl Unfinished_application
          else if \<not> deleted r \<or> vault r \<noteq> v \<or> object r \<noteq> snd (fst row) then Inl Corrupt_baseline
          else (case seal_revision digest (r\<lparr>payload := []\<rparr>) of
              Inl e \<Rightarrow> Inl e
            | Inr sealed \<Rightarrow>
                if rid sealed \<noteq> rid r then Inl Corrupt_baseline
                else (case seal_revision digest (r\<lparr>payload := [], rid := [], parents := [], origin_member := member\<rparr>) of
                    Inl e \<Rightarrow> Inl e
                  | Inr origin \<Rightarrow> map_sum id ((#) origin) (recovery_roots digest v member previous rows))))"

primrec import_roots ::
    "(string \<Rightarrow> string) \<Rightarrow> string \<Rightarrow> revision list \<Rightarrow> revision_store \<Rightarrow> store_error + revision_store" where
  "import_roots raw v [] s = Inr s"
| "import_roots raw v (r # rs) s =
     (if list_ex (\<lambda>q. vault q = v \<and> rid q = rid r) (revisions s) then import_roots raw v rs s
      else if pending_intent s v (object r) then Inl Unfinished_application
      else import_roots raw v rs (cache_fingerprint (rid r) (raw (payload r)) (admit_revision (rid r) (insert_revision r s))))"

definition recover_applied_deletions ::
    "(revision \<Rightarrow> string) \<Rightarrow> (string \<Rightarrow> string) \<Rightarrow> bool \<Rightarrow> (string \<Rightarrow> bool) \<Rightarrow> revision_store \<Rightarrow> string \<Rightarrow> string \<Rightarrow>
     string \<Rightarrow> nat \<Rightarrow> revision_store \<Rightarrow> store_error + revision list \<times> revision_store" where
  "recover_applied_deletions digest raw same member_ok previous v member after limit s =
     (if same \<or> v = [] \<or> \<not> page_ok limit \<or> \<not> member_ok member then Inl Recovery_request
      else let rows = take limit (sort_key (\<lambda>((v', obj), x). obj)
                 (filter (\<lambda>((v', obj), x). v' = v \<and> obj > after \<and>
                    (case find_revision previous x of None \<Rightarrow> False | Some r \<Rightarrow> deleted r)) (applied_rows previous)))
           in case recovery_roots digest v member previous rows of
                Inl e \<Rightarrow> Inl e
              | Inr roots \<Rightarrow> (case import_roots raw v roots s of Inl e \<Rightarrow> Inl e | Inr s' \<Rightarrow> Inr (roots, s')))"

section \<open>Closures\<close>

lemma set_closure: "set (closure n es xs) = {y. \<exists>x \<in> set xs. \<exists>k \<le> n. (x, y) \<in> set es ^^ k}"
proof (induction n arbitrary: xs)
  case (Suc n)
  have step: "set (remdups (xs @ map snd (filter (\<lambda>(a, b). a \<in> set xs) es))) = set xs \<union> set es `` set xs"
    by force
  have "(\<exists>x \<in> set xs \<union> set es `` set xs. \<exists>k \<le> n. (x, y) \<in> set es ^^ k) \<longleftrightarrow>
      (\<exists>x \<in> set xs. \<exists>k \<le> Suc n. (x, y) \<in> set es ^^ k)" for y
  proof
    assume "\<exists>x \<in> set xs \<union> set es `` set xs. \<exists>k \<le> n. (x, y) \<in> set es ^^ k"
    then obtain x k where x: "x \<in> set xs \<union> set es `` set xs" and k: "k \<le> n" "(x, y) \<in> set es ^^ k"
      by auto
    show "\<exists>x \<in> set xs. \<exists>k \<le> Suc n. (x, y) \<in> set es ^^ k"
    proof (cases "x \<in> set xs")
      case True
      then show ?thesis
        using k le_SucI by blast
    next
      case False
      then obtain z where "z \<in> set xs" "(z, x) \<in> set es"
        using x by auto
      then have "(z, y) \<in> set es ^^ Suc k" "z \<in> set xs"
        using k(2) by (auto intro: relpow_Suc_I2 simp del: relpow.simps)
      then show ?thesis
        using k(1) by (intro bexI[of _ z] exI[of _ "Suc k"]) auto
    qed
  next
    assume "\<exists>x \<in> set xs. \<exists>k \<le> Suc n. (x, y) \<in> set es ^^ k"
    then obtain x k where x: "x \<in> set xs" and k: "k \<le> Suc n" "(x, y) \<in> set es ^^ k"
      by auto
    show "\<exists>x \<in> set xs \<union> set es `` set xs. \<exists>k \<le> n. (x, y) \<in> set es ^^ k"
    proof (cases k)
      case 0
      then show ?thesis
        using x k by (intro bexI[of _ x] exI[of _ 0]) auto
    next
      case (Suc j)
      then obtain z where "(x, z) \<in> set es" "(z, y) \<in> set es ^^ j"
        using k(2) by (metis relpow_Suc_D2)
      then show ?thesis
        using x k(1) Suc by (intro bexI[of _ z] exI[of _ j]) auto
    qed
  qed
  then show ?case
    by (simp only: closure.simps Suc.IH step)
qed auto

lemma closure_rtrancl: "set (closure (length es) es xs) = (set es)\<^sup>* `` set xs"
proof -
  have "(x, y) \<in> (set es)\<^sup>* \<longleftrightarrow> (\<exists>k \<le> length es. (x, y) \<in> set es ^^ k)" for x y
  proof
    assume "(x, y) \<in> (set es)\<^sup>*"
    then obtain k where "k \<le> card (set es)" "(x, y) \<in> set es ^^ k"
      using rtrancl_finite_eq_relpow[of "set es"] by auto
    then show "\<exists>k \<le> length es. (x, y) \<in> set es ^^ k"
      using card_length[of es] le_trans by blast
  qed (auto intro: relpow_imp_rtrancl)
  then show ?thesis
    by (auto simp: set_closure)
qed

abbreviation parent_of :: "revision_store \<Rightarrow> (string \<times> string) set" where
  "parent_of s \<equiv> set (edges s)"

lemma set_ancestors: "set (ancestors s x) = {y. (x, y) \<in> (parent_of s)\<^sup>*}"
  by (auto simp: ancestors_def closure_rtrancl)

lemma set_descendants: "set (descendants s x) = {y. (y, x) \<in> (parent_of s)\<^sup>*}"
proof -
  have "set (map prod.swap (edges s)) = (parent_of s)\<inverse>"
    by force
  then show ?thesis
    using closure_rtrancl[of "map prod.swap (edges s)" "[x]"] by (auto simp: descendants_def rtrancl_converse)
qed

lemma ancestor_of_iff: "ancestor_of s x y \<longleftrightarrow> (y, x) \<in> (parent_of s)\<^sup>*"
  by (simp add: ancestor_of_def set_ancestors)

section \<open>The invariant\<close>

definition ids :: "revision_store \<Rightarrow> string set" where
  "ids s = rid ` set (revisions s)"

definition edges_of :: "revision list \<Rightarrow> (string \<times> string) list" where
  "edges_of rs = concat (map (\<lambda>r. map (Pair (rid r)) (parents r)) rs)"

text \<open>Every parent was received earlier and belongs to the same object.\<close>

definition linked :: "revision list \<Rightarrow> bool" where
  "linked rs \<longleftrightarrow> (\<forall>as r bs. rs = as @ r # bs \<longrightarrow>
     (\<forall>p \<in> set (parents r). \<exists>q \<in> set as. rid q = p \<and> vault q = vault r \<and> object q = object r))"

definition sealed :: "(revision \<Rightarrow> string) \<Rightarrow> revision \<Rightarrow> bool" where
  "sealed digest r \<longleftrightarrow> validate_revision r = None \<and> rid r = identity digest r \<and> sorted (parents r) \<and> distinct (parents r)"

definition may_use :: "revision_store \<Rightarrow> revision \<Rightarrow> bool" where
  "may_use s r \<longleftrightarrow> length (parents r) < 2 \<or> map_of (approvals s) (rid r) \<noteq> None"

definition rows_inv :: "(revision \<Rightarrow> string) \<Rightarrow> revision_store \<Rightarrow> bool" where
  "rows_inv digest s \<longleftrightarrow> distinct (map rid (revisions s)) \<and> (\<forall>r \<in> set (revisions s). sealed digest r) \<and>
     linked (revisions s) \<and> edges s = edges_of (revisions s)"

definition eligible_inv :: "revision_store \<Rightarrow> bool" where
  "eligible_inv s \<longleftrightarrow> fst ` set (approvals s) \<subseteq> ids s \<and>
     set (eligibles s) = {rid r | r. r \<in> set (revisions s) \<and> may_use s r \<and> set (parents r) \<subseteq> set (eligibles s)}"

definition belongs :: "revision_store \<Rightarrow> string \<times> string \<Rightarrow> string \<Rightarrow> bool" where
  "belongs s key x \<longleftrightarrow> x \<in> set (eligibles s) \<and> (\<exists>r \<in> set (revisions s). rid r = x \<and> (vault r, object r) = key)"

definition applied_inv :: "revision_store \<Rightarrow> bool" where
  "applied_inv s \<longleftrightarrow> (\<forall>key x. map_of (applied_rows s) key = Some x \<longrightarrow> belongs s key x)"

definition fingerprints_inv :: "(string \<Rightarrow> string) \<Rightarrow> revision_store \<Rightarrow> bool" where
  "fingerprints_inv raw s \<longleftrightarrow> (\<forall>x h. map_of (fingerprints s) x = Some h \<longrightarrow>
     (\<exists>r \<in> set (revisions s). rid r = x \<and> h = raw (payload r)))"

definition incoming_ok :: "incoming_row \<Rightarrow> bool" where
  "incoming_ok i \<longleftrightarrow> validate_revision (metadata i) = None \<and> payload (metadata i) = [] \<and> digest_id (rid (metadata i)) \<and>
     sorted (parents (metadata i)) \<and> distinct (parents (metadata i)) \<and> (deleted (metadata i) \<longrightarrow> buffer i = []) \<and>
     received i \<le> length (buffer i) \<and> length (buffer i) \<le> 512 * 1024 * 1024"

definition incoming_inv :: "revision_store \<Rightarrow> bool" where
  "incoming_inv s \<longleftrightarrow> distinct (map (\<lambda>i. rid (metadata i)) (incoming s)) \<and> list_all incoming_ok (incoming s) \<and>
     length (incoming s) \<le> 32"

text \<open>An unfinished application starts from the applied revision and leads to a successor of it.\<close>

definition intent_row_ok :: "revision_store \<Rightarrow> string \<times> string \<Rightarrow> apply_intent \<Rightarrow> bool" where
  "intent_row_ok s key i \<longleftrightarrow> belongs s key (revision_id i) \<and>
     (\<not> completed i \<longrightarrow> map_of (applied_rows s) key = expected_revision i \<and>
        (\<forall>y. expected_revision i = Some y \<longrightarrow> (revision_id i, y) \<in> (parent_of s)\<^sup>*))"

definition intents_inv :: "revision_store \<Rightarrow> bool" where
  "intents_inv s \<longleftrightarrow> distinct (map (\<lambda>(key, i). operation i) (intents s)) \<and>
     distinct (map fst (filter (\<lambda>(key, i). \<not> completed i) (intents s))) \<and>
     (\<forall>key i. (key, i) \<in> set (intents s) \<longrightarrow> intent_row_ok s key i)"

definition store_inv :: "(revision \<Rightarrow> string) \<Rightarrow> (string \<Rightarrow> string) \<Rightarrow> revision_store \<Rightarrow> bool" where
  "store_inv digest raw s \<longleftrightarrow> rows_inv digest s \<and> eligible_inv s \<and> applied_inv s \<and> fingerprints_inv raw s \<and>
     incoming_inv s \<and> intents_inv s"

lemma new_store_inv: "store_inv digest raw new_store"
  by (simp add: store_inv_def rows_inv_def eligible_inv_def applied_inv_def fingerprints_inv_def incoming_inv_def
      intents_inv_def new_store_def linked_def edges_of_def ids_def)

lemma find_revision_Some:
  "distinct (map rid (revisions s)) \<Longrightarrow> find_revision s x = Some r \<longleftrightarrow> r \<in> set (revisions s) \<and> rid r = x"
proof -
  assume d: "distinct (map rid (revisions s))"
  have "find_revision s x = Some r \<Longrightarrow> r \<in> set (revisions s) \<and> rid r = x" for r
    by (auto simp: find_revision_def find_Some_iff)
  moreover have "find_revision s x = Some r" if r: "r \<in> set (revisions s)" "rid r = x"
  proof -
    obtain q where q: "find_revision s x = Some q"
      using r by (cases "find_revision s x") (auto simp: find_revision_def find_None_iff)
    then have "q \<in> set (revisions s)" "rid q = x"
      by (auto simp: find_revision_def find_Some_iff)
    then show ?thesis
      using q r d by (metis distinct_map inj_onD)
  qed
  ultimately show ?thesis
    by blast
qed

lemma find_revision_None: "find_revision s x = None \<longleftrightarrow> x \<notin> ids s"
  by (auto simp: find_revision_def find_None_iff ids_def)

section \<open>Inserting keeps the invariant\<close>

definition add_revision :: "(string \<Rightarrow> string) \<Rightarrow> revision \<Rightarrow> revision_store \<Rightarrow> revision_store" where
  "add_revision raw r s =
     cache_fingerprint (rid r) (raw (payload r)) (admit_revision (rid r) (insert_parents r (insert_revision r s)))"

definition links :: "revision_store \<Rightarrow> revision \<Rightarrow> bool" where
  "links s r \<longleftrightarrow> (\<forall>p \<in> set (parents r). \<exists>q \<in> set (revisions s). rid q = p \<and> vault q = vault r \<and> object q = object r)"

lemma validate_parents_links:
  assumes "distinct (map rid (revisions s))"
  shows "validate_parents s r ps = None \<longleftrightarrow>
    (\<forall>p \<in> set ps. \<exists>q \<in> set (revisions s). rid q = p \<and> vault q = vault r \<and> object q = object r)"
proof (induction ps)
  case (Cons p ps)
  show ?case
  proof (cases "find_revision s p")
    case None
    then have "p \<notin> rid ` set (revisions s)"
      by (simp add: find_revision_None ids_def)
    then show ?thesis
      using None by auto
  next
    case (Some q)
    then have q: "q \<in> set (revisions s)" "rid q = p"
      using find_revision_Some[OF assms] by auto
    have "q' = q" if "q' \<in> set (revisions s)" "rid q' = p" for q'
      using that Some find_revision_Some[OF assms, of p q'] by simp
    then have "(\<exists>q \<in> set (revisions s). rid q = p \<and> vault q = vault r \<and> object q = object r) \<longleftrightarrow>
        vault q = vault r \<and> object q = object r"
      using q by blast
    moreover have "validate_parents s r (p # ps) = None \<longleftrightarrow>
        (vault q = vault r \<and> object q = object r) \<and> validate_parents s r ps = None"
      using Some by auto
    ultimately show ?thesis
      using Cons.IH by (metis (no_types, lifting) list.set_intros(1) list.set_intros(2) set_ConsD)
  qed
qed simp

lemma edges_of_append: "edges_of (rs @ [r]) = edges_of rs @ map (Pair (rid r)) (parents r)"
  by (simp add: edges_of_def)

lemma in_edges_of: "(c, p) \<in> set (edges_of rs) \<longleftrightarrow> (\<exists>r \<in> set rs. rid r = c \<and> p \<in> set (parents r))"
  by (auto simp: edges_of_def)

lemma linked_prefix:
  assumes "linked (as @ r # bs)" "p \<in> set (parents r)"
  shows "\<exists>q \<in> set as. rid q = p \<and> vault q = vault r \<and> object q = object r"
  using assms unfolding linked_def by blast

lemma linked_append:
  "linked (rs @ [r]) \<longleftrightarrow> linked rs \<and>
     (\<forall>p \<in> set (parents r). \<exists>q \<in> set rs. rid q = p \<and> vault q = vault r \<and> object q = object r)"
proof (intro iffI conjI)
  assume l: "linked (rs @ [r])"
  show "linked rs"
    unfolding linked_def
  proof (intro allI impI)
    fix as x bs
    assume "rs = as @ x # bs"
    then have "linked (as @ x # (bs @ [r]))"
      using l by simp
    then show "\<forall>p \<in> set (parents x). \<exists>q \<in> set as. rid q = p \<and> vault q = vault x \<and> object q = object x"
      using linked_prefix by blast
  qed
  show "\<forall>p \<in> set (parents r). \<exists>q \<in> set rs. rid q = p \<and> vault q = vault r \<and> object q = object r"
    using linked_prefix[OF l] by blast
next
  assume a: "linked rs \<and> (\<forall>p \<in> set (parents r). \<exists>q \<in> set rs. rid q = p \<and> vault q = vault r \<and> object q = object r)"
  show "linked (rs @ [r])"
    unfolding linked_def
  proof (intro allI impI)
    fix as x bs
    assume e: "rs @ [r] = as @ x # bs"
    show "\<forall>p \<in> set (parents x). \<exists>q \<in> set as. rid q = p \<and> vault q = vault x \<and> object q = object x"
    proof (cases bs rule: rev_cases)
      case Nil
      then show ?thesis
        using e a by simp
    next
      case (snoc bs' y)
      then have "rs = as @ x # bs'"
        using e by simp
      then show ?thesis
        using a linked_prefix by blast
    qed
  qed
qed

lemma linked_parent:
  assumes "linked rs" "r \<in> set rs" "p \<in> set (parents r)"
  shows "\<exists>q \<in> set rs. rid q = p \<and> vault q = vault r \<and> object q = object r"
proof -
  obtain as bs where "rs = as @ r # bs"
    using assms(2) by (auto dest: split_list)
  then show ?thesis
    using linked_prefix[of as r bs p] assms(1, 3) by auto
qed

lemma edge_count:
  assumes "distinct (map rid rs)" "r \<in> set rs"
  shows "length (filter (\<lambda>(c, p). c = rid r) (edges_of rs)) = length (parents r)"
  using assms
proof (induction rs)
  case (Cons q rs)
  have none: "filter (\<lambda>(c, p). c = x) (edges_of rs') = []" if "x \<notin> rid ` set rs'" for x rs'
    using that by (auto simp: filter_empty_conv in_edges_of)
  have e: "edges_of (q # rs) = map (Pair (rid q)) (parents q) @ edges_of rs"
    by (simp add: edges_of_def)
  show ?case
  proof (cases "r = q")
    case True
    then show ?thesis
      using Cons.prems none[of "rid r" rs] by (simp add: e filter_map o_def)
  next
    case False
    then have "r \<in> set rs" "rid q \<noteq> rid r"
      using Cons.prems by auto
    then show ?thesis
      using Cons by (simp add: e filter_map o_def)
  qed
qed simp

lemma rows_invD:
  assumes "rows_inv digest s"
  shows "distinct (map rid (revisions s))" "r \<in> set (revisions s) \<Longrightarrow> sealed digest r" "linked (revisions s)"
    "edges s = edges_of (revisions s)"
  using assms by (auto simp: rows_inv_def)

lemma admit_condition:
  assumes "rows_inv digest s" "r \<in> set (revisions s)"
  shows "admit_revision (rid r) s =
    (if may_use s r \<and> set (parents r) \<subseteq> set (eligibles s) \<and> rid r \<notin> set (eligibles s)
     then s\<lparr>eligibles := eligibles s @ [rid r]\<rparr> else s)"
proof -
  note rows = rows_invD[OF assms(1)]
  have "find_revision s (rid r) = Some r"
    using find_revision_Some[OF rows(1)] assms(2) by simp
  moreover have "length (filter (\<lambda>(c, p). c = rid r) (edges s)) = length (parents r)"
    using edge_count[OF rows(1) assms(2)] rows(4) by simp
  moreover have "parents_eligible s (rid r) \<longleftrightarrow> set (parents r) \<subseteq> set (eligibles s)"
  proof -
    have "(rid r, p) \<in> set (edges s) \<longleftrightarrow> p \<in> set (parents r)" for p
      using rows(1, 4) assms(2) by (auto simp: in_edges_of distinct_map dest: inj_onD)
    then show ?thesis
      by (auto simp: parents_eligible_def eligible_def list_all_iff)
  qed
  ultimately show ?thesis
    by (auto simp: admit_revision_def may_use_def eligible_def)
qed

lemma add_rows:
  assumes "rows_inv digest s" "sealed digest r" "rid r \<notin> ids s" "links s r"
  shows "rows_inv digest (insert_parents r (insert_revision r s))"
  using assms linked_append[of "revisions s" r]
  by (auto simp: rows_inv_def insert_parents_def insert_revision_def edges_of_append ids_def links_def)

lemma cache_fields: "revisions (cache_fingerprint x h s) = revisions s" "edges (cache_fingerprint x h s) = edges s"
  "eligibles (cache_fingerprint x h s) = eligibles s" "approvals (cache_fingerprint x h s) = approvals s"
  "applied_rows (cache_fingerprint x h s) = applied_rows s" "incoming (cache_fingerprint x h s) = incoming s"
  "intents (cache_fingerprint x h s) = intents s"
  by (simp_all add: cache_fingerprint_def)

lemma add_fields:
  assumes "rows_inv digest s" "sealed digest r" "rid r \<notin> ids s" "links s r"
  shows "revisions (add_revision raw r s) = revisions s @ [r]"
    "edges (add_revision raw r s) = edges s @ map (Pair (rid r)) (parents r)"
    "approvals (add_revision raw r s) = approvals s" "applied_rows (add_revision raw r s) = applied_rows s"
    "incoming (add_revision raw r s) = incoming s" "intents (add_revision raw r s) = intents s"
    "eligibles (add_revision raw r s) =
       (if may_use s r \<and> set (parents r) \<subseteq> set (eligibles s) \<and> rid r \<notin> set (eligibles s)
        then eligibles s @ [rid r] else eligibles s)"
    "fingerprints (add_revision raw r s) =
       (if map_of (fingerprints s) (rid r) = None then fingerprints s @ [(rid r, raw (payload r))] else fingerprints s)"
proof -
  have "r \<in> set (revisions (insert_parents r (insert_revision r s)))"
    by (simp add: insert_parents_def insert_revision_def)
  from admit_condition[OF add_rows[OF assms] this]
  show "revisions (add_revision raw r s) = revisions s @ [r]"
    "edges (add_revision raw r s) = edges s @ map (Pair (rid r)) (parents r)"
    "approvals (add_revision raw r s) = approvals s" "applied_rows (add_revision raw r s) = applied_rows s"
    "incoming (add_revision raw r s) = incoming s" "intents (add_revision raw r s) = intents s"
    "eligibles (add_revision raw r s) =
       (if may_use s r \<and> set (parents r) \<subseteq> set (eligibles s) \<and> rid r \<notin> set (eligibles s)
        then eligibles s @ [rid r] else eligibles s)"
    "fingerprints (add_revision raw r s) =
       (if map_of (fingerprints s) (rid r) = None then fingerprints s @ [(rid r, raw (payload r))] else fingerprints s)"
    by (simp_all add: add_revision_def cache_fields insert_parents_def insert_revision_def may_use_def cache_fingerprint_def)
qed


lemma belongs_mono:
  assumes "belongs s key x" "set (revisions s) \<subseteq> set (revisions s')" "set (eligibles s) \<subseteq> set (eligibles s')"
  shows "belongs s' key x"
  using assms unfolding belongs_def by blast

lemma linked_ids: "linked (revisions s) \<Longrightarrow> r \<in> set (revisions s) \<Longrightarrow> set (parents r) \<subseteq> ids s"
  using linked_parent unfolding ids_def by (metis imageI subsetI)

lemma eligibles_ids: "eligible_inv s \<Longrightarrow> set (eligibles s) \<subseteq> ids s"
  unfolding eligible_inv_def ids_def by blast

lemma add_inv:
  assumes inv: "store_inv digest raw s" and r: "sealed digest r" "rid r \<notin> ids s" "links s r"
  shows "store_inv digest raw (add_revision raw r s)"
proof -
  have rows: "rows_inv digest s" and el: "eligible_inv s"
    using inv by (simp_all add: store_inv_def)
  note f = add_fields[OF rows r] and rd = rows_invD[OF rows]
  let ?t = "add_revision raw r s"
  have sub: "set (revisions s) \<subseteq> set (revisions ?t)" "set (eligibles s) \<subseteq> set (eligibles ?t)" "parent_of s \<subseteq> parent_of ?t"
    by (auto simp: f)
  have new: "rid r \<notin> set (eligibles s)" "rid r \<notin> fst ` set (approvals s)"
    using r(2) eligibles_ids[OF el] el by (auto simp: eligible_inv_def)
  have old: "set (parents q) \<subseteq> set (eligibles ?t) \<longleftrightarrow> set (parents q) \<subseteq> set (eligibles s)" if "q \<in> set (revisions s)" for q
    using linked_ids[OF rd(3) that] r(2) by (auto simp: f split: if_splits)
  have self: "set (parents r) \<subseteq> set (eligibles ?t) \<longleftrightarrow> set (parents r) \<subseteq> set (eligibles s)"
    using r(2, 3) by (fastforce simp: f links_def ids_def split: if_splits)
  have use: "may_use ?t q = may_use s q" for q
    by (simp add: may_use_def f)
  have "eligible_inv ?t"
    unfolding eligible_inv_def
  proof (intro conjI)
    show "fst ` set (approvals ?t) \<subseteq> ids ?t"
      using el by (auto simp: eligible_inv_def ids_def f)
    have e: "set (eligibles s) = {rid q | q. q \<in> set (revisions s) \<and> may_use s q \<and> set (parents q) \<subseteq> set (eligibles s)}"
      using el by (simp add: eligible_inv_def)
    have "{rid q | q. q \<in> set (revisions ?t) \<and> may_use ?t q \<and> set (parents q) \<subseteq> set (eligibles ?t)} =
        {rid q | q. q \<in> set (revisions s) \<and> may_use s q \<and> set (parents q) \<subseteq> set (eligibles ?t)} \<union>
        (if may_use s r \<and> set (parents r) \<subseteq> set (eligibles ?t) then {rid r} else {})"
      unfolding use f(1) by auto
    also have "{rid q | q. q \<in> set (revisions s) \<and> may_use s q \<and> set (parents q) \<subseteq> set (eligibles ?t)} =
        {rid q | q. q \<in> set (revisions s) \<and> may_use s q \<and> set (parents q) \<subseteq> set (eligibles s)}"
      using old by blast
    also have "\<dots> \<union> (if may_use s r \<and> set (parents r) \<subseteq> set (eligibles ?t) then {rid r} else {}) = set (eligibles ?t)"
      unfolding self using new(1) by (simp add: f(7) flip: e)
    finally show "set (eligibles ?t) = {rid q | q. q \<in> set (revisions ?t) \<and> may_use ?t q \<and> set (parents q) \<subseteq> set (eligibles ?t)}" ..
  qed
  moreover have "rows_inv digest ?t"
    using add_rows[OF rows r] f(1, 2) by (simp add: rows_inv_def insert_parents_def insert_revision_def)
  moreover have "applied_inv ?t"
    using inv belongs_mono[OF _ sub(1, 2)] unfolding store_inv_def applied_inv_def f(4) by blast
  moreover have "fingerprints_inv raw ?t"
  proof -
    have "map_of (fingerprints s) (rid r) = None"
      using inv r(2) unfolding store_inv_def fingerprints_inv_def ids_def by (metis imageI not_Some_eq)
    then show ?thesis
      using inv by (auto simp: store_inv_def fingerprints_inv_def f map_add_def split: option.splits if_splits)
  qed
  moreover have "incoming_inv ?t"
    using inv by (simp add: store_inv_def incoming_inv_def f)
  moreover have "intents_inv ?t"
    using inv belongs_mono[OF _ sub(1, 2)] rtrancl_mono[OF sub(3)]
    unfolding store_inv_def intents_inv_def intent_row_ok_def f(4) f(6) by blast
  ultimately show ?thesis
    by (simp add: store_inv_def)
qed

section \<open>Operations keep the invariant\<close>

lemma set_applied_inv:
  assumes "store_inv digest raw s" "belongs s (v, obj) x" "\<not> pending_intent s v obj"
  shows "store_inv digest raw (set_applied v obj x s)"
proof -
  have f: "revisions (set_applied v obj x s) = revisions s" "edges (set_applied v obj x s) = edges s"
    "eligibles (set_applied v obj x s) = eligibles s" "approvals (set_applied v obj x s) = approvals s"
    "fingerprints (set_applied v obj x s) = fingerprints s" "incoming (set_applied v obj x s) = incoming s"
    "intents (set_applied v obj x s) = intents s"
    "map_of (applied_rows (set_applied v obj x s)) = (map_of (applied_rows s))((v, obj) \<mapsto> x)"
    by (simp_all add: set_applied_def update_conv')
  have b: "belongs (set_applied v obj x s) = belongs s"
    by (simp add: belongs_def[abs_def] f)
  have m: "may_use (set_applied v obj x s) = may_use s"
    by (simp add: may_use_def[abs_def] f)
  have "key \<noteq> (v, obj)" if "(key, i) \<in> set (intents s)" "\<not> completed i" for key i
    using assms(3) that by (auto simp: pending_intent_def list_ex_iff)
  then have "intent_row_ok (set_applied v obj x s) key i" if "(key, i) \<in> set (intents s)" for key i
  proof -
    have "intent_row_ok s key i"
      using assms(1) that unfolding store_inv_def intents_inv_def by blast
    then show ?thesis
      using \<open>\<And>key i. (key, i) \<in> set (intents s) \<Longrightarrow> \<not> completed i \<Longrightarrow> key \<noteq> (v, obj)\<close>[OF that]
      by (auto simp: intent_row_ok_def f b)
  qed
  then have "intents_inv (set_applied v obj x s)"
    using assms(1) by (simp add: store_inv_def intents_inv_def f)
  then show ?thesis
    using assms(1, 2) by (simp add: store_inv_def rows_inv_def eligible_inv_def applied_inv_def fingerprints_inv_def
        incoming_inv_def f b m ids_def)
qed


lemma store_invD:
  assumes "store_inv digest raw s"
  shows "rows_inv digest s" "eligible_inv s" "applied_inv s" "fingerprints_inv raw s" "incoming_inv s" "intents_inv s"
  using assms by (simp_all add: store_inv_def)

text \<open>Changes of one table only.\<close>

lemma incoming_change:
  assumes "store_inv digest raw s" "incoming_inv (s\<lparr>incoming := is\<rparr>)"
  shows "store_inv digest raw (s\<lparr>incoming := is\<rparr>)"
proof -
  have i: "may_use (s\<lparr>incoming := is\<rparr>) = may_use s" "belongs (s\<lparr>incoming := is\<rparr>) = belongs s" "ids (s\<lparr>incoming := is\<rparr>) = ids s"
    by (simp_all add: may_use_def[abs_def] belongs_def[abs_def] ids_def)
  then have "rows_inv digest (s\<lparr>incoming := is\<rparr>) = rows_inv digest s" "eligible_inv (s\<lparr>incoming := is\<rparr>) = eligible_inv s"
    "applied_inv (s\<lparr>incoming := is\<rparr>) = applied_inv s" "fingerprints_inv raw (s\<lparr>incoming := is\<rparr>) = fingerprints_inv raw s"
    "intents_inv (s\<lparr>incoming := is\<rparr>) = intents_inv s"
    by (simp_all add: rows_inv_def eligible_inv_def applied_inv_def fingerprints_inv_def intents_inv_def intent_row_ok_def)
  then show ?thesis
    using assms by (simp add: store_inv_def)
qed

lemma intents_change:
  assumes "store_inv digest raw s" "intents_inv (s\<lparr>intents := js\<rparr>)"
  shows "store_inv digest raw (s\<lparr>intents := js\<rparr>)"
proof -
  have i: "may_use (s\<lparr>intents := js\<rparr>) = may_use s" "belongs (s\<lparr>intents := js\<rparr>) = belongs s" "ids (s\<lparr>intents := js\<rparr>) = ids s"
    by (simp_all add: may_use_def[abs_def] belongs_def[abs_def] ids_def)
  then have "rows_inv digest (s\<lparr>intents := js\<rparr>) = rows_inv digest s" "eligible_inv (s\<lparr>intents := js\<rparr>) = eligible_inv s"
    "applied_inv (s\<lparr>intents := js\<rparr>) = applied_inv s" "fingerprints_inv raw (s\<lparr>intents := js\<rparr>) = fingerprints_inv raw s"
    "incoming_inv (s\<lparr>intents := js\<rparr>) = incoming_inv s"
    by (simp_all add: rows_inv_def eligible_inv_def applied_inv_def fingerprints_inv_def incoming_inv_def)
  then show ?thesis
    using assms by (simp add: store_inv_def)
qed

lemma fingerprints_change:
  assumes "store_inv digest raw s" "fingerprints_inv raw (s\<lparr>fingerprints := hs\<rparr>)"
  shows "store_inv digest raw (s\<lparr>fingerprints := hs\<rparr>)"
proof -
  have i: "may_use (s\<lparr>fingerprints := hs\<rparr>) = may_use s" "belongs (s\<lparr>fingerprints := hs\<rparr>) = belongs s"
    "ids (s\<lparr>fingerprints := hs\<rparr>) = ids s"
    by (simp_all add: may_use_def[abs_def] belongs_def[abs_def] ids_def)
  then have "rows_inv digest (s\<lparr>fingerprints := hs\<rparr>) = rows_inv digest s"
    "eligible_inv (s\<lparr>fingerprints := hs\<rparr>) = eligible_inv s" "applied_inv (s\<lparr>fingerprints := hs\<rparr>) = applied_inv s"
    "incoming_inv (s\<lparr>fingerprints := hs\<rparr>) = incoming_inv s" "intents_inv (s\<lparr>fingerprints := hs\<rparr>) = intents_inv s"
    by (simp_all add: rows_inv_def eligible_inv_def applied_inv_def incoming_inv_def intents_inv_def intent_row_ok_def)
  then show ?thesis
    using assms by (simp add: store_inv_def)
qed

lemma sorted_distinct_adj: "sorted xs \<Longrightarrow> distinct_adj xs \<Longrightarrow> distinct (xs :: string list)"
  by (induction xs rule: induct_list012) (auto simp: order_antisym)

lemma cache_inv:
  assumes "store_inv digest raw s" "r \<in> set (revisions s)" "rid r = x" "h = raw (payload r)"
  shows "store_inv digest raw (cache_fingerprint x h s)"
proof -
  have "fingerprints_inv raw (s\<lparr>fingerprints := fingerprints s @ [(x, h)]\<rparr>)"
    using store_invD(4)[OF assms(1)] assms(2-4)
    by (auto simp: fingerprints_inv_def map_add_def split: option.splits if_splits)
  then show ?thesis
    using fingerprints_change[OF assms(1)] assms(1) by (simp add: cache_fingerprint_def)
qed

lemma payload_fingerprint_inv:
  assumes "store_inv digest raw s" "payload_fingerprint raw x s = Inr (h, s')"
  shows "store_inv digest raw s'" "\<exists>r \<in> set (revisions s). rid r = x \<and> h = raw (payload r)"
    "\<exists>hs. s' = s\<lparr>fingerprints := hs\<rparr>"
proof -
  note inv = store_invD[OF assms(1)] and rows = rows_invD[OF store_invD(1)[OF assms(1)]]
  have "store_inv digest raw s' \<and> (\<exists>r \<in> set (revisions s). rid r = x \<and> h = raw (payload r)) \<and> (\<exists>hs. s' = s\<lparr>fingerprints := hs\<rparr>)"
  proof (cases "map_of (fingerprints s) x")
    case None
    then obtain r where r: "find_revision s x = Some r" "h = raw (payload r)" "s' = cache_fingerprint x (raw (payload r)) s"
      using assms(2) by (auto simp: payload_fingerprint_def split: option.splits)
    then have "r \<in> set (revisions s)" "rid r = x"
      using find_revision_Some[OF rows(1)] by auto
    moreover have "\<exists>hs. s' = s\<lparr>fingerprints := hs\<rparr>"
      using r(3) None by (auto simp: cache_fingerprint_def)
    ultimately show ?thesis
      using r cache_inv[OF assms(1)] by auto
  next
    case (Some h')
    then have "h = h'" "s' = s"
      using assms(2) by (simp_all add: payload_fingerprint_def)
    then show ?thesis
      using Some inv(4) assms(1) by (auto simp: fingerprints_inv_def intro: exI[of _ "fingerprints s"])
  qed
  then show "store_inv digest raw s'" "\<exists>r \<in> set (revisions s). rid r = x \<and> h = raw (payload r)"
    "\<exists>hs. s' = s\<lparr>fingerprints := hs\<rparr>"
    by blast+
qed

lemma seal_revision_sealed:
  assumes "seal_revision digest r = Inr q"
  shows "sealed digest q" "parents q = remdups_adj (sort (parents r))" "payload q = payload r" "vault q = vault r"
    "object q = object r"
proof -
  have "distinct (remdups_adj (sort (parents r)))"
    by (intro sorted_distinct_adj) simp_all
  then show "sealed digest q" "parents q = remdups_adj (sort (parents r))" "payload q = payload r" "vault q = vault r"
    "object q = object r"
    using assms
    by (auto simp: seal_revision_def sealed_def validate_revision_def identity_def Let_def sorted_remdups_adj split: option.splits if_splits)
qed


lemma receive_inv:
  assumes inv: "store_inv digest raw s" and op: "receive_revision digest raw r s = Inr (b, s')"
  shows "store_inv digest raw s'"
    "\<not> b \<Longrightarrow> s' = s" "b \<Longrightarrow> sealed digest r \<and> rid r \<notin> ids s \<and> links s r \<and> s' = add_revision raw r s"
proof -
  note rows = rows_invD[OF store_invD(1)[OF inv]]
  obtain q where q: "seal_revision digest r = Inr q" "rid r = rid q" "parents r = parents q"
    using op by (auto simp: receive_revision_def split: sum.splits if_splits)
  have eq: "r = q"
    using q by (cases r; cases q) (auto simp: seal_revision_def Let_def split: option.splits)
  have "\<not> b \<and> s' = s \<or> b \<and> find_revision s (rid r) = None \<and> validate_parents s r (parents r) = None \<and>
      s' = add_revision raw r s"
    using op q by (auto simp: receive_revision_def add_revision_def split: if_splits option.splits)
  then have "\<not> b \<and> s' = s \<or> b \<and> sealed digest r \<and> rid r \<notin> ids s \<and> links s r \<and> s' = add_revision raw r s"
    using seal_revision_sealed(1)[OF q(1)] eq validate_parents_links[OF rows(1)]
    by (auto simp: find_revision_None links_def)
  then show "store_inv digest raw s'" "\<not> b \<Longrightarrow> s' = s"
    "b \<Longrightarrow> sealed digest r \<and> rid r \<notin> ids s \<and> links s r \<and> s' = add_revision raw r s"
    using inv add_inv[OF inv] by auto
qed

lemma discard_inv: "store_inv digest raw s \<Longrightarrow> store_inv digest raw (discard_receive x s)"
  unfolding discard_receive_def
proof (rule incoming_change)
  assume "store_inv digest raw s"
  then show "incoming_inv (s\<lparr>incoming := filter (\<lambda>i. rid (metadata i) \<noteq> x) (incoming s)\<rparr>)"
    using le_trans[OF length_filter_le]
    by (fastforce simp: store_inv_def incoming_inv_def list_all_iff distinct_map_filter)
qed assumption

lemma begin_receive_inv:
  assumes inv: "store_inv digest raw s" and op: "begin_receive encoded r full s = Inr (n, s')"
  shows "store_inv digest raw s'"
proof -
  consider "s' = s" | "s' = discard_receive (rid r) s"
    | "find_incoming s (rid r) = None" "validate_revision r = None" "payload r = []" "digest_id (rid r)" "sorted (parents r)"
      "distinct_adj (parents r)" "deleted r \<longrightarrow> full = 0" "full \<le> 512 * 1024 * 1024" "length (incoming s) < 32"
      "s' = s\<lparr>incoming := incoming s @ [\<lparr>metadata = r, buffer = replicate full (CHR 0x00), received = 0\<rparr>]\<rparr>"
    using op by (auto simp: begin_receive_def split: option.splits if_splits)
  then show ?thesis
  proof cases
    case 3
    then have "rid r \<notin> (\<lambda>i. rid (metadata i)) ` set (incoming s)"
      by (auto simp: find_incoming_def find_None_iff)
    then have "incoming_inv s'"
      using 3 store_invD(5)[OF inv] sorted_distinct_adj[of "parents r"]
      by (auto simp: incoming_inv_def incoming_ok_def)
    then show ?thesis
      using 3(10) incoming_change[OF inv] by simp
  qed (use inv discard_inv in auto)
qed

lemma find_incoming_in:
  "find_incoming s x = Some i \<Longrightarrow> i \<in> set (incoming s) \<and> rid (metadata i) = x"
  by (auto simp: find_incoming_def find_Some_iff)

lemma metadata_write_chunk: "metadata (write_chunk x offset bytes i) = metadata i"
  by (simp add: write_chunk_def)

lemma receive_chunk_inv:
  assumes inv: "store_inv digest raw s" and op: "receive_chunk x offset bytes s = Inr (n, s')"
  shows "store_inv digest raw s'"
proof -
  note inc = store_invD(5)[OF inv]
  obtain i where i: "find_incoming s x = Some i" "offset = received i" "length bytes \<le> length (buffer i) - offset"
    "offset \<le> length (buffer i)" "s' = s\<lparr>incoming := map (write_chunk x offset bytes) (incoming s)\<rparr>"
    using op by (auto simp: receive_chunk_def Let_def split: option.splits if_splits)
  have only: "j = i" if "j \<in> set (incoming s)" "rid (metadata j) = x" for j
    using that find_incoming_in[OF i(1)] inc by (auto simp: incoming_inv_def distinct_map dest: inj_onD)
  have ok: "incoming_ok i"
    using find_incoming_in[OF i(1)] inc by (auto simp: incoming_inv_def list_all_iff)
  then have "incoming_ok (write_chunk x offset bytes i)"
    using i(3, 4) by (auto simp: incoming_ok_def write_chunk_def)
  then have "list_all incoming_ok (map (write_chunk x offset bytes) (incoming s))"
    using inc only by (auto simp: list_all_iff incoming_inv_def write_chunk_def split: if_splits)
  then have "incoming_inv s'"
    using inc unfolding i(5) incoming_inv_def by (simp add: o_def metadata_write_chunk)
  then show ?thesis
    using incoming_change[OF inv] i(5) by simp
qed


lemma add_revision_order:
  "admit_revision (rid r) (insert_parents r (cache_fingerprint (rid r) (raw (payload r)) (insert_revision r s))) = add_revision raw r s"
  by (cases s) (simp add: add_revision_def admit_revision_def insert_parents_def cache_fingerprint_def insert_revision_def
      find_revision_def parents_eligible_def eligible_def)

lemma add_root_order:
  "parents r = [] \<Longrightarrow>
   cache_fingerprint (rid r) (raw (payload r)) (admit_revision (rid r) (insert_revision r s)) = add_revision raw r s"
  by (simp add: add_revision_def insert_parents_def insert_revision_def)

lemma finish_receive_inv:
  assumes inv: "store_inv digest raw s" and op: "finish_receive digest raw x s = Inr (b, s')"
  shows "store_inv digest raw s'" "\<not> b \<Longrightarrow> s' = discard_receive x s"
    "b \<Longrightarrow> \<exists>i r. find_incoming s x = Some i \<and> received i = length (buffer i) \<and> r = (metadata i)\<lparr>payload := buffer i\<rparr> \<and>
       rid r = x \<and> sealed digest r \<and> rid r \<notin> ids s \<and> links s r \<and> s' = discard_receive x (add_revision raw r s)"
proof -
  note rows = rows_invD[OF store_invD(1)[OF inv]] and inc = store_invD(5)[OF inv]
  have "(b \<longrightarrow> (\<exists>i r. find_incoming s x = Some i \<and> received i = length (buffer i) \<and> r = (metadata i)\<lparr>payload := buffer i\<rparr> \<and>
       rid r = x \<and> sealed digest r \<and> rid r \<notin> ids s \<and> links s r \<and> s' = discard_receive x (add_revision raw r s))) \<and>
     (\<not> b \<longrightarrow> s' = discard_receive x s)"
  proof (cases "find_revision s x")
    case None
    then obtain i where i: "find_incoming s x = Some i" "received i = length (buffer i)"
      using op by (auto simp: finish_receive_def split: option.splits if_splits)
    define r where "r = (metadata i)\<lparr>payload := buffer i\<rparr>"
    have m: "i \<in> set (incoming s)" "rid r = x"
      using find_incoming_in[OF i(1)] by (simp_all add: r_def)
    have "b \<and> validate_parents s r (parents r) = None \<and> identity digest r = x \<and> s' = discard_receive x (admit_revision x
        (insert_parents r (cache_fingerprint x (raw (buffer i)) (insert_revision r s))))"
      using op None i unfolding finish_receive_def r_def Let_def by (auto split: option.splits if_splits)
    then have 1: "b" "links s r" "identity digest r = x" "s' = discard_receive x (add_revision raw r s)"
      using validate_parents_links[OF rows(1)] add_revision_order[of r raw s] m(2) by (simp_all add: links_def r_def)
    have "incoming_ok i"
      using inc m(1) by (simp add: incoming_inv_def list_all_iff)
    then have "sealed digest r"
      using 1(3) m(2) by (auto simp: sealed_def incoming_ok_def r_def validate_revision_def split: if_splits)
    then show ?thesis
      using 1 i m(2) None find_revision_None[of s x] r_def by auto
  next
    case (Some q)
    then show ?thesis
      using op by (simp add: finish_receive_def)
  qed
  then show "store_inv digest raw s'" "\<not> b \<Longrightarrow> s' = discard_receive x s"
    "b \<Longrightarrow> \<exists>i r. find_incoming s x = Some i \<and> received i = length (buffer i) \<and> r = (metadata i)\<lparr>payload := buffer i\<rparr> \<and>
       rid r = x \<and> sealed digest r \<and> rid r \<notin> ids s \<and> links s r \<and> s' = discard_receive x (add_revision raw r s)"
    using discard_inv[OF add_inv[OF inv]] discard_inv[OF inv] by (cases b; blast)+
qed

text \<open>No two of the contents that occur have the same hash.\<close>

definition contents :: "revision_store \<Rightarrow> revision set" where
  "contents s = (\<lambda>r. r\<lparr>rid := []\<rparr>) ` set (revisions s)"

lemma content_unique:
  assumes "inj_on digest U" "contents s \<subseteq> U" "value\<lparr>rid := []\<rparr> \<in> U" "rows_inv digest s"
    "q \<in> set (revisions s)" "rid q = identity digest value"
  shows "q = value\<lparr>rid := rid q\<rparr>"
proof -
  have "digest (q\<lparr>rid := []\<rparr>) = digest (value\<lparr>rid := []\<rparr>)"
    using assms(4-6) by (auto simp: rows_inv_def sealed_def identity_def)
  moreover have "q\<lparr>rid := []\<rparr> \<in> U"
    using assms(2, 5) by (auto simp: contents_def)
  ultimately have "q\<lparr>rid := []\<rparr> = value\<lparr>rid := []\<rparr>"
    using assms(1, 3) by (auto dest: inj_onD)
  then show ?thesis
    by (cases q; cases "value") simp
qed

lemma capture_insert_inv:
  assumes inv: "store_inv digest raw s" and u: "inj_on digest U" "contents s \<subseteq> U" "value\<lparr>rid := []\<rparr> \<in> U"
    and v: "validate_revision value = None" "parents value = [] \<or> (\<exists>x. parents value = [x] \<and> belongs s (vault value, object value) x)"
    and p: "\<not> pending_intent s (vault value) (object value)"
    and op: "capture_insert digest raw value s = (y, s')"
  shows "store_inv digest raw s'" "y = Some (identity digest value)"
    "applied_rows s' = AList.update (vault value, object value) (identity digest value) (applied_rows s)"
    "parent_of s \<subseteq> parent_of s'" "\<forall>x \<in> set (parents value). (identity digest value, x) \<in> parent_of s'"
    "incoming s' = incoming s" "intents s' = intents s"
proof -
  note rows = rows_invD[OF store_invD(1)[OF inv]] and el = store_invD(2)[OF inv]
  define r where "r = value\<lparr>rid := identity digest value\<rparr>"
  have id: "identity digest r = identity digest value"
    by (simp add: r_def identity_def)
  have sealed: "sealed digest r"
    using v by (auto simp: sealed_def r_def identity_def validate_revision_def split: if_splits)
  have fields: "rid r = identity digest value" "vault r = vault value" "object r = object value" "parents r = parents value"
    by (simp_all add: r_def)
  have links: "links s r"
    using v(2) by (auto simp: links_def fields belongs_def)
  let ?key = "(vault value, object value)"
  have use: "may_use s r" "set (parents r) \<subseteq> set (eligibles s)"
    using v(2) by (auto simp: may_use_def fields belongs_def)
  define s1 where "s1 = (if list_ex (\<lambda>q. vault q = vault r \<and> rid q = identity digest value) (revisions s) then s
      else add_revision raw r s)"
  have s1: "store_inv digest raw s1 \<and> belongs s1 ?key (identity digest value) \<and> applied_rows s1 = applied_rows s \<and>
      intents s1 = intents s \<and> incoming s1 = incoming s \<and> parent_of s \<subseteq> parent_of s1 \<and>
      (\<forall>x \<in> set (parents value). (identity digest value, x) \<in> parent_of s1)"
  proof (cases "identity digest value \<in> ids s")
    case True
    then obtain q where q: "q \<in> set (revisions s)" "rid q = identity digest value"
      by (auto simp: ids_def)
    have "q = r"
      using content_unique[OF u(1, 2, 3) store_invD(1)[OF inv] q] q(2) by (simp add: r_def)
    then have "s1 = s" "r \<in> set (revisions s)"
      using q by (auto simp: s1_def list_ex_iff)
    moreover have "rid r \<in> set (eligibles s)"
      using el use \<open>r \<in> set (revisions s)\<close> unfolding eligible_inv_def by blast
    ultimately show ?thesis
      using inv rows(4) fields by (auto simp: belongs_def in_edges_of)
  next
    case False
    then have n: "rid r \<notin> ids s"
      by (simp add: fields)
    have "s1 = add_revision raw r s"
      using False by (auto simp: s1_def list_ex_iff ids_def image_iff)
    moreover have "rid r \<notin> set (eligibles s)"
      using n eligibles_ids[OF el] by auto
    ultimately show ?thesis
      using add_inv[OF inv sealed n links] add_fields[OF store_invD(1)[OF inv] sealed n links, of raw] use fields
      by (auto simp: belongs_def)
  qed
  have y: "y = Some (identity digest value)" and s': "s' = set_applied (vault value) (object value) (identity digest value) s1"
    using op unfolding capture_insert_def Let_def s1_def r_def add_revision_def by auto
  have np: "\<not> pending_intent s1 (vault value) (object value)"
    using p s1 by (simp add: pending_intent_def)
  show "store_inv digest raw s'"
    using set_applied_inv[OF conjunct1[OF s1] _ np] s1 s' by blast
  show "y = Some (identity digest value)"
    "applied_rows s' = AList.update (vault value, object value) (identity digest value) (applied_rows s)"
    "parent_of s \<subseteq> parent_of s'" "\<forall>x \<in> set (parents value). (identity digest value, x) \<in> parent_of s'"
    "incoming s' = incoming s" "intents s' = intents s"
    using y s1 by (simp_all add: s' set_applied_def)
qed


text \<open>A step keeps what was received, and an applied revision is replaced only by one made from it.\<close>

definition advances :: "revision_store \<Rightarrow> revision_store \<Rightarrow> bool" where
  "advances s s' \<longleftrightarrow> set (revisions s) \<subseteq> set (revisions s') \<and> parent_of s \<subseteq> parent_of s' \<and>
     set (eligibles s) \<subseteq> set (eligibles s') \<and>
     (\<forall>key x. map_of (applied_rows s) key = Some x \<longrightarrow>
        (\<exists>y. map_of (applied_rows s') key = Some y \<and> (y, x) \<in> (parent_of s')\<^sup>*))"

lemma advances_refl: "advances s s"
  by (auto simp: advances_def)

lemma advances_trans:
  assumes "advances s s'" "advances s' s''"
  shows "advances s s''"
proof -
  have p: "(parent_of s')\<^sup>* \<subseteq> (parent_of s'')\<^sup>*"
    using assms(2) by (auto simp: advances_def intro!: rtrancl_mono)
  show ?thesis
    unfolding advances_def
  proof (intro conjI allI impI)
    fix key x
    assume "map_of (applied_rows s) key = Some x"
    then obtain y where y: "map_of (applied_rows s') key = Some y" "(y, x) \<in> (parent_of s')\<^sup>*"
      using assms(1) unfolding advances_def by blast
    then obtain z where "map_of (applied_rows s'') key = Some z" "(z, y) \<in> (parent_of s'')\<^sup>*"
      using assms(2) unfolding advances_def by blast
    then show "\<exists>z. map_of (applied_rows s'') key = Some z \<and> (z, x) \<in> (parent_of s'')\<^sup>*"
      using y(2) p by (auto intro: rtrancl_trans)
  qed (use assms in \<open>auto simp: advances_def\<close>)
qed

lemma same_tables_advance:
  assumes "revisions s' = revisions s" "edges s' = edges s" "eligibles s' = eligibles s" "applied_rows s' = applied_rows s"
  shows "advances s s'"
  using assms by (auto simp: advances_def)

lemma add_advances:
  assumes "store_inv digest raw s" "sealed digest r" "rid r \<notin> ids s" "links s r"
  shows "advances s (add_revision raw r s)"
  using add_fields[OF store_invD(1)[OF assms(1)] assms(2-4), of raw] by (auto simp: advances_def)

lemma discard_advances: "advances s (discard_receive x s)"
  by (rule same_tables_advance) (simp_all add: discard_receive_def)

lemma set_applied_advances:
  assumes "\<And>y. map_of (applied_rows s) (v, obj) = Some y \<Longrightarrow> (x, y) \<in> (parent_of s)\<^sup>*"
  shows "advances s (set_applied v obj x s)"
  using assms by (auto simp: advances_def set_applied_def update_conv')

lemma receive_advances:
  assumes "store_inv digest raw s" "receive_revision digest raw r s = Inr (b, s')"
  shows "advances s s'"
  using receive_inv[OF assms] add_advances[OF assms(1)] advances_refl by (cases b) auto

lemma finish_receive_advances:
  assumes "store_inv digest raw s" "finish_receive digest raw x s = Inr (b, s')"
  shows "advances s s'"
proof (cases b)
  case True
  then obtain r where "sealed digest r" "rid r \<notin> ids s" "links s r" "s' = discard_receive x (add_revision raw r s)"
    using finish_receive_inv(3)[OF assms] by blast
  then show ?thesis
    using add_advances[OF assms(1)] advances_trans discard_advances by blast
next
  case False
  then show ?thesis
    using finish_receive_inv(2)[OF assms] discard_advances by simp
qed

lemma begin_receive_advances:
  assumes "begin_receive encoded r full s = Inr (n, s')"
  shows "advances s s'"
  using assms by (intro same_tables_advance)
    (auto simp: begin_receive_def discard_receive_def split: option.splits if_splits)

lemma receive_chunk_advances:
  assumes "receive_chunk x offset bytes s = Inr (n, s')"
  shows "advances s s'"
  using assms by (intro same_tables_advance) (auto simp: receive_chunk_def Let_def split: option.splits if_splits)

lemma belongs_applied: "store_inv digest raw s \<Longrightarrow> applied_revision s v obj = Some x \<Longrightarrow> belongs s (v, obj) x"
  by (simp add: store_inv_def applied_inv_def applied_revision_def)

lemma capture_insert_advances:
  assumes "store_inv digest raw s" "inj_on digest U" "contents s \<subseteq> U" "value\<lparr>rid := []\<rparr> \<in> U"
    "validate_revision value = None" "parents value = [] \<or> (\<exists>x. parents value = [x] \<and> belongs s (vault value, object value) x)"
    "\<not> pending_intent s (vault value) (object value)" "capture_insert digest raw value s = (y, s')"
    and a: "applied_revision s (vault value) (object value) = (case parents value of [] \<Rightarrow> None | x # xs \<Rightarrow> Some x)"
  shows "advances s s'"
proof -
  note c = capture_insert_inv[OF assms(1-8)]
  define x where "x = identity digest value"
  have rows: "set (revisions s) \<subseteq> set (revisions s')" "set (eligibles s) \<subseteq> set (eligibles s')"
  proof -
    have "s' = set_applied (vault value) (object value) x (if list_ex (\<lambda>q. vault q = vault value \<and> rid q = x) (revisions s) then s
        else add_revision raw (value\<lparr>rid := x\<rparr>) s)"
      using assms(8) by (auto simp: capture_insert_def Let_def x_def add_revision_def)
    then show "set (revisions s) \<subseteq> set (revisions s')" "set (eligibles s) \<subseteq> set (eligibles s')"
      by (auto simp: set_applied_def add_revision_def cache_fields admit_revision_def insert_parents_def insert_revision_def)
  qed
  have m: "map_of (applied_rows s') = (map_of (applied_rows s))((vault value, object value) \<mapsto> x)"
    using c(3) by (simp add: x_def update_conv')
  show ?thesis
    unfolding advances_def
  proof (intro conjI allI impI rows c(4))
    fix key y
    assume y: "map_of (applied_rows s) key = Some y"
    show "\<exists>z. map_of (applied_rows s') key = Some z \<and> (z, y) \<in> (parent_of s')\<^sup>*"
    proof (cases "key = (vault value, object value)")
      case True
      then have "y \<in> set (parents value)"
        using y a by (auto simp: applied_revision_def split: list.splits)
      then show ?thesis
        using True c(5) m by (auto simp: x_def)
    next
      case False
      then show ?thesis
        using y m by auto
    qed
  qed
qed

text \<open>What is needed of the hash: on the contents that occur it is injective and gives hexadecimal digests.\<close>

definition hash_ok :: "(revision \<Rightarrow> string) \<Rightarrow> revision set \<Rightarrow> bool" where
  "hash_ok digest U \<longleftrightarrow> inj_on digest U \<and> (\<forall>r \<in> U. digest_id (digest r))"

lemma hash_ok_id:
  "hash_ok digest U \<Longrightarrow> contents s \<subseteq> U \<Longrightarrow> rows_inv digest s \<Longrightarrow> x \<in> ids s \<Longrightarrow> digest_id x"
  by (auto simp: hash_ok_def contents_def rows_inv_def sealed_def identity_def ids_def)

definition with_parent :: "revision \<Rightarrow> string option \<Rightarrow> revision" where
  "with_parent snapshot expected = snapshot\<lparr>parents := (case expected of None \<Rightarrow> [] | Some x \<Rightarrow> [x])\<rparr>"

lemma capture_saved_cases:
  assumes inv: "store_inv digest raw s" and op: "capture_saved digest raw snapshot expected predecessor s = Inr (y, s')"
  obtains (Same) hs where "s' = s\<lparr>fingerprints := hs\<rparr>" "store_inv digest raw s'"
    | (Insert) hs t where "t = s\<lparr>fingerprints := hs\<rparr>" "store_inv digest raw t"
        "rid snapshot = []" "validate_revision snapshot = None"
        "applied_revision s (vault snapshot) (object snapshot) = expected"
        "\<not> pending_intent s (vault snapshot) (object snapshot)"
        "capture_insert digest raw (with_parent snapshot expected) t = (y, s')"
proof -
  have s: "s = s\<lparr>fingerprints := fingerprints s\<rparr>"
    by simp
  have pre: "rid snapshot = []" "parents snapshot = []" "validate_revision snapshot = None"
    using op by (auto simp: capture_saved_def split: option.splits if_splits)
  show ?thesis
  proof (cases "applied_revision s (vault snapshot) (object snapshot) = expected")
    case False
    then have "s' = s"
      using op by (auto simp: capture_saved_def split: option.splits if_splits)
    then show ?thesis
      using Same s inv by metis
  next
    case True
    then have idle: "\<not> pending_intent s (vault snapshot) (object snapshot)"
      using op by (auto simp: capture_saved_def split: option.splits if_splits)
    show ?thesis
    proof (cases expected)
      case None
      have "with_parent snapshot None = snapshot"
        using pre(2) by (simp add: with_parent_def)
      then have "capture_insert digest raw (with_parent snapshot expected) s = (y, s')"
        using op pre True idle None by (auto simp: capture_saved_def split: if_splits)
      then show ?thesis
        using Insert[OF s inv pre(1, 3) True idle] by blast
    next
      case (Some x)
      obtain prior where prior: "find_revision s x = Some prior"
        using op pre True idle Some by (auto simp: capture_saved_def split: if_splits option.splits)
      have w: "with_parent snapshot expected = snapshot\<lparr>parents := [x]\<rparr>"
        by (simp add: with_parent_def Some)
      consider "s' = s" | "capture_insert digest raw (snapshot\<lparr>parents := [x]\<rparr>) s = (y, s')"
        | h t where "payload_fingerprint raw x s = Inr (h, t)"
            "s' = t \<or> capture_insert digest raw (snapshot\<lparr>parents := [x]\<rparr>) t = (y, s')"
        using op pre True idle Some prior
        by (auto simp: capture_saved_def split: if_splits option.splits sum.splits)
      then show ?thesis
      proof cases
        case 1
        then show ?thesis
          using Same s inv by metis
      next
        case 2
        then show ?thesis
          using Insert[OF s inv pre(1, 3) True idle] w by simp
      next
        case 3
        then obtain hs where t: "t = s\<lparr>fingerprints := hs\<rparr>" "store_inv digest raw t"
          using payload_fingerprint_inv[OF inv] by blast
        then show ?thesis
          using 3(2) Same Insert[OF t pre(1, 3) True idle] w by metis
      qed
    qed
  qed
qed

lemma capture_saved_step:
  assumes inv: "store_inv digest raw s" and u: "hash_ok digest U" "contents s \<subseteq> U" "with_parent snapshot expected \<in> U"
    and op: "capture_saved digest raw snapshot expected predecessor s = Inr (y, s')"
  shows "store_inv digest raw s' \<and> advances s s'"
  using inv op
proof (cases rule: capture_saved_cases)
  case (Same hs)
  then show ?thesis
    by (auto intro: same_tables_advance)
next
  case (Insert hs t)
  let ?v = "with_parent snapshot expected"
  have f: "rid ?v = rid snapshot" "vault ?v = vault snapshot" "object ?v = object snapshot"
    "parents ?v = (case expected of None \<Rightarrow> [] | Some x \<Rightarrow> [x])"
    by (simp_all add: with_parent_def)
  have t: "contents t \<subseteq> U" "\<not> pending_intent t (vault ?v) (object ?v)"
    "applied_revision t (vault ?v) (object ?v) = (case parents ?v of [] \<Rightarrow> None | x # xs \<Rightarrow> Some x)"
    using u(2) Insert(1, 5, 6) by (auto simp: f contents_def pending_intent_def applied_revision_def split: option.splits)
  have v: "?v\<lparr>rid := []\<rparr> \<in> U"
    using u(3) Insert(3) f(1) by (cases ?v) simp
  have b: "belongs t (vault ?v, object ?v) x" if "expected = Some x" for x
    using belongs_applied[OF Insert(2), of "vault ?v" "object ?v" x] that t(3) f(4) by simp
  then have p: "parents ?v = [] \<or> (\<exists>x. parents ?v = [x] \<and> belongs t (vault ?v, object ?v) x)"
    using f(4) by (cases expected) auto
  have "digest_id x" if "expected = Some x" for x
    using b[OF that] hash_ok_id[OF u(1) t(1) store_invD(1)[OF Insert(2)]] by (auto simp: belongs_def ids_def)
  then have ok: "validate_revision ?v = None"
    using Insert(4) by (auto simp: validate_revision_def with_parent_def split: option.splits if_splits)
  have "inj_on digest U"
    using u(1) by (simp add: hash_ok_def)
  then have "store_inv digest raw s' \<and> advances t s'"
    using capture_insert_inv(1)[OF Insert(2) _ t(1) v ok p t(2) Insert(7)]
      capture_insert_advances[OF Insert(2) _ t(1) v ok p t(2) Insert(7) t(3)] by blast
  moreover have "advances s t"
    using Insert(1) by (auto intro: same_tables_advance)
  ultimately show ?thesis
    using advances_trans by blast
qed


subsection \<open>Approving a resolution\<close>

text \<open>
  An approval makes a merge eligible, and with it descendants that were received before. They
  are considered in the order of their receipt, in which parents come first.
\<close>

lemma admit_fields: "revisions (admit_revision x s) = revisions s" "edges (admit_revision x s) = edges s"
  "approvals (admit_revision x s) = approvals s" "applied_rows (admit_revision x s) = applied_rows s"
  "fingerprints (admit_revision x s) = fingerprints s" "incoming (admit_revision x s) = incoming s"
  "intents (admit_revision x s) = intents s"
  by (simp_all add: admit_revision_def)

lemma fold_admit_fields: "revisions (fold admit_revision xs s) = revisions s" "edges (fold admit_revision xs s) = edges s"
  "approvals (fold admit_revision xs s) = approvals s" "applied_rows (fold admit_revision xs s) = applied_rows s"
  "fingerprints (fold admit_revision xs s) = fingerprints s" "incoming (fold admit_revision xs s) = incoming s"
  "intents (fold admit_revision xs s) = intents s"
  by (induction xs arbitrary: s) (simp_all add: admit_fields)

lemma admit_eligibles: "set (eligibles s) \<subseteq> set (eligibles (admit_revision x s))"
  "set (eligibles (admit_revision x s)) \<subseteq> insert x (set (eligibles s))"
  by (auto simp: admit_revision_def)

lemma fold_admit_eligibles: "set (eligibles s) \<subseteq> set (eligibles (fold admit_revision xs s))"
  "set (eligibles (fold admit_revision xs s)) \<subseteq> set (eligibles s) \<union> set xs"
proof (induction xs arbitrary: s)
  case (Cons x xs)
  {
    case 1
    show ?case
      using admit_eligibles(1)[of s x] Cons(1)[of "admit_revision x s"] by simp
  next
    case 2
    show ?case
      using admit_eligibles(2)[of x s] Cons(2)[of "admit_revision x s"] by auto
  }
qed simp_all

definition justified :: "revision_store \<Rightarrow> string \<Rightarrow> bool" where
  "justified s x \<longleftrightarrow> (\<exists>r \<in> set (revisions s). rid r = x \<and> may_use s r \<and> set (parents r) \<subseteq> set (eligibles s))"

lemma eligible_inv_iff:
  "eligible_inv s \<longleftrightarrow> fst ` set (approvals s) \<subseteq> ids s \<and> (\<forall>x. x \<in> set (eligibles s) \<longleftrightarrow> justified s x)"
proof -
  have "set (eligibles s) = {rid r | r. r \<in> set (revisions s) \<and> may_use s r \<and> set (parents r) \<subseteq> set (eligibles s)} \<longleftrightarrow>
      (\<forall>x. x \<in> set (eligibles s) \<longleftrightarrow> justified s x)"
    unfolding set_eq_iff mem_Collect_eq justified_def by (intro all_cong1) metis
  then show ?thesis
    by (simp add: eligible_inv_def)
qed

lemma admit_justified:
  assumes "rows_inv digest s" "\<forall>x \<in> set (eligibles s). justified s x" "r \<in> set (revisions s)"
  shows "\<forall>x \<in> set (eligibles (admit_revision (rid r) s)). justified (admit_revision (rid r) s) x"
proof -
  have mono: "justified (s\<lparr>eligibles := eligibles s @ xs\<rparr>) x" if "justified s x" for x xs
    using that by (fastforce simp: justified_def may_use_def)
  have "justified s (rid r)" if "may_use s r" "set (parents r) \<subseteq> set (eligibles s)"
    using that assms(3) by (auto simp: justified_def)
  then show ?thesis
    using assms(2) mono[of _ "[rid r]"] by (auto simp: admit_condition[OF assms(1, 3)])
qed

lemma rows_inv_cong: "revisions s' = revisions s \<Longrightarrow> edges s' = edges s \<Longrightarrow> rows_inv digest s' = rows_inv digest s"
  by (simp add: rows_inv_def)

lemma fold_admit_justified:
  assumes "rows_inv digest s" "\<forall>x \<in> set (eligibles s). justified s x" "set xs \<subseteq> ids s"
  shows "\<forall>x \<in> set (eligibles (fold admit_revision xs s)). justified (fold admit_revision xs s) x"
  using assms
proof (induction xs arbitrary: s)
  case (Cons x xs)
  then obtain r where r: "r \<in> set (revisions s)" "rid r = x"
    by (auto simp: ids_def)
  have "rows_inv digest (admit_revision x s)" "set xs \<subseteq> ids (admit_revision x s)"
    using Cons.prems by (auto simp: rows_inv_cong[of "admit_revision x s" s] admit_fields ids_def)
  then show ?case
    using Cons.IH admit_justified[OF Cons.prems(1, 2) r(1)] r(2) by simp
qed simp

lemma admitted_in_order:
  assumes rows: "rows_inv digest s" and r: "r \<in> set (revisions s)" "rid r \<in> D" "may_use s r"
    and xs: "xs = filter (\<lambda>y. y \<in> D) (map rid (revisions s))"
    and p: "set (parents r) \<subseteq> set (eligibles (fold admit_revision xs s))"
  shows "rid r \<in> set (eligibles (fold admit_revision xs s))"
proof -
  note rd = rows_invD[OF rows]
  obtain as bs where rs: "revisions s = as @ r # bs"
    using r(1) by (auto dest: split_list)
  define ys where "ys = filter (\<lambda>y. y \<in> D) (map rid as)"
  define zs where "zs = filter (\<lambda>y. y \<in> D) (map rid bs)"
  have xs': "xs = ys @ rid r # zs"
    using r(2) by (simp add: xs rs ys_def zs_def)
  let ?t = "fold admit_revision ys s"
  have "set (parents r) \<subseteq> set (eligibles ?t)"
  proof
    fix x
    assume x: "x \<in> set (parents r)"
    then obtain q where "q \<in> set as" "rid q = x"
      using linked_prefix rd(3) rs by metis
    then have "x \<in> rid ` set as"
      by blast
    moreover have "rid ` set as \<inter> insert (rid r) (rid ` set bs) = {}"
      using rd(1) by (auto simp: rs)
    moreover have "set (rid r # zs) \<subseteq> insert (rid r) (rid ` set bs)"
      by (auto simp: zs_def)
    ultimately have "x \<notin> set (rid r # zs)"
      by blast
    moreover have "x \<in> set (eligibles (fold admit_revision (rid r # zs) ?t))"
      using p x by (auto simp: xs')
    ultimately show "x \<in> set (eligibles ?t)"
      using fold_admit_eligibles(2)[of "rid r # zs" ?t] by blast
  qed
  moreover have "rows_inv digest ?t" "r \<in> set (revisions ?t)" "may_use ?t r"
    using rows r(1, 3) by (simp_all add: rows_inv_def may_use_def fold_admit_fields)
  ultimately have "rid r \<in> set (eligibles (admit_revision (rid r) ?t))"
    by (auto simp: admit_condition)
  then show ?thesis
    using fold_admit_eligibles(1)[of "admit_revision (rid r) ?t" zs] by (auto simp: xs')
qed

lemma accept_resolution_step:
  assumes inv: "store_inv digest raw s" and op: "accept_resolution derive verify pin secret envelope x s = Inr (b, s')"
  shows "store_inv digest raw s' \<and> advances s s'"
proof (cases "b")
  case False
  then have "s' = s"
    using op by (auto simp: accept_resolution_def Let_def split: option.splits sum.splits if_splits)
  then show ?thesis
    using inv advances_refl by simp
next
  case True
  note rows = store_invD(1)[OF inv] and el = store_invD(2)[OF inv] and rd = rows_invD[OF store_invD(1)[OF inv]]
  define s1 where "s1 = (if map_of (approvals s) x = None then s\<lparr>approvals := approvals s @ [(x, envelope)]\<rparr> else s)"
  define D where "D = set (descendants s1 x)"
  define xs where "xs = filter (\<lambda>y. y \<in> D) (map rid (revisions s1))"
  have s': "s' = fold admit_revision xs s1"
    using op True unfolding accept_resolution_def s1_def xs_def D_def Let_def
    by (auto split: option.splits sum.splits if_splits)
  have "find_revision s x \<noteq> None"
    using op by (auto simp: accept_resolution_def offer_def split: option.splits)
  then have x: "x \<in> ids s"
    by (simp add: find_revision_None)
  have f: "revisions s1 = revisions s" "edges s1 = edges s" "eligibles s1 = eligibles s" "applied_rows s1 = applied_rows s"
    "fingerprints s1 = fingerprints s" "incoming s1 = incoming s" "intents s1 = intents s" "ids s1 = ids s"
    by (simp_all add: s1_def ids_def)
  have f': "revisions s' = revisions s" "edges s' = edges s" "applied_rows s' = applied_rows s" "approvals s' = approvals s1"
    "fingerprints s' = fingerprints s" "incoming s' = incoming s" "intents s' = intents s" "ids s' = ids s"
    using f by (simp_all add: s' fold_admit_fields ids_def)
  have rows1: "rows_inv digest s1"
    using rows f rows_inv_cong by metis
  have sub: "set (eligibles s) \<subseteq> set (eligibles s')"
    using fold_admit_eligibles(1)[of s1 xs] f by (simp add: s')
  have use: "may_use s r \<Longrightarrow> may_use s1 r" "rid r \<noteq> x \<Longrightarrow> may_use s1 r = may_use s r" for r
    by (auto simp: may_use_def s1_def map_add_def split: option.splits)
  have use': "may_use s' = may_use s1"
    by (simp add: may_use_def[abs_def] f')
  have "\<forall>y \<in> set (eligibles s1). justified s1 y"
    using el use(1) unfolding eligible_inv_iff justified_def f by blast
  then have sound: "\<forall>y \<in> set (eligibles s'). justified s' y"
    unfolding s' by (rule fold_admit_justified[OF rows1]) (auto simp: xs_def ids_def)
  have complete: "rid r \<in> set (eligibles s')" if r: "r \<in> set (revisions s)" "may_use s' r" "set (parents r) \<subseteq> set (eligibles s')" for r
  proof (cases "rid r \<in> D")
    case True
    then show ?thesis
      using admitted_in_order[OF rows1 _ True _ xs_def] r by (simp add: s' f use'[unfolded s'])
  next
    case False
    have D: "y \<in> D \<longleftrightarrow> (y, x) \<in> (parent_of s)\<^sup>*" for y
      by (simp add: D_def set_descendants f)
    have "set (parents r) \<inter> D = {}"
    proof (rule ccontr)
      assume "set (parents r) \<inter> D \<noteq> {}"
      then obtain p where p: "p \<in> set (parents r)" "(p, x) \<in> (parent_of s)\<^sup>*"
        by (auto simp: D)
      have "(rid r, p) \<in> parent_of s"
        using p(1) r(1) rd(4) by (auto simp: in_edges_of)
      then show False
        using p(2) False by (auto simp: D intro: converse_rtrancl_into_rtrancl)
    qed
    moreover have "set (eligibles s') \<subseteq> set (eligibles s) \<union> D"
      using fold_admit_eligibles(2)[of xs s1] by (auto simp: s' f xs_def)
    ultimately have "set (parents r) \<subseteq> set (eligibles s)"
      using r(3) by blast
    moreover have "rid r \<noteq> x"
      using False by (auto simp: D)
    then have "may_use s r"
      using r(2) use(2) by (simp add: use')
    ultimately show ?thesis
      using el sub r(1) unfolding eligible_inv_iff justified_def by blast
  qed
  have "eligible_inv s'"
    unfolding eligible_inv_iff
  proof (intro conjI allI)
    show "fst ` set (approvals s') \<subseteq> ids s'"
      using el x unfolding f' by (auto simp: s1_def eligible_inv_def)
    show "y \<in> set (eligibles s') \<longleftrightarrow> justified s' y" for y
      using sound complete unfolding justified_def f'(1) by blast
  qed
  moreover have b: "belongs s' key y" if "belongs s key y" for key y
    using belongs_mono[OF that] sub by (simp add: f')
  have "intents_inv s'"
    using store_invD(6)[OF inv] b unfolding intents_inv_def intent_row_ok_def f'(2, 3, 7) by blast
  moreover have "applied_inv s'"
    using store_invD(3)[OF inv] b unfolding applied_inv_def f'(3) by blast
  ultimately have "store_inv digest raw s'"
    using inv unfolding store_inv_def rows_inv_def fingerprints_inv_def incoming_inv_def f' by blast
  moreover have "advances s s'"
    using sub by (auto simp: advances_def f')
  ultimately show ?thesis ..
qed


subsection \<open>Opening a store\<close>

lemma admit_settled:
  assumes "store_inv digest raw s" "x \<in> ids s"
  shows "admit_revision x s = s"
proof -
  obtain r where r: "r \<in> set (revisions s)" "rid r = x"
    using assms(2) by (auto simp: ids_def)
  have "justified s (rid r)" if "may_use s r" "set (parents r) \<subseteq> set (eligibles s)"
    using that r(1) by (auto simp: justified_def)
  then show ?thesis
    using admit_condition[OF store_invD(1)[OF assms(1)] r(1)] store_invD(2)[OF assms(1)] r(2)
    by (auto simp: eligible_inv_iff)
qed

lemma open_store_settled:
  assumes "store_inv digest raw s" "open_store version s = Inr s'"
  shows "s' = s"
proof -
  have "fold admit_revision xs s = s" if "set xs \<subseteq> ids s" for xs
    using that by (induction xs) (simp_all add: admit_settled[OF assms(1)])
  then show ?thesis
    using assms(2) by (auto simp: open_store_def ids_def split: if_splits)
qed

lemma open_store_fills:
  assumes "rows_inv digest s" "fst ` set (approvals s) \<subseteq> ids s" "eligibles s = []" "open_store version s = Inr s'" "version < 5"
  shows "eligible_inv s'"
  unfolding eligible_inv_iff
proof (intro conjI allI)
  have s': "s' = fold admit_revision (map rid (revisions s)) s"
    using assms(4, 5) by (simp add: open_store_def)
  note f = fold_admit_fields[of "map rid (revisions s)" s, folded s']
  have use: "may_use s' = may_use s"
    by (simp add: may_use_def[abs_def] f)
  show "fst ` set (approvals s') \<subseteq> ids s'"
    using assms(2) by (simp add: ids_def f)
  have "\<forall>x \<in> set (eligibles s'). justified s' x"
    unfolding s' by (rule fold_admit_justified[OF assms(1)]) (simp_all add: assms(3) ids_def)
  moreover have "rid r \<in> set (eligibles s')" if "r \<in> set (revisions s)" "may_use s r" "set (parents r) \<subseteq> set (eligibles s')" for r
    using admitted_in_order[OF assms(1) that(1) UNIV_I that(2), of "map rid (revisions s)"] that(3) by (simp add: s')
  ultimately show "x \<in> set (eligibles s') \<longleftrightarrow> justified s' x" for x
    unfolding justified_def f(1) use by blast
qed

subsection \<open>Applications\<close>

lemma record_applied_step:
  assumes inv: "store_inv digest raw s" and op: "record_applied x expected s = Inr (b, s')"
  shows "store_inv digest raw s' \<and> advances s s'"
proof (cases b)
  case False
  then have "s' = s"
    using op by (auto simp: record_applied_def split: option.splits if_splits)
  then show ?thesis
    using inv advances_refl by simp
next
  case True
  note rows = rows_invD[OF store_invD(1)[OF inv]]
  obtain r where r: "eligible s x" "find_revision s x = Some r" "\<not> pending_intent s (vault r) (object r)"
    "applied_revision s (vault r) (object r) = expected" "\<And>y. expected = Some y \<Longrightarrow> ancestor_of s y x"
    "s' = set_applied (vault r) (object r) x s"
    using op True by (auto simp: record_applied_def split: option.splits if_splits)
  have "belongs s (vault r, object r) x"
    using r(1, 2) find_revision_Some[OF rows(1)] by (auto simp: belongs_def eligible_def)
  then have "store_inv digest raw s'"
    using set_applied_inv[OF inv _ r(3)] r(6) by simp
  moreover have "advances s s'"
    using r(4, 5) unfolding r(6)
    by (intro set_applied_advances) (auto simp: applied_revision_def ancestor_of_iff)
  ultimately show ?thesis ..
qed

lemma application_in: "application s op = Some i \<Longrightarrow> \<exists>key. (key, i) \<in> set (intents s) \<and> operation i = op"
  by (auto simp: application_def find_Some_iff) (metis nth_mem)

lemma application_None: "application s op = None \<longleftrightarrow> (\<forall>(key, i) \<in> set (intents s). operation i \<noteq> op)"
  by (auto simp: application_def find_None_iff)

lemma offer_Some: "offer s x = Some (r, n) \<Longrightarrow> \<exists>q. find_revision s x = Some q \<and> r = q\<lparr>payload := []\<rparr> \<and> n = length (payload q)"
  by (auto simp: offer_def)

lemma prepare_apply_cases:
  assumes inv: "store_inv digest raw s" and op: "prepare_apply i s = Inr (b, s')"
  shows "\<not> b \<and> s' = s \<or> b \<and> (\<exists>q. find_revision s (revision_id i) = Some q \<and> \<not> completed i \<and>
    application s (operation i) = None \<and> eligible s (revision_id i) \<and>
    applied_revision s (vault q) (object q) = expected_revision i \<and> \<not> pending_intent s (vault q) (object q) \<and>
    (\<forall>y. expected_revision i = Some y \<longrightarrow> ancestor_of s y (revision_id i)) \<and>
    s' = s\<lparr>intents := intents s @ [((vault q, object q), i)]\<rparr>)"
proof (cases "application s (operation i)")
  case (Some j)
  then show ?thesis
    using op by (auto simp: prepare_apply_def split: if_splits)
next
  case None
  note rows = rows_invD[OF store_invD(1)[OF inv]]
  obtain r n where r: "offer s (revision_id i) = Some (r, n)"
    using op None by (auto simp: prepare_apply_def split: if_splits option.splits)
  obtain q where q: "find_revision s (revision_id i) = Some q" "r = q\<lparr>payload := []\<rparr>"
    using offer_Some[OF r] by blast
  have id: "rid q = revision_id i"
    using q(1) find_revision_Some[OF rows(1)] by blast
  have ok: "intent_ok i False" "eligible s (revision_id i)" "applied_revision s (vault q) (object q) = expected_revision i"
    using op None r q(2) by (auto simp: prepare_apply_def split: if_splits)
  have check: "base_error s i r = None"
    using op None r q(2) ok by (auto simp: prepare_apply_def split: option.splits)
  have rest: "\<not> pending_intent s (vault q) (object q)" "b" "s' = s\<lparr>intents := intents s @ [((vault q, object q), i)]\<rparr>"
    using op None r q(2) ok check by (simp_all add: prepare_apply_def split: if_splits)
  have "ancestor_of s y (revision_id i)" if "expected_revision i = Some y" for y
    using check that q(2) id
    by (auto simp: base_error_def compare_revisions_def split: option.splits if_splits sum.splits prod.splits)
  then show ?thesis
    using q ok rest None by (auto simp: intent_ok_def)
qed

lemma prepare_apply_step:
  assumes inv: "store_inv digest raw s" and op: "prepare_apply i s = Inr (b, s')"
  shows "store_inv digest raw s' \<and> advances s s'"
proof -
  note rows = rows_invD[OF store_invD(1)[OF inv]] and int = store_invD(6)[OF inv]
  from prepare_apply_cases[OF inv op] show ?thesis
  proof (elim disjE conjE exE)
    fix q
    assume q: "find_revision s (revision_id i) = Some q" and i: "\<not> completed i" "application s (operation i) = None"
      and el: "eligible s (revision_id i)" and a: "applied_revision s (vault q) (object q) = expected_revision i"
      and idle: "\<not> pending_intent s (vault q) (object q)"
      and anc: "\<forall>y. expected_revision i = Some y \<longrightarrow> ancestor_of s y (revision_id i)"
      and s': "s' = s\<lparr>intents := intents s @ [((vault q, object q), i)]\<rparr>"
    have b: "belongs s (vault q, object q) (revision_id i)"
      using q el find_revision_Some[OF rows(1)] by (auto simp: belongs_def eligible_def)
    have same: "intent_row_ok s' key j = intent_row_ok s key j" for key j
      by (simp add: s' intent_row_ok_def belongs_def)
    have "intent_row_ok s (vault q, object q) i"
      using b a anc by (simp add: intent_row_ok_def applied_revision_def ancestor_of_iff)
    moreover have "operation i \<notin> (\<lambda>(key, i). operation i) ` set (intents s)"
      using i(2) by (auto simp: application_None)
    moreover have "(vault q, object q) \<notin> fst ` set (filter (\<lambda>(key, i). \<not> completed i) (intents s))"
      using idle by (auto simp: pending_intent_def list_ex_iff)
    ultimately have "intents_inv s'"
      using int i(1) unfolding intents_inv_def same by (auto simp: s')
    then show ?thesis
      using intents_change[OF inv] s' by (auto intro: same_tables_advance)
  qed (use inv advances_refl in auto)
qed

lemma intents_subset:
  assumes "intents_inv s" "js = filter P (intents s)"
  shows "intents_inv (s\<lparr>intents := js\<rparr>)"
proof -
  have "distinct (map fst (filter (\<lambda>(key, i). \<not> completed i) js))"
  proof -
    have "filter (\<lambda>(key, i). \<not> completed i) js = filter P (filter (\<lambda>(key, i). \<not> completed i) (intents s))"
      by (auto simp: assms(2) intro: filter_cong)
    then show ?thesis
      using assms(1) by (simp add: intents_inv_def distinct_map_filter del: filter_filter)
  qed
  then show ?thesis
    using assms by (auto simp: intents_inv_def distinct_map_filter intent_row_ok_def belongs_def)
qed

lemma abandon_step:
  assumes inv: "store_inv digest raw s" and op: "abandon_unpublished_apply x s = Inr (b, s')"
  shows "store_inv digest raw s' \<and> advances s s'"
proof -
  have "s' = s \<or> s' = s\<lparr>intents := filter (\<lambda>(key, j). operation j \<noteq> x) (intents s)\<rparr>"
    using op by (auto simp: abandon_unpublished_apply_def split: option.splits if_splits)
  then show ?thesis
    using inv intents_change[OF inv] intents_subset[OF store_invD(6)[OF inv] refl]
    by (auto intro: same_tables_advance)
qed

lemma one_pending:
  assumes "intents_inv s" "(key, i) \<in> set (intents s)" "\<not> completed i" "(key, j) \<in> set (intents s)" "\<not> completed j"
  shows "j = i"
proof -
  have inj: "inj_on fst (set (filter (\<lambda>(key, i). \<not> completed i) (intents s)))"
    using assms(1) by (simp only: intents_inv_def distinct_map)
  have "(key, j) = (key, i)"
    by (rule inj_onD[OF inj]) (use assms(2-5) in simp_all)
  then show ?thesis
    by simp
qed

lemma complete_intent_inv:
  assumes inv: "store_inv digest raw s"
  shows "store_inv digest raw (complete_intent x s)"
    "(key, i) \<in> set (intents s) \<Longrightarrow> operation i = x \<Longrightarrow> \<not> completed i \<Longrightarrow>
     \<not> pending_intent (complete_intent x s) (fst key) (snd key)"
proof -
  note int = store_invD(6)[OF inv]
  define f :: "apply_intent \<Rightarrow> apply_intent" where "f = (\<lambda>i. if operation i = x then i\<lparr>completed := True\<rparr> else i)"
  have c: "complete_intent x s = s\<lparr>intents := map (\<lambda>(key, i). (key, f i)) (intents s)\<rparr>"
    by (simp add: complete_intent_def f_def)
  have f: "operation (f i) = operation i" "revision_id (f i) = revision_id i" "expected_revision (f i) = expected_revision i"
    "completed (f i) \<longleftrightarrow> completed i \<or> operation i = x" for i
    by (simp_all add: f_def)
  let ?open = "\<lambda>(key, i). \<not> completed i"
  have "map fst (filter ?open (map (\<lambda>(key, i). (key, f i)) (intents s))) =
      map fst (filter (\<lambda>(key, i). operation i \<noteq> x) (filter ?open (intents s)))"
    by (induction "intents s") (auto simp: f split_def filter_map o_def)
  moreover have "distinct (map fst (filter (\<lambda>(key, i). operation i \<noteq> x) (filter ?open (intents s))))"
    using int by (simp add: intents_inv_def distinct_map_filter del: filter_filter)
  ultimately have "distinct (map fst (filter ?open (map (\<lambda>(key, i). (key, f i)) (intents s))))"
    by (simp only:)
  then have "intents_inv (complete_intent x s)"
    using int by (auto simp: c intents_inv_def f o_def split_def distinct_map_filter intent_row_ok_def belongs_def)
  then show "store_inv digest raw (complete_intent x s)"
    using intents_change[OF inv] c by metis
  assume i: "(key, i) \<in> set (intents s)" "operation i = x" "\<not> completed i"
  have "j = i" if "(key, j) \<in> set (intents s)" "\<not> completed j" for j
    using one_pending[OF int] i that by blast
  then have "\<not> (\<exists>j. (key, j) \<in> set (intents s) \<and> \<not> completed (f j))"
    using i(2) f(4) by blast
  then show "\<not> pending_intent (complete_intent x s) (fst key) (snd key)"
    by (auto simp: c pending_intent_def list_ex_iff)
qed

text \<open>What is needed of the observed fingerprint for a target \<open>q\<close> to be considered published.\<close>

definition observed_ok :: "(string \<Rightarrow> string) \<Rightarrow> revision \<Rightarrow> string option \<Rightarrow> bool" where
  "observed_ok raw q observed \<longleftrightarrow>
     (if deleted q then observed = None else observed = Some (raw (payload q)) \<and> digest_id (raw (payload q)))"

lemma payload_fingerprint_value:
  assumes inv: "store_inv digest raw s" and q: "find_revision s x = Some q"
  shows "\<exists>hs. payload_fingerprint raw x s = Inr (raw (payload q), s\<lparr>fingerprints := hs\<rparr>)"
proof (cases "map_of (fingerprints s) x")
  case None
  have "\<exists>hs. cache_fingerprint x (raw (payload q)) s = s\<lparr>fingerprints := hs\<rparr>"
    using None by (auto simp: cache_fingerprint_def)
  then show ?thesis
    using None q by (auto simp: payload_fingerprint_def)
next
  case (Some h)
  then obtain r where "r \<in> set (revisions s)" "rid r = x" "h = raw (payload r)"
    using store_invD(4)[OF inv] by (auto simp: fingerprints_inv_def)
  moreover from this have "find_revision s x = Some r"
    using find_revision_Some[OF rows_invD(1)[OF store_invD(1)[OF inv]], of x r] by simp
  ultimately have "h = raw (payload q)"
    using q by simp
  then show ?thesis
    using Some by (auto simp: payload_fingerprint_def intro: exI[of _ "fingerprints s"])
qed

lemma open_intent:
  assumes inv: "store_inv digest raw s" and i: "application s x = Some i" "\<not> completed i"
  obtains q where "((vault q, object q), i) \<in> set (intents s)" "operation i = x" "find_revision s (revision_id i) = Some q"
    "eligible s (revision_id i)" "applied_revision s (vault q) (object q) = expected_revision i" "rid q = revision_id i"
    "\<And>y. expected_revision i = Some y \<Longrightarrow> (revision_id i, y) \<in> (parent_of s)\<^sup>*" "belongs s (vault q, object q) (revision_id i)"
proof -
  note rows = rows_invD[OF store_invD(1)[OF inv]]
  obtain key where key: "(key, i) \<in> set (intents s)" "operation i = x"
    using application_in[OF i(1)] by blast
  have row: "intent_row_ok s key i"
    using store_invD(6)[OF inv] key(1) unfolding intents_inv_def by blast
  then obtain q where q: "q \<in> set (revisions s)" "rid q = revision_id i" "(vault q, object q) = key"
    by (auto simp: intent_row_ok_def belongs_def)
  show ?thesis
    using that[of q] row key i(2) q find_revision_Some[OF rows(1), of "revision_id i" q]
    by (auto simp: intent_row_ok_def belongs_def applied_revision_def eligible_def)
qed

lemma finish_apply_open:
  assumes inv: "store_inv digest raw s" and i: "application s x = Some i" "\<not> completed i"
    and q: "find_revision s (revision_id i) = Some q" and ok: "observed_ok raw q observed"
  shows "\<exists>hs. finish_apply raw x observed s =
      Inr (True, complete_intent x (set_applied (vault q) (object q) (revision_id i) (s\<lparr>fingerprints := hs\<rparr>)))"
proof -
  obtain q' where q': "find_revision s (revision_id i) = Some q'" "eligible s (revision_id i)" "rid q' = revision_id i"
    "applied_revision s (vault q') (object q') = expected_revision i"
    using open_intent[OF inv i] by metis
  have id: "rid q = revision_id i"
    using q' q by simp
  have off: "offer s (revision_id i) = Some (q\<lparr>payload := []\<rparr>, length (payload q))"
    using q by (simp add: offer_def)
  have s: "s = s\<lparr>fingerprints := fingerprints s\<rparr>"
    by simp
  show ?thesis
  proof (cases "deleted q")
    case True
    then have "finish_apply raw x observed s = Inr (True, complete_intent x (set_applied (vault q) (object q) (revision_id i) s))"
      using i q' q off ok id by (simp add: finish_apply_def observed_ok_def)
    then show ?thesis
      using s by metis
  next
    case False
    obtain hs where "payload_fingerprint raw (revision_id i) s = Inr (raw (payload q), s\<lparr>fingerprints := hs\<rparr>)"
      using payload_fingerprint_value[OF inv q] by blast
    then have "finish_apply raw x observed s =
        Inr (True, complete_intent x (set_applied (vault q) (object q) (revision_id i) (s\<lparr>fingerprints := hs\<rparr>)))"
      using False i q' q off ok id by (simp add: finish_apply_def observed_ok_def)
    then show ?thesis
      by blast
  qed
qed

lemma finish_apply_step:
  assumes inv: "store_inv digest raw s" and op: "finish_apply raw x observed s = Inr (b, s')"
  shows "store_inv digest raw s' \<and> advances s s'"
proof (cases b)
  case False
  then have "s' = s"
    using op by (auto simp: finish_apply_def split: option.splits if_splits sum.splits)
  then show ?thesis
    using inv advances_refl by simp
next
  case True
  then obtain i where i: "application s x = Some i" "\<not> completed i"
    using op by (auto simp: finish_apply_def split: option.splits if_splits)
  from inv i show ?thesis
  proof (rule open_intent)
    fix q
    assume key: "((vault q, object q), i) \<in> set (intents s)" "operation i = x"
      and q: "find_revision s (revision_id i) = Some q" "rid q = revision_id i" "eligible s (revision_id i)"
      and b: "belongs s (vault q, object q) (revision_id i)"
      and a: "applied_revision s (vault q) (object q) = expected_revision i"
      and up: "\<And>y. expected_revision i = Some y \<Longrightarrow> (revision_id i, y) \<in> (parent_of s)\<^sup>*"
    have "\<exists>t. (t = s \<or> (\<exists>h. payload_fingerprint raw (rid q) s = Inr (h, t))) \<and>
        s' = complete_intent x (set_applied (vault q) (object q) (rid q) t)"
      using op True i q a
      by (auto simp: finish_apply_def offer_def split: option.splits if_splits sum.splits)
    then obtain t where t: "t = s \<or> (\<exists>h. payload_fingerprint raw (rid q) s = Inr (h, t))"
      "s' = complete_intent x (set_applied (vault q) (object q) (rid q) t)"
      by blast
    have inv_t: "store_inv digest raw t" and "\<exists>hs. t = s\<lparr>fingerprints := hs\<rparr>"
      using t(1) inv payload_fingerprint_inv[OF inv] by (auto intro: exI[of _ "fingerprints s"])
    then obtain hs where hs: "t = s\<lparr>fingerprints := hs\<rparr>"
      by blast
    let ?u = "complete_intent x t"
    have idle: "\<not> pending_intent ?u (vault q) (object q)"
      using complete_intent_inv(2)[OF inv_t, of "(vault q, object q)" i x] key i(2) hs by simp
    have belongs: "belongs ?u (vault q, object q) (rid q)"
      using b q(2) by (simp add: belongs_def complete_intent_def hs)
    have s': "s' = set_applied (vault q) (object q) (rid q) ?u"
      using t(2) by (simp add: complete_intent_def set_applied_def)
    have "store_inv digest raw s'"
      using set_applied_inv[OF complete_intent_inv(1)[OF inv_t] belongs idle] s' by simp
    moreover have "advances s ?u"
      by (rule same_tables_advance) (simp_all add: complete_intent_def hs)
    moreover have "advances ?u s'"
      unfolding s' using a up q(2)
      by (intro set_applied_advances) (auto simp: complete_intent_def hs applied_revision_def)
    ultimately show ?thesis
      using advances_trans by blast
  qed
qed

subsection \<open>Recovery\<close>

lemma recovery_roots_sealed:
  assumes "recovery_roots digest v m previous rows = Inr roots"
  shows "\<forall>r \<in> set roots. sealed digest r \<and> parents r = [] \<and> vault r = v \<and> origin_member r = m \<and> deleted r"
  using assms
proof (induction rows arbitrary: roots)
  case (Cons row rows)
  show ?case
  proof (cases "find_revision previous (snd row)")
    case (Some r)
    then obtain orig rest where "vault r = v" "deleted r" "roots = orig # rest" "recovery_roots digest v m previous rows = Inr rest"
      and s: "seal_revision digest (r\<lparr>payload := [], rid := [], parents := [], origin_member := m\<rparr>) = Inr orig"
      using Cons.prems by (auto split: if_splits sum.splits simp: map_sum_def)
    moreover have "origin_member orig = m" "deleted orig = deleted r"
      using s by (auto simp: seal_revision_def Let_def split: option.splits)
    ultimately show ?thesis
      using Cons.IH seal_revision_sealed[OF s] by auto
  qed (use Cons in auto)
qed simp

lemma import_roots_step:
  assumes "store_inv digest raw s" "inj_on digest U" "contents s \<subseteq> U" "(\<lambda>r. r\<lparr>rid := []\<rparr>) ` set roots \<subseteq> U"
    "\<forall>r \<in> set roots. sealed digest r \<and> parents r = [] \<and> vault r = v" "import_roots raw v roots s = Inr s'"
  shows "store_inv digest raw s' \<and> advances s s' \<and> contents s' \<subseteq> U"
  using assms
proof (induction roots arbitrary: s)
  case Nil
  then show ?case
    using advances_refl by simp
next
  case (Cons r roots)
  show ?case
  proof (cases "list_ex (\<lambda>q. vault q = v \<and> rid q = rid r) (revisions s)")
    case True
    then show ?thesis
      using Cons by simp
  next
    case False
    let ?t = "add_revision raw r s"
    have r: "sealed digest r" "parents r = []" "vault r = v" "r\<lparr>rid := []\<rparr> \<in> U"
      using Cons.prems(4, 5) by auto
    have new: "rid r \<notin> ids s"
    proof
      assume "rid r \<in> ids s"
      then obtain q where q: "q \<in> set (revisions s)" "rid q = rid r"
        by (auto simp: ids_def)
      then have "q = r\<lparr>rid := rid q\<rparr>"
        using content_unique[OF Cons.prems(2, 3) r(4) store_invD(1)[OF Cons.prems(1)]] r(1) by (auto simp: sealed_def)
      then have "vault q = vault r"
        by (metis revision.ext_inject revision.surjective revision.update_convs(1))
      then show False
        using False q r(3) by (auto simp: list_ex_iff)
    qed
    have links: "links s r"
      by (simp add: links_def r(2))
    note f = add_fields[OF store_invD(1)[OF Cons.prems(1)] r(1) new links, of raw]
    have "import_roots raw v roots ?t = Inr s'"
      using Cons.prems(6) False add_root_order[OF r(2), of raw s] by (simp split: if_splits)
    moreover have "contents ?t \<subseteq> U"
      using Cons.prems(3) r(4) by (simp add: contents_def f)
    ultimately show ?thesis
      using Cons.IH[of ?t] Cons.prems(2, 4, 5) add_inv[OF Cons.prems(1) r(1) new links]
        advances_trans[OF add_advances[OF Cons.prems(1) r(1) new links]] by auto
  qed
qed

lemma recover_step:
  assumes "store_inv digest raw s" "inj_on digest U" "contents s \<subseteq> U" "(\<lambda>r. r\<lparr>rid := []\<rparr>) ` set roots \<subseteq> U"
    and op: "recover_applied_deletions digest raw same member_ok previous v m after limit s = Inr (roots, s')"
  shows "store_inv digest raw s' \<and> advances s s'"
proof -
  obtain rows where rows: "recovery_roots digest v m previous rows = Inr roots" "import_roots raw v roots s = Inr s'"
    using op by (auto simp: recover_applied_deletions_def Let_def split: if_splits sum.splits)
  then show ?thesis
    using import_roots_step[OF assms(1-4) _ rows(2)] recovery_roots_sealed[OF rows(1)] by blast
qed

lemma recover_contents:
  assumes "store_inv digest raw s" "inj_on digest U" "contents s \<subseteq> U"
    "recover_applied_deletions digest raw same member_ok previous v m after limit s = Inr (roots, s')"
    "(\<lambda>r. r\<lparr>rid := []\<rparr>) ` set roots \<subseteq> U"
  shows "contents s' \<subseteq> U"
proof -
  obtain rows where rows: "recovery_roots digest v m previous rows = Inr roots" "import_roots raw v roots s = Inr s'"
    using assms(4) by (auto simp: recover_applied_deletions_def Let_def split: if_splits sum.splits)
  then show ?thesis
    using import_roots_step[OF assms(1-3, 5) _ rows(2)] recovery_roots_sealed[OF rows(1)] by blast
qed

end
