(* ===== verification/Athena_Journal.thy ===== *)
theory Athena_Journal
  imports Athena_Revisions
begin

text \<open>
  What the journal of revisions promises over whole runs: the invariant of every store that the
  operations reach, progress along the ancestry, agreement of devices that hold the same revisions, and
  the equivalence of a transfer in pieces with one in a single message.
\<close>

section \<open>Runs\<close>

text \<open>
  A step is an operation that returns. \<open>U\<close> is a set of contents on which the hash is injective; what
  a step adds comes from it.
\<close>

inductive transition ::
    "(revision \<Rightarrow> string) \<Rightarrow> (string \<Rightarrow> string) \<Rightarrow> revision set \<Rightarrow> revision_store \<Rightarrow> revision_store \<Rightarrow> bool"
  for digest raw U where
  received: "receive_revision digest raw r s = Inr (b, s') \<Longrightarrow> contents s' \<subseteq> U \<Longrightarrow> transition digest raw U s s'"
| captured: "capture_saved digest raw snapshot expected predecessor s = Inr (y, s') \<Longrightarrow>
    with_parent snapshot expected \<in> U \<Longrightarrow> contents s' \<subseteq> U \<Longrightarrow> transition digest raw U s s'"
| begun: "begin_receive encoded r full s = Inr (n, s') \<Longrightarrow> transition digest raw U s s'"
| chunk: "receive_chunk x offset bytes s = Inr (n, s') \<Longrightarrow> transition digest raw U s s'"
| finished: "finish_receive digest raw x s = Inr (b, s') \<Longrightarrow> contents s' \<subseteq> U \<Longrightarrow> transition digest raw U s s'"
| opened: "open_store version s = Inr s' \<Longrightarrow> transition digest raw U s s'"
| discarded: "transition digest raw U s (discard_receive x s)"
| fingerprinted: "payload_fingerprint raw x s = Inr (h, s') \<Longrightarrow> transition digest raw U s s'"
| approved: "accept_resolution derive verify pin_group secret envelope x s = Inr (b, s') \<Longrightarrow> transition digest raw U s s'"
| recorded: "record_applied x expected s = Inr (b, s') \<Longrightarrow> transition digest raw U s s'"
| prepared: "prepare_apply i s = Inr (b, s') \<Longrightarrow> transition digest raw U s s'"
| abandoned: "abandon_unpublished_apply x s = Inr (b, s') \<Longrightarrow> transition digest raw U s s'"
| published: "finish_apply raw x observed s = Inr (b, s') \<Longrightarrow> transition digest raw U s s'"
| recovered: "recover_applied_deletions digest raw same member_ok previous v m after limit s = Inr (roots, s') \<Longrightarrow>
    (\<lambda>r. r\<lparr>rid := []\<rparr>) ` set roots \<subseteq> U \<Longrightarrow> transition digest raw U s s'"

abbreviation reaches ::
    "(revision \<Rightarrow> string) \<Rightarrow> (string \<Rightarrow> string) \<Rightarrow> revision set \<Rightarrow> revision_store \<Rightarrow> revision_store \<Rightarrow> bool" where
  "reaches digest raw U \<equiv> (transition digest raw U)\<^sup>*\<^sup>*"

lemma contents_cong: "revisions s' = revisions s \<Longrightarrow> contents s' = contents s"
  by (simp add: contents_def)

lemma other_contents:
  "begin_receive encoded r full s = Inr (n, s') \<Longrightarrow> revisions s' = revisions s"
  "receive_chunk x offset bytes s = Inr (n, s') \<Longrightarrow> revisions s' = revisions s"
  "payload_fingerprint raw x s = Inr (h, s') \<Longrightarrow> revisions s' = revisions s"
  "accept_resolution derive verify pin_group secret envelope x s = Inr (b, s') \<Longrightarrow> revisions s' = revisions s"
  "record_applied x expected s = Inr (b, s') \<Longrightarrow> revisions s' = revisions s"
  "prepare_apply i s = Inr (b, s') \<Longrightarrow> revisions s' = revisions s"
  "abandon_unpublished_apply x s = Inr (b, s') \<Longrightarrow> revisions s' = revisions s"
  "finish_apply raw x observed s = Inr (b, s') \<Longrightarrow> revisions s' = revisions s"
proof -
  have fp: "payload_fingerprint raw x s = Inr (h, s') \<Longrightarrow> revisions s' = revisions s" for x h s'
    by (auto simp: payload_fingerprint_def cache_fields split: option.splits)
  show "begin_receive encoded r full s = Inr (n, s') \<Longrightarrow> revisions s' = revisions s"
    by (auto simp: begin_receive_def discard_receive_def split: option.splits if_splits)
  show "receive_chunk x offset bytes s = Inr (n, s') \<Longrightarrow> revisions s' = revisions s"
    by (auto simp: receive_chunk_def Let_def split: option.splits if_splits)
  show "payload_fingerprint raw x s = Inr (h, s') \<Longrightarrow> revisions s' = revisions s"
    by (rule fp)
  show "accept_resolution derive verify pin_group secret envelope x s = Inr (b, s') \<Longrightarrow> revisions s' = revisions s"
    by (auto simp: accept_resolution_def Let_def fold_admit_fields split: option.splits sum.splits if_splits)
  show "record_applied x expected s = Inr (b, s') \<Longrightarrow> revisions s' = revisions s"
    by (auto simp: record_applied_def set_applied_def split: option.splits if_splits)
  show "prepare_apply i s = Inr (b, s') \<Longrightarrow> revisions s' = revisions s"
    by (auto simp: prepare_apply_def split: option.splits if_splits)
  show "abandon_unpublished_apply x s = Inr (b, s') \<Longrightarrow> revisions s' = revisions s"
    by (auto simp: abandon_unpublished_apply_def split: option.splits if_splits)
  show "finish_apply raw x observed s = Inr (b, s') \<Longrightarrow> revisions s' = revisions s"
    using fp by (fastforce simp: finish_apply_def set_applied_def complete_intent_def split: option.splits if_splits sum.splits)
qed

lemma transition_inv:
  assumes "transition digest raw U s s'" "hash_ok digest U" "store_inv digest raw s" "contents s \<subseteq> U"
  shows "store_inv digest raw s' \<and> contents s' \<subseteq> U \<and> advances s s'"
proof -
  note inv = assms(3) and inj = assms(2)[unfolded hash_ok_def, THEN conjunct1]
  from assms(1) show ?thesis
  proof cases
    case (received r b)
    then show ?thesis
      using receive_inv(1)[OF inv] receive_advances[OF inv] by blast
  next
    case (captured snapshot expected predecessor y)
    then show ?thesis
      using capture_saved_step[OF inv assms(2, 4)] by blast
  next
    case (begun encoded r full n)
    then show ?thesis
      using begin_receive_inv[OF inv] begin_receive_advances contents_cong other_contents(1) assms(4) by metis
  next
    case (chunk x offset bytes n)
    then show ?thesis
      using receive_chunk_inv[OF inv] receive_chunk_advances contents_cong other_contents(2) assms(4) by metis
  next
    case (finished x b)
    then show ?thesis
      using finish_receive_inv(1)[OF inv] finish_receive_advances[OF inv] by blast
  next
    case (opened version)
    then show ?thesis
      using open_store_settled[OF inv] inv assms(4) advances_refl by metis
  next
    case (discarded x)
    then show ?thesis
      using discard_inv[OF inv] discard_advances assms(4) by (simp add: contents_def discard_receive_def)
  next
    case (fingerprinted x h)
    then obtain hs where "s' = s\<lparr>fingerprints := hs\<rparr>" "store_inv digest raw s'"
      using payload_fingerprint_inv[OF inv] by blast
    then show ?thesis
      using assms(4) by (auto intro: same_tables_advance simp: contents_def)
  next
    case (approved derive verify pin_group secret envelope x b)
    then show ?thesis
      using accept_resolution_step[OF inv] contents_cong other_contents(4) assms(4) by metis
  next
    case (recorded x expected b)
    then show ?thesis
      using record_applied_step[OF inv] contents_cong other_contents(5) assms(4) by metis
  next
    case (prepared i b)
    then show ?thesis
      using prepare_apply_step[OF inv] contents_cong other_contents(6) assms(4) by metis
  next
    case (abandoned x b)
    then show ?thesis
      using abandon_step[OF inv] contents_cong other_contents(7) assms(4) by metis
  next
    case (published x observed b)
    then show ?thesis
      using finish_apply_step[OF inv] contents_cong other_contents(8) assms(4) by metis
  next
    case (recovered same member_ok previous v m after limit roots)
    then show ?thesis
      using recover_step[OF inv inj assms(4)] recover_contents[OF inv inj assms(4)] by metis
  qed
qed

lemma reaches_inv:
  assumes "reaches digest raw U s s'" "hash_ok digest U" "store_inv digest raw s" "contents s \<subseteq> U"
  shows "store_inv digest raw s' \<and> contents s' \<subseteq> U \<and> advances s s'"
  using assms(1)
proof (induction rule: rtranclp_induct)
  case (step t u)
  then show ?case
    using transition_inv[OF step(2) assms(2)] advances_trans by blast
qed (use assms(3, 4) advances_refl in auto)

lemma new_contents: "contents new_store \<subseteq> U"
  by (simp add: contents_def new_store_def)

section \<open>The order of revisions\<close>

text \<open>Receipt order is a topological order of the graph, so that ancestry is a partial order.\<close>

lemma edges_order:
  assumes "rows_inv digest s" "(c, p) \<in> parent_of s"
  shows "\<exists>as r bs q. revisions s = as @ r # bs \<and> rid r = c \<and> q \<in> set as \<and> rid q = p \<and> vault q = vault r \<and> object q = object r"
proof -
  note rows = rows_invD[OF assms(1)]
  obtain r where r: "r \<in> set (revisions s)" "rid r = c" "p \<in> set (parents r)"
    using assms(2) rows(4) by (auto simp: in_edges_of)
  then obtain as bs where rs: "revisions s = as @ r # bs"
    by (auto dest: split_list)
  then obtain q where "q \<in> set as" "rid q = p" "vault q = vault r" "object q = object r"
    using linked_prefix[of as r bs p] rows(3) r(3) by auto
  then show ?thesis
    using rs r(2) by blast
qed

definition receipt_rank :: "revision_store \<Rightarrow> string \<Rightarrow> nat" where
  "receipt_rank s x = length (takeWhile (\<lambda>r. rid r \<noteq> x) (revisions s))"

lemma takeWhile_shorter: "x \<in> set xs \<Longrightarrow> \<not> P x \<Longrightarrow> length (takeWhile P xs) < length xs"
  by (induction xs) auto

lemma rank_decreases:
  assumes "rows_inv digest s" "(c, p) \<in> parent_of s"
  shows "receipt_rank s p < receipt_rank s c"
proof -
  obtain as r bs q where rs: "revisions s = as @ r # bs" "rid r = c" "q \<in> set as" "rid q = p"
    using edges_order[OF assms] by blast
  have "c \<notin> rid ` set as"
    using rows_invD(1)[OF assms(1)] rs(1, 2) by auto
  then have "takeWhile (\<lambda>r. rid r \<noteq> c) as = as"
    by (auto simp: takeWhile_eq_all_conv)
  then have c: "receipt_rank s c = length as"
    using rs(1, 2) by (simp add: receipt_rank_def takeWhile_append)
  have "receipt_rank s p = length (takeWhile (\<lambda>r. rid r \<noteq> p) as)"
    using rs takeWhile_append1[of q as "\<lambda>r. rid r \<noteq> p"] by (simp add: receipt_rank_def)
  moreover have "length (takeWhile (\<lambda>r. rid r \<noteq> p) as) < length as"
    using takeWhile_shorter[OF rs(3), of "\<lambda>r. rid r \<noteq> p"] rs(4) by simp
  ultimately show ?thesis
    using c by simp
qed

lemma rank_ancestor:
  assumes "rows_inv digest s" "(c, p) \<in> (parent_of s)\<^sup>*"
  shows "c = p \<or> receipt_rank s p < receipt_rank s c"
  using assms(2)
proof (induction rule: rtrancl_induct)
  case (step y z)
  then show ?case
    using rank_decreases[OF assms(1) step(2)] by auto
qed simp

lemma ancestor_antisym:
  assumes "rows_inv digest s" "(x, y) \<in> (parent_of s)\<^sup>*" "(y, x) \<in> (parent_of s)\<^sup>*"
  shows "x = y"
  using rank_ancestor[OF assms(1, 2)] rank_ancestor[OF assms(1, 3)] by auto

lemma ancestor_object:
  assumes "rows_inv digest s" "(x, y) \<in> (parent_of s)\<^sup>*" "find_revision s x = Some r"
  shows "\<exists>q. find_revision s y = Some q \<and> vault q = vault r \<and> object q = object r"
  using assms(2)
proof (induction rule: rtrancl_induct)
  case (step y z)
  then obtain q where q: "find_revision s y = Some q" "vault q = vault r" "object q = object r"
    by blast
  note found = find_revision_Some[OF rows_invD(1)[OF assms(1)]]
  obtain as t bs u where rs: "revisions s = as @ t # bs" "rid t = y" "u \<in> set as" "rid u = z" "vault u = vault t" "object u = object t"
    using edges_order[OF assms(1) step(2)] by blast
  then have "find_revision s y = Some t" "find_revision s z = Some u"
    using found by auto
  then show ?case
    using q rs by auto
qed (use assms(3) in auto)


section \<open>Eligible revisions and heads\<close>

lemma in_parent_of:
  assumes "rows_inv digest s"
  shows "(c, p) \<in> parent_of s \<longleftrightarrow> (\<exists>r \<in> set (revisions s). rid r = c \<and> p \<in> set (parents r))"
  using rows_invD(4)[OF assms] by (simp add: in_edges_of)

lemma same_row:
  assumes "rows_inv digest s" "q \<in> set (revisions s)" "r \<in> set (revisions s)" "rid q = rid r"
  shows "q = r"
  using rows_invD(1)[OF assms(1)] assms(2-4) by (auto simp: distinct_map dest: inj_onD)

lemma eligible_iff:
  assumes "rows_inv digest s" "eligible_inv s" "r \<in> set (revisions s)"
  shows "eligible s (rid r) \<longleftrightarrow> may_use s r \<and> (\<forall>p \<in> set (parents r). eligible s p)"
proof -
  have "eligible s (rid r) \<longleftrightarrow> justified s (rid r)"
    using assms(2) by (simp add: eligible_inv_iff eligible_def)
  also have "\<dots> \<longleftrightarrow> may_use s r \<and> (\<forall>p \<in> set (parents r). eligible s p)"
    using assms(3) same_row[OF assms(1)] unfolding justified_def eligible_def by blast
  finally show ?thesis .
qed

lemma eligible_row: "eligible_inv s \<Longrightarrow> eligible s x \<Longrightarrow> \<exists>r \<in> set (revisions s). rid r = x"
  by (auto simp: eligible_inv_iff eligible_def justified_def)

lemma eligible_ancestor:
  assumes "rows_inv digest s" "eligible_inv s" "eligible s x" "(x, y) \<in> (parent_of s)\<^sup>*"
  shows "eligible s y"
  using assms(4)
proof (induction rule: rtrancl_induct)
  case (step y z)
  then obtain r where "r \<in> set (revisions s)" "rid r = y" "z \<in> set (parents r)"
    using in_parent_of[OF assms(1)] by blast
  then show ?case
    using step(3) eligible_iff[OF assms(1, 2)] by blast
qed (rule assms(3))

lemma eligible_agree:
  assumes inv: "rows_inv digest s" "eligible_inv s" "rows_inv digest s'" "eligible_inv s'"
    and same: "set (revisions s') = set (revisions s)" "fst ` set (approvals s') = fst ` set (approvals s)"
  shows "eligible s' = eligible s"
proof -
  have none: "map_of xs x = None \<longleftrightarrow> x \<notin> fst ` set xs" for xs :: "(string \<times> string) list" and x
    by (rule map_of_eq_None_iff)
  have use: "may_use s' r = may_use s r" for r
    by (simp only: may_use_def none same)
  have "eligible s' (rid r) = eligible s (rid r)" if "r \<in> set (revisions s)" for r
    using that
  proof (induction "receipt_rank s (rid r)" arbitrary: r rule: less_induct)
    case less
    have "eligible s' p = eligible s p" if p: "p \<in> set (parents r)" for p
    proof -
      obtain q where "q \<in> set (revisions s)" "rid q = p"
        using linked_parent[OF rows_invD(3)[OF inv(1)] less(2) p] by blast
      moreover have "receipt_rank s p < receipt_rank s (rid r)"
        using rank_decreases[OF inv(1)] in_parent_of[OF inv(1)] less(2) p by blast
      ultimately show ?thesis
        using less(1) by blast
    qed
    then show ?case
      using eligible_iff[OF inv(1, 2) less(2)] eligible_iff[OF inv(3, 4), of r] less(2) same(1) use by simp
  qed
  then show ?thesis
    using eligible_row[OF inv(2)] eligible_row[OF inv(4)] same(1) by (intro ext) metis
qed

lemma heads_sorted: "rows_inv digest s \<Longrightarrow> sorted (heads s v obj) \<and> distinct (heads s v obj)"
  using rows_invD(1) by (auto simp: heads_def distinct_map_filter)

lemma childless_iff: "childless s x \<longleftrightarrow> (\<forall>c. (c, x) \<in> parent_of s \<longrightarrow> \<not> eligible s c)"
  by (auto simp: childless_def list_ex_iff)

lemma set_heads:
  "x \<in> set (heads s v obj) \<longleftrightarrow> (\<exists>r \<in> set (revisions s). rid r = x \<and> vault r = v \<and> object r = obj) \<and> eligible s x \<and> childless s x"
  by (auto simp: heads_def)

lemma childless_maximal:
  assumes "rows_inv digest s" "eligible_inv s"
  shows "childless s x \<longleftrightarrow> (\<forall>y. eligible s y \<longrightarrow> ancestor_of s x y \<longrightarrow> y = x)"
proof
  assume c: "childless s x"
  show "\<forall>y. eligible s y \<longrightarrow> ancestor_of s x y \<longrightarrow> y = x"
  proof (intro allI impI)
    fix y
    assume y: "eligible s y" "ancestor_of s x y"
    from y(2)[unfolded ancestor_of_iff] show "y = x"
    proof (cases rule: rtranclE)
      case (step c)
      then show ?thesis
        using eligible_ancestor[OF assms y(1)] \<open>childless s x\<close> by (auto simp: childless_iff)
    qed
  qed
next
  assume m: "\<forall>y. eligible s y \<longrightarrow> ancestor_of s x y \<longrightarrow> y = x"
  show "childless s x"
    unfolding childless_iff
  proof (intro allI impI notI)
    fix c
    assume c: "(c, x) \<in> parent_of s" "eligible s c"
    then have "c = x"
      using m by (auto simp: ancestor_of_iff)
    then show False
      using rank_decreases[OF assms(1) c(1)] by simp
  qed
qed

lemma head_above:
  assumes "rows_inv digest s" "eligible_inv s" "eligible s x" "find_revision s x = Some r"
  shows "\<exists>h \<in> set (heads s (vault r) (object r)). ancestor_of s x h"
  using assms(3, 4)
proof (induction "length (revisions s) - receipt_rank s x" arbitrary: x r rule: less_induct)
  case less
  note found = find_revision_Some[OF rows_invD(1)[OF assms(1)]]
  show ?case
  proof (cases "childless s x")
    case True
    then have "x \<in> set (heads s (vault r) (object r))"
      using less(2, 3) found by (auto simp: set_heads)
    then show ?thesis
      by (auto simp: ancestor_of_iff intro: bexI[of _ x])
  next
    case False
    then obtain c where c: "(c, x) \<in> parent_of s" "eligible s c"
      by (auto simp: childless_iff)
    then obtain q where q: "q \<in> set (revisions s)" "rid q = c"
      using eligible_row[OF assms(2)] by blast
    then have fq: "find_revision s c = Some q"
      using found by blast
    have "receipt_rank s x < length (revisions s)"
      using takeWhile_shorter[of r "revisions s" "\<lambda>r. rid r \<noteq> x"] less(3) found by (simp add: receipt_rank_def)
    then have "length (revisions s) - receipt_rank s c < length (revisions s) - receipt_rank s x"
      using rank_decreases[OF assms(1) c(1)] by simp
    then obtain h where h: "h \<in> set (heads s (vault q) (object q))" "ancestor_of s c h"
      using less(1) c(2) fq by blast
    have "vault r = vault q \<and> object r = object q"
      using ancestor_object[OF assms(1) r_into_rtrancl[OF c(1)] fq] less(3) by auto
    then show ?thesis
      using h c(1) by (auto simp: ancestor_of_iff intro: rtrancl_into_rtrancl)
  qed
qed

lemma heads_agree:
  assumes inv: "rows_inv digest s" "rows_inv digest s'"
    and same: "set (revisions s') = set (revisions s)" "eligible s' = eligible s"
  shows "heads s' v obj = heads s v obj"
proof -
  have "parent_of s' = parent_of s"
    using in_parent_of[OF inv(1)] in_parent_of[OF inv(2)] same(1) by (auto simp: set_eq_iff)
  then have "set (heads s' v obj) = set (heads s v obj)"
    unfolding set_eq_iff set_heads childless_iff same by blast
  then show ?thesis
    using heads_sorted[OF inv(1)] heads_sorted[OF inv(2)] sorted_distinct_set_unique by metis
qed

section \<open>Merge bases\<close>

lemma set_common: "z \<in> set (common_ancestors s x y) \<longleftrightarrow> (x, z) \<in> (parent_of s)\<^sup>* \<and> (y, z) \<in> (parent_of s)\<^sup>*"
  by (auto simp: common_ancestors_def set_ancestors)

definition bases :: "revision_store \<Rightarrow> string \<Rightarrow> string \<Rightarrow> string list" where
  "bases s x y = sort (filter (\<lambda>z. \<not> list_ex (\<lambda>(c, p). p = z \<and> c \<in> set (common_ancestors s x y)) (edges s))
     (common_ancestors s x y))"

lemma bases_sorted: "sorted (bases s x y) \<and> distinct (bases s x y)"
  by (simp add: bases_def common_ancestors_def)

lemma set_bases:
  assumes "rows_inv digest s"
  shows "z \<in> set (bases s x y) \<longleftrightarrow> (ancestor_of s z x \<and> ancestor_of s z y) \<and>
    (\<forall>w. ancestor_of s w x \<longrightarrow> ancestor_of s w y \<longrightarrow> ancestor_of s z w \<longrightarrow> w = z)"
proof -
  have "z \<in> set (bases s x y) \<longleftrightarrow> z \<in> set (common_ancestors s x y) \<and>
      (\<forall>c. (c, z) \<in> parent_of s \<longrightarrow> c \<notin> set (common_ancestors s x y))"
    by (auto simp: bases_def list_ex_iff)
  also have "\<dots> \<longleftrightarrow> z \<in> set (common_ancestors s x y) \<and>
      (\<forall>w. w \<in> set (common_ancestors s x y) \<longrightarrow> (w, z) \<in> (parent_of s)\<^sup>* \<longrightarrow> w = z)"
  proof (intro conj_cong refl iffI allI impI)
    fix w
    assume no: "\<forall>c. (c, z) \<in> parent_of s \<longrightarrow> c \<notin> set (common_ancestors s x y)"
      and w: "w \<in> set (common_ancestors s x y)"
    assume "(w, z) \<in> (parent_of s)\<^sup>*"
    then show "w = z"
    proof (cases rule: rtranclE)
      case (step c)
      then have "c \<in> set (common_ancestors s x y)"
        using w by (auto simp: set_common intro: rtrancl_trans)
      then show ?thesis
        using no step by blast
    qed
  next
    fix c
    assume "\<forall>w. w \<in> set (common_ancestors s x y) \<longrightarrow> (w, z) \<in> (parent_of s)\<^sup>* \<longrightarrow> w = z" "(c, z) \<in> parent_of s"
    then show "c \<notin> set (common_ancestors s x y)"
      using rank_decreases[OF assms] by blast
  qed
  finally show ?thesis
    by (auto simp: set_common ancestor_of_iff)
qed

lemma base_above:
  assumes "rows_inv digest s" "find_revision s x = Some r" "ancestor_of s z x" "ancestor_of s z y"
  shows "\<exists>b \<in> set (bases s x y). ancestor_of s z b"
  using assms(3, 4)
proof (induction "length (revisions s) - receipt_rank s z" arbitrary: z rule: less_induct)
  case less
  show ?case
  proof (cases "z \<in> set (bases s x y)")
    case True
    then show ?thesis
      by (auto simp: ancestor_of_iff intro: bexI[of _ z])
  next
    case False
    then obtain w where w: "ancestor_of s w x" "ancestor_of s w y" "ancestor_of s z w" "w \<noteq> z"
      using less(2, 3) set_bases[OF assms(1)] by blast
    have "receipt_rank s z < receipt_rank s w"
      using rank_ancestor[OF assms(1)] w(3, 4) by (auto simp: ancestor_of_iff)
    moreover have "receipt_rank s w \<le> length (revisions s)"
      by (simp add: receipt_rank_def length_takeWhile_le)
    ultimately have "length (revisions s) - receipt_rank s w < length (revisions s) - receipt_rank s z"
      by linarith
    then obtain b where "b \<in> set (bases s x y)" "ancestor_of s w b"
      using less(1)[of w] w(1, 2) by blast
    then show ?thesis
      using w(3) by (auto simp: ancestor_of_iff intro: rtrancl_trans)
  qed
qed


lemma merge_bases_bases:
  "merge_bases s x y = (case compare_revisions s x y of Inl e \<Rightarrow> Inl e | Inr c \<Rightarrow> Inr (bases s x y))"
  by (simp add: merge_bases_def bases_def Let_def split: sum.splits)

lemma find_agree:
  assumes "rows_inv digest s" "rows_inv digest s'" "set (revisions s') = set (revisions s)"
  shows "find_revision s' = find_revision s"
proof
  fix x
  have "find_revision s' x = Some r \<longleftrightarrow> find_revision s x = Some r" for r
    using find_revision_Some[OF rows_invD(1)[OF assms(1)]] find_revision_Some[OF rows_invD(1)[OF assms(2)]] assms(3) by simp
  then show "find_revision s' x = find_revision s x"
    by (metis option.exhaust)
qed

section \<open>Transfers in pieces\<close>

primrec receive_chunks :: "string \<Rightarrow> nat \<Rightarrow> string list \<Rightarrow> revision_store \<Rightarrow> store_error + nat \<times> revision_store" where
  "receive_chunks x offset [] s = Inr (offset, s)"
| "receive_chunks x offset (c # cs) s =
     (case receive_chunk x offset c s of Inl e \<Rightarrow> Inl e | Inr (n, s') \<Rightarrow> receive_chunks x n cs s')"

text \<open>The store in the middle of a transfer of \<open>r\<close>, of which the bytes \<open>d\<close> have arrived.\<close>

definition staged :: "revision_store \<Rightarrow> revision \<Rightarrow> string \<Rightarrow> revision_store" where
  "staged s r d = s\<lparr>incoming := incoming s @ [\<lparr>metadata = r\<lparr>payload := []\<rparr>,
     buffer = d @ replicate (length (payload r) - length d) (CHR 0x00), received = length d\<rparr>]\<rparr>"

lemma find_snoc: "find P (xs @ [x]) = (case find P xs of None \<Rightarrow> if P x then Some x else None | Some y \<Rightarrow> Some y)"
  by (induction xs) auto

lemma find_incoming_staged:
  assumes "find_incoming s (rid r) = None"
  shows "find_incoming (staged s r d) (rid r) = Some \<lparr>metadata = r\<lparr>payload := []\<rparr>,
     buffer = d @ replicate (length (payload r) - length d) (CHR 0x00), received = length d\<rparr>"
  using assms by (simp add: find_incoming_def staged_def find_snoc)

lemma chunk_staged:
  assumes "find_incoming s (rid r) = None" "c \<noteq> []" "length c \<le> 256 * 1024" "length d + length c \<le> length (payload r)"
  shows "receive_chunk (rid r) (length d) c (staged s r d) = Inr (length (d @ c), staged s r (d @ c))"
proof -
  have "map (write_chunk (rid r) (length d) c) (incoming s) = incoming s"
    using assms(1) by (intro map_idI) (auto simp: write_chunk_def find_incoming_def find_None_iff)
  then have "map (write_chunk (rid r) (length d) c) (incoming (staged s r d)) = incoming (staged s r (d @ c))"
    using assms(4) by (simp add: staged_def write_chunk_def)
  then show ?thesis
    using assms(2-4) find_incoming_staged[OF assms(1), of d]
    by (simp add: receive_chunk_def Let_def) (simp add: staged_def)
qed

lemma chunks_staged:
  assumes "find_incoming s (rid r) = None" "\<forall>c \<in> set cs. c \<noteq> [] \<and> length c \<le> 256 * 1024"
    "length d + length (concat cs) \<le> length (payload r)"
  shows "receive_chunks (rid r) (length d) cs (staged s r d) = Inr (length (d @ concat cs), staged s r (d @ concat cs))"
  using assms(2, 3)
proof (induction cs arbitrary: d)
  case (Cons c cs)
  then have "receive_chunk (rid r) (length d) c (staged s r d) = Inr (length (d @ c), staged s r (d @ c))"
    by (intro chunk_staged[OF assms(1)]) auto
  moreover have "length (d @ c) + length (concat cs) \<le> length (payload r)"
    using Cons.prems by simp
  ultimately show ?case
    using Cons.IH[of "d @ c"] Cons.prems(1) by (simp del: length_append)
qed simp

lemma distinct_adjI: "distinct xs \<Longrightarrow> distinct_adj xs"
  by (induction xs rule: induct_list012) auto

lemma begin_staged:
  assumes "validate_revision (r\<lparr>payload := []\<rparr>) = None" "digest_id (rid r)" "sorted (parents r)" "distinct (parents r)"
    "deleted r \<longrightarrow> payload r = []" "length (payload r) \<le> 512 * 1024 * 1024" "encoded (r\<lparr>payload := []\<rparr>) \<le> 64 * 1024"
    "find_revision s (rid r) = None" "find_incoming s (rid r) = None"
  shows "length d \<le> length (payload r) \<Longrightarrow>
      begin_receive encoded (r\<lparr>payload := []\<rparr>) (length (payload r)) (staged s r d) = Inr (length d, staged s r d)"
    "length (incoming s) < 32 \<Longrightarrow>
     sum_list (map (\<lambda>i. length (buffer i)) (incoming s)) + length (payload r) \<le> 2 * 1024 * 1024 * 1024 \<Longrightarrow>
      begin_receive encoded (r\<lparr>payload := []\<rparr>) (length (payload r)) s = Inr (0, staged s r [])"
proof -
  have d: "distinct_adj (parents r)"
    using assms(4) by (rule distinct_adjI)
  have f: "find_revision (staged s r d) (rid r) = None"
    using assms(8) by (simp add: find_revision_def staged_def)
  show "begin_receive encoded (r\<lparr>payload := []\<rparr>) (length (payload r)) (staged s r d) = Inr (length d, staged s r d)"
    if "length d \<le> length (payload r)"
    using assms d f that find_incoming_staged[OF assms(9), of d] by (simp add: begin_receive_def)
  show "begin_receive encoded (r\<lparr>payload := []\<rparr>) (length (payload r)) s = Inr (0, staged s r [])"
    if "length (incoming s) < 32"
      "sum_list (map (\<lambda>i. length (buffer i)) (incoming s)) + length (payload r) \<le> 2 * 1024 * 1024 * 1024"
    using assms d that by (simp add: begin_receive_def staged_def)
qed

lemma add_staged:
  "add_revision raw r (staged s r d) = (add_revision raw r s)\<lparr>incoming := incoming (staged s r d)\<rparr>"
  by (cases s) (simp add: add_revision_def admit_revision_def insert_parents_def cache_fingerprint_def insert_revision_def
      find_revision_def parents_eligible_def eligible_def staged_def)

lemma validate_parents_cong: "revisions s' = revisions s \<Longrightarrow> validate_parents s' r ps = validate_parents s r ps"
  by (induction ps) (simp_all add: find_revision_def split: option.splits)

lemma finish_staged:
  assumes inv: "store_inv digest raw s" and op: "receive_revision digest raw r s = Inr (True, s')"
    and new: "find_incoming s (rid r) = None"
  shows "finish_receive digest raw (rid r) (staged s r (payload r)) = Inr (True, s')"
proof -
  have r: "sealed digest r" "rid r \<notin> ids s" "links s r" "s' = add_revision raw r s"
    using receive_inv(3)[OF inv op] by simp_all
  let ?t = "staged s r (payload r)"
  have f: "find_revision ?t (rid r) = None" "validate_parents ?t r (parents r) = None"
    using r(2, 3) validate_parents_cong[of ?t s] validate_parents_links[OF rows_invD(1)[OF store_invD(1)[OF inv]]]
    by (simp_all add: find_revision_None ids_def staged_def links_def)
  have "finish_receive digest raw (rid r) ?t = Inr (True, discard_receive (rid r) (add_revision raw r ?t))"
    using f find_incoming_staged[OF new, of "payload r"] r(1) add_revision_order[of r raw ?t]
    by (simp add: finish_receive_def sealed_def)
  moreover have "discard_receive (rid r) (add_revision raw r ?t) = add_revision raw r s"
  proof -
    have "filter (\<lambda>i. rid (metadata i) \<noteq> rid r) (incoming s) = incoming s"
      using new by (auto simp: find_incoming_def find_None_iff)
    moreover have "incoming (add_revision raw r s) = incoming s"
      using add_fields(5)[OF store_invD(1)[OF inv] r(1-3)] by blast
    ultimately show ?thesis
      by (simp add: add_staged discard_receive_def) (simp add: staged_def)
  qed
  ultimately show ?thesis
    using r(4) by simp
qed

section \<open>Open applications\<close>

lemma intent_other:
  assumes "intents_inv s" "(key, i) \<in> set (intents s)" "\<not> completed i"
  shows "\<not> list_ex (\<lambda>(key', j). key' = key \<and> \<not> completed j) (filter (\<lambda>(key, j). operation j \<noteq> operation i) (intents s))"
proof -
  have "operation j = operation i" if "(key, j) \<in> set (intents s)" "\<not> completed j" for j
    using one_pending[OF assms that] by simp
  then show ?thesis
    by (auto simp: list_ex_iff)
qed

lemma open_pending: "(key, i) \<in> set (intents s) \<Longrightarrow> \<not> completed i \<Longrightarrow> pending_intent s (fst key) (snd key)"
  by (auto simp: pending_intent_def list_ex_iff)

lemma finish_open_result:
  assumes inv: "store_inv digest raw s" and i: "application s x = Some i" "\<not> completed i"
    and q: "find_revision s (revision_id i) = Some q" and ok: "observed_ok raw q observed"
  shows "\<exists>s'. finish_apply raw x observed s = Inr (True, s') \<and> applied_revision s' (vault q) (object q) = Some (revision_id i) \<and>
    \<not> pending_intent s' (vault q) (object q)"
proof -
  obtain hs where hs: "finish_apply raw x observed s =
      Inr (True, complete_intent x (set_applied (vault q) (object q) (revision_id i) (s\<lparr>fingerprints := hs\<rparr>)))"
    using finish_apply_open[OF assms] by blast
  let ?s' = "complete_intent x (set_applied (vault q) (object q) (revision_id i) (s\<lparr>fingerprints := hs\<rparr>))"
  obtain q' where "find_revision s (revision_id i) = Some q'" "((vault q', object q'), i) \<in> set (intents s)" "operation i = x"
    using open_intent[OF inv i] by metis
  then have "\<not> pending_intent (complete_intent x s) (vault q) (object q)"
    using complete_intent_inv(2)[OF inv, of "(vault q, object q)" i x] i(2) q by simp
  then have "\<not> pending_intent ?s' (vault q) (object q)"
    by (simp add: pending_intent_def complete_intent_def set_applied_def)
  moreover have "applied_revision ?s' (vault q) (object q) = Some (revision_id i)"
    by (simp add: applied_revision_def complete_intent_def set_applied_def update_conv')
  ultimately show ?thesis
    using hs by blast
qed

lemma abandon_open_result:
  assumes inv: "store_inv digest raw s" and i: "application s x = Some i" "\<not> completed i"
    and q: "find_revision s (revision_id i) = Some q"
  shows "\<exists>s'. abandon_unpublished_apply x s = Inr (True, s') \<and> applied_rows s' = applied_rows s \<and>
    \<not> pending_intent s' (vault q) (object q)"
proof -
  obtain q' where q': "find_revision s (revision_id i) = Some q'" "((vault q', object q'), i) \<in> set (intents s)" "operation i = x"
    "applied_revision s (vault q') (object q') = expected_revision i"
    using open_intent[OF inv i] by metis
  let ?s' = "s\<lparr>intents := filter (\<lambda>(key, j). operation j \<noteq> x) (intents s)\<rparr>"
  have "abandon_unpublished_apply x s = Inr (True, ?s')"
    using i q q' by (simp add: abandon_unpublished_apply_def offer_def)
  moreover have "\<not> pending_intent ?s' (vault q) (object q)"
    using intent_other[OF store_invD(6)[OF inv] q'(2) i(2)] q q' by (simp add: pending_intent_def)
  ultimately show ?thesis
    by (intro exI[of _ ?s']) simp
qed


section \<open>A run of two devices\<close>

definition journal :: "(revision \<Rightarrow> string) \<Rightarrow> (string \<Rightarrow> string) \<Rightarrow> revision set \<Rightarrow> revision_store \<Rightarrow> bool" where
  "journal digest raw U s \<longleftrightarrow> hash_ok digest U \<and> reaches digest raw U new_store s"

lemma journal_inv:
  assumes "journal digest raw U s"
  shows "store_inv digest raw s" "contents s \<subseteq> U" "rows_inv digest s" "eligible_inv s" "hash_ok digest U"
proof -
  have u: "hash_ok digest U" "reaches digest raw U new_store s"
    using assms by (simp_all add: journal_def)
  note r = reaches_inv[OF u(2) u(1) new_store_inv new_contents]
  show "store_inv digest raw s" "contents s \<subseteq> U" "rows_inv digest s" "eligible_inv s" "hash_ok digest U"
    using r u(1) by (simp_all add: store_inv_def)
qed

lemma journal_step: "journal digest raw U s \<Longrightarrow> transition digest raw U s s' \<Longrightarrow> journal digest raw U s'"
  by (auto simp: journal_def)

lemma journal_new: "hash_ok digest U \<Longrightarrow> journal digest raw U new_store"
  by (simp add: journal_def)

text \<open>A document with two revisions, saved on one device and received and applied on another.\<close>

definition digest0 :: "revision \<Rightarrow> string" where
  "digest0 r = replicate 64 (if payload r = ''one'' then CHR ''0'' else CHR ''1'')"

definition raw0 :: "string \<Rightarrow> string" where
  "raw0 p = replicate 64 (if p = ''one'' then CHR ''a'' else CHR ''b'')"

definition draft :: "string \<Rightarrow> string list \<Rightarrow> revision" where
  "draft p ps = \<lparr>rid = [], vault = ''v'', object = ''o'', origin_member = ''m'', format = ''ath-xml-v3'', semantic_version = 4,
     relative_path = ''p.ath'', deleted = False, parents = ps, payload = p\<rparr>"

definition id1 :: string where "id1 = replicate 64 (CHR ''0'')"
definition id2 :: string where "id2 = replicate 64 (CHR ''1'')"

definition contents0 :: "revision set" where
  "contents0 = {draft ''one'' [], draft ''two'' [id1]}"

definition first_revision :: revision where "first_revision = (draft ''one'' [])\<lparr>rid := id1\<rparr>"
definition second_revision :: revision where "second_revision = (draft ''two'' [id1])\<lparr>rid := id2\<rparr>"

definition saved_once :: revision_store where
  "saved_once = \<lparr>revisions = [first_revision], edges = [], fingerprints = [(id1, raw0 ''one'')],
     applied_rows = [((''v'', ''o''), id1)], incoming = [], intents = [], approvals = [], eligibles = [id1]\<rparr>"

definition saved_twice :: revision_store where
  "saved_twice = \<lparr>revisions = [first_revision, second_revision], edges = [(id2, id1)],
     fingerprints = [(id1, raw0 ''one''), (id2, raw0 ''two'')],
     applied_rows = [((''v'', ''o''), id2)], incoming = [], intents = [], approvals = [], eligibles = [id1, id2]\<rparr>"

definition received_once :: revision_store where
  "received_once = saved_once\<lparr>applied_rows := []\<rparr>"

definition intent0 :: apply_intent where
  "intent0 = \<lparr>operation = ''op'', revision_id = id1, expected_revision = None, source_path = ''p.ath'',
     source_fingerprint = None, protected_history_version = 0, completed = False\<rparr>"

definition being_applied :: revision_store where
  "being_applied = received_once\<lparr>intents := [((''v'', ''o''), intent0)]\<rparr>"

definition received_twice :: revision_store where
  "received_twice = saved_twice\<lparr>applied_rows := [], intents := [((''v'', ''o''), intent0)]\<rparr>"

lemma repeated_digest: "digest_id (replicate 64 (CHR ''0''))" "digest_id (replicate 64 (CHR ''1''))"
  "digest_id (replicate 64 (CHR ''a''))" "digest_id (replicate 64 (CHR ''b''))"
  by code_simp+

lemma id_digest: "digest_id id1" "digest_id id2" "id1 \<noteq> id2" "id2 \<noteq> id1" "id1 \<noteq> []" "id2 \<noteq> []"
  by (simp_all only: id1_def id2_def repeated_digest) simp_all

lemma raw_digest: "digest_id (raw0 p)"
  by (simp add: raw0_def repeated_digest)

lemma digest0_draft: "identity digest0 (draft p ps) = (if p = ''one'' then id1 else id2)"
  "identity digest0 (draft p ps\<lparr>rid := x\<rparr>) = (if p = ''one'' then id1 else id2)"
  by (simp_all add: identity_def digest0_def draft_def id1_def id2_def)

lemma hash_ok0: "hash_ok digest0 contents0"
  using repeated_digest by (auto simp: hash_ok_def contents0_def inj_on_def digest0_def draft_def)

lemmas run_defs = capture_saved_def capture_insert_def validate_revision_def draft_def first_revision_def
  second_revision_def saved_once_def saved_twice_def applied_revision_def pending_intent_def find_revision_def
  insert_revision_def insert_parents_def admit_revision_def cache_fingerprint_def parents_eligible_def eligible_def
  set_applied_def new_store_def

lemma save_once: "capture_saved digest0 raw0 (draft ''one'' []) None None new_store = Inr (Some id1, saved_once)"
  using id_digest digest0_draft(1)[of "''one''" "[]"] by (simp add: run_defs Let_def)

lemma save_twice: "capture_saved digest0 raw0 (draft ''two'' []) (Some id1) None saved_once = Inr (Some id2, saved_twice)"
proof -
  have "identity digest0 ((draft ''two'' [])\<lparr>origin_member := ''m'', parents := []\<rparr>) = id2"
    "identity digest0 ((draft ''two'' [])\<lparr>parents := [id1]\<rparr>) = id2"
    using digest0_draft(1)[of "''two''" "[]"] digest0_draft(1)[of "''two''" "[id1]"] by (simp_all add: draft_def)
  then show ?thesis
    using id_digest by (simp add: run_defs Let_def)
qed

lemma receive_first: "receive_revision digest0 raw0 first_revision new_store = Inr (True, received_once)"
  using id_digest digest0_draft(2)[where p = "''one''" and ps = "[]" and x = id1] digest0_draft(1)[of "''one''" "[]"]
  by (simp add: receive_revision_def seal_revision_def received_once_def run_defs Let_def)

lemma prepare_first: "prepare_apply intent0 received_once = Inr (True, being_applied)"
  using id_digest by (simp add: prepare_apply_def intent_ok_def intent0_def received_once_def being_applied_def application_def
      base_error_def offer_def run_defs)

lemma receive_second: "receive_revision digest0 raw0 second_revision being_applied = Inr (True, received_twice)"
  using id_digest digest0_draft(2)[where p = "''two''" and ps = "[id1]" and x = id2] digest0_draft(1)[of "''two''" "[id1]"]
  by (simp add: receive_revision_def seal_revision_def received_once_def being_applied_def received_twice_def run_defs Let_def)

lemma run_contents: "contents saved_once \<subseteq> contents0" "contents saved_twice \<subseteq> contents0" "contents received_once \<subseteq> contents0"
  "contents received_twice \<subseteq> contents0"
  by (auto simp: contents_def contents0_def saved_once_def saved_twice_def received_once_def received_twice_def
      first_revision_def second_revision_def draft_def)

lemma step_saved: "transition digest0 raw0 contents0 saved_once saved_twice"
  by (rule captured[OF save_twice _ run_contents(2)]) (simp add: with_parent_def contents0_def draft_def)

lemma journal_saved: "journal digest0 raw0 contents0 saved_once" "journal digest0 raw0 contents0 saved_twice"
proof -
  have "with_parent (draft ''one'' []) None \<in> contents0"
    by (simp add: with_parent_def contents0_def draft_def)
  then have "transition digest0 raw0 contents0 new_store saved_once"
    by (rule captured[OF save_once _ run_contents(1)])
  then show "journal digest0 raw0 contents0 saved_once"
    using journal_step[OF journal_new[OF hash_ok0]] by blast
  then show "journal digest0 raw0 contents0 saved_twice"
    using journal_step step_saved by blast
qed

lemma journal_received: "journal digest0 raw0 contents0 received_once" "journal digest0 raw0 contents0 being_applied"
  "journal digest0 raw0 contents0 received_twice"
proof -
  show r: "journal digest0 raw0 contents0 received_once"
    using journal_step[OF journal_new[OF hash_ok0] received[OF receive_first run_contents(3)]] .
  then show b: "journal digest0 raw0 contents0 being_applied"
    using journal_step prepared[OF prepare_first] by blast
  show "journal digest0 raw0 contents0 received_twice"
    using journal_step[OF b received[OF receive_second run_contents(4)]] .
qed

section \<open>Properties\<close>

text \<open>Claim C19. Whatever operations a store has gone through, its invariant holds: revisions are stored once, under
  the hash of their content and after their parents; exactly the revisions are eligible whose
  parents are and which, if they merge, have been approved; applied revisions and applications belong to the right
  object and are eligible; unfinished applications start from the applied revision, one per object.\<close>

theorem journal_sound: "journal digest raw U s \<Longrightarrow> store_inv digest raw s"
  by (rule journal_inv(1))

theorem journal_sound_witness: "store_inv digest0 raw0 saved_twice"
  by (rule journal_sound[OF journal_saved(2)])

text \<open>Claim C20. The revision applied to a file is only ever replaced by a revision that was made from it,
  so that no operation, of synchronization or of saving, loses an edit or goes back in history; the pointer never
  vanishes, and what it points to is eligible.\<close>

theorem applied_advances:
  assumes "journal digest raw U s" "reaches digest raw U s s'" "applied_revision s v obj = Some x"
  shows "\<exists>y. applied_revision s' v obj = Some y \<and> eligible s' y \<and> ancestor_of s' x y"
proof -
  have r: "store_inv digest raw s'" "advances s s'"
    using reaches_inv[OF assms(2) journal_inv(5)[OF assms(1)] journal_inv(1)[OF assms(1)] journal_inv(2)[OF assms(1)]]
    by simp_all
  then obtain y where y: "applied_revision s' v obj = Some y" "ancestor_of s' x y"
    using assms(3) unfolding advances_def applied_revision_def ancestor_of_iff by blast
  moreover have "eligible s' y"
    using belongs_applied[OF r(1) y(1)] by (simp add: belongs_def eligible_def)
  ultimately show ?thesis
    by blast
qed

theorem applied_advances_witness:
  "\<exists>y. applied_revision saved_twice ''v'' ''o'' = Some y \<and> eligible saved_twice y \<and> ancestor_of saved_twice id1 y"
proof (rule applied_advances)
  show "journal digest0 raw0 contents0 saved_once"
    by (rule journal_saved)
  show "reaches digest0 raw0 contents0 saved_once saved_twice"
    using step_saved by blast
  show "applied_revision saved_once ''v'' ''o'' = Some id1"
    by (simp add: saved_once_def applied_revision_def)
qed

text \<open>Claim C21. Devices converge: two stores that hold the same revisions and the same approvals agree on which
  revisions are eligible, on the heads of every object, on the relation of any two revisions and on
  their merge bases, in whatever order the revisions, the approvals and the local saves came.\<close>

theorem devices_agree:
  assumes "journal digest raw U s" "journal digest raw U s'"
    and "set (revisions s') = set (revisions s)" "fst ` set (approvals s') = fst ` set (approvals s)"
  shows "eligible s' = eligible s \<and> heads s' = heads s \<and> compare_revisions s' = compare_revisions s \<and>
    merge_bases s' = merge_bases s"
proof (intro conjI ext)
  note rows = journal_inv(3)[OF assms(1)] journal_inv(3)[OF assms(2)]
  have el: "eligible s' = eligible s"
    using eligible_agree[OF rows(1) journal_inv(4)[OF assms(1)] rows(2) journal_inv(4)[OF assms(2)] assms(3, 4)] .
  then show "eligible s' x = eligible s x" for x
    by simp
  show "heads s' v obj = heads s v obj" for v obj
    by (rule heads_agree[OF rows assms(3) el])
  have found: "find_revision s' = find_revision s"
    by (rule find_agree[OF rows assms(3)])
  have edges: "parent_of s' = parent_of s"
    using in_parent_of[OF rows(1)] in_parent_of[OF rows(2)] assms(3) by (auto simp: set_eq_iff)
  show cmp: "compare_revisions s' x y = compare_revisions s x y" for x y
    by (simp add: compare_revisions_def found ancestor_of_iff edges)
  have "bases s' x y = bases s x y" for x y
  proof -
    have "set (bases s' x y) = set (bases s x y)"
      unfolding set_eq_iff set_bases[OF rows(1)] set_bases[OF rows(2)] ancestor_of_iff edges by blast
    then show ?thesis
      using bases_sorted sorted_distinct_set_unique by metis
  qed
  then show "merge_bases s' x y = merge_bases s x y" for x y
    using cmp by (simp add: merge_bases_bases split: sum.splits)
qed

theorem devices_agree_witness:
  "eligible received_twice = eligible saved_twice \<and> heads received_twice = heads saved_twice \<and>
   compare_revisions received_twice = compare_revisions saved_twice \<and> merge_bases received_twice = merge_bases saved_twice"
  by (rule devices_agree[OF journal_saved(2) journal_received(3)]) (simp_all add: received_twice_def)

text \<open>Claim C22. The heads of an object, in order and without repetition, are the eligible
  revisions of it from which no other eligible revision was made; each eligible revision is an ancestor of a
  head, so that the heads account for everything that was edited.\<close>

theorem heads_maximal:
  assumes "journal digest raw U s"
  shows "sorted (heads s v obj) \<and> distinct (heads s v obj) \<and>
    set (heads s v obj) = {x. (\<exists>r. find_revision s x = Some r \<and> vault r = v \<and> object r = obj) \<and> eligible s x \<and>
      (\<forall>y. eligible s y \<longrightarrow> ancestor_of s x y \<longrightarrow> y = x)} \<and>
    (\<forall>x r. find_revision s x = Some r \<longrightarrow> vault r = v \<longrightarrow> object r = obj \<longrightarrow> eligible s x \<longrightarrow>
      (\<exists>h \<in> set (heads s v obj). ancestor_of s x h))"
proof (intro conjI allI impI)
  note rows = journal_inv(3)[OF assms] and el = journal_inv(4)[OF assms]
  show "sorted (heads s v obj)" "distinct (heads s v obj)"
    using heads_sorted[OF rows] by simp_all
  show "set (heads s v obj) = {x. (\<exists>r. find_revision s x = Some r \<and> vault r = v \<and> object r = obj) \<and> eligible s x \<and>
      (\<forall>y. eligible s y \<longrightarrow> ancestor_of s x y \<longrightarrow> y = x)}"
    unfolding set_eq_iff mem_Collect_eq set_heads childless_maximal[OF rows el]
    using find_revision_Some[OF rows_invD(1)[OF rows]] by blast
  show "\<exists>h \<in> set (heads s v obj). ancestor_of s x h"
    if "find_revision s x = Some r" "vault r = v" "object r = obj" "eligible s x" for x r
    using head_above[OF rows el that(4, 1)] that(2, 3) by simp
qed

theorem heads_maximal_witness: "\<exists>h \<in> set (heads saved_twice ''v'' ''o''). ancestor_of saved_twice id1 h"
proof -
  have "find_revision saved_twice id1 = Some first_revision" "vault first_revision = ''v''" "object first_revision = ''o''"
    "eligible saved_twice id1"
    by (simp_all add: run_defs)
  then show ?thesis
    using heads_maximal[OF journal_saved(2), of "''v''" "''o''"] by blast
qed

text \<open>Claim C23. Comparing two revisions of an object gives mirrored answers for the two orders of the
  arguments, and then the merge bases exist, do not depend on the order of the arguments, are the
  maximal common ancestors, and lie above every common ancestor.\<close>

theorem merge_bases_best:
  assumes "journal digest raw U s" "compare_revisions s x y = Inr c"
  shows "compare_revisions s y x = Inr (case c of Same \<Rightarrow> Same | Ancestor \<Rightarrow> Descendant | Descendant \<Rightarrow> Ancestor | Concurrent \<Rightarrow> Concurrent) \<and>
    (\<exists>bs. merge_bases s x y = Inr bs \<and> merge_bases s y x = Inr bs \<and> sorted bs \<and> distinct bs \<and>
      set bs = {z. ancestor_of s z x \<and> ancestor_of s z y \<and>
        (\<forall>w. ancestor_of s w x \<longrightarrow> ancestor_of s w y \<longrightarrow> ancestor_of s z w \<longrightarrow> w = z)} \<and>
      (\<forall>z. ancestor_of s z x \<longrightarrow> ancestor_of s z y \<longrightarrow> (\<exists>b \<in> set bs. ancestor_of s z b)))"
proof
  note rows = journal_inv(3)[OF assms(1)]
  have anti: "x = y" if "ancestor_of s x y" "ancestor_of s y x"
    using ancestor_antisym[OF rows] that by (simp add: ancestor_of_iff)
  obtain a where a: "find_revision s x = Some a"
    using assms(2) by (auto simp: compare_revisions_def split: option.splits)
  show mirror: "compare_revisions s y x = Inr (case c of Same \<Rightarrow> Same | Ancestor \<Rightarrow> Descendant | Descendant \<Rightarrow> Ancestor | Concurrent \<Rightarrow> Concurrent)"
    using assms(2) anti by (auto simp: compare_revisions_def split: option.splits if_splits)
  have swap: "bases s y x = bases s x y"
  proof -
    have "set (bases s y x) = set (bases s x y)"
      unfolding set_eq_iff set_bases[OF rows] by blast
    then show ?thesis
      using bases_sorted sorted_distinct_set_unique by metis
  qed
  show "\<exists>bs. merge_bases s x y = Inr bs \<and> merge_bases s y x = Inr bs \<and> sorted bs \<and> distinct bs \<and>
      set bs = {z. ancestor_of s z x \<and> ancestor_of s z y \<and>
        (\<forall>w. ancestor_of s w x \<longrightarrow> ancestor_of s w y \<longrightarrow> ancestor_of s z w \<longrightarrow> w = z)} \<and>
      (\<forall>z. ancestor_of s z x \<longrightarrow> ancestor_of s z y \<longrightarrow> (\<exists>b \<in> set bs. ancestor_of s z b))"
  proof (intro exI[of _ "bases s x y"] conjI allI impI)
    show "merge_bases s x y = Inr (bases s x y)" "merge_bases s y x = Inr (bases s x y)"
      using assms(2) mirror swap by (simp_all add: merge_bases_bases)
    show "sorted (bases s x y)" "distinct (bases s x y)"
      using bases_sorted by simp_all
    show "set (bases s x y) = {z. ancestor_of s z x \<and> ancestor_of s z y \<and>
        (\<forall>w. ancestor_of s w x \<longrightarrow> ancestor_of s w y \<longrightarrow> ancestor_of s z w \<longrightarrow> w = z)}"
      unfolding set_eq_iff mem_Collect_eq set_bases[OF rows] by blast
    show "\<exists>b \<in> set (bases s x y). ancestor_of s z b" if "ancestor_of s z x" "ancestor_of s z y" for z
      using base_above[OF rows a that] .
  qed
qed

theorem merge_bases_best_witness:
  "compare_revisions saved_twice id2 id1 = Inr Descendant \<and> (\<exists>bs. merge_bases saved_twice id1 id2 = Inr bs)"
proof -
  have "ancestor_of saved_twice id1 id2"
    by (auto simp: ancestor_of_iff saved_twice_def)
  then have "compare_revisions saved_twice id1 id2 = Inr Ancestor"
    using id_digest by (simp add: compare_revisions_def run_defs)
  from merge_bases_best[OF journal_saved(2) this] show ?thesis
    by auto
qed

text \<open>Claim C24. Receiving a revision in pieces has the effect of receiving it at once: when the store would
  accept it and has room to stage it, any division of the payload into chunks of permitted size is accepted piece
  by piece, and the last step leaves the store as the single message does. After any number of
  chunks the transfer can be resumed: starting it again changes nothing and tells what has arrived.\<close>

theorem staged_transfer:
  assumes "journal digest raw U s" "receive_revision digest raw r s = Inr (True, s')" "digest_id (rid r)"
    and "find_incoming s (rid r) = None" "length (incoming s) < 32"
    and "length (payload r) \<le> 512 * 1024 * 1024" "encoded (r\<lparr>payload := []\<rparr>) \<le> 64 * 1024"
    and "sum_list (map (\<lambda>i. length (buffer i)) (incoming s)) + length (payload r) \<le> 2 * 1024 * 1024 * 1024"
    and "concat cs = payload r" "\<forall>c \<in> set cs. c \<noteq> [] \<and> length c \<le> 256 * 1024"
  shows "\<exists>t u. begin_receive encoded (r\<lparr>payload := []\<rparr>) (length (payload r)) s = Inr (0, t) \<and>
    receive_chunks (rid r) 0 cs t = Inr (length (payload r), u) \<and> finish_receive digest raw (rid r) u = Inr (True, s') \<and>
    (\<forall>n. \<exists>w. receive_chunks (rid r) 0 (take n cs) t = Inr (length (concat (take n cs)), w) \<and>
       begin_receive encoded (r\<lparr>payload := []\<rparr>) (length (payload r)) w = Inr (length (concat (take n cs)), w))"
proof -
  note inv = journal_inv(1)[OF assms(1)]
  have r: "sealed digest r" "rid r \<notin> ids s"
    using receive_inv(3)[OF inv assms(2)] by simp_all
  have pre: "validate_revision (r\<lparr>payload := []\<rparr>) = None" "deleted r \<longrightarrow> payload r = []" "sorted (parents r)" "distinct (parents r)"
    "find_revision s (rid r) = None"
    using r by (auto simp: sealed_def validate_revision_def find_revision_None split: if_splits)
  note staged = begin_staged[where encoded = encoded and r = r and s = s, OF pre(1) assms(3) pre(3, 4, 2) assms(6, 7) pre(5) assms(4)]
  have chunks: "receive_chunks (rid r) 0 (take n cs) (staged s r []) =
      Inr (length (concat (take n cs)), staged s r (concat (take n cs)))"
    and le: "length (concat (take n cs)) \<le> length (payload r)" for n
  proof -
    have "concat (take n cs) @ concat (drop n cs) = payload r"
      using assms(9) by (metis append_take_drop_id concat_append)
    then show le: "length (concat (take n cs)) \<le> length (payload r)"
      by (metis le_add1 length_append)
    then show "receive_chunks (rid r) 0 (take n cs) (staged s r []) =
        Inr (length (concat (take n cs)), staged s r (concat (take n cs)))"
      using chunks_staged[OF assms(4), of "take n cs" "[]"] assms(10) by (auto dest: in_set_takeD)
  qed
  show ?thesis
  proof (intro exI conjI allI)
    show "begin_receive encoded (r\<lparr>payload := []\<rparr>) (length (payload r)) s = Inr (0, staged s r [])"
      using staged(2) assms(5, 8) by blast
    show "receive_chunks (rid r) 0 cs (staged s r []) = Inr (length (payload r), staged s r (payload r))"
      using chunks[of "length cs"] assms(9) by simp
    show "finish_receive digest raw (rid r) (staged s r (payload r)) = Inr (True, s')"
      by (rule finish_staged[OF inv assms(2, 4)])
    show "receive_chunks (rid r) 0 (take n cs) (staged s r []) =
        Inr (length (concat (take n cs)), staged s r (concat (take n cs)))" for n
      by (rule chunks)
    show "begin_receive encoded (r\<lparr>payload := []\<rparr>) (length (payload r)) (staged s r (concat (take n cs))) =
        Inr (length (concat (take n cs)), staged s r (concat (take n cs)))" for n
      by (rule staged(1)[OF le])
  qed
qed

theorem staged_transfer_witness:
  "\<exists>t u. begin_receive (\<lambda>r. 100) (first_revision\<lparr>payload := []\<rparr>) (length (payload first_revision)) new_store = Inr (0, t) \<and>
     receive_chunks (rid first_revision) 0 [''on'', ''e''] t = Inr (length (payload first_revision), u) \<and>
     finish_receive digest0 raw0 (rid first_revision) u = Inr (True, received_once)"
proof -
  have r: "digest_id (rid first_revision)" "concat [''on'', ''e''] = payload first_revision"
    by (simp_all add: first_revision_def draft_def id_digest)
  have small: "length (payload first_revision) = 3" "incoming new_store = []"
    by (simp_all add: first_revision_def draft_def new_store_def)
  have "find_incoming new_store (rid first_revision) = None"
    by (simp add: find_incoming_def new_store_def)
  from staged_transfer[OF journal_new[OF hash_ok0] receive_first r(1) this _ _ _ _ r(2), of "\<lambda>r. 100"] show ?thesis
    unfolding small by fastforce
qed

text \<open>Claim C25. An application that has been started always settles: its target is still there and eligible, so that
  reporting the right file finishes it and makes the target the applied revision, and it can be abandoned,
  which leaves the applied revision; either way the object is free again.\<close>

theorem open_application_settles:
  assumes "journal digest raw U s" "application s x = Some i" "\<not> completed i"
  shows "\<exists>q. find_revision s (revision_id i) = Some q \<and>
    (\<forall>observed. observed_ok raw q observed \<longrightarrow>
      (\<exists>s'. finish_apply raw x observed s = Inr (True, s') \<and> applied_revision s' (vault q) (object q) = Some (revision_id i) \<and>
         \<not> pending_intent s' (vault q) (object q))) \<and>
    (\<exists>s'. abandon_unpublished_apply x s = Inr (True, s') \<and> applied_rows s' = applied_rows s \<and>
       \<not> pending_intent s' (vault q) (object q))"
proof -
  note inv = journal_inv(1)[OF assms(1)]
  obtain q where q: "find_revision s (revision_id i) = Some q"
    using open_intent[OF inv assms(2, 3)] by metis
  show ?thesis
    using q finish_open_result[OF inv assms(2, 3) q] abandon_open_result[OF inv assms(2, 3) q] by blast
qed

theorem open_application_settles_witness:
  "\<exists>s'. finish_apply raw0 ''op'' (Some (raw0 ''one'')) received_twice = Inr (True, s') \<and> applied_revision s' ''v'' ''o'' = Some id1"
proof -
  have i: "application received_twice ''op'' = Some intent0" "\<not> completed intent0" "revision_id intent0 = id1"
    by (simp_all add: application_def received_twice_def intent0_def)
  have q: "find_revision received_twice id1 = Some first_revision" "vault first_revision = ''v''" "object first_revision = ''o''"
    "observed_ok raw0 first_revision (Some (raw0 ''one''))"
    by (simp_all add: received_twice_def run_defs observed_ok_def raw_digest)
  show ?thesis
    using open_application_settles[OF journal_received(3) i(1, 2)] q i(3) by auto
qed

text \<open>Claim C26. While an application is open, nothing else moves the object: no other application of the object
  can be started, no revision of it can be recorded as applied, and a local save of it is refused or
  left out without an effect.\<close>

theorem open_application_excludes:
  assumes "journal digest raw U s" "application s x = Some i" "\<not> completed i" "find_revision s (revision_id i) = Some q"
  shows "(\<forall>j r. operation j \<noteq> x \<longrightarrow> find_revision s (revision_id j) = Some r \<longrightarrow> vault r = vault q \<longrightarrow> object r = object q \<longrightarrow>
      (\<exists>e. prepare_apply j s = Inl e) \<or> prepare_apply j s = Inr (False, s)) \<and>
    (\<forall>y r expected. find_revision s y = Some r \<longrightarrow> vault r = vault q \<longrightarrow> object r = object q \<longrightarrow>
      (\<exists>e. record_applied y expected s = Inl e)) \<and>
    (\<forall>snapshot expected predecessor. vault snapshot = vault q \<longrightarrow> object snapshot = object q \<longrightarrow>
      (\<exists>e. capture_saved digest raw snapshot expected predecessor s = Inl e) \<or>
      capture_saved digest raw snapshot expected predecessor s = Inr (None, s))"
proof (intro conjI allI impI)
  note inv = journal_inv(1)[OF assms(1)]
  obtain q' where "((vault q', object q'), i) \<in> set (intents s)" "find_revision s (revision_id i) = Some q'"
    using open_intent[OF inv assms(2, 3)] by metis
  then have busy: "pending_intent s (vault q) (object q)"
    using open_pending[of "(vault q, object q)" i s] assms(3, 4) by simp
  show "(\<exists>e. prepare_apply j s = Inl e) \<or> prepare_apply j s = Inr (False, s)"
    if "find_revision s (revision_id j) = Some r" "vault r = vault q" "object r = object q" for j r
  proof (cases "prepare_apply j s")
    case (Inr p)
    then obtain b s' where p: "prepare_apply j s = Inr (b, s')"
      by (cases p) simp
    from prepare_apply_cases[OF inv p] have "\<not> b \<and> s' = s"
      using busy that by auto
    then show ?thesis
      using p by simp
  qed simp
  show "\<exists>e. record_applied y expected s = Inl e"
    if "find_revision s y = Some r" "vault r = vault q" "object r = object q" for y r expected
    using that busy by (auto simp: record_applied_def)
  show "(\<exists>e. capture_saved digest raw snapshot expected predecessor s = Inl e) \<or>
      capture_saved digest raw snapshot expected predecessor s = Inr (None, s)"
    if "vault snapshot = vault q" "object snapshot = object q" for snapshot expected predecessor
    using that busy by (auto simp: capture_saved_def split: option.splits)
qed

theorem open_application_excludes_witness: "\<exists>e. record_applied id2 None received_twice = Inl e"
proof -
  have i: "application received_twice ''op'' = Some intent0" "\<not> completed intent0"
    "find_revision received_twice (revision_id intent0) = Some first_revision"
    "find_revision received_twice id2 = Some second_revision" "vault second_revision = vault first_revision"
    "object second_revision = object first_revision"
    using id_digest by (simp_all add: application_def received_twice_def intent0_def run_defs)
  show ?thesis
    using open_application_excludes[OF journal_received(3) i(1-3)] i(4-6) by blast
qed

end
