(* ===== verification/Athena_Transfer.thy ===== *)
theory Athena_Transfer
  imports Athena_Journal
begin

text \<open>
  The exchange of revisions between two devices, \<open>src/src/Sync/Hodarium/revision_transfer.cpp\<close>. A
  \<open>vault_revision_sender\<close> asks the other device for the heads of a vault and for their
  ancestors, depth first, and hands what is missing, parents first, to a \<open>revision_sender\<close>, which transfers it in
  chunks to the \<open>revision_receiver\<close> of the other device. A \<open>revision_exchange\<close> wraps both directions
  of a connection in numbered envelopes.

  Messages are CBOR arrays in the source and a datatype here; \<open>Garbage\<close> stands for what does not parse. The
  size of an encoded message, the test whether a string is UTF-8, the size of a descriptor and the two
  hashes are the fields of a record \<open>world\<close>. The authorization of a vault is a function. An
  exception has the value \<open>Inl\<close>; the owner of a sender or an exchange drops it then, so that only the
  receiver, which changes before one exception, keeps a state.
\<close>

section \<open>Messages\<close>

datatype wire =
    Have string string
  | Have_reply string string bool
  | Offer revision nat
  | Chunk string nat string
  | Finish string
  | Ack string nat bool
  | Garbage

record world =
  message_size :: "wire \<Rightarrow> nat"
  utf8 :: "string \<Rightarrow> bool"
  descriptor_size :: "revision \<Rightarrow> nat"
  content_hash :: "revision \<Rightarrow> string"
  payload_hash :: "string \<Rightarrow> string"

datatype transfer_error = Journal store_error | Not_text | Bad_message | Not_authorized | Legacy_format
  | Too_many_transfers | No_offer | Unknown_message | Not_offered | Already_started | Descriptor_too_large | Payload_ended
  | Bad_acknowledgement | Stale_cursor | Missing_causal | Traversal_budget | No_request | Bad_vault | Too_many_vaults
  | Sequence_exhausted | Nothing_queued | Unexpected_reply | Unexpected_request

fun texts :: "wire \<Rightarrow> string list" where
  "texts (Have v x) = [v, x]"
| "texts (Have_reply v x b) = [v, x]"
| "texts (Offer r n) = [rid r, vault r, object r, origin_member r, format r, relative_path r] @ parents r"
| "texts (Chunk x offset bytes) = [x]"
| "texts (Finish x) = [x]"
| "texts (Ack x offset b) = [x]"
| "texts Garbage = []"

definition encode_wire :: "world \<Rightarrow> wire \<Rightarrow> transfer_error + wire" where
  "encode_wire w m = (if list_all (utf8 w) (texts m) then Inr m else Inl Not_text)"

definition require_document_epoch :: "revision \<Rightarrow> bool" where
  "require_document_epoch r \<longleftrightarrow>
     \<not> (take 8 (format r) = ''ath-xml-'' \<and> (format r \<noteq> ''ath-xml-v3'' \<or> semantic_version r \<noteq> 4))"

text \<open>What the decoder of a descriptor checks beyond the types of the fields.\<close>

definition descriptor_ok :: "revision \<Rightarrow> bool" where
  "descriptor_ok r \<longleftrightarrow> length (parents r) \<le> 256 \<and> 0 < semantic_version r \<and> semantic_version r < 2 ^ 32"

section \<open>The receiver\<close>

record receiver =
  active :: "(string \<times> revision \<times> nat) list"
  offsets :: "(string \<times> nat) list"

definition new_receiver :: receiver where
  "new_receiver = \<lparr>active = [], offsets = []\<rparr>"

definition forget_offer :: "string \<Rightarrow> receiver \<Rightarrow> receiver" where
  "forget_offer x rc = rc\<lparr>active := AList.delete x (active rc), offsets := AList.delete x (offsets rc)\<rparr>"

definition accept_have ::
    "world \<Rightarrow> (string \<Rightarrow> bool) \<Rightarrow> string \<Rightarrow> string \<Rightarrow> nat \<Rightarrow> revision_store \<Rightarrow> transfer_error + wire" where
  "accept_have w auth v x len t =
     (if len > 4096 then Inl Bad_message
      else if \<not> auth v then Inl Not_authorized
      else case has_revision t v x of Inl e \<Rightarrow> Inl (Journal e) | Inr b \<Rightarrow> encode_wire w (Have_reply v x b))"

definition accept_offer ::
    "world \<Rightarrow> (string \<Rightarrow> bool) \<Rightarrow> revision \<Rightarrow> nat \<Rightarrow> nat \<Rightarrow> receiver \<times> revision_store \<Rightarrow>
     (transfer_error + wire) \<times> receiver \<times> revision_store" where
  "accept_offer w auth r n len = (\<lambda>(rc, t).
     if len > 128 * 1024 \<or> \<not> descriptor_ok r then (Inl Bad_message, rc, t)
     else if \<not> auth (vault r) then (Inl Not_authorized, rc, t)
     else if \<not> require_document_epoch r then (Inl Legacy_format, rc, t)
     else if map_of (active rc) (rid r) = None \<and> length (active rc) \<ge> 32 then (Inl Too_many_transfers, rc, t)
     else case begin_receive (descriptor_size w) r n t of
       Inl e \<Rightarrow> (Inl (Journal e), rc, t)
     | Inr (offset, t') \<Rightarrow>
         (encode_wire w (Ack (rid r) offset False),
          rc\<lparr>active := AList.update (rid r) (r, n) (active rc), offsets := AList.update (rid r) offset (offsets rc)\<rparr>, t'))"

text \<open>Messages about a transfer that has been offered.\<close>

definition accept_active ::
    "world \<Rightarrow> (string \<Rightarrow> bool) \<Rightarrow> string \<Rightarrow> wire \<Rightarrow> receiver \<times> revision_store \<Rightarrow>
     (transfer_error + wire) \<times> receiver \<times> revision_store" where
  "accept_active w auth x m = (\<lambda>(rc, t).
     case map_of (active rc) x of
       None \<Rightarrow> (Inl No_offer, rc, t)
     | Some (r, n) \<Rightarrow>
         if \<not> auth (vault r) then (Inl Not_authorized, forget_offer x rc, t)
         else (case m of
             Chunk _ offset bytes \<Rightarrow>
               (case receive_chunk x offset bytes t of
                  Inl e \<Rightarrow> (Inl (Journal e), rc, t)
                | Inr (offset', t') \<Rightarrow>
                    (encode_wire w (Ack x offset' False), rc\<lparr>offsets := AList.update x offset' (offsets rc)\<rparr>, t'))
           | Finish _ \<Rightarrow>
               (case finish_receive (content_hash w) (payload_hash w) x t of
                  Inl e \<Rightarrow> (Inl (Journal e), rc, t)
                | Inr (b, t') \<Rightarrow> (encode_wire w (Ack x n True), forget_offer x rc, t'))
           | _ \<Rightarrow> (Inl Unknown_message, rc, t)))"

definition receiver_accept ::
    "world \<Rightarrow> (string \<Rightarrow> bool) \<Rightarrow> wire \<Rightarrow> receiver \<times> revision_store \<Rightarrow>
     (transfer_error + wire) \<times> receiver \<times> revision_store" where
  "receiver_accept w auth m c =
     (if message_size w m > 512 * 1024 then (Inl Bad_message, c)
      else case m of
        Have v x \<Rightarrow> (accept_have w auth v x (message_size w m) (snd c), c)
      | Offer r n \<Rightarrow> accept_offer w auth r n (message_size w m) c
      | Chunk x _ _ \<Rightarrow> accept_active w auth x m c
      | Finish x \<Rightarrow> accept_active w auth x m c
      | Ack x _ _ \<Rightarrow> accept_active w auth x m c
      | _ \<Rightarrow> (Inl Bad_message, c))"

text \<open>How much of the active transfers of a vault has arrived, how much there is, and whether there are any.\<close>

definition receiver_progress :: "receiver \<Rightarrow> string \<Rightarrow> nat \<times> nat \<times> bool" where
  "receiver_progress rc v =
     (let xs = filter (\<lambda>(x, r, n). vault r = v) (active rc)
      in (sum_list (map (\<lambda>(x, r, n). case map_of (offsets rc) x of None \<Rightarrow> 0 | Some k \<Rightarrow> k) xs),
          sum_list (map (\<lambda>(x, r, n). n) xs), xs \<noteq> []))"

section \<open>The sender of a revision\<close>

datatype sender_phase = At_start | At_offer | At_chunk | At_finish | At_end

record revision_sender =
  offered :: revision
  offered_size :: nat
  phase :: sender_phase
  expected :: nat
  acknowledged :: nat

definition new_sender ::
    "(string \<Rightarrow> bool) \<Rightarrow> revision_store \<Rightarrow> string \<Rightarrow> string \<Rightarrow> transfer_error + revision_sender" where
  "new_sender auth s v x =
     (if \<not> auth v then Inl Not_authorized
      else case offer s x of
        None \<Rightarrow> Inl Not_offered
      | Some (r, n) \<Rightarrow>
          if vault r \<noteq> v \<or> n > 512 * 1024 * 1024 then Inl Not_offered
          else if \<not> require_document_epoch r then Inl Legacy_format
          else Inr \<lparr>offered = r, offered_size = n, phase = At_start, expected = 0, acknowledged = 0\<rparr>)"

definition sender_begin ::
    "world \<Rightarrow> (string \<Rightarrow> bool) \<Rightarrow> revision_sender \<Rightarrow> transfer_error + wire \<times> revision_sender" where
  "sender_begin w auth sd =
     (if \<not> auth (vault (offered sd)) then Inl Not_authorized
      else if phase sd \<noteq> At_start then Inl Already_started
      else case encode_wire w (Offer (offered sd) (offered_size sd)) of
        Inl e \<Rightarrow> Inl e
      | Inr m \<Rightarrow> if message_size w m > 128 * 1024 then Inl Descriptor_too_large else Inr (m, sd\<lparr>phase := At_offer\<rparr>))"

definition sender_next ::
    "world \<Rightarrow> revision_store \<Rightarrow> nat \<Rightarrow> revision_sender \<Rightarrow> transfer_error + wire \<times> revision_sender" where
  "sender_next w s offset sd =
     (let x = rid (offered sd) in
      if offset = offered_size sd then map_sum id (\<lambda>m. (m, sd\<lparr>phase := At_finish\<rparr>)) (encode_wire w (Finish x))
      else case payload_chunk s x offset (256 * 1024) of
        Inl e \<Rightarrow> Inl (Journal e)
      | Inr bytes \<Rightarrow>
          if bytes = [] then Inl Payload_ended
          else map_sum id (\<lambda>m. (m, sd\<lparr>expected := offset + length bytes, phase := At_chunk\<rparr>))
            (encode_wire w (Chunk x offset bytes)))"

text \<open>The answer is the next message, or \<open>None\<close> when the transfer is complete.\<close>

definition sender_acknowledge ::
    "world \<Rightarrow> (string \<Rightarrow> bool) \<Rightarrow> revision_store \<Rightarrow> wire \<Rightarrow> revision_sender \<Rightarrow>
     transfer_error + wire option \<times> revision_sender" where
  "sender_acknowledge w auth s m sd =
     (if \<not> auth (vault (offered sd)) then Inl Not_authorized
      else if message_size w m > 1024 then Inl Bad_message
      else case m of
        Ack x offset ended \<Rightarrow>
          if x \<noteq> rid (offered sd) then Inl Bad_acknowledgement
          else if offset > offered_size sd \<or> phase sd = At_start \<or> phase sd = At_end \<or>
             (phase sd = At_chunk \<and> offset \<noteq> expected sd) \<or>
             (phase sd = At_finish \<and> (\<not> ended \<or> offset \<noteq> offered_size sd)) \<or>
             (phase sd \<noteq> At_finish \<and> ended) then Inl Bad_acknowledgement
          else let sd1 = sd\<lparr>acknowledged := offset\<rparr> in
            if phase sd = At_finish then Inr (None, sd1\<lparr>phase := At_end\<rparr>)
            else map_sum id (\<lambda>(m', sd'). (Some m', sd')) (sender_next w s offset sd1)
      | _ \<Rightarrow> Inl Bad_acknowledgement)"

definition sender_complete :: "revision_sender \<Rightarrow> bool" where
  "sender_complete sd \<longleftrightarrow> phase sd = At_end"

definition sender_progress :: "revision_sender \<Rightarrow> nat \<times> nat \<times> bool" where
  "sender_progress sd = (acknowledged sd, offered_size sd, \<not> sender_complete sd)"

section \<open>The sender of a vault\<close>

text \<open>Vectors that are used as stacks are lists whose head is the last element of the vector.\<close>

datatype vault_phase = V_initial | V_probe | V_transfer | V_complete

record vault_sender =
  sent_vault :: string
  cursor :: int
  through :: int
  head_rows :: "(nat \<times> string) list"
  stack :: "(string \<times> bool) list"
  transfer :: "revision_sender option"
  vphase :: vault_phase

definition new_vault_sender :: "(string \<Rightarrow> bool) \<Rightarrow> string \<Rightarrow> int \<Rightarrow> transfer_error + vault_sender" where
  "new_vault_sender auth v after =
     (if after < 0 then Inl Stale_cursor
      else if \<not> auth v then Inl Not_authorized
      else Inr \<lparr>sent_vault = v, cursor = after, through = 0, head_rows = [], stack = [], transfer = None, vphase = V_initial\<rparr>)"

text \<open>The heads of the current page that are left, or else the next page.\<close>

definition remaining_heads :: "revision_store \<Rightarrow> vault_sender \<Rightarrow> store_error + (nat \<times> string) list" where
  "remaining_heads s vs =
     (if head_rows vs = [] then inventory_heads s (sent_vault vs) (cursor vs) (through vs) 64 else Inr (head_rows vs))"

text \<open>The next head to start from; without one the exchange is complete.\<close>

definition next_root :: "revision_store \<Rightarrow> vault_sender \<Rightarrow> transfer_error + vault_sender" where
  "next_root s vs =
     (case remaining_heads s vs of
        Inl e \<Rightarrow> Inl (Journal e)
      | Inr [] \<Rightarrow> Inr (vs\<lparr>vphase := V_complete\<rparr>)
      | Inr (h # hs) \<Rightarrow>
          Inr (vs\<lparr>cursor := (if head_rows vs = [] then int (fst (last (h # hs))) else cursor vs),
            head_rows := hs, stack := [(snd h, False)]\<rparr>))"

definition advance_top ::
    "world \<Rightarrow> (string \<Rightarrow> bool) \<Rightarrow> revision_store \<Rightarrow> vault_sender \<Rightarrow> transfer_error + wire option \<times> vault_sender" where
  "advance_top w auth s vs =
     (case stack vs of
        [] \<Rightarrow> Inr (None, vs)
      | (x, expanded) # rest \<Rightarrow>
          if \<not> expanded
          then map_sum id (\<lambda>m. (Some m, vs\<lparr>vphase := V_probe\<rparr>)) (encode_wire w (Have (sent_vault vs) x))
          else (case new_sender auth s (sent_vault vs) x of
              Inl e \<Rightarrow> Inl e
            | Inr sd \<Rightarrow>
                (case sender_begin w auth sd of
                   Inl e \<Rightarrow> Inl e
                 | Inr (m, sd') \<Rightarrow> Inr (Some m, vs\<lparr>transfer := Some sd', vphase := V_transfer\<rparr>))))"

definition advance ::
    "world \<Rightarrow> (string \<Rightarrow> bool) \<Rightarrow> revision_store \<Rightarrow> vault_sender \<Rightarrow> transfer_error + wire option \<times> vault_sender" where
  "advance w auth s vs =
     (if \<not> auth (sent_vault vs) then Inl Not_authorized
      else if stack vs = []
      then (case next_root s vs of Inl e \<Rightarrow> Inl e | Inr vs' \<Rightarrow> advance_top w auth s vs')
      else advance_top w auth s vs)"

definition vault_begin ::
    "world \<Rightarrow> (string \<Rightarrow> bool) \<Rightarrow> revision_store \<Rightarrow> vault_sender \<Rightarrow> transfer_error + wire option \<times> vault_sender" where
  "vault_begin w auth s vs =
     (if \<not> auth (sent_vault vs) then Inl Not_authorized
      else if vphase vs \<noteq> V_initial then Inl Already_started
      else let vs1 = vs\<lparr>through := int (inventory_tip s (sent_vault vs))\<rparr> in
        if cursor vs1 > through vs1 then Inl Stale_cursor else advance w auth s vs1)"

definition acknowledge_probe ::
    "world \<Rightarrow> (string \<Rightarrow> bool) \<Rightarrow> revision_store \<Rightarrow> wire \<Rightarrow> vault_sender \<Rightarrow>
     transfer_error + wire option \<times> vault_sender" where
  "acknowledge_probe w auth s m vs =
     (if message_size w m > 4096 then Inl Bad_message
      else case (m, stack vs) of
        (Have_reply v x known, (y, expanded) # rest) \<Rightarrow>
          if v \<noteq> sent_vault vs \<or> x \<noteq> y then Inl Bad_acknowledgement
          else if known then advance w auth s (vs\<lparr>stack := rest\<rparr>)
          else (case offer s y of
              None \<Rightarrow> Inl Missing_causal
            | Some (r, n) \<Rightarrow>
                if vault r \<noteq> sent_vault vs then Inl Missing_causal
                else if length (stack vs) + length (parents r) > 65536 then Inl Traversal_budget
                else advance w auth s (vs\<lparr>stack := map (\<lambda>p. (p, False)) (parents r) @ (y, True) # rest\<rparr>))
      | _ \<Rightarrow> Inl Bad_acknowledgement)"

definition vault_acknowledge ::
    "world \<Rightarrow> (string \<Rightarrow> bool) \<Rightarrow> revision_store \<Rightarrow> wire \<Rightarrow> vault_sender \<Rightarrow>
     transfer_error + wire option \<times> vault_sender" where
  "vault_acknowledge w auth s m vs =
     (if \<not> auth (sent_vault vs) then Inl Not_authorized
      else case (vphase vs, transfer vs) of
        (V_transfer, Some sd) \<Rightarrow>
          (case sender_acknowledge w auth s m sd of
             Inl e \<Rightarrow> Inl e
           | Inr (next, sd') \<Rightarrow>
               if \<not> sender_complete sd' then Inr (next, vs\<lparr>transfer := Some sd'\<rparr>)
               else advance w auth s (vs\<lparr>transfer := None, stack := tl (stack vs)\<rparr>))
      | (V_probe, _) \<Rightarrow> acknowledge_probe w auth s m vs
      | _ \<Rightarrow> Inl No_request)"

definition vault_complete :: "vault_sender \<Rightarrow> bool" where
  "vault_complete vs \<longleftrightarrow> vphase vs = V_complete"

definition completed_through :: "vault_sender \<Rightarrow> transfer_error + int" where
  "completed_through vs = (if vault_complete vs then Inr (through vs) else Inl No_request)"

section \<open>The exchange\<close>

record envelope =
  is_reply :: bool
  sequence :: int
  about :: string
  body :: wire

record exchange =
  receiving_vault :: string
  sending_vault :: string
  xreceiver :: receiver
  xsender :: "vault_sender option"
  queue :: "envelope list"
  cursors :: "(string \<times> int) list"
  next_sequence :: int
  incoming_sequence :: int
  waiting :: int
  reply_pending :: bool

definition new_exchange :: exchange where
  "new_exchange = \<lparr>receiving_vault = [], sending_vault = [], xreceiver = new_receiver, xsender = None, queue = [],
     cursors = [], next_sequence = 1, incoming_sequence = 1, waiting = 0, reply_pending = False\<rparr>"

definition busy :: "exchange \<Rightarrow> bool" where
  "busy x \<longleftrightarrow> (case xsender x of None \<Rightarrow> False | Some vs \<Rightarrow> \<not> vault_complete vs)"

definition acknowledged_through :: "exchange \<Rightarrow> string \<Rightarrow> int" where
  "acknowledged_through x v = (case map_of (cursors x) v of None \<Rightarrow> - 1 | Some n \<Rightarrow> n)"

text \<open>\<open>request\<close>, called with what the sender answered: a message, or nothing when it is complete.\<close>

definition request :: "wire option \<times> vault_sender \<Rightarrow> exchange \<Rightarrow> transfer_error + exchange" where
  "request answer x =
     (let x1 = x\<lparr>xsender := Some (snd answer)\<rparr> in
      if vault_complete (snd answer) then Inr (x1\<lparr>cursors := AList.update (sending_vault x) (through (snd answer)) (cursors x)\<rparr>)
      else if next_sequence x = 2 ^ 63 - 1 then Inl Sequence_exhausted
      else Inr (x1\<lparr>waiting := next_sequence x, next_sequence := next_sequence x + 1,
        queue := queue x @ [\<lparr>is_reply = False, sequence = next_sequence x, about = sending_vault x,
          body = (case fst answer of None \<Rightarrow> Garbage | Some m \<Rightarrow> m)\<rparr>]\<rparr>))"

definition start_exchange ::
    "world \<Rightarrow> (string \<Rightarrow> bool) \<Rightarrow> revision_store \<Rightarrow> string \<Rightarrow> exchange \<Rightarrow> transfer_error + bool \<times> exchange" where
  "start_exchange w auth s v x =
     (if busy x then Inr (False, x)
      else if v = [] \<or> length v > 1024 \<or> \<not> auth v then Inl Bad_vault
      else if map_of (cursors x) v = None \<and> length (cursors x) \<ge> 256 then Inl Too_many_vaults
      else case new_vault_sender auth v (case map_of (cursors x) v of None \<Rightarrow> 0 | Some n \<Rightarrow> n) of
        Inl e \<Rightarrow> Inl e
      | Inr vs \<Rightarrow>
          (case vault_begin w auth s vs of
             Inl e \<Rightarrow> Inl e
           | Inr answer \<Rightarrow> map_sum id (Pair True) (request answer (x\<lparr>sending_vault := v\<rparr>))))"

definition outgoing :: "(string \<Rightarrow> bool) \<Rightarrow> exchange \<Rightarrow> transfer_error + envelope option" where
  "outgoing auth x =
     (case queue x of
        [] \<Rightarrow> Inr None
      | e # es \<Rightarrow> if \<not> auth (about e) then Inl Not_authorized else Inr (Some e))"

definition sent :: "exchange \<Rightarrow> transfer_error + exchange" where
  "sent x =
     (case queue x of
        [] \<Rightarrow> Inl Nothing_queued
      | e # es \<Rightarrow> Inr (x\<lparr>reply_pending := (if is_reply e then False else reply_pending x), queue := es\<rparr>))"

definition reply_expected :: "envelope \<Rightarrow> exchange \<Rightarrow> bool" where
  "reply_expected e x \<longleftrightarrow> busy x \<and> waiting x \<noteq> 0 \<and> sequence e = waiting x \<and> about e = sending_vault x \<and>
     \<not> list_ex (\<lambda>q. \<not> is_reply q) (queue x)"

definition accept_reply ::
    "world \<Rightarrow> (string \<Rightarrow> bool) \<Rightarrow> envelope \<Rightarrow> revision_store \<Rightarrow> exchange \<Rightarrow> transfer_error + exchange" where
  "accept_reply w auth e s x =
     (if \<not> reply_expected e x then Inl Unexpected_reply
      else case xsender x of
        None \<Rightarrow> Inl Unexpected_reply
      | Some vs \<Rightarrow>
          (case vault_acknowledge w auth s (body e) vs of
             Inl err \<Rightarrow> Inl err
           | Inr answer \<Rightarrow> request answer (x\<lparr>waiting := 0\<rparr>)))"

definition request_expected :: "envelope \<Rightarrow> exchange \<Rightarrow> bool" where
  "request_expected e x \<longleftrightarrow> \<not> reply_pending x \<and> sequence e = incoming_sequence x \<and> incoming_sequence x \<noteq> 2 ^ 63 - 1"

text \<open>A request may change the store, whether or not it is answered.\<close>

definition accept_request ::
    "world \<Rightarrow> (string \<Rightarrow> bool) \<Rightarrow> envelope \<Rightarrow> exchange \<times> revision_store \<Rightarrow> (transfer_error + exchange) \<times> revision_store" where
  "accept_request w auth e = (\<lambda>(x, s).
     if \<not> request_expected e x then (Inl Unexpected_request, s)
     else (case receiver_accept w (\<lambda>v. v = about e \<and> auth v) (body e) (xreceiver x, s) of
         (Inl err, rc, s') \<Rightarrow> (Inl err, s')
       | (Inr reply, rc, s') \<Rightarrow>
           (Inr (x\<lparr>receiving_vault := about e, xreceiver := rc, incoming_sequence := incoming_sequence x + 1,
              reply_pending := True,
              queue := queue x @ [\<lparr>is_reply = True, sequence = sequence e, about = about e, body = reply\<rparr>]\<rparr>), s')))"

definition vault_ok :: "(string \<Rightarrow> bool) \<Rightarrow> string \<Rightarrow> bool" where
  "vault_ok auth v \<longleftrightarrow> v \<noteq> [] \<and> length v \<le> 1024 \<and> auth v"

definition accept_envelope ::
    "world \<Rightarrow> (string \<Rightarrow> bool) \<Rightarrow> (envelope \<Rightarrow> nat) \<Rightarrow> envelope \<Rightarrow> exchange \<times> revision_store \<Rightarrow>
     (transfer_error + exchange) \<times> revision_store" where
  "accept_envelope w auth envelope_size e = (\<lambda>(x, s).
     if envelope_size e > 512 * 1024 \<or> sequence e < 0 then (Inl Bad_message, s)
     else if \<not> vault_ok auth (about e) then (Inl Not_authorized, s)
     else if is_reply e then (accept_reply w auth e s x, s)
     else accept_request w auth e (x, s))"

end
