(* ===== verification/Athena_Replication.thy ===== *)
theory Athena_Replication
  imports Athena_Transfer
begin

text \<open>
  The exchange of the revisions of a vault over a connection that delivers what is sent: it ends, and
  afterwards the receiving journal has exactly the revisions of the vault that it had or the sender has.
\<close>

section \<open>Rounds\<close>

text \<open>A message, its reply, and the next message. \<open>None\<close> in place of a message: there is nothing left to send.\<close>

type_synonym talk = "wire option \<times> vault_sender \<times> receiver \<times> revision_store"

definition exchange_round :: "world \<Rightarrow> (string \<Rightarrow> bool) \<Rightarrow> revision_store \<Rightarrow> talk \<Rightarrow> transfer_error + talk" where
  "exchange_round w auth s = (\<lambda>(m, vs, rc, t).
     case m of
       None \<Rightarrow> Inl No_request
     | Some msg \<Rightarrow>
         (case receiver_accept w auth msg (rc, t) of
            (Inl e, c) \<Rightarrow> Inl e
          | (Inr reply, rc', t') \<Rightarrow>
              (case vault_acknowledge w auth s reply vs of
                 Inl e \<Rightarrow> Inl e
               | Inr (m', vs') \<Rightarrow> Inr (m', vs', rc', t'))))"

abbreviation rounds :: "world \<Rightarrow> (string \<Rightarrow> bool) \<Rightarrow> revision_store \<Rightarrow> talk \<Rightarrow> talk \<Rightarrow> bool" where
  "rounds w auth s \<equiv> (\<lambda>c c'. exchange_round w auth s c = Inr c')\<^sup>*\<^sup>*"

text \<open>Messages about a revision keep to the budgets and can be encoded.\<close>

definition fits :: "world \<Rightarrow> string \<Rightarrow> revision \<Rightarrow> bool" where
  "fits w v r \<longleftrightarrow> length (payload r) \<le> 512 * 1024 * 1024 \<and> descriptor_size w (r\<lparr>payload := []\<rparr>) \<le> 64 * 1024 \<and>
     require_document_epoch r \<and> semantic_version r < 2 ^ 32 \<and> list_all (utf8 w) (texts (Offer r 0)) \<and>
     message_size w (Offer (r\<lparr>payload := []\<rparr>) (length (payload r))) \<le> 128 * 1024 \<and>
     (\<forall>offset bytes. length bytes \<le> 256 * 1024 \<longrightarrow> message_size w (Chunk (rid r) offset bytes) \<le> 512 * 1024) \<and>
     message_size w (Finish (rid r)) \<le> 512 * 1024 \<and> (\<forall>offset b. message_size w (Ack (rid r) offset b) \<le> 1024) \<and>
     message_size w (Have v (rid r)) \<le> 4096 \<and> (\<forall>b. message_size w (Have_reply v (rid r) b) \<le> 4096)"

definition sendable :: "world \<Rightarrow> string \<Rightarrow> revision_store \<Rightarrow> bool" where
  "sendable w v s \<longleftrightarrow> (\<forall>r \<in> set (revisions s). vault r = v \<longrightarrow> fits w v r) \<and> length (edges s) < 65536"

definition has_room :: "string \<Rightarrow> revision_store \<Rightarrow> revision_store \<Rightarrow> bool" where
  "has_room v s t \<longleftrightarrow> length (incoming t) < 32 \<and>
     (\<forall>r \<in> set (revisions s). vault r = v \<longrightarrow> r \<notin> set (revisions t) \<longrightarrow> find_incoming t (rid r) = None \<and>
        sum_list (map (\<lambda>i. length (buffer i)) (incoming t)) + length (payload r) \<le> 2 * 1024 * 1024 * 1024)"

text \<open>\<open>t'\<close> is \<open>t\<close> with the revisions \<open>R\<close> added.\<close>

definition gains :: "world \<Rightarrow> revision set \<Rightarrow> revision_store \<Rightarrow> revision_store \<Rightarrow> revision set \<Rightarrow> bool" where
  "gains w U t t' R \<longleftrightarrow> journal (content_hash w) (payload_hash w) U t' \<and> set (revisions t') = set (revisions t) \<union> R \<and>
     incoming t' = incoming t \<and> applied_rows t' = applied_rows t \<and> approvals t' = approvals t \<and> intents t' = intents t"

lemma gains_refl: "journal (content_hash w) (payload_hash w) U t \<Longrightarrow> gains w U t t {}"
  by (simp add: gains_def)

lemma gains_trans: "gains w U t t' R \<Longrightarrow> gains w U t' t'' R' \<Longrightarrow> gains w U t t'' (R \<union> R')"
  by (auto simp: gains_def)

lemma gains_room: "gains w U t t' R \<Longrightarrow> has_room v s t \<Longrightarrow> has_room v s t'"
  by (auto simp: gains_def has_room_def find_incoming_def)

text \<open>From where the sender stands at \<open>vs\<close> the talk comes to where it stands at \<open>vs'\<close>.\<close>

definition stands :: "world \<Rightarrow> (string \<Rightarrow> bool) \<Rightarrow> revision_store \<Rightarrow> vault_sender \<Rightarrow> receiver \<times> revision_store \<Rightarrow> talk \<Rightarrow> bool" where
  "stands w auth s vs c k \<longleftrightarrow> (\<exists>m vs'. advance w auth s vs = Inr (m, vs') \<and> k = (m, vs', c))"

definition leads ::
    "world \<Rightarrow> (string \<Rightarrow> bool) \<Rightarrow> revision_store \<Rightarrow> vault_sender \<Rightarrow> revision_store \<Rightarrow> vault_sender \<Rightarrow> revision_store \<Rightarrow> bool" where
  "leads w auth s vs t vs' t' \<longleftrightarrow>
     (\<forall>k'. stands w auth s vs' (new_receiver, t') k' \<longrightarrow> (\<exists>k. stands w auth s vs (new_receiver, t) k \<and> rounds w auth s k k'))"

lemma leads_refl: "leads w auth s vs t vs t"
  by (auto simp: leads_def)

lemma leads_trans: "leads w auth s vs t vs' t' \<Longrightarrow> leads w auth s vs' t' vs'' t'' \<Longrightarrow> leads w auth s vs t vs'' t''"
  unfolding leads_def by (meson rtranclp_trans)

lemma advance_phase: "advance w auth s (vs\<lparr>vphase := p\<rparr>) = advance w auth s vs"
proof -
  have top: "advance_top w auth s (u\<lparr>vphase := p\<rparr>) = advance_top w auth s u" if "stack u \<noteq> []" for u
    using that by (cases "stack u") (auto simp: advance_top_def split: sum.splits)
  show ?thesis
  proof (cases "stack vs")
    case Nil
    have r: "remaining_heads s (vs\<lparr>vphase := p\<rparr>) = remaining_heads s vs"
      by (simp add: remaining_heads_def)
    show ?thesis
    proof (cases "remaining_heads s vs")
      case (Inl e)
      then show ?thesis
        using Nil r by (simp add: advance_def next_root_def)
    next
      case (Inr xs)
      then show ?thesis
      proof (cases xs)
        case (Cons h ys)
        let ?u = "vs\<lparr>cursor := (if head_rows vs = [] then int (fst (last xs)) else cursor vs), head_rows := ys, stack := [(snd h, False)]\<rparr>"
        have "next_root s vs = Inr ?u" "next_root s (vs\<lparr>vphase := p\<rparr>) = Inr (?u\<lparr>vphase := p\<rparr>)"
          using Inr Cons r by (simp_all add: next_root_def)
        then show ?thesis
          using top[of ?u] Nil by (simp add: advance_def)
      qed (use Inr Nil r in \<open>simp add: advance_def next_root_def advance_top_def\<close>)
    qed
  next
    case (Cons x xs)
    then show ?thesis
      using top[of vs] by (simp add: advance_def)
  qed
qed

lemma advance_moved:
  assumes "transfer vs = None"
  shows "advance w auth s (vs\<lparr>vphase := p, stack := st\<rparr>) = advance w auth s (vs\<lparr>stack := st\<rparr>)"
    "advance w auth s (vs\<lparr>transfer := x, vphase := p, transfer := None, stack := st\<rparr>) = advance w auth s (vs\<lparr>stack := st\<rparr>)"
proof -
  have "vs\<lparr>vphase := p, stack := st\<rparr> = vs\<lparr>stack := st\<rparr>\<lparr>vphase := p\<rparr>"
    "vs\<lparr>transfer := x, vphase := p, transfer := None, stack := st\<rparr> = vs\<lparr>stack := st\<rparr>\<lparr>vphase := p\<rparr>"
    using assms by (cases vs; simp)+
  then show "advance w auth s (vs\<lparr>vphase := p, stack := st\<rparr>) = advance w auth s (vs\<lparr>stack := st\<rparr>)"
    "advance w auth s (vs\<lparr>transfer := x, vphase := p, transfer := None, stack := st\<rparr>) = advance w auth s (vs\<lparr>stack := st\<rparr>)"
    using advance_phase by metis+
qed

lemma leads_round:
  assumes "advance w auth s vs = Inr (Some m, vs1)" "receiver_accept w auth m (new_receiver, t) = (Inr reply, new_receiver, t)"
    "vault_acknowledge w auth s reply vs1 = advance w auth s vs'"
  shows "leads w auth s vs t vs' t"
  unfolding leads_def
proof (intro allI impI)
  fix k'
  assume "stands w auth s vs' (new_receiver, t) k'"
  then have "exchange_round w auth s (Some m, vs1, new_receiver, t) = Inr k'"
    using assms by (auto simp: stands_def exchange_round_def)
  then show "\<exists>k. stands w auth s vs (new_receiver, t) k \<and> rounds w auth s k k'"
    using assms(1) by (auto simp: stands_def)
qed

section \<open>Probes\<close>

lemma fits_texts:
  assumes "fits w v r" "vault r = v"
  shows "utf8 w v" "utf8 w (rid r)" "list_all (utf8 w) (texts (Offer (r\<lparr>payload := []\<rparr>) n))"
  using assms by (auto simp: fits_def)

lemma has_revision_iff:
  assumes "journal H P U t" "r \<in> set (revisions t) \<or> r\<lparr>rid := []\<rparr> \<in> U" "rid r = H (r\<lparr>rid := []\<rparr>)"
  shows "has_revision t (vault r) (rid r) = Inr (r \<in> set (revisions t))"
proof -
  note inv = journal_inv[OF assms(1)]
  have u: "r\<lparr>rid := []\<rparr> \<in> U"
    using assms(2) inv(2) by (auto simp: contents_def)
  then have "digest_id (rid r)"
    using inv(5) assms(3) by (simp add: hash_ok_def)
  moreover have "q = r" if q: "q \<in> set (revisions t)" "rid q = rid r" for q
  proof -
    have "inj_on H U"
      using inv(5) by (simp add: hash_ok_def)
    then have "q = r\<lparr>rid := rid q\<rparr>"
      using content_unique[OF _ inv(2) u inv(3) q(1)] q(2) assms(3) by (simp add: identity_def)
    then show ?thesis
      using q(2) by simp
  qed
  ultimately show ?thesis
    by (auto simp: has_revision_def list_ex_iff)
qed

lemma row_facts:
  assumes "journal H P U s" "r \<in> set (revisions s)"
  shows "rid r = H (r\<lparr>rid := []\<rparr>)" "r\<lparr>rid := []\<rparr> \<in> U" "digest_id (rid r)" "find_revision s (rid r) = Some r" "sealed H r"
    "offer s (rid r) = Some (r\<lparr>payload := []\<rparr>, length (payload r))"
proof -
  note inv = journal_inv[OF assms(1)]
  show s: "sealed H r"
    using rows_invD(2)[OF inv(3) assms(2)] .
  then show id: "rid r = H (r\<lparr>rid := []\<rparr>)"
    by (simp add: sealed_def identity_def)
  show u: "r\<lparr>rid := []\<rparr> \<in> U"
    using inv(2) assms(2) by (auto simp: contents_def)
  show "digest_id (rid r)"
    using inv(5) u id by (simp add: hash_ok_def)
  show f: "find_revision s (rid r) = Some r"
    using find_revision_Some[OF rows_invD(1)[OF inv(3)]] assms(2) by blast
  then show "offer s (rid r) = Some (r\<lparr>payload := []\<rparr>, length (payload r))"
    by (simp add: offer_def)
qed

lemma probe_leads:
  assumes js: "journal (content_hash w) (payload_hash w) U s" and jt: "journal (content_hash w) (payload_hash w) U t"
    and r: "r \<in> set (revisions s)" "fits w (vault r) r" and auth: "auth (vault r)"
    and vs: "sent_vault vs = vault r" "stack vs = (rid r, False) # rest" "transfer vs = None"
  shows "r \<in> set (revisions t) \<Longrightarrow> leads w auth s vs t (vs\<lparr>stack := rest\<rparr>) t"
    "r \<notin> set (revisions t) \<Longrightarrow> length (stack vs) + length (parents r) \<le> 65536 \<Longrightarrow>
     leads w auth s vs t (vs\<lparr>stack := map (\<lambda>p. (p, False)) (parents r) @ (rid r, True) # rest\<rparr>) t"
proof -
  note row = row_facts[OF js r(1)]
  have utf: "list_all (utf8 w) [vault r, rid r]"
    using fits_texts[OF r(2)] by simp
  have size: "message_size w (Have (vault r) (rid r)) \<le> 4096" "message_size w (Have_reply (vault r) (rid r) b) \<le> 4096" for b
    using r(2) by (simp_all add: fits_def)
  have adv: "advance w auth s vs = Inr (Some (Have (vault r) (rid r)), vs\<lparr>vphase := V_probe\<rparr>)"
    using auth vs utf by (simp add: advance_def advance_top_def encode_wire_def)
  have acc: "receiver_accept w auth (Have (vault r) (rid r)) (new_receiver, t) =
      (Inr (Have_reply (vault r) (rid r) (r \<in> set (revisions t))), new_receiver, t)"
    using size(1) auth utf has_revision_iff[OF jt _ row(1)] row(2)
    by (simp add: receiver_accept_def accept_have_def encode_wire_def)
  show "leads w auth s vs t (vs\<lparr>stack := rest\<rparr>) t" if "r \<in> set (revisions t)"
  proof (rule leads_round[OF adv])
    show "receiver_accept w auth (Have (vault r) (rid r)) (new_receiver, t) =
        (Inr (Have_reply (vault r) (rid r) True), new_receiver, t)"
      using acc that by simp
    show "vault_acknowledge w auth s (Have_reply (vault r) (rid r) True) (vs\<lparr>vphase := V_probe\<rparr>) =
        advance w auth s (vs\<lparr>stack := rest\<rparr>)"
      using auth vs size(2)[of True] advance_moved(1)[OF vs(3)]
      by (simp add: vault_acknowledge_def acknowledge_probe_def)
  qed
  show "leads w auth s vs t (vs\<lparr>stack := map (\<lambda>p. (p, False)) (parents r) @ (rid r, True) # rest\<rparr>) t"
    if "r \<notin> set (revisions t)" "length (stack vs) + length (parents r) \<le> 65536"
  proof (rule leads_round[OF adv])
    show "receiver_accept w auth (Have (vault r) (rid r)) (new_receiver, t) =
        (Inr (Have_reply (vault r) (rid r) False), new_receiver, t)"
      using acc that(1) by simp
    show "vault_acknowledge w auth s (Have_reply (vault r) (rid r) False) (vs\<lparr>vphase := V_probe\<rparr>) =
        advance w auth s (vs\<lparr>stack := map (\<lambda>p. (p, False)) (parents r) @ (rid r, True) # rest\<rparr>)"
      using auth vs size(2)[of False] row(6) that(2) advance_moved(1)[OF vs(3)]
      by (simp add: vault_acknowledge_def acknowledge_probe_def)
  qed
qed

section \<open>Transfers\<close>

definition receiving :: "revision \<Rightarrow> nat \<Rightarrow> receiver" where
  "receiving r k = \<lparr>active = [(rid r, r\<lparr>payload := []\<rparr>, length (payload r))], offsets = [(rid r, k)]\<rparr>"

lemma forget_receiving: "forget_offer (rid r) (receiving r k) = new_receiver"
  by (simp add: forget_offer_def receiving_def new_receiver_def)

lemma sender_next_end:
  assumes "fits w v r" "offered sd = r\<lparr>payload := []\<rparr>" "offered_size sd = length (payload r)"
  shows "sender_next w s (length (payload r)) sd = Inr (Finish (rid r), sd\<lparr>phase := At_finish\<rparr>)"
  using assms by (simp add: sender_next_def encode_wire_def fits_def)

definition piece :: "revision \<Rightarrow> nat \<Rightarrow> string" where
  "piece r off = take (256 * 1024) (drop off (payload r))"

lemma take_min_length: "take (min n (length xs)) xs = take n xs"
  by (simp add: min_def)

lemma piece_facts:
  assumes "off < length (payload r)"
  shows "piece r off \<noteq> []" "length (piece r off) \<le> 256 * 1024" "off + length (piece r off) \<le> length (payload r)"
    "take off (payload r) @ piece r off = take (off + length (piece r off)) (payload r)"
proof -
  show "piece r off \<noteq> []" "length (piece r off) \<le> 256 * 1024" "off + length (piece r off) \<le> length (payload r)"
    using assms by (auto simp: piece_def)
  have "take (length (piece r off)) (drop off (payload r)) = piece r off"
    unfolding piece_def length_take by (metis min.commute take_min_length)
  then show "take off (payload r) @ piece r off = take (off + length (piece r off)) (payload r)"
    by (simp add: take_add)
qed

lemma sender_next_piece:
  assumes "fits w v r" "find_revision s (rid r) = Some r" "off < length (payload r)"
    "offered sd = r\<lparr>payload := []\<rparr>" "offered_size sd = length (payload r)"
  shows "sender_next w s off sd =
    Inr (Chunk (rid r) off (piece r off), sd\<lparr>expected := off + length (piece r off), phase := At_chunk\<rparr>)"
proof -
  have "take (min (256 * 1024) (length (payload r) - off)) (drop off (payload r)) = piece r off"
    using take_min_length[of "256 * 1024" "drop off (payload r)"] by (simp only: piece_def length_drop)
  then have "payload_chunk s (rid r) off (256 * 1024) = Inr (piece r off)"
    using assms(2, 3) by (simp add: payload_chunk_def)
  then show ?thesis
    using assms piece_facts(1)[OF assms(3)] by (simp add: sender_next_def encode_wire_def fits_def)
qed

lemma chunks_lead:
  assumes jt: "journal (content_hash w) (payload_hash w) U t" and f: "find_revision s (rid r) = Some r" "fits w (vault r) r"
    and auth: "auth (vault r)" and new: "find_incoming t (rid r) = None"
    and rcv: "receive_revision (content_hash w) (payload_hash w) r t = Inr (True, t2)"
    and vs: "sent_vault vs = vault r" "stack vs = (rid r, True) # rest" "transfer vs = None"
    and k': "stands w auth s (vs\<lparr>stack := rest\<rparr>) (new_receiver, t2) k'"
    and off: "off \<le> length (payload r)" and sd: "offered sd = r\<lparr>payload := []\<rparr>" "offered_size sd = length (payload r)"
  shows "\<exists>m sd'. sender_next w s off sd = Inr (m, sd') \<and> \<not> sender_complete sd' \<and>
    rounds w auth s (Some m, vs\<lparr>transfer := Some sd', vphase := V_transfer\<rparr>, receiving r j, staged t r (take off (payload r))) k'"
  using off sd
proof (induction "length (payload r) - off" arbitrary: off sd j rule: less_induct)
  case less
  have utf: "utf8 w (rid r)" and ack: "message_size w (Ack (rid r) n b) \<le> 1024" for n b
    using f(2) by (simp_all add: fits_def)
  have act: "map_of (active (receiving r j)) (rid r) = Some (r\<lparr>payload := []\<rparr>, length (payload r))"
    by (simp add: receiving_def)
  show ?case
  proof (cases "off = length (payload r)")
    case True
    let ?sd = "sd\<lparr>phase := At_finish\<rparr>"
    have "receiver_accept w auth (Finish (rid r)) (receiving r j, staged t r (payload r)) =
        (Inr (Ack (rid r) (length (payload r)) True), new_receiver, t2)"
      using f(2) auth act utf finish_staged[OF journal_inv(1)[OF jt] rcv new] forget_receiving
      by (simp add: receiver_accept_def accept_active_def encode_wire_def fits_def)
    moreover have "vault_acknowledge w auth s (Ack (rid r) (length (payload r)) True) (vs\<lparr>transfer := Some ?sd, vphase := V_transfer\<rparr>) =
        advance w auth s (vs\<lparr>stack := rest\<rparr>)"
      using auth vs less(3, 4) ack[of "length (payload r)" True] advance_moved(2)[OF vs(3), where x = "Some ?sd" and p = V_transfer]
      by (simp add: vault_acknowledge_def sender_acknowledge_def sender_complete_def)
    ultimately have "exchange_round w auth s (Some (Finish (rid r)), vs\<lparr>transfer := Some ?sd, vphase := V_transfer\<rparr>,
        receiving r j, staged t r (take off (payload r))) = Inr k'"
      using k' True by (auto simp: exchange_round_def stands_def)
    then show ?thesis
      using sender_next_end[OF f(2) less(3, 4)] True by (auto simp: sender_complete_def)
  next
    case False
    then have lt: "off < length (payload r)"
      using less(2) by simp
    note pc = piece_facts[OF lt]
    let ?b = "piece r off" and ?sd = "sd\<lparr>expected := off + length (piece r off), phase := At_chunk\<rparr>"
    let ?sd2 = "?sd\<lparr>acknowledged := off + length ?b\<rparr>"
    have "length (payload r) - (off + length ?b) < length (payload r) - off"
      using lt pc(1) by (simp add: diff_less_mono2)
    then obtain m sd' where next': "sender_next w s (off + length ?b) ?sd2 = Inr (m, sd')" "\<not> sender_complete sd'"
      "rounds w auth s (Some m, vs\<lparr>transfer := Some sd', vphase := V_transfer\<rparr>, receiving r (off + length ?b),
         staged t r (take (off + length ?b) (payload r))) k'"
      using less(1)[of "off + length ?b" ?sd2 "off + length ?b"] less(3, 4) pc(3) by auto
    have chunk_size: "message_size w (Chunk (rid r) off ?b) \<le> 512 * 1024"
      using f(2) pc(2) unfolding fits_def by blast
    have "receive_chunk (rid r) off ?b (staged t r (take off (payload r))) =
        Inr (off + length ?b, staged t r (take (off + length ?b) (payload r)))"
      using chunk_staged[OF new pc(1, 2), of "take off (payload r)"] lt pc(3, 4) by simp
    then have acc: "receiver_accept w auth (Chunk (rid r) off ?b) (receiving r j, staged t r (take off (payload r))) =
        (Inr (Ack (rid r) (off + length ?b) False), receiving r (off + length ?b), staged t r (take (off + length ?b) (payload r)))"
      using auth act utf chunk_size
      by (simp add: receiver_accept_def accept_active_def encode_wire_def) (simp add: receiving_def)
    have "vault_acknowledge w auth s (Ack (rid r) (off + length ?b) False) (vs\<lparr>transfer := Some ?sd, vphase := V_transfer\<rparr>) =
        Inr (Some m, vs\<lparr>transfer := Some sd', vphase := V_transfer\<rparr>)"
      using auth vs less(3, 4) ack[of "off + length ?b" False] next' pc(3)
      by (simp add: vault_acknowledge_def sender_acknowledge_def)
    then have "exchange_round w auth s (Some (Chunk (rid r) off ?b), vs\<lparr>transfer := Some ?sd, vphase := V_transfer\<rparr>,
        receiving r j, staged t r (take off (payload r))) =
        Inr (Some m, vs\<lparr>transfer := Some sd', vphase := V_transfer\<rparr>, receiving r (off + length ?b), staged t r (take (off + length ?b) (payload r)))"
      using acc by (simp add: exchange_round_def)
    then show ?thesis
      using sender_next_piece[OF f(2, 1) lt less(3, 4)] next'(3)
      by (auto simp: sender_complete_def intro: converse_rtranclp_into_rtranclp)
  qed
qed

lemma receive_new:
  assumes js: "journal H P U s" and jt: "journal H P U t" and r: "r \<in> set (revisions s)" "r \<notin> set (revisions t)"
    and p: "\<forall>q \<in> set (revisions s). rid q \<in> set (parents r) \<longrightarrow> q \<in> set (revisions t)"
  obtains t2 where "receive_revision H P r t = Inr (True, t2)" "set (revisions t2) = insert r (set (revisions t))"
    "incoming t2 = incoming t" "applied_rows t2 = applied_rows t" "approvals t2 = approvals t" "intents t2 = intents t"
    "journal H P U t2"
proof -
  note row = row_facts[OF js r(1)] and it = journal_inv[OF jt] and at = journal_inv[OF js]
  have seal: "seal_revision H r = Inr r"
  proof -
    have "remdups_adj (sort (parents r)) = parents r"
      using row(5) by (simp add: sealed_def sort_key_id_if_sorted remdups_adj_distinct)
    then show ?thesis
      using row(5) by (simp add: seal_revision_def sealed_def)
  qed
  have new: "rid r \<notin> ids t"
  proof
    assume "rid r \<in> ids t"
    then obtain q where q: "q \<in> set (revisions t)" "rid q = rid r"
      by (auto simp: ids_def)
    have "inj_on H U"
      using it(5) by (simp add: hash_ok_def)
    then have "q = r\<lparr>rid := rid q\<rparr>"
      using content_unique[OF _ it(2) row(2) it(3) q(1)] q(2) row(1) by (simp add: identity_def)
    then show False
      using q r(2) by simp
  qed
  have links: "links t r"
    unfolding links_def
  proof
    fix p
    assume "p \<in> set (parents r)"
    then obtain q where "q \<in> set (revisions s)" "rid q = p" "vault q = vault r" "object q = object r"
      using linked_parent[OF rows_invD(3)[OF at(3)] r(1)] by blast
    then show "\<exists>q \<in> set (revisions t). rid q = p \<and> vault q = vault r \<and> object q = object r"
      using assms(5) \<open>p \<in> set (parents r)\<close> by blast
  qed
  let ?t = "add_revision P r t"
  have parents: "validate_parents t r (parents r) = None"
    using links validate_parents_links[OF rows_invD(1)[OF it(3)]] unfolding links_def by blast
  have rcv: "receive_revision H P r t = Inr (True, ?t)"
    using seal new parents by (simp add: receive_revision_def add_revision_def find_revision_None)
  note f = add_fields[OF it(3) row(5) new links, of P]
  have "contents ?t \<subseteq> U"
    using it(2) row(2) by (simp add: contents_def f)
  then have "journal H P U ?t"
    using journal_step[OF jt] received[OF rcv] by blast
  then show ?thesis
    using that[OF rcv] f by simp
qed

lemma sealed_descriptor:
  assumes "sealed H r"
  shows "validate_revision (r\<lparr>payload := []\<rparr>) = None" "sorted (parents r)" "distinct (parents r)" "deleted r \<longrightarrow> payload r = []"
    "length (parents r) \<le> 256" "0 < semantic_version r"
proof -
  have v: "validate_revision r = None" and o: "sorted (parents r)" "distinct (parents r)"
    using assms by (simp_all add: sealed_def)
  show "sorted (parents r)" "distinct (parents r)"
    by (rule o)+
  show "validate_revision (r\<lparr>payload := []\<rparr>) = None" "deleted r \<longrightarrow> payload r = []" "length (parents r) \<le> 256" "0 < semantic_version r"
    using v by (simp_all add: validate_revision_def split: if_splits)
qed

lemma epoch_payload: "require_document_epoch (r\<lparr>payload := x\<rparr>) = require_document_epoch r"
  by (simp add: require_document_epoch_def)

lemma transfer_leads:
  assumes jt: "journal (content_hash w) (payload_hash w) U t" and js: "journal (content_hash w) (payload_hash w) U s"
    and r: "r \<in> set (revisions s)" "fits w (vault r) r" and auth: "auth (vault r)"
    and room: "has_room (vault r) s t"
    and rcv: "receive_revision (content_hash w) (payload_hash w) r t = Inr (True, t2)"
    and vs: "sent_vault vs = vault r" "stack vs = (rid r, True) # rest" "transfer vs = None"
  shows "leads w auth s vs t (vs\<lparr>stack := rest\<rparr>) t2"
  unfolding leads_def
proof (intro allI impI)
  fix k'
  assume k': "stands w auth s (vs\<lparr>stack := rest\<rparr>) (new_receiver, t2) k'"
  note row = row_facts[OF js r(1)]
  let ?r = "r\<lparr>payload := []\<rparr>" and ?n = "length (payload r)"
  have absent: "find_revision t (rid r) = None" and out: "r \<notin> set (revisions t)"
    using receive_inv(3)[OF journal_inv(1)[OF jt] rcv] by (auto simp: find_revision_None ids_def)
  have new: "find_incoming t (rid r) = None"
    using room r(1) out by (simp add: has_room_def)
  define sd where "sd = \<lparr>offered = ?r, offered_size = ?n, phase = At_offer, expected = 0, acknowledged = 0\<rparr>"
  have "new_sender auth s (vault r) (rid r) = Inr (sd\<lparr>phase := At_start\<rparr>)"
    using auth row(6) r(2) by (simp add: new_sender_def sd_def fits_def epoch_payload)
  moreover have "sender_begin w auth (sd\<lparr>phase := At_start\<rparr>) = Inr (Offer ?r ?n, sd)"
    using auth r(2) fits_texts(3)[OF r(2) refl, of ?n] by (simp add: sender_begin_def encode_wire_def sd_def fits_def)
  ultimately have adv: "advance w auth s vs = Inr (Some (Offer ?r ?n), vs\<lparr>transfer := Some sd, vphase := V_transfer\<rparr>)"
    using auth vs by (simp add: advance_def advance_top_def)
  note valid = sealed_descriptor[OF row(5)]
  have started': "begin_receive (descriptor_size w) ?r ?n t = Inr (0, staged t r [])"
    using begin_staged(2)[where encoded = "descriptor_size w" and r = r and s = t, OF valid(1) row(3) valid(2-4) _ _ absent new]
      r room out by (simp add: fits_def has_room_def)
  have ack: "message_size w (Ack (rid r) 0 False) \<le> 1024" and utf: "utf8 w (rid r)"
    using r(2) by (simp_all add: fits_def)
  have acc: "receiver_accept w auth (Offer ?r ?n) (new_receiver, t) = (Inr (Ack (rid r) 0 False), receiving r 0, staged t r [])"
    using r(2) auth started' valid(5, 6) utf
    by (simp add: receiver_accept_def accept_offer_def fits_def descriptor_ok_def new_receiver_def receiving_def
        encode_wire_def epoch_payload)
  obtain m sd' where next': "sender_next w s 0 sd = Inr (m, sd')" "\<not> sender_complete sd'"
    "rounds w auth s (Some m, vs\<lparr>transfer := Some sd', vphase := V_transfer\<rparr>, receiving r 0, staged t r []) k'"
    using chunks_lead[OF jt row(4) r(2) auth new rcv vs k', of 0 sd 0] by (auto simp: sd_def)
  have "vault_acknowledge w auth s (Ack (rid r) 0 False) (vs\<lparr>transfer := Some sd, vphase := V_transfer\<rparr>) =
      Inr (Some m, vs\<lparr>transfer := Some sd', vphase := V_transfer\<rparr>)"
  proof -
    have "sd\<lparr>acknowledged := 0\<rparr> = sd" "phase sd = At_offer" "offered sd = ?r" "offered_size sd = ?n"
      by (simp_all add: sd_def)
    then show ?thesis
      using auth vs ack next' by (simp add: vault_acknowledge_def sender_acknowledge_def)
  qed
  then have "exchange_round w auth s (Some (Offer ?r ?n), vs\<lparr>transfer := Some sd, vphase := V_transfer\<rparr>, new_receiver, t) =
      Inr (Some m, vs\<lparr>transfer := Some sd', vphase := V_transfer\<rparr>, receiving r 0, staged t r [])"
    using acc by (simp add: exchange_round_def)
  then show "\<exists>k. stands w auth s vs (new_receiver, t) k \<and> rounds w auth s k k'"
    using adv next'(3) by (auto simp: stands_def intro: converse_rtranclp_into_rtranclp)
qed

section \<open>Exploring the ancestors of a head\<close>

lemma same_content:
  assumes "journal H P U s" "journal H P U t" "q \<in> set (revisions s)" "r \<in> set (revisions t)" "rid r = rid q"
  shows "r = q"
proof -
  note q = row_facts[OF assms(1, 3)] and it = journal_inv[OF assms(2)]
  have "inj_on H U"
    using it(5) by (simp add: hash_ok_def)
  then have "r = q\<lparr>rid := rid r\<rparr>"
    using content_unique[OF _ it(2) q(2) it(3) assms(4)] assms(5) q(1) by (simp add: identity_def)
  then show ?thesis
    using assms(5) by simp
qed

text \<open>The parents of the revisions up to \<open>x\<close>: a bound for the stack while \<open>x\<close> is explored.\<close>

definition load :: "revision_store \<Rightarrow> string \<Rightarrow> nat" where
  "load s x = length (edges_of (take (Suc (receipt_rank s x)) (revisions s)))"

lemma nth_rank:
  assumes "rows_inv digest s" "r \<in> set (revisions s)"
  shows "receipt_rank s (rid r) < length (revisions s)" "revisions s ! receipt_rank s (rid r) = r"
proof -
  show lt: "receipt_rank s (rid r) < length (revisions s)"
    using takeWhile_shorter[OF assms(2), of "\<lambda>q. rid q \<noteq> rid r"] by (simp add: receipt_rank_def)
  then have "rid (revisions s ! receipt_rank s (rid r)) = rid r"
    using nth_length_takeWhile[of "\<lambda>q. rid q \<noteq> rid r" "revisions s"] by (simp add: receipt_rank_def)
  then show "revisions s ! receipt_rank s (rid r) = r"
    using same_row[OF assms(1) _ assms(2)] lt by simp
qed

lemma edges_of_take: "m \<le> n \<Longrightarrow> length (edges_of (take m rs)) \<le> length (edges_of (take n rs))"
proof -
  assume "m \<le> n"
  then have "take n rs = take m rs @ take (n - m) (drop m rs)"
    by (metis le_add_diff_inverse take_add)
  then show ?thesis
    by (simp add: edges_of_def)
qed

lemma load_parent:
  assumes "rows_inv digest s" "r \<in> set (revisions s)" "p \<in> set (parents r)"
  shows "load s p + length (parents r) \<le> load s (rid r)"
proof -
  have "receipt_rank s p < receipt_rank s (rid r)"
    using rank_decreases[OF assms(1)] in_parent_of[OF assms(1)] assms(2, 3) by blast
  then have "load s p \<le> length (edges_of (take (receipt_rank s (rid r)) (revisions s)))"
    unfolding load_def by (intro edges_of_take) simp
  moreover have "take (Suc (receipt_rank s (rid r))) (revisions s) = take (receipt_rank s (rid r)) (revisions s) @ [r]"
    using nth_rank[OF assms(1, 2)] by (simp add: take_Suc_conv_app_nth)
  ultimately show ?thesis
    by (simp add: load_def edges_of_append)
qed

lemma load_parents: "rows_inv digest s \<Longrightarrow> r \<in> set (revisions s) \<Longrightarrow> length (parents r) \<le> load s (rid r)"
proof -
  assume a: "rows_inv digest s" "r \<in> set (revisions s)"
  have "take (Suc (receipt_rank s (rid r))) (revisions s) = take (receipt_rank s (rid r)) (revisions s) @ [r]"
    using nth_rank[OF a] by (simp add: take_Suc_conv_app_nth)
  then show ?thesis
    by (simp add: load_def edges_of_append)
qed

lemma load_edges: "rows_inv digest s \<Longrightarrow> load s x \<le> length (edges s)"
proof -
  assume a: "rows_inv digest s"
  have "load s x \<le> length (edges_of (take (max (Suc (receipt_rank s x)) (length (revisions s))) (revisions s)))"
    unfolding load_def by (intro edges_of_take) simp
  then show ?thesis
    using rows_invD(4)[OF a] by simp
qed

definition above :: "revision_store \<Rightarrow> string set \<Rightarrow> revision set" where
  "above s xs = {q \<in> set (revisions s). \<exists>x \<in> xs. ancestor_of s (rid q) x}"

lemma above_parents:
  assumes "rows_inv digest s" "r \<in> set (revisions s)"
  shows "r \<notin> above s (set (parents r))" "insert r (above s (set (parents r))) \<subseteq> above s {rid r}"
proof -
  have e: "(rid r, p) \<in> parent_of s" if "p \<in> set (parents r)" for p
    using in_parent_of[OF assms(1)] assms(2) that by blast
  show "r \<notin> above s (set (parents r))"
  proof
    assume "r \<in> above s (set (parents r))"
    then obtain p where p: "p \<in> set (parents r)" "(p, rid r) \<in> (parent_of s)\<^sup>*"
      by (auto simp: above_def ancestor_of_iff)
    then show False
      using rank_decreases[OF assms(1) e[OF p(1)]] rank_ancestor[OF assms(1) p(2)] by auto
  qed
  show "insert r (above s (set (parents r))) \<subseteq> above s {rid r}"
    using assms(2) e by (auto simp: above_def ancestor_of_iff intro: converse_rtrancl_into_rtrancl)
qed

lemma explore:
  assumes js: "journal (content_hash w) (payload_hash w) U s" and fit: "\<forall>q \<in> set (revisions s). vault q = v \<longrightarrow> fits w v q"
    and auth: "auth v"
    and r: "r \<in> set (revisions s)" "vault r = v"
    and jt: "journal (content_hash w) (payload_hash w) U t" and room: "has_room v s t"
    and vs: "sent_vault vs = v" "stack vs = (rid r, False) # rest" "transfer vs = None"
    and budget: "length rest + 1 + load s (rid r) \<le> 65536"
  shows "\<exists>t' R. leads w auth s vs t (vs\<lparr>stack := rest\<rparr>) t' \<and> gains w U t t' R \<and> R \<subseteq> above s {rid r} \<and> r \<in> set (revisions t')"
  using r jt room vs budget
proof (induction "receipt_rank s (rid r)" arbitrary: r t vs rest rule: less_induct)
  case less
  note rows = journal_inv(3)[OF js]
  have fr: "fits w (vault r) r"
    using fit less(2, 3) by simp
  have av: "auth (vault r)" and sv: "sent_vault vs = vault r"
    using auth less(3, 6) by simp_all
  note probe = probe_leads[where auth = auth, OF js less(4, 2) fr av sv less(7, 8)]
  show ?case
  proof (cases "r \<in> set (revisions t)")
    case True
    then show ?thesis
      using probe(1) gains_refl[OF less(4)] by blast
  next
    case False
    let ?down = "\<lambda>ps. vs\<lparr>stack := map (\<lambda>p. (p, False)) ps @ (rid r, True) # rest\<rparr>"
    have walk: "\<exists>t' R. leads w auth s (?down ps) u (?down []) t' \<and> gains w U u t' R \<and> R \<subseteq> above s (set ps) \<and>
        (\<forall>q \<in> set (revisions s). rid q \<in> set ps \<longrightarrow> q \<in> set (revisions t'))"
      if "set ps \<subseteq> set (parents r)" "length ps \<le> length (parents r)" "journal (content_hash w) (payload_hash w) U u" "has_room v s u"
      for ps u
      using that
    proof (induction ps arbitrary: u)
      case Nil
      then show ?case
        by (intro exI[of _ u] exI[of _ "{}"]) (simp add: leads_refl gains_refl)
    next
      case (Cons p ps)
      then have p: "p \<in> set (parents r)"
        by simp
      obtain q where q: "q \<in> set (revisions s)" "rid q = p" "vault q = v"
        using linked_parent[OF rows_invD(3)[OF rows] less(2) p] less(3) by auto
      have rank: "receipt_rank s (rid q) < receipt_rank s (rid r)"
        using rank_decreases[OF rows] in_parent_of[OF rows] less(2) p q(2) by blast
      let ?rest = "map (\<lambda>p. (p, False)) ps @ (rid r, True) # rest"
      have st: "stack (?down (p # ps)) = (rid q, False) # ?rest"
        using q(2) by simp
      have "length ?rest + 1 + load s (rid q) \<le> 65536"
        using less(9) load_parent[OF rows less(2) p] Cons.prems(2) q(2) by simp
      then obtain t1 R1 where t1: "leads w auth s (?down (p # ps)) u ((?down (p # ps))\<lparr>stack := ?rest\<rparr>) t1" "gains w U u t1 R1"
        "R1 \<subseteq> above s {rid q}" "q \<in> set (revisions t1)"
        using less(1)[OF rank q(1, 3) Cons.prems(3, 4) _ st] less(6, 8) by auto
      obtain t2 R2 where t2: "leads w auth s (?down ps) t1 (?down []) t2" "gains w U t1 t2 R2" "R2 \<subseteq> above s (set ps)"
        "\<forall>q \<in> set (revisions s). rid q \<in> set ps \<longrightarrow> q \<in> set (revisions t2)"
        using Cons.IH[of t1] Cons.prems t1(2) gains_room[OF t1(2)] by (auto simp: gains_def)
      have "leads w auth s (?down (p # ps)) u (?down []) t2"
        using leads_trans[OF t1(1)] t2(1) by simp
      moreover have "gains w U u t2 (R1 \<union> R2)"
        using gains_trans[OF t1(2) t2(2)] .
      moreover have "R1 \<union> R2 \<subseteq> above s (set (p # ps))"
        using t1(3) t2(3) q(2) by (auto simp: above_def)
      moreover have "x \<in> set (revisions t2)" if x: "x \<in> set (revisions s)" "rid x \<in> set (p # ps)" for x
      proof (cases "rid x = p")
        case True
        then have "x = q"
          using same_row[OF rows x(1) q(1)] q(2) by simp
        then show ?thesis
          using t1(4) t2(2) by (auto simp: gains_def)
      qed (use x t2(4) in auto)
      ultimately show ?case
        by blast
    qed
    obtain t1 R where t1: "leads w auth s (?down (parents r)) t (?down []) t1" "gains w U t t1 R" "R \<subseteq> above s (set (parents r))"
      "\<forall>q \<in> set (revisions s). rid q \<in> set (parents r) \<longrightarrow> q \<in> set (revisions t1)"
      using walk[OF subset_refl le_refl less(4, 5)] by blast
    have j1: "journal (content_hash w) (payload_hash w) U t1" and out: "r \<notin> set (revisions t1)"
      using t1(2, 3) False above_parents(1)[OF rows less(2)] by (auto simp: gains_def)
    obtain t2 where t2: "receive_revision (content_hash w) (payload_hash w) r t1 = Inr (True, t2)"
      "set (revisions t2) = insert r (set (revisions t1))" "incoming t2 = incoming t1" "applied_rows t2 = applied_rows t1"
      "approvals t2 = approvals t1" "intents t2 = intents t1" "journal (content_hash w) (payload_hash w) U t2"
      using receive_new[OF js j1 less(2) out t1(4)] by blast
    have up: "leads w auth s (?down []) t1 (vs\<lparr>stack := rest\<rparr>) t2"
      using transfer_leads[where auth = auth and vs = "?down []" and rest = rest, OF j1 js less(2) fr av _ t2(1)]
        gains_room[OF t1(2) less(5)] less(3, 6, 8) by simp
    have down: "leads w auth s vs t (?down (parents r)) t"
      using probe(2)[OF False] less(7, 9) load_parents[OF rows less(2)] by simp
    have "leads w auth s vs t (vs\<lparr>stack := rest\<rparr>) t2"
      by (rule leads_trans[OF down leads_trans[OF t1(1) up]])
    moreover have "gains w U t t2 (insert r R)"
      using t1(2) t2 by (auto simp: gains_def)
    moreover have "insert r R \<subseteq> above s {rid r}"
      using t1(3) above_parents(2)[OF rows less(2)] by blast
    ultimately show ?thesis
      using t2(2) by blast
  qed
qed

section \<open>Heads and pages\<close>

lemma leads_root:
  assumes "auth (sent_vault vs)" "stack vs = []" "remaining_heads s vs = Inr (h # hs)"
  shows "leads w auth s vs t (vs\<lparr>cursor := (if head_rows vs = [] then int (fst (last (h # hs))) else cursor vs),
    head_rows := hs, stack := [(snd h, False)]\<rparr>) t"
proof -
  let ?u = "vs\<lparr>cursor := (if head_rows vs = [] then int (fst (last (h # hs))) else cursor vs),
    head_rows := hs, stack := [(snd h, False)]\<rparr>"
  have "advance w auth s vs = advance w auth s ?u"
    using assms by (simp add: advance_def next_root_def)
  then show ?thesis
    by (auto simp: leads_def stands_def)
qed

lemma page_explored:
  assumes js: "journal (content_hash w) (payload_hash w) U s" and send: "sendable w v s" and auth: "auth v"
    and hs: "\<forall>h \<in> set hs. \<exists>r \<in> set (revisions s). vault r = v \<and> rid r = snd h"
    and jt: "journal (content_hash w) (payload_hash w) U t" and room: "has_room v s t"
    and vs: "sent_vault vs = v" "stack vs = []" "transfer vs = None" "head_rows vs = hs"
  shows "\<exists>t' R. leads w auth s vs t (vs\<lparr>head_rows := []\<rparr>) t' \<and> gains w U t t' R \<and> R \<subseteq> above s (snd ` set hs) \<and>
    (\<forall>r \<in> set (revisions s). rid r \<in> snd ` set hs \<longrightarrow> r \<in> set (revisions t'))"
  using hs jt room vs
proof (induction hs arbitrary: t vs)
  case Nil
  then have "vs\<lparr>head_rows := []\<rparr> = vs"
    by simp
  then show ?case
    using Nil(2) by (intro exI[of _ t] exI[of _ "{}"]) (simp add: leads_refl gains_refl)
next
  case (Cons h hs)
  note rows = journal_inv(3)[OF js]
  obtain r where r: "r \<in> set (revisions s)" "vault r = v" "rid r = snd h"
    using Cons.prems(1) by auto
  let ?u = "vs\<lparr>head_rows := hs, stack := [(rid r, False)]\<rparr>"
  have "remaining_heads s vs = Inr (h # hs)"
    using Cons.prems(7) by (simp add: remaining_heads_def)
  then have start: "leads w auth s vs t ?u t"
    using leads_root[where auth = auth and vs = vs and h = h and hs = hs and t = t] auth Cons.prems(4, 5, 7) r(3) by simp
  have budget: "length [] + 1 + load s (rid r) \<le> 65536"
    using load_edges[OF rows, of "rid r"] send by (simp add: sendable_def)
  have fit: "\<forall>q \<in> set (revisions s). vault q = v \<longrightarrow> fits w v q"
    using send by (simp add: sendable_def)
  have u: "sent_vault ?u = v" "stack ?u = (rid r, False) # []" "transfer ?u = None"
    using Cons.prems(4, 6) by simp_all
  obtain t1 R1 where t1: "leads w auth s ?u t (?u\<lparr>stack := []\<rparr>) t1" "gains w U t t1 R1" "R1 \<subseteq> above s {rid r}"
    "r \<in> set (revisions t1)"
    using explore[where auth = auth and vs = ?u and rest = "[]", OF js fit auth r(1, 2) Cons.prems(2, 3) u budget] by blast
  have eq: "?u\<lparr>stack := []\<rparr> = vs\<lparr>head_rows := hs\<rparr>"
    using Cons.prems(5) by (cases vs) simp
  have "journal (content_hash w) (payload_hash w) U t1"
    using t1(2) by (simp add: gains_def)
  then obtain t2 R2 where t2: "leads w auth s (vs\<lparr>head_rows := hs\<rparr>) t1 (vs\<lparr>head_rows := []\<rparr>) t2" "gains w U t1 t2 R2"
    "R2 \<subseteq> above s (snd ` set hs)" "\<forall>r \<in> set (revisions s). rid r \<in> snd ` set hs \<longrightarrow> r \<in> set (revisions t2)"
    using Cons.IH[of t1 "vs\<lparr>head_rows := hs\<rparr>"] Cons.prems gains_room[OF t1(2)] by auto
  have "leads w auth s vs t (vs\<lparr>head_rows := []\<rparr>) t2"
    using leads_trans[OF start leads_trans[OF t1(1)[unfolded eq] t2(1)]] .
  moreover have "gains w U t t2 (R1 \<union> R2)"
    by (rule gains_trans[OF t1(2) t2(2)])
  moreover have "R1 \<union> R2 \<subseteq> above s (snd ` set (h # hs))"
    using t1(3) t2(3) r(3) by (auto simp: above_def)
  moreover have "x \<in> set (revisions t2)" if "x \<in> set (revisions s)" "rid x \<in> snd ` set (h # hs)" for x
  proof (cases "rid x = snd h")
    case True
    then have "x = r"
      using same_row[OF rows that(1) r(1)] r(3) by simp
    then show ?thesis
      using t1(4) t2(2) by (auto simp: gains_def)
  qed (use that t2(4) in auto)
  ultimately show ?case
    by blast
qed

text \<open>The heads behind a row, of all pages.\<close>

definition head_list :: "revision_store \<Rightarrow> string \<Rightarrow> int \<Rightarrow> int \<Rightarrow> (nat \<times> string) list" where
  "head_list s v after thr = map (\<lambda>(n, r). (n, rid r))
     (filter (\<lambda>(n, r). vault r = v \<and> int n > after \<and> int n \<le> thr \<and>
        \<not> list_ex (\<lambda>(c, p). p = rid r \<and> list_ex (\<lambda>(m, q). rid q = c \<and> int m \<le> thr) (row_ids s)) (edges s)) (row_ids s))"

lemma inventory_page:
  "0 \<le> after \<Longrightarrow> after \<le> thr \<Longrightarrow> inventory_heads s v after thr 64 = Inr (take 64 (head_list s v after thr))"
  by (simp add: inventory_heads_def head_list_def page_ok_def)

lemma head_list_sorted: "sorted_wrt (\<lambda>a b. fst a < fst b) (head_list s v after thr)"
proof -
  have "sorted_wrt (\<lambda>a b. fst a < fst b) (row_ids s)"
  proof -
    have "sorted_wrt (<) (map fst (row_ids s))"
      by (simp add: row_ids_def del: upt_Suc)
    then show ?thesis
      by (simp add: sorted_wrt_map)
  qed
  then show ?thesis
    by (auto simp: head_list_def sorted_wrt_map split_def intro!: sorted_wrt_filter)
qed

lemma beyond_page:
  assumes "h \<in> set (head_list s v after thr)" "h \<notin> set (take k (head_list s v after thr))"
    "take k (head_list s v after thr) \<noteq> []"
  shows "h \<in> set (head_list s v (int (fst (last (take k (head_list s v after thr))))) thr)"
    "after < int (fst (last (take k (head_list s v after thr))))" "int (fst (last (take k (head_list s v after thr)))) \<le> thr"
proof -
  let ?l = "head_list s v after thr"
  have last: "last (take k ?l) \<in> set (take k ?l)"
    using assms(3) by simp
  have "h \<in> set (drop k ?l)"
    using assms(1, 2) by (metis Un_iff append_take_drop_id set_append)
  then have "fst (last (take k ?l)) < fst h"
    using head_list_sorted[of s v after thr] last by (metis append_take_drop_id sorted_wrt_append)
  then show "h \<in> set (head_list s v (int (fst (last (take k ?l)))) thr)"
    using assms(1) by (auto simp: head_list_def)
  have "last (take k ?l) \<in> set ?l"
    using last by (rule in_set_takeD)
  then show "after < int (fst (last (take k ?l)))" "int (fst (last (take k ?l))) \<le> thr"
    by (auto simp: head_list_def)
qed

lemma leads_page:
  assumes "auth (sent_vault vs)" "stack vs = []" "head_rows vs = []" "remaining_heads s vs = Inr (h # hs)"
  shows "leads w auth s vs t (vs\<lparr>cursor := int (fst (last (h # hs))), head_rows := h # hs\<rparr>) t"
proof -
  let ?u = "vs\<lparr>cursor := int (fst (last (h # hs))), head_rows := h # hs\<rparr>"
  have "remaining_heads s ?u = Inr (h # hs)"
    by (simp add: remaining_heads_def)
  then have "next_root s ?u = next_root s vs"
    using assms(3, 4) by (simp add: next_root_def)
  then have "advance w auth s vs = advance w auth s ?u"
    using assms(1, 2) by (simp add: advance_def)
  then show ?thesis
    by (auto simp: leads_def stands_def)
qed

lemma head_row:
  "h \<in> set (head_list s v after thr) \<Longrightarrow> \<exists>r \<in> set (revisions s). vault r = v \<and> rid r = snd h"
  by (auto simp: head_list_def row_ids_def dest: set_zip_rightD)

lemma pages_explored:
  assumes js: "journal (content_hash w) (payload_hash w) U s" and send: "sendable w v s" and auth: "auth v"
    and jt: "journal (content_hash w) (payload_hash w) U t" and room: "has_room v s t"
    and vs: "sent_vault vs = v" "stack vs = []" "transfer vs = None" "head_rows vs = []" "0 \<le> cursor vs" "cursor vs \<le> through vs"
  shows "\<exists>t' R c. leads w auth s vs t (vs\<lparr>cursor := c\<rparr>) t' \<and> inventory_heads s v c (through vs) 64 = Inr [] \<and> gains w U t t' R \<and>
    R \<subseteq> above s (snd ` set (head_list s v (cursor vs) (through vs))) \<and>
    (\<forall>r \<in> set (revisions s). rid r \<in> snd ` set (head_list s v (cursor vs) (through vs)) \<longrightarrow> r \<in> set (revisions t'))"
  using jt room vs
proof (induction "nat (through vs - cursor vs)" arbitrary: t vs rule: less_induct)
  case less
  let ?l = "head_list s v (cursor vs) (through vs)"
  have page: "inventory_heads s v (cursor vs) (through vs) 64 = Inr (take 64 ?l)"
    using inventory_page less(8, 9) by blast
  show ?case
  proof (cases "take 64 ?l")
    case Nil
    then have "?l = []"
      by simp
    moreover have "vs\<lparr>cursor := cursor vs\<rparr> = vs"
      by simp
    ultimately show ?thesis
      using page Nil less(2)
      by (intro exI[of _ t] exI[of _ "{}"] exI[of _ "cursor vs"]) (simp add: leads_refl gains_refl)
  next
    case (Cons h hs)
    let ?c = "int (fst (last (take 64 ?l)))"
    let ?u = "vs\<lparr>cursor := ?c, head_rows := take 64 ?l\<rparr>"
    have "remaining_heads s vs = Inr (h # hs)"
      using page Cons less(4, 7) by (simp add: remaining_heads_def)
    then have root: "leads w auth s vs t ?u t"
      using leads_page[where auth = auth and vs = vs and h = h and hs = hs] auth less(4, 5, 7) Cons by simp
    have rowed: "\<forall>h \<in> set (take 64 ?l). \<exists>r \<in> set (revisions s). vault r = v \<and> rid r = snd h"
      using head_row by (blast dest: in_set_takeD)
    have u: "sent_vault ?u = v" "stack ?u = []" "transfer ?u = None" "head_rows ?u = take 64 ?l"
      using less(4-6) by simp_all
    obtain t1 R1 where t1: "leads w auth s ?u t (?u\<lparr>head_rows := []\<rparr>) t1" "gains w U t t1 R1"
      "R1 \<subseteq> above s (snd ` set (take 64 ?l))" "\<forall>r \<in> set (revisions s). rid r \<in> snd ` set (take 64 ?l) \<longrightarrow> r \<in> set (revisions t1)"
      using page_explored[where auth = auth and vs = ?u, OF js send auth rowed less(2, 3) u] by blast
    have "last (take 64 ?l) \<in> set ?l"
      using Cons by (metis in_set_takeD last_in_set list.distinct(1))
    then have c: "cursor vs < ?c" "?c \<le> through vs"
      by (auto simp: head_list_def)
    let ?x = "vs\<lparr>cursor := ?c\<rparr>"
    have eq: "?u\<lparr>head_rows := []\<rparr> = ?x"
      using less(7) by (cases vs) simp
    have j1: "journal (content_hash w) (payload_hash w) U t1"
      using t1(2) by (simp add: gains_def)
    have x: "nat (through ?x - cursor ?x) < nat (through vs - cursor vs)" "sent_vault ?x = v" "stack ?x = []" "transfer ?x = None"
      "head_rows ?x = []" "0 \<le> cursor ?x" "cursor ?x \<le> through ?x"
      using c less(4-8) by simp_all
    obtain t2 R2 d where t2: "leads w auth s ?x t1 (?x\<lparr>cursor := d\<rparr>) t2" "inventory_heads s v d (through ?x) 64 = Inr []"
      "gains w U t1 t2 R2" "R2 \<subseteq> above s (snd ` set (head_list s v (cursor ?x) (through ?x)))"
      "\<forall>r \<in> set (revisions s). rid r \<in> snd ` set (head_list s v (cursor ?x) (through ?x)) \<longrightarrow> r \<in> set (revisions t2)"
      using less(1)[OF x(1) j1 gains_room[OF t1(2) less(3)] x(2-7)] by blast
    have "set (head_list s v ?c (through vs)) \<subseteq> set ?l"
      using c by (auto simp: head_list_def)
    then have sub: "R1 \<union> R2 \<subseteq> above s (snd ` set ?l)"
      using t1(3) t2(4) by (fastforce simp: above_def dest: in_set_takeD)
    have "r \<in> set (revisions t2)" if r: "r \<in> set (revisions s)" "rid r \<in> snd ` set ?l" for r
    proof -
      obtain k where k: "k \<in> set ?l" "rid r = snd k"
        using r(2) by auto
      show ?thesis
      proof (cases "k \<in> set (take 64 ?l)")
        case True
        then show ?thesis
          using t1(4) t2(3) r(1) k(2) by (auto simp: gains_def)
      next
        case False
        have "take 64 ?l \<noteq> []"
          using Cons by simp
        then have "k \<in> set (head_list s v ?c (through vs))"
          by (rule beyond_page(1)[OF k(1) False])
        then show ?thesis
          using t2(5) r(1) k(2) by auto
      qed
    qed
    then show ?thesis
      using leads_trans[OF root leads_trans[OF t1(1)[unfolded eq] t2(1)]] gains_trans[OF t1(2) t2(3)] sub t2(2)
      by (intro exI[of _ t2] exI[of _ "R1 \<union> R2"] exI[of _ d]) simp
  qed
qed

section \<open>A whole exchange\<close>

lemma le_fold_max: "(a :: nat) \<le> fold max xs a \<and> (\<forall>n \<in> set xs. n \<le> fold max xs a)"
proof (induction xs arbitrary: a)
  case (Cons x xs)
  show ?case
    using Cons[of "max x a"] by auto
qed simp

lemma row_below_tip: "(n, r) \<in> set (row_ids s) \<Longrightarrow> vault r = v \<Longrightarrow> n \<le> inventory_tip s v"
  using le_fold_max[of 0 "map fst (filter (\<lambda>(n, r). vault r = v) (row_ids s))"]
  by (force simp: inventory_tip_def)

lemma in_row_ids: "(n, r) \<in> set (row_ids s) \<longleftrightarrow> (\<exists>i. i < length (revisions s) \<and> n = Suc i \<and> r = revisions s ! i)"
proof -
  have "row_ids s = map (\<lambda>i. (Suc i, revisions s ! i)) [0..<length (revisions s)]"
    by (rule nth_equalityI) (simp_all add: row_ids_def nth_upt del: upt_Suc)
  then show ?thesis
    by auto
qed

lemma row_of:
  assumes "rows_inv digest s" "r \<in> set (revisions s)"
  shows "(n, r) \<in> set (row_ids s) \<longleftrightarrow> n = Suc (receipt_rank s (rid r))"
proof -
  have "i = receipt_rank s (rid r)" if "i < length (revisions s)" "revisions s ! i = r" for i
  proof -
    have "distinct (revisions s)"
      using rows_invD(1)[OF assms(1)] by (simp add: distinct_map)
    then show ?thesis
      using nth_rank[OF assms] that by (metis nth_eq_iff_index_eq)
  qed
  then show ?thesis
    unfolding in_row_ids using nth_rank[OF assms] by metis
qed

lemma climb:
  assumes "rows_inv digest s" "r \<in> set (revisions s)"
  shows "\<exists>h \<in> set (revisions s). ancestor_of s (rid r) (rid h) \<and> receipt_rank s (rid r) \<le> receipt_rank s (rid h) \<and>
    (\<forall>c. (c, rid h) \<notin> parent_of s)"
  using assms(2)
proof (induction "length (revisions s) - receipt_rank s (rid r)" arbitrary: r rule: less_induct)
  case less
  show ?case
  proof (cases "\<exists>c. (c, rid r) \<in> parent_of s")
    case True
    then obtain q where q: "q \<in> set (revisions s)" "(rid q, rid r) \<in> parent_of s"
      using in_parent_of[OF assms(1)] by blast
    have lt: "receipt_rank s (rid r) < receipt_rank s (rid q)"
      using rank_decreases[OF assms(1) q(2)] .
    then have "length (revisions s) - receipt_rank s (rid q) < length (revisions s) - receipt_rank s (rid r)"
      using nth_rank(1)[OF assms(1) q(1)] by linarith
    then obtain h where "h \<in> set (revisions s)" "ancestor_of s (rid q) (rid h)" "receipt_rank s (rid q) \<le> receipt_rank s (rid h)"
      "\<forall>c. (c, rid h) \<notin> parent_of s"
      using less(1) q(1) by blast
    then show ?thesis
      using lt q(2) by (intro bexI[of _ h]) (auto simp: ancestor_of_iff intro: rtrancl_into_rtrancl)
  next
    case False
    then show ?thesis
      using less(2) by (auto simp: ancestor_of_iff)
  qed
qed

lemma ancestors_received:
  assumes js: "journal H P U s" and jt: "journal H P U t" and h: "h \<in> set (revisions s)" "h \<in> set (revisions t)"
    and r: "r \<in> set (revisions s)" "ancestor_of s (rid r) (rid h)"
  shows "r \<in> set (revisions t)"
proof -
  note rs = journal_inv(3)[OF js] and rt = journal_inv(3)[OF jt]
  have "\<forall>q \<in> set (revisions s). rid q = y \<longrightarrow> q \<in> set (revisions t)" if "(rid h, y) \<in> (parent_of s)\<^sup>*" for y
    using that
  proof (induction rule: rtrancl_induct)
    case base
    then show ?case
      using same_row[OF rs _ h(1)] h(2) by blast
  next
    case (step y z)
    then obtain q where q: "q \<in> set (revisions s)" "rid q = y" "z \<in> set (parents q)"
      using in_parent_of[OF rs] by blast
    then obtain p where "p \<in> set (revisions t)" "rid p = z"
      using step(3) linked_parent[OF rows_invD(3)[OF rt]] by blast
    then show ?case
      using same_content[OF js jt] by metis
  qed
  then show ?thesis
    using r by (simp add: ancestor_of_iff)
qed

text \<open>An exchange of the vault \<open>v\<close> from \<open>s\<close> to \<open>t\<close> that started behind row \<open>after\<close> and has come to its end.\<close>

definition exchanged :: "world \<Rightarrow> (string \<Rightarrow> bool) \<Rightarrow> string \<Rightarrow> int \<Rightarrow> revision_store \<Rightarrow> revision_store \<Rightarrow> revision_store \<Rightarrow> bool" where
  "exchanged w auth v after s t t' \<longleftrightarrow>
     (\<exists>vs m vs1 vs2. new_vault_sender auth v after = Inr vs \<and> vault_begin w auth s vs = Inr (m, vs1) \<and>
        rounds w auth s (m, vs1, new_receiver, t) (None, vs2, new_receiver, t') \<and>
        completed_through vs2 = Inr (int (inventory_tip s v)))"

definition of_vault :: "string \<Rightarrow> revision_store \<Rightarrow> revision set" where
  "of_vault v s = {r \<in> set (revisions s). vault r = v}"

lemma exchange_ends:
  assumes js: "journal (content_hash w) (payload_hash w) U s" and jt: "journal (content_hash w) (payload_hash w) U t"
    and send: "sendable w v s" and room: "has_room v s t" and auth: "auth v"
    and after: "0 \<le> after" "after \<le> int (inventory_tip s v)"
    and known: "\<forall>(n, r) \<in> set (row_ids s). vault r = v \<longrightarrow> int n \<le> after \<longrightarrow> r \<in> set (revisions t)"
  shows "\<exists>t'. exchanged w auth v after s t t' \<and> gains w U t t' (of_vault v s)"
proof -
  note rows = journal_inv(3)[OF js]
  let ?thr = "int (inventory_tip s v)"
  define vs0 where "vs0 = \<lparr>sent_vault = v, cursor = after, through = 0, head_rows = [], stack = [], transfer = None, vphase = V_initial\<rparr>"
  define vs where "vs = vs0\<lparr>through := ?thr\<rparr>"
  have new: "new_vault_sender auth v after = Inr vs0"
    using after auth by (simp add: new_vault_sender_def vs0_def)
  have started': "vault_begin w auth s vs0 = advance w auth s vs"
    using after auth by (simp add: vault_begin_def Let_def vs_def vs0_def)
  have vs: "sent_vault vs = v" "stack vs = []" "transfer vs = None" "head_rows vs = []" "0 \<le> cursor vs" "cursor vs \<le> through vs"
    "through vs = ?thr" "cursor vs = after"
    using after by (simp_all add: vs_def vs0_def)
  obtain t' R c where t': "leads w auth s vs t (vs\<lparr>cursor := c\<rparr>) t'" "inventory_heads s v c (through vs) 64 = Inr []"
    "gains w U t t' R" "R \<subseteq> above s (snd ` set (head_list s v (cursor vs) (through vs)))"
    "\<forall>r \<in> set (revisions s). rid r \<in> snd ` set (head_list s v (cursor vs) (through vs)) \<longrightarrow> r \<in> set (revisions t')"
    using pages_explored[where auth = auth and vs = vs, OF js send auth jt room vs(1-6)] by blast
  let ?final = "vs\<lparr>cursor := c, vphase := V_complete\<rparr>"
  have "stands w auth s (vs\<lparr>cursor := c\<rparr>) (new_receiver, t') (None, ?final, new_receiver, t')"
    using t'(2) auth vs(1, 2, 4) by (simp add: stands_def advance_def next_root_def remaining_heads_def advance_top_def)
  then obtain m vs1 where "advance w auth s vs = Inr (m, vs1)"
    "rounds w auth s (m, vs1, new_receiver, t) (None, ?final, new_receiver, t')"
    using t'(1) by (auto simp: leads_def stands_def)
  then have done': "exchanged w auth v after s t t'"
    unfolding exchanged_def using new started' vs(7)
    by (intro exI[of _ vs0] exI[of _ m] exI[of _ vs1] exI[of _ ?final]) (simp add: completed_through_def vault_complete_def)
  have jt': "journal (content_hash w) (payload_hash w) U t'"
    using t'(3) by (simp add: gains_def)
  have sub: "R \<subseteq> of_vault v s"
  proof
    fix q
    assume "q \<in> R"
    then obtain h where q: "q \<in> set (revisions s)" "h \<in> set (head_list s v (cursor vs) (through vs))" "ancestor_of s (rid q) (snd h)"
      using t'(4) by (auto simp: above_def)
    obtain r where r: "r \<in> set (revisions s)" "vault r = v" "rid r = snd h"
      using head_row[OF q(2)] by blast
    have "find_revision s (rid r) = Some r" "find_revision s (rid q) = Some q"
      using row_facts(4)[OF js] r(1) q(1) by simp_all
    then have "vault q = vault r"
      using ancestor_object[OF rows, of "rid r" "rid q" r] q(3) r(3) by (auto simp: ancestor_of_iff)
    then show "q \<in> of_vault v s"
      using q(1) r(2) by (simp add: of_vault_def)
  qed
  have "r \<in> set (revisions t')" if "r \<in> of_vault v s" for r
  proof -
    have r: "r \<in> set (revisions s)" "vault r = v"
      using that by (simp_all add: of_vault_def)
    obtain h where h: "h \<in> set (revisions s)" "ancestor_of s (rid r) (rid h)" "receipt_rank s (rid r) \<le> receipt_rank s (rid h)"
      "\<forall>c. (c, rid h) \<notin> parent_of s"
      using climb[OF rows r(1)] by blast
    have "find_revision s (rid h) = Some h" "find_revision s (rid r) = Some r"
      using row_facts(4)[OF js] r(1) h(1) by simp_all
    then have hv: "vault h = v"
      using ancestor_object[OF rows, of "rid h" "rid r" h] h(2) r(2) by (auto simp: ancestor_of_iff)
    have row: "(Suc (receipt_rank s (rid h)), h) \<in> set (row_ids s)"
      using row_of[OF rows h(1)] by simp
    have tip: "int (Suc (receipt_rank s (rid h))) \<le> ?thr"
      using row_below_tip[OF row hv] by simp
    have "h \<in> set (revisions t')"
    proof (cases "int (Suc (receipt_rank s (rid h))) \<le> after")
      case True
      then have "h \<in> set (revisions t)"
        using known row hv by blast
      then show ?thesis
        using t'(3) by (simp add: gains_def)
    next
      case False
      have "\<not> list_ex (\<lambda>(c, p). p = rid h \<and> list_ex (\<lambda>(m, q). rid q = c \<and> int m \<le> through vs) (row_ids s)) (edges s)"
        using h(4) by (auto simp: list_ex_iff)
      then have "(Suc (receipt_rank s (rid h)), rid h) \<in> set (head_list s v (cursor vs) (through vs))"
        using row hv False tip vs(7, 8) unfolding head_list_def by force
      then show ?thesis
        using t'(5) h(1) by force
    qed
    then show ?thesis
      using ancestors_received[OF js jt' h(1) _ r(1) h(2)] by blast
  qed
  then have "set (revisions t') = set (revisions t) \<union> of_vault v s"
    using t'(3) sub by (auto simp: gains_def)
  then have "gains w U t t' (of_vault v s)"
    using t'(3) by (simp add: gains_def)
  then show ?thesis
    using done' by blast
qed

section \<open>Both directions\<close>

lemma length_edges_of: "length (edges_of rs) = sum_list (map (\<lambda>r. length (parents r)) rs)"
  by (induction rs) (simp_all add: edges_of_def)

lemma union_edges:
  assumes "rows_inv digest s" "rows_inv digest t" "rows_inv digest u" "set (revisions u) = set (revisions t) \<union> R" "R \<subseteq> set (revisions s)"
  shows "length (edges u) \<le> length (edges t) + length (edges s)"
proof -
  have l: "length (edges x) = sum (\<lambda>r. length (parents r)) (set (revisions x))" if "rows_inv digest x" for x
    using rows_invD(1, 4)[OF that] by (simp add: length_edges_of sum_list_distinct_conv_sum_set distinct_map)
  have "sum (\<lambda>r. length (parents r)) (set (revisions u)) \<le> sum (\<lambda>r. length (parents r)) (set (revisions t) \<union> set (revisions s))"
    using assms(4, 5) by (intro sum_mono2) auto
  also have "\<dots> \<le> sum (\<lambda>r. length (parents r)) (set (revisions t)) + sum (\<lambda>r. length (parents r)) (set (revisions s))"
    by (simp add: sum_Un_nat)
  finally show ?thesis
    using l assms(1-3) by simp
qed

text \<open>What two journals say about a vault depends on their revisions and approvals of this vault only.\<close>

lemma eligible_agree_vault:
  assumes inv: "rows_inv digest s" "eligible_inv s" "rows_inv digest t" "eligible_inv t"
    and same: "of_vault v t = of_vault v s"
    and app: "\<forall>r \<in> of_vault v s. (map_of (approvals t) (rid r) = None) = (map_of (approvals s) (rid r) = None)"
    and r: "r \<in> of_vault v s"
  shows "eligible t (rid r) = eligible s (rid r)"
  using r
proof (induction "receipt_rank s (rid r)" arbitrary: r rule: less_induct)
  case less
  then have rs: "r \<in> set (revisions s)" "vault r = v" "r \<in> set (revisions t)"
    using same by (auto simp: of_vault_def)
  have "eligible t p = eligible s p" if p: "p \<in> set (parents r)" for p
  proof -
    obtain q where q: "q \<in> set (revisions s)" "rid q = p" "vault q = vault r"
      using linked_parent[OF rows_invD(3)[OF inv(1)] rs(1) p] by blast
    moreover have "receipt_rank s p < receipt_rank s (rid r)"
      using rank_decreases[OF inv(1)] in_parent_of[OF inv(1)] rs(1) p by blast
    ultimately show ?thesis
      using less(1) rs(2) by (auto simp: of_vault_def)
  qed
  moreover have "may_use t r = may_use s r"
    using app less(2) by (simp add: may_use_def)
  ultimately show ?case
    using eligible_iff[OF inv(1, 2) rs(1)] eligible_iff[OF inv(3, 4) rs(3)] by simp
qed

lemma heads_agree_vault:
  assumes inv: "rows_inv digest s" "eligible_inv s" "rows_inv digest t" "eligible_inv t"
    and same: "of_vault v t = of_vault v s"
    and app: "\<forall>r \<in> of_vault v s. (map_of (approvals t) (rid r) = None) = (map_of (approvals s) (rid r) = None)"
  shows "heads t v obj = heads s v obj"
proof -
  note el = eligible_agree_vault[OF assms]
  have child: "c \<in> set (parents q) \<Longrightarrow> q \<in> set (revisions u) \<Longrightarrow> r \<in> set (revisions u) \<Longrightarrow> rid r = c \<Longrightarrow> vault q = vault r"
    if "rows_inv digest u" for u c q r
    using linked_parent[OF rows_invD(3)[OF that]] same_row[OF that] by metis
  have cl: "childless u (rid r) \<longleftrightarrow> (\<forall>q \<in> of_vault v u. rid r \<in> set (parents q) \<longrightarrow> \<not> eligible u (rid q))"
    if "rows_inv digest u" "r \<in> of_vault v u" for u r
    unfolding childless_iff in_parent_of[OF that(1)] using child[OF that(1)] that(2) by (auto simp: of_vault_def)
  have mem: "x \<in> set (heads u v obj) \<longleftrightarrow> (\<exists>r \<in> of_vault v u. rid r = x \<and> object r = obj \<and> eligible u (rid r) \<and>
      (\<forall>q \<in> of_vault v u. rid r \<in> set (parents q) \<longrightarrow> \<not> eligible u (rid q)))" if "rows_inv digest u" for u x
    unfolding set_heads using cl[OF that] by (auto simp: of_vault_def)
  have "set (heads t v obj) = set (heads s v obj)"
    unfolding set_eq_iff mem[OF inv(1)] mem[OF inv(3)] same using el by simp
  then show ?thesis
    using heads_sorted[OF inv(1)] heads_sorted[OF inv(3)] sorted_distinct_set_unique by metis
qed

section \<open>Properties\<close>


definition world0 :: world where
  "world0 = \<lparr>message_size = (\<lambda>m. 100), utf8 = (\<lambda>x. True), descriptor_size = (\<lambda>r. 100), content_hash = digest0,
     payload_hash = raw0\<rparr>"

lemma journal_world0: "journal (content_hash world0) (payload_hash world0) contents0 saved_twice"
  "journal (content_hash world0) (payload_hash world0) contents0 new_store"
  using journal_saved(2) journal_new[OF hash_ok0] by (simp_all add: world0_def)

lemma fits0: "fits world0 ''v'' first_revision" "fits world0 ''v'' second_revision"
  by (simp_all add: fits_def world0_def first_revision_def second_revision_def draft_def require_document_epoch_def)

lemma sendable0: "sendable world0 ''v'' saved_twice"
  using fits0 by (simp add: sendable_def saved_twice_def)

lemma room0: "has_room ''v'' saved_twice new_store"
  by (simp add: has_room_def saved_twice_def new_store_def find_incoming_def first_revision_def second_revision_def draft_def)


text \<open>Claim C15. Two devices that exchange a vault in both directions end up with the same revisions of it, and, if
  they have the same approvals, with the same heads of every object; what either of them had is kept.\<close>

theorem devices_converge:
  assumes "journal (content_hash w) (payload_hash w) U s" "journal (content_hash w) (payload_hash w) U t"
    and "sendable w v s" "sendable w v t" "length (edges s) + length (edges t) < 65536"
    and "has_room v s t" "has_room v t s" "auth v"
  shows "\<exists>t' s'. exchanged w auth v 0 s t t' \<and> exchanged w auth v 0 t' s s' \<and>
    of_vault v s' = of_vault v t' \<and> of_vault v t' = of_vault v s \<union> of_vault v t \<and>
    set (revisions s) \<subseteq> set (revisions s') \<and> set (revisions t) \<subseteq> set (revisions t') \<and>
    ((\<forall>r \<in> of_vault v t'. (map_of (approvals s) (rid r) = None) = (map_of (approvals t) (rid r) = None)) \<longrightarrow>
      (\<forall>obj. heads s' v obj = heads t' v obj))"
proof -
  have none: "\<forall>(n, r) \<in> set (row_ids u). vault r = v \<longrightarrow> int n \<le> 0 \<longrightarrow> r \<in> R" for u R
    by (auto simp: in_row_ids)
  obtain t' where t': "exchanged w auth v 0 s t t'" "gains w U t t' (of_vault v s)"
    using exchange_ends[where auth = auth, OF assms(1, 2, 3, 6, 8) order_refl of_nat_0_le_iff none] by blast
  have jt': "journal (content_hash w) (payload_hash w) U t'"
    using t'(2) by (simp add: gains_def)
  have sub: "of_vault v s \<subseteq> set (revisions s)"
    by (auto simp: of_vault_def)
  have rows: "set (revisions t') = set (revisions t) \<union> of_vault v s"
    using t'(2) by (simp add: gains_def)
  have "length (edges t') < 65536"
    using union_edges[OF journal_inv(3)[OF assms(1)] journal_inv(3)[OF assms(2)] journal_inv(3)[OF jt'] rows sub] assms(5) by simp
  then have send: "sendable w v t'"
    using assms(3, 4) rows sub by (auto simp: sendable_def)
  have room: "has_room v t' s"
    using assms(7) rows sub by (auto simp: has_room_def)
  obtain s' where s': "exchanged w auth v 0 t' s s'" "gains w U s s' (of_vault v t')"
    using exchange_ends[where auth = auth, OF jt' assms(1) send room assms(8) order_refl of_nat_0_le_iff none] by blast
  have same: "of_vault v t' = of_vault v s \<union> of_vault v t" "of_vault v s' = of_vault v t'"
    using rows s'(2) by (auto simp: of_vault_def gains_def)
  have js': "journal (content_hash w) (payload_hash w) U s'"
    using s'(2) by (simp add: gains_def)
  have "heads s' v obj = heads t' v obj"
    if "\<forall>r \<in> of_vault v t'. (map_of (approvals s) (rid r) = None) = (map_of (approvals t) (rid r) = None)" for obj
    using heads_agree_vault[OF journal_inv(3, 4)[OF jt'] journal_inv(3, 4)[OF js'] same(2)] that t'(2) s'(2)
    by (simp add: gains_def)
  then show ?thesis
    using t'(1) s' same rows by (intro exI[of _ t'] exI[of _ s']) (auto simp: gains_def)
qed

theorem devices_converge_witness:
  "\<exists>t' s'. exchanged world0 (\<lambda>v. v = ''v'') ''v'' 0 saved_twice new_store t' \<and>
     exchanged world0 (\<lambda>v. v = ''v'') ''v'' 0 t' saved_twice s' \<and> heads s' ''v'' ''o'' = heads t' ''v'' ''o''"
proof -
  have "sendable world0 ''v'' new_store" "has_room ''v'' new_store saved_twice" "length (edges saved_twice) + length (edges new_store) < 65536"
    "map_of (approvals saved_twice) = map_of (approvals new_store)"
    by (simp_all add: sendable_def has_room_def new_store_def saved_twice_def)
  then show ?thesis
    using devices_converge[where auth = "\<lambda>v. v = ''v''", OF journal_world0 sendable0 _ _ room0 _ refl] by simp blast
qed

end
