(* ===== verification/Athena_Exchange.thy ===== *)
theory Athena_Exchange
  imports Athena_Replication
begin

text \<open>
  What holds of the exchange of revisions whatever the other device sends: the receiver adds only what
  is authorized, and a transfer whose content was corrupted is never received again; and the protocol of the numbered
  envelopes between two devices that both follow it, in any interleaving.
\<close>

section \<open>Tables of incoming revisions\<close>

lemma find_filter_other: "x \<noteq> y \<Longrightarrow> find (\<lambda>i. f i = x) (filter (\<lambda>i. f i \<noteq> y) xs) = find (\<lambda>i. f i = x) xs"
  by (induction xs) auto

lemma find_incoming_discard: "x \<noteq> y \<Longrightarrow> find_incoming (discard_receive y t) x = find_incoming t x"
  by (simp add: find_incoming_def discard_receive_def find_filter_other)

lemma find_revision_discard: "find_revision (discard_receive y t) x = find_revision t x"
  by (simp add: find_revision_def discard_receive_def)

lemma find_map_same: "(\<And>i. f (g i) = f i) \<Longrightarrow> find (\<lambda>i. f i = x) (map g xs) = map_option g (find (\<lambda>i. f i = x) xs)"
  by (induction xs) auto

lemma find_incoming_chunk:
  "find_incoming (t\<lparr>incoming := map (write_chunk y offset bytes) (incoming t)\<rparr>) x =
     map_option (write_chunk y offset bytes) (find_incoming t x)"
  by (simp add: find_incoming_def find_map_same metadata_write_chunk)

text \<open>What a message can do to the store.\<close>

lemma begin_receive_cases:
  assumes "begin_receive encoded r n t = Inr (offset, t')"
  obtains (Known) "t' = discard_receive (rid r) t" "find_revision t (rid r) \<noteq> None"
    | (Pending) i where "t' = t" "find_incoming t (rid r) = Some i" "metadata i = r"
    | (Fresh) i where "find_incoming t (rid r) = None" "metadata i = r" "t' = t\<lparr>incoming := incoming t @ [i]\<rparr>"
proof -
  let ?i = "\<lparr>metadata = r, buffer = replicate n (CHR 0x00), received = 0\<rparr>"
  have "t' = discard_receive (rid r) t \<and> find_revision t (rid r) \<noteq> None \<or>
      t' = t \<and> (\<exists>i. find_incoming t (rid r) = Some i \<and> metadata i = r) \<or>
      find_incoming t (rid r) = None \<and> t' = t\<lparr>incoming := incoming t @ [?i]\<rparr>"
    using assms by (auto simp: begin_receive_def split: option.splits if_splits)
  then show ?thesis
    using that(1, 2) that(3)[of ?i] by auto
qed

lemma receive_chunk_cases:
  assumes "receive_chunk x offset bytes t = Inr (n, t')"
  obtains i where "find_incoming t x = Some i" "bytes \<noteq> []" "offset = received i" "offset + length bytes \<le> length (buffer i)"
    "t' = t\<lparr>incoming := map (write_chunk x offset bytes) (incoming t)\<rparr>"
  using assms that by (fastforce simp: receive_chunk_def Let_def split: option.splits if_splits)

lemma finish_receive_cases:
  assumes "finish_receive digest raw x t = Inr (b, t')"
  obtains (Known) "find_revision t x \<noteq> None" "t' = discard_receive x t"
    | (Added) i r where "find_revision t x = None" "find_incoming t x = Some i" "r = (metadata i)\<lparr>payload := buffer i\<rparr>"
        "identity digest r = x" "rid r = x" "revisions t' = revisions t @ [r]"
        "incoming t' = incoming (discard_receive x t)" "applied_rows t' = applied_rows t" "approvals t' = approvals t"
        "intents t' = intents t"
proof (cases "find_revision t x")
  case None
  then obtain i where i: "find_incoming t x = Some i"
    using assms by (auto simp: finish_receive_def split: option.splits)
  let ?r = "(metadata i)\<lparr>payload := buffer i\<rparr>"
  have "identity digest ?r = x" and t': "t' = discard_receive x (admit_revision x (insert_parents ?r
      (cache_fingerprint x (raw (buffer i)) (insert_revision ?r t))))"
    using assms None i by (auto simp: finish_receive_def Let_def split: option.splits if_splits)
  moreover have "rid ?r = x"
    using find_incoming_in[OF i] by simp
  ultimately show ?thesis
    using Added[OF None i refl]
    by (simp add: discard_receive_def admit_fields insert_parents_def cache_fields insert_revision_def)
next
  case (Some q)
  then show ?thesis
    using assms Known by (simp add: finish_receive_def)
qed

section \<open>Only what is authorized\<close>

text \<open>Each transfer in progress has its row, with the descriptor that was offered, or is already stored.\<close>

definition receiver_ok :: "receiver \<Rightarrow> revision_store \<Rightarrow> bool" where
  "receiver_ok rc t \<longleftrightarrow> (\<forall>x r n. map_of (active rc) x = Some (r, n) \<longrightarrow>
     find_revision t x \<noteq> None \<or> (\<exists>i. find_incoming t x = Some i \<and> metadata i = r))"

lemma find_revision_append: "find_revision t x \<noteq> None \<Longrightarrow> revisions t' = revisions t @ rs \<Longrightarrow> find_revision t' x \<noteq> None"
  by (auto simp: find_revision_def find_None_iff)

definition allowed :: "(string \<Rightarrow> bool) \<Rightarrow> receiver \<times> revision_store \<Rightarrow> (transfer_error + wire) \<times> receiver \<times> revision_store \<Rightarrow> bool" where
  "allowed auth c c' \<longleftrightarrow> (case (c, c') of ((rc, t), (res, rc', t')) \<Rightarrow>
     receiver_ok rc' t' \<and> (revisions t' = revisions t \<or> (\<exists>r. auth (vault r) \<and> revisions t' = revisions t @ [r])) \<and>
     applied_rows t' = applied_rows t \<and> approvals t' = approvals t \<and> intents t' = intents t \<and>
     (\<forall>v x b. res = Inr (Have_reply v x b) \<longrightarrow> auth v))"

lemma allowed_same: "receiver_ok rc t \<Longrightarrow> (\<And>v x b. res = Inr (Have_reply v x b) \<Longrightarrow> auth v) \<Longrightarrow> allowed auth (rc, t) (res, rc, t)"
  by (auto simp: allowed_def)

lemma allowed_error: "receiver_ok rc t \<Longrightarrow> allowed auth (rc, t) (Inl e, rc, t)"
  by (rule allowed_same) simp_all

lemma accept_offer_allowed:
  assumes "receiver_ok rc t"
  shows "allowed auth (rc, t) (accept_offer w auth r n len (rc, t))"
proof (cases "len > 128 * 1024 \<or> \<not> descriptor_ok r \<or> \<not> auth (vault r) \<or> \<not> require_document_epoch r \<or>
    (map_of (active rc) (rid r) = None \<and> length (active rc) \<ge> 32)")
  case True
  then show ?thesis
    using allowed_error[OF assms] by (auto simp: accept_offer_def)
next
  case False
  show ?thesis
  proof (cases "begin_receive (descriptor_size w) r n t")
    case (Inl e)
    then show ?thesis
      using False allowed_error[OF assms] by (auto simp: accept_offer_def)
  next
    case (Inr p)
    then obtain offset t' where p: "begin_receive (descriptor_size w) r n t = Inr (offset, t')"
      by (cases p) simp
    let ?rc = "rc\<lparr>active := AList.update (rid r) (r, n) (active rc), offsets := AList.update (rid r) offset (offsets rc)\<rparr>"
    have acc: "accept_offer w auth r n len (rc, t) = (encode_wire w (Ack (rid r) offset False), ?rc, t')"
      using False p by (auto simp: accept_offer_def)
    have act: "map_of (AList.update (rid r) (r, n) (active rc)) x = (if x = rid r then Some (r, n) else map_of (active rc) x)" for x
      by (simp add: update_conv')
    have "receiver_ok ?rc t' \<and> revisions t' = revisions t \<and> applied_rows t' = applied_rows t \<and> approvals t' = approvals t \<and>
        intents t' = intents t"
      using p
    proof (cases rule: begin_receive_cases)
      case Known
      have "find_revision t' x = find_revision t x" "x \<noteq> rid r \<Longrightarrow> find_incoming t' x = find_incoming t x" for x
        using Known(1) find_revision_discard find_incoming_discard by simp_all
      then have "receiver_ok ?rc t'"
        using assms Known(2) by (auto simp: receiver_ok_def act)
      then show ?thesis
        using Known(1) by (simp add: discard_receive_def)
    next
      case (Pending i)
      then show ?thesis
        using assms by (auto simp: receiver_ok_def act)
    next
      case (Fresh i)
      have "find_incoming t' x = (case find_incoming t x of None \<Rightarrow> if x = rid r then Some i else None | Some j \<Rightarrow> Some j)" for x
        using Fresh by (auto simp: find_incoming_def find_snoc)
      moreover have "find_revision t' = find_revision t"
        using Fresh by (simp add: find_revision_def[abs_def])
      ultimately have "find_revision t' x = find_revision t x" "find_incoming t' (rid r) = Some i"
        "find_incoming t x = Some j \<Longrightarrow> find_incoming t' x = Some j" for x j
        using Fresh(1) by auto
      then have "receiver_ok ?rc t'"
        using assms Fresh(2) unfolding receiver_ok_def by (simp add: act) metis
      then show ?thesis
        using Fresh(3) by simp
    qed
    then show ?thesis
      unfolding acc by (auto simp: allowed_def encode_wire_def)
  qed
qed

lemma accept_active_allowed:
  assumes "receiver_ok rc t"
  shows "allowed auth (rc, t) (accept_active w auth x m (rc, t))"
proof (cases "map_of (active rc) x")
  case None
  then show ?thesis
    using allowed_error[OF assms] by (simp add: accept_active_def)
next
  case (Some p)
  then obtain r n where act: "map_of (active rc) x = Some (r, n)"
    by (cases p) simp
  have less: "map_of (active (forget_offer x rc)) y = (if y = x then None else map_of (active rc) y)" for y
    by (simp add: forget_offer_def AList.delete_conv')
  have forget: "receiver_ok (forget_offer x rc) t"
    using assms by (auto simp: receiver_ok_def less split: if_splits)
  show ?thesis
  proof (cases "auth (vault r)")
    case False
    then show ?thesis
      using act forget by (simp add: accept_active_def allowed_def)
  next
    case True
    show ?thesis
    proof (cases m)
      case (Chunk y offset bytes)
      show ?thesis
      proof (cases "receive_chunk x offset bytes t")
        case (Inl e)
        then show ?thesis
          using act True Chunk allowed_error[OF assms] by (simp add: accept_active_def)
      next
        case (Inr p)
        then obtain k t' where p: "receive_chunk x offset bytes t = Inr (k, t')"
          by (cases p) simp
        let ?rc = "rc\<lparr>offsets := AList.update x k (offsets rc)\<rparr>"
        have acc: "accept_active w auth x m (rc, t) = (encode_wire w (Ack x k False), ?rc, t')"
          using act True Chunk p by (simp add: accept_active_def)
        from p obtain i where t': "t' = t\<lparr>incoming := map (write_chunk x offset bytes) (incoming t)\<rparr>"
          by (rule receive_chunk_cases)
        have "receiver_ok ?rc t'"
          using assms unfolding receiver_ok_def t' find_incoming_chunk
          by (fastforce simp: find_revision_def metadata_write_chunk)
        then show ?thesis
          unfolding acc t' by (auto simp: allowed_def encode_wire_def)
      qed
    next
      case (Finish y)
      show ?thesis
      proof (cases "finish_receive (content_hash w) (payload_hash w) x t")
        case (Inl e)
        then show ?thesis
          using act True Finish allowed_error[OF assms] by (simp add: accept_active_def)
      next
        case (Inr p)
        then obtain b t' where p: "finish_receive (content_hash w) (payload_hash w) x t = Inr (b, t')"
          by (cases p) simp
        have acc: "accept_active w auth x m (rc, t) = (encode_wire w (Ack x n True), forget_offer x rc, t')"
          using act True Finish p by (simp add: accept_active_def)
        from p have "receiver_ok (forget_offer x rc) t' \<and> (revisions t' = revisions t \<or> (\<exists>r. auth (vault r) \<and> revisions t' = revisions t @ [r])) \<and>
            applied_rows t' = applied_rows t \<and> approvals t' = approvals t \<and> intents t' = intents t"
        proof (cases rule: finish_receive_cases)
          case Known
          then have "receiver_ok (forget_offer x rc) t'"
            using assms by (auto simp: receiver_ok_def less find_revision_discard find_incoming_discard split: if_splits)
          then show ?thesis
            using Known by (simp add: discard_receive_def)
        next
          case (Added i q)
          have "vault q = vault r"
            using assms act Added(1-3) by (fastforce simp: receiver_ok_def)
          moreover have "find_incoming t' y = find_incoming t y" if "y \<noteq> x" for y
            using find_incoming_discard[OF that, of t] Added(7) by (simp add: find_incoming_def)
          then have "receiver_ok (forget_offer x rc) t'"
            using assms find_revision_append[OF _ Added(6)] by (auto simp: receiver_ok_def less split: if_splits) metis
          ultimately show ?thesis
            using Added True by auto
        qed
        then show ?thesis
          unfolding acc by (auto simp: allowed_def encode_wire_def)
      qed
    qed (use act True allowed_error[OF assms] in \<open>simp_all add: accept_active_def\<close>)
  qed
qed

section \<open>Corrupted transfers\<close>

text \<open>All bytes of \<open>x\<close> have arrived, and they are wrong.\<close>

definition blocked :: "(revision \<Rightarrow> string) \<Rightarrow> revision_store \<Rightarrow> string \<Rightarrow> bool" where
  "blocked digest t x \<longleftrightarrow> find_revision t x = None \<and> (\<exists>i. find_incoming t x = Some i \<and> received i = length (buffer i) \<and>
     identity digest ((metadata i)\<lparr>payload := buffer i\<rparr>) \<noteq> x)"

lemma blocked_cong:
  assumes "blocked digest t x" "find_revision t' x = find_revision t x" "find_incoming t' x = find_incoming t x"
  shows "blocked digest t' x"
  using assms by (simp add: blocked_def)

lemma blocked_begin:
  assumes "blocked digest t x" "begin_receive encoded r n t = Inr (offset, t')"
  shows "blocked digest t' x"
  using assms(2)
proof (cases rule: begin_receive_cases)
  case Known
  then have "rid r \<noteq> x"
    using assms(1) by (auto simp: blocked_def)
  then show ?thesis
    using blocked_cong[OF assms(1)] Known find_incoming_discard[of x "rid r" t] find_revision_discard by simp
next
  case (Pending i)
  then show ?thesis
    using assms(1) by simp
next
  case (Fresh i)
  have "find_incoming t x \<noteq> None"
    using assms(1) by (auto simp: blocked_def)
  then have "find_incoming t' x = find_incoming t x"
    using Fresh by (auto simp: find_incoming_def find_snoc split: option.splits)
  then show ?thesis
    using blocked_cong[OF assms(1)] Fresh by (simp add: find_revision_def)
qed

lemma blocked_chunk:
  assumes "blocked digest t x" "receive_chunk y offset bytes t = Inr (n, t')"
  shows "blocked digest t' x"
  using assms(2)
proof (cases rule: receive_chunk_cases)
  case (1 i)
  have "y \<noteq> x"
    using 1 assms(1) by (auto simp: blocked_def)
  obtain j where j: "find_incoming t x = Some j"
    using assms(1) by (auto simp: blocked_def)
  then have "write_chunk y offset bytes j = j"
    using find_incoming_in[OF j] \<open>y \<noteq> x\<close> by (simp add: write_chunk_def)
  then have "find_incoming t' x = find_incoming t x"
    using j 1(5) find_incoming_chunk[where t = t and y = y and x = x] by simp
  then show ?thesis
    using blocked_cong[OF assms(1)] 1(5) by (simp add: find_revision_def)
qed

lemma blocked_finish:
  assumes "blocked digest t x" "finish_receive digest raw y t = Inr (b, t')"
  shows "y \<noteq> x" "blocked digest t' x"
proof -
  have "y \<noteq> x \<and> blocked digest t' x"
    using assms(2)
  proof (cases rule: finish_receive_cases)
    case Known
    then have "y \<noteq> x"
      using assms(1) by (auto simp: blocked_def)
    then show ?thesis
      using blocked_cong[OF assms(1)] Known find_incoming_discard[of x y t] find_revision_discard by simp
  next
    case (Added i r)
    then have "y \<noteq> x"
      using assms(1) by (auto simp: blocked_def)
    then have "find_incoming t' x = find_incoming t x" "find_revision t' x = find_revision t x"
      using Added(5-7) find_incoming_discard[of x y t]
      by (simp_all add: find_incoming_def find_revision_def find_snoc split: option.splits)
    then show ?thesis
      using blocked_cong[OF assms(1)] \<open>y \<noteq> x\<close> by blast
  qed
  then show "y \<noteq> x" "blocked digest t' x"
    by simp_all
qed

lemma blocked_accept:
  assumes "blocked (content_hash w) t x" "receiver_accept w auth m (rc, t) = (res, rc', t')"
  shows "blocked (content_hash w) t' x" "res \<noteq> Inr (Ack x n True)"
proof -
  have active: "blocked (content_hash w) t' x \<and> res \<noteq> Inr (Ack x n True)" if "accept_active w auth y m' (rc, t) = (res, rc', t')" for y m'
    using that blocked_chunk[OF assms(1), of y] blocked_finish[OF assms(1), of "payload_hash w" y] assms(1)
    by (auto simp: accept_active_def encode_wire_def split: option.splits if_splits wire.splits sum.splits prod.splits)
  have "blocked (content_hash w) t' x \<and> res \<noteq> Inr (Ack x n True)"
  proof (cases m)
    case (Offer r k)
    then show ?thesis
      using assms(2) blocked_begin[OF assms(1)] assms(1)
      by (auto simp: receiver_accept_def accept_offer_def encode_wire_def split: if_splits sum.splits prod.splits)
  next
    case (Have v y)
    then show ?thesis
      using assms by (auto simp: receiver_accept_def accept_have_def encode_wire_def split: if_splits sum.splits)
  qed (use assms active in \<open>auto simp: receiver_accept_def split: if_splits\<close>)
  then show "blocked (content_hash w) t' x" "res \<noteq> Inr (Ack x n True)"
    by simp_all
qed

section \<open>The protocol of the envelopes\<close>

text \<open>
  Two devices, each with an exchange and a store, and the envelopes under way between them. An
  exchange that raises an exception takes no step. In between, each device may work on its store.
\<close>

type_synonym net = "(exchange \<times> revision_store) \<times> (exchange \<times> revision_store) \<times> envelope list \<times> envelope list"

fun flip_net :: "net \<Rightarrow> net" where
  "flip_net (a, b, ab, ba) = (b, a, ba, ab)"

inductive net_step ::
    "world \<Rightarrow> (string \<Rightarrow> bool) \<Rightarrow> (envelope \<Rightarrow> nat) \<Rightarrow> net \<Rightarrow> net \<Rightarrow> bool" for w auth envelope_size where
  started: "start_exchange w auth s v x = Inr (b, x') \<Longrightarrow> net_step w auth envelope_size ((x, s), r, ab, ba) ((x', s), r, ab, ba)"
| sending: "outgoing auth x = Inr (Some e) \<Longrightarrow> sent x = Inr x' \<Longrightarrow>
    net_step w auth envelope_size ((x, s), r, ab, ba) ((x', s), r, ab @ [e], ba)"
| delivered: "accept_envelope w auth envelope_size e (x, s) = (Inr x', s') \<Longrightarrow>
    net_step w auth envelope_size ((x, s), r, ab, e # ba) ((x', s'), r, ab, ba)"
| worked: "net_step w auth envelope_size ((x, s), r, ab, ba) ((x, s'), r, ab, ba)"
| flipped: "net_step w auth envelope_size (flip_net n) (flip_net n') \<Longrightarrow> net_step w auth envelope_size n n'"

definition requests :: "envelope list \<Rightarrow> envelope list" where
  "requests es = filter (\<lambda>e. \<not> is_reply e) es"

definition replies :: "envelope list \<Rightarrow> envelope list" where
  "replies es = filter is_reply es"

lemma requests_simps [simp]: "requests [] = []" "requests (es @ fs) = requests es @ requests fs"
  "requests (e # es) = (if is_reply e then requests es else e # requests es)"
  by (simp_all add: requests_def)

lemma replies_simps [simp]: "replies [] = []" "replies (es @ fs) = replies es @ replies fs"
  "replies (e # es) = (if is_reply e then e # replies es else replies es)"
  by (simp_all add: replies_def)

text \<open>One direction: requests of \<open>a\<close> and replies of \<open>b\<close>.\<close>

definition direction ::
    "(string \<Rightarrow> bool) \<Rightarrow> int \<Rightarrow> int \<Rightarrow> bool \<Rightarrow> string \<Rightarrow> envelope list \<Rightarrow> int \<Rightarrow> envelope list \<Rightarrow> bool \<Rightarrow> envelope list \<Rightarrow> bool" where
  "direction auth nxt wait working v asked due answers pending answered \<longleftrightarrow>
     1 \<le> nxt \<and> nxt \<le> 2 ^ 63 - 1 \<and> (pending \<longleftrightarrow> answers \<noteq> []) \<and>
     (if wait = 0 then asked = [] \<and> answered @ answers = [] \<and> due = nxt \<and> \<not> working
      else nxt = wait + 1 \<and> 0 < wait \<and> working \<and> vault_ok auth v \<and>
        ((\<exists>e. asked = [e] \<and> answered @ answers = [] \<and> due = wait \<and> sequence e = wait \<and> about e = v) \<or>
         (\<exists>e. asked = [] \<and> answered @ answers = [e] \<and> due = nxt \<and> sequence e = wait \<and> about e = v)))"

definition direction_ok :: "(string \<Rightarrow> bool) \<Rightarrow> exchange \<Rightarrow> exchange \<Rightarrow> envelope list \<Rightarrow> envelope list \<Rightarrow> bool" where
  "direction_ok auth a b ab ba \<longleftrightarrow>
     direction auth (next_sequence a) (waiting a) (busy a) (sending_vault a) (requests ab @ requests (queue a))
       (incoming_sequence b) (replies (queue b)) (reply_pending b) (replies ba)"

definition net_ok :: "(string \<Rightarrow> bool) \<Rightarrow> net \<Rightarrow> bool" where
  "net_ok auth n \<longleftrightarrow> (case n of ((a, s), (b, t), ab, ba) \<Rightarrow> direction_ok auth a b ab ba \<and> direction_ok auth b a ba ab)"

lemma flip_ok: "net_ok auth (flip_net n) = net_ok auth n"
  by (cases n rule: flip_net.cases) (auto simp: net_ok_def)

lemma request_cases:
  assumes "request answer x = Inr x'"
  obtains (Ended) "vault_complete (snd answer)" "x' = x\<lparr>xsender := Some (snd answer),
        cursors := AList.update (sending_vault x) (through (snd answer)) (cursors x)\<rparr>"
    | (Asked) e where "\<not> vault_complete (snd answer)" "next_sequence x \<noteq> 2 ^ 63 - 1" "\<not> is_reply e" "sequence e = next_sequence x"
        "about e = sending_vault x"
        "x' = x\<lparr>xsender := Some (snd answer), waiting := next_sequence x, next_sequence := next_sequence x + 1, queue := queue x @ [e]\<rparr>"
proof (cases "vault_complete (snd answer)")
  case False
  let ?e = "\<lparr>is_reply = False, sequence = next_sequence x, about = sending_vault x,
          body = (case fst answer of None \<Rightarrow> Garbage | Some m \<Rightarrow> m)\<rparr>"
  have "next_sequence x \<noteq> 2 ^ 63 - 1 \<and>
      x' = x\<lparr>xsender := Some (snd answer), waiting := next_sequence x, next_sequence := next_sequence x + 1, queue := queue x @ [?e]\<rparr>"
    using assms False by (auto simp: request_def Let_def split: if_splits)
  then show ?thesis
    using Asked[OF False, of ?e] by simp
qed (use assms Ended in \<open>auto simp: request_def Let_def\<close>)

text \<open>A request of \<open>a\<close>, when the one before it has been answered or there was none.\<close>

lemma request_ok:
  assumes d: "direction_ok auth b a ba ab" and r: "request answer a = Inr a'"
    and free: "requests ab @ requests (queue a) = []" "replies ba @ replies (queue b) = []" "incoming_sequence b = next_sequence a"
      "1 \<le> next_sequence a" "next_sequence a \<le> 2 ^ 63 - 1" "waiting a = 0" "\<not> reply_pending b" "vault_ok auth (sending_vault a)"
  shows "direction_ok auth a' b ab ba" "direction_ok auth b a' ba ab"
proof -
  have "direction_ok auth a' b ab ba \<and> direction_ok auth b a' ba ab"
    using r
  proof (cases rule: request_cases)
    case Ended
    then show ?thesis
      using d free by (simp add: direction_ok_def busy_def) (simp add: direction_def)
  next
    case (Asked e)
    then have "direction_ok auth b a' ba ab"
      using d by (simp add: direction_ok_def busy_def)
    moreover have "direction_ok auth a' b ab ba"
      using Asked free by (simp add: direction_ok_def busy_def) (simp add: direction_def)
    ultimately show ?thesis
      by simp
  qed
  then show "direction_ok auth a' b ab ba" "direction_ok auth b a' ba ab"
    by simp_all
qed

lemma start_ok:
  assumes "direction_ok auth a b ab ba" "direction_ok auth b a ba ab" "start_exchange w auth s v a = Inr (r, a')"
  shows "direction_ok auth a' b ab ba \<and> direction_ok auth b a' ba ab"
proof (cases "busy a")
  case True
  then show ?thesis
    using assms by (simp add: start_exchange_def)
next
  case False
  then obtain answer where v: "vault_ok auth v" and a': "request answer (a\<lparr>sending_vault := v\<rparr>) = Inr a'"
    using assms(3) by (auto simp: start_exchange_def vault_ok_def map_sum_def split: if_splits option.splits sum.splits)
  have free: "waiting a = 0" "requests ab @ requests (queue a) = []" "replies ba @ replies (queue b) = []"
    "incoming_sequence b = next_sequence a" "1 \<le> next_sequence a" "next_sequence a \<le> 2 ^ 63 - 1" "\<not> reply_pending b"
    using assms(1) False by (auto simp: direction_ok_def direction_def split: if_splits)
  have "direction_ok auth b (a\<lparr>sending_vault := v\<rparr>) ba ab"
    using assms(2) by (simp add: direction_ok_def)
  then show ?thesis
    using request_ok[OF _ a', of auth b ba ab] free v by simp
qed

lemma send_ok:
  assumes "direction_ok auth a b ab ba" "direction_ok auth b a ba ab" "outgoing auth a = Inr (Some e)" "sent a = Inr a'"
  shows "direction_ok auth a' b (ab @ [e]) ba \<and> direction_ok auth b a' ba (ab @ [e])"
proof -
  obtain es where q: "queue a = e # es" and a': "a' = a\<lparr>reply_pending := (if is_reply e then False else reply_pending a), queue := es\<rparr>"
    using assms(3, 4) by (auto simp: outgoing_def sent_def split: list.splits if_splits)
  have "direction_ok auth a' b (ab @ [e]) ba"
    using assms(1) by (cases "is_reply e") (simp_all add: direction_ok_def a' q busy_def)
  moreover have "direction_ok auth b a' ba (ab @ [e])"
  proof (cases "is_reply e")
    case True
    then show ?thesis
      using assms(2) by (auto simp: direction_ok_def a' q busy_def direction_def append_eq_Cons_conv split: if_splits)
  next
    case False
    then show ?thesis
      using assms(2) by (simp add: direction_ok_def a' q busy_def)
  qed
  ultimately show ?thesis ..
qed

text \<open>The first envelope under way to \<open>a\<close> is one that it expects.\<close>

lemma first_expected:
  assumes "direction_ok auth a b ab (e # ba)" "direction_ok auth b a (e # ba) ab"
  shows "vault_ok auth (about e) \<and> 0 \<le> sequence e \<and> (if is_reply e then reply_expected e a else request_expected e a)"
proof (cases "is_reply e")
  case True
  then show ?thesis
    using assms(1)
    by (auto simp: direction_ok_def direction_def reply_expected_def requests_def list_ex_iff filter_empty_conv split: if_splits)
next
  case False
  then show ?thesis
    using assms(2) by (auto simp: direction_ok_def direction_def request_expected_def split: if_splits)
qed

lemma reply_ok:
  assumes "direction_ok auth a b ab (e # ba)" "direction_ok auth b a (e # ba) ab" "is_reply e" "accept_reply w auth e s a = Inr a'"
  shows "direction_ok auth a' b ab ba \<and> direction_ok auth b a' ba ab"
proof -
  obtain answer where a': "request answer (a\<lparr>waiting := 0\<rparr>) = Inr a'"
    using assms(4) by (auto simp: accept_reply_def split: if_splits option.splits sum.splits)
  have free: "requests ab @ requests (queue a) = []" "replies ba @ replies (queue b) = []" "incoming_sequence b = next_sequence a"
    "1 \<le> next_sequence a" "next_sequence a \<le> 2 ^ 63 - 1" "\<not> reply_pending b" "vault_ok auth (sending_vault a)"
    using assms(1, 3) by (auto simp: direction_ok_def direction_def split: if_splits)
  have "direction_ok auth b (a\<lparr>waiting := 0\<rparr>) ba ab"
    using assms(2, 3) by (simp add: direction_ok_def)
  then show ?thesis
    using request_ok[OF _ a', of auth b ba ab] free by simp
qed

lemma request_accepted_ok:
  assumes "direction_ok auth a b ab (e # ba)" "direction_ok auth b a (e # ba) ab" "\<not> is_reply e"
    "accept_request w auth e (a, s) = (Inr a', s')"
  shows "direction_ok auth a' b ab ba \<and> direction_ok auth b a' ba ab"
proof -
  obtain reply rc where x: "request_expected e a" and a': "a' = a\<lparr>receiving_vault := about e, xreceiver := rc,
      incoming_sequence := incoming_sequence a + 1, reply_pending := True,
      queue := queue a @ [\<lparr>is_reply = True, sequence = sequence e, about = about e, body = reply\<rparr>]\<rparr>"
    using assms(4) by (auto simp: accept_request_def split: if_splits sum.splits prod.splits)
  have "direction_ok auth a' b ab ba"
    using assms(1, 3) by (simp add: direction_ok_def a' busy_def)
  moreover have "direction_ok auth b a' ba ab"
    using assms(2, 3) x by (auto simp: direction_ok_def direction_def a' busy_def request_expected_def split: if_splits)
  ultimately show ?thesis ..
qed

lemma net_step_ok:
  assumes "net_step w auth envelope_size n n'" "net_ok auth n"
  shows "net_ok auth n'"
  using assms
proof (induction rule: net_step.induct)
  case (started s v x b x' r ab ba)
  then show ?case
    using start_ok[OF _ _ started(1)] by (cases r) (simp add: net_ok_def)
next
  case (sending x e x' s r ab ba)
  then show ?case
    using send_ok[OF _ _ sending(1, 2)] by (cases r) (simp add: net_ok_def)
next
  case (delivered e x s x' s' r ab ba)
  obtain b t where r: "r = (b, t)"
    by (cases r)
  have d: "direction_ok auth x b ab (e # ba)" "direction_ok auth b x (e # ba) ab"
    using delivered(2) r by (simp_all add: net_ok_def)
  have "direction_ok auth x' b ab ba \<and> direction_ok auth b x' ba ab"
  proof (cases "is_reply e")
    case True
    then have "accept_reply w auth e s x = Inr x'"
      using delivered(1) by (auto simp: accept_envelope_def split: if_splits)
    then show ?thesis
      by (rule reply_ok[OF d True])
  next
    case False
    then have "accept_request w auth e (x, s) = (Inr x', s')"
      using delivered(1) by (auto simp: accept_envelope_def split: if_splits)
    then show ?thesis
      by (rule request_accepted_ok[OF d False])
  qed
  then show ?case
    by (simp add: net_ok_def r)
next
  case (worked x s r ab ba s')
  then show ?case
    by (cases r) (simp add: net_ok_def)
next
  case (flipped n n')
  then show ?case
    by (simp add: flip_ok)
qed

lemma envelopes_bounded:
  assumes "direction_ok auth a b ab ba" "direction_ok auth b a ba ab"
  shows "length (requests (ab @ queue a)) \<le> 1 \<and> length (replies (ab @ queue a)) \<le> 1 \<and>
    length (requests (ba @ queue b)) \<le> 1 \<and> length (replies (ba @ queue b)) \<le> 1"
  using assms by (auto simp del: length_append simp: direction_ok_def direction_def split: if_splits)

section \<open>Properties\<close>

text \<open>Claim C17. Whatever message arrives, the receiver adds at most one revision to the journal, one of a vault that
  is authorized then; it answers questions about authorized vaults only, and never changes what is applied,
  approved or about to be applied.\<close>

theorem receiver_confined:
  assumes "receiver_ok rc t" "receiver_accept w auth m (rc, t) = (res, rc', t')"
  shows "receiver_ok rc' t' \<and> (revisions t' = revisions t \<or> (\<exists>r. auth (vault r) \<and> revisions t' = revisions t @ [r])) \<and>
    applied_rows t' = applied_rows t \<and> approvals t' = approvals t \<and> intents t' = intents t \<and>
    (\<forall>v x b. res = Inr (Have_reply v x b) \<longrightarrow> auth v)"
proof -
  have "allowed auth (rc, t) (receiver_accept w auth m (rc, t))"
  proof (cases m)
    case (Have v x)
    have "auth v'" if "accept_have w auth v x len t = Inr (Have_reply v' x' b)" for len v' x' b
      using that by (auto simp: accept_have_def encode_wire_def split: if_splits sum.splits)
    then show ?thesis
      using Have allowed_same[OF assms(1)] allowed_error[OF assms(1)] by (simp add: receiver_accept_def)
  qed (use assms(1) accept_offer_allowed accept_active_allowed allowed_error in \<open>simp_all add: receiver_accept_def\<close>)
  then show ?thesis
    using assms(2) by (simp add: allowed_def)
qed

definition offer0 :: wire where
  "offer0 = Offer (first_revision\<lparr>payload := []\<rparr>) (length (payload first_revision))"

lemma offer0_accepted:
  "receiver_accept world0 (\<lambda>v. v = ''v'') offer0 (new_receiver, new_store) =
     (Inr (Ack id1 0 False), receiving first_revision 0, staged new_store first_revision [])"
proof -
  have r: "rid first_revision = id1" "vault first_revision = ''v''" "descriptor_ok (first_revision\<lparr>payload := []\<rparr>)"
    "require_document_epoch (first_revision\<lparr>payload := []\<rparr>)"
    by (simp_all add: first_revision_def draft_def descriptor_ok_def require_document_epoch_def)
  have "begin_receive (\<lambda>r. 100) (first_revision\<lparr>payload := []\<rparr>) (length (payload first_revision)) new_store =
      Inr (0, staged new_store first_revision [])"
    by (rule begin_staged(2))
      (simp_all add: first_revision_def draft_def id_digest validate_revision_def find_revision_def find_incoming_def new_store_def)
  then show ?thesis
    using r by (simp add: offer0_def receiver_accept_def accept_offer_def world0_def new_receiver_def receiving_def encode_wire_def)
qed

theorem receiver_confined_witness: "receiver_ok (receiving first_revision 0) (staged new_store first_revision [])"
proof -
  have "receiver_ok new_receiver new_store"
    by (simp add: receiver_ok_def new_receiver_def)
  from receiver_confined[OF this offer0_accepted] show ?thesis
    by simp
qed

text \<open>Claim C18. A transfer whose bytes were corrupted is never repaired: once all bytes of a revision have
  arrived and do not have its hash, the staged row stays, whatever messages arrive over whatever connection, and
  the revision is never received, since a sender that starts again is told that all bytes are there.
  The store can discard the row, but no part of the program does.\<close>

theorem corrupt_transfer_stuck:
  assumes "blocked (content_hash w) t x" "receiver_accept w auth m (rc, t) = (res, rc', t')"
  shows "blocked (content_hash w) t' x \<and> find_revision t' x = None \<and> (\<forall>n. res \<noteq> Inr (Ack x n True))"
  using blocked_accept[OF assms] by (auto simp: blocked_def)

theorem corrupt_transfer_stuck_witness:
  "\<exists>rc t. receiver_accept world0 (\<lambda>v. v = ''v'') (Chunk id1 0 ''xyz'') (receiving first_revision 0, staged new_store first_revision []) =
       (Inr (Ack id1 3 False), rc, t) \<and>
     find_revision (snd (snd (receiver_accept world0 (\<lambda>v. v = ''v'') offer0 (rc, t)))) id1 = None"
proof -
  let ?t = "staged new_store first_revision ''xyz''"
  have r: "rid first_revision = id1" "length (payload first_revision) = 3" "vault first_revision = ''v''"
    by (simp_all add: first_revision_def draft_def)
  have none: "find_incoming new_store (rid first_revision) = None"
    by (simp add: find_incoming_def new_store_def)
  have "receive_chunk id1 0 ''xyz'' (staged new_store first_revision []) = Inr (3, ?t)"
    using chunk_staged[OF none, of "''xyz''" "[]"] r by simp
  then have chunk: "receiver_accept world0 (\<lambda>v. v = ''v'') (Chunk id1 0 ''xyz'')
      (receiving first_revision 0, staged new_store first_revision []) = (Inr (Ack id1 3 False), receiving first_revision 3, ?t)"
    using r by (simp add: receiver_accept_def accept_active_def receiving_def world0_def encode_wire_def)
  have "identity digest0 (first_revision\<lparr>payload := ''xyz''\<rparr>) = id2"
    by (simp add: identity_def digest0_def first_revision_def draft_def id2_def)
  then have "blocked (content_hash world0) ?t id1"
    using find_incoming_staged[OF none, of "''xyz''"] r id_digest
    by (simp add: blocked_def world0_def) (simp add: find_revision_def staged_def new_store_def)
  from corrupt_transfer_stuck[OF this, of "\<lambda>v. v = ''v''" offer0 "receiving first_revision 3"]
  have "find_revision (snd (snd (receiver_accept world0 (\<lambda>v. v = ''v'') offer0 (receiving first_revision 3, ?t)))) id1 = None"
    by (metis prod.collapse)
  then show ?thesis
    using chunk by blast
qed

text \<open>Claim C16. Two devices that exchange revisions stay in step, in any interleaving of starting, sending and
  delivering, and whatever they do to their stores meanwhile: the first envelope under way to a device is always
  about an authorized vault and the one that it expects, a reply to its outstanding request or the next
  request; and at most one request and one reply of each device are queued or under way.\<close>

theorem exchange_in_step:
  assumes "(net_step w auth envelope_size)\<^sup>*\<^sup>* ((new_exchange, s0), (new_exchange, t0), [], []) ((a, s), (b, t), ab, ba)"
  shows "(\<forall>e es. ba = e # es \<longrightarrow> vault_ok auth (about e) \<and> 0 \<le> sequence e \<and>
      (if is_reply e then reply_expected e a else request_expected e a)) \<and>
    (\<forall>e es. ab = e # es \<longrightarrow> vault_ok auth (about e) \<and> 0 \<le> sequence e \<and>
      (if is_reply e then reply_expected e b else request_expected e b)) \<and>
    length (requests (ab @ queue a)) \<le> 1 \<and> length (replies (ab @ queue a)) \<le> 1 \<and>
    length (requests (ba @ queue b)) \<le> 1 \<and> length (replies (ba @ queue b)) \<le> 1"
proof -
  have "net_ok auth ((new_exchange, s0), (new_exchange, t0), [], [])"
    by (simp add: net_ok_def direction_ok_def direction_def new_exchange_def busy_def)
  with assms have "net_ok auth ((a, s), (b, t), ab, ba)"
    by (induction rule: rtranclp_induct) (use net_step_ok in blast)+
  then have d: "direction_ok auth a b ab ba" "direction_ok auth b a ba ab"
    by (simp_all add: net_ok_def)
  show ?thesis
    using first_expected[where a = a and b = b] first_expected[where a = b and b = a] d envelopes_bounded[OF d] by blast
qed

definition asking :: exchange where
  "asking = new_exchange\<lparr>sending_vault := ''v'', waiting := 1, next_sequence := 2,
     xsender := Some \<lparr>sent_vault = ''v'', cursor = 2, through = 2, head_rows = [], stack = [(id2, False)],
       transfer = None, vphase = V_probe\<rparr>,
     queue := [\<lparr>is_reply = False, sequence = 1, about = ''v'', body = Have ''v'' id2\<rparr>]\<rparr>"

lemma asking_starts: "start_exchange world0 (\<lambda>v. v = ''v'') saved_twice ''v'' new_exchange = Inr (True, asking)"
proof -
  have rows: "row_ids saved_twice = [(1, first_revision), (2, second_revision)]"
    by (simp add: row_ids_def saved_twice_def)
  have ids: "rid first_revision = id1" "rid second_revision = id2" "vault first_revision = ''v''"
      "vault second_revision = ''v''" "id1 \<noteq> id2" "edges saved_twice = [(id2, id1)]"
    by (simp_all add: first_revision_def second_revision_def draft_def saved_twice_def id1_def id2_def)
  have tip: "inventory_tip saved_twice ''v'' = 2"
    by (simp add: inventory_tip_def rows ids)
  have hs: "inventory_heads saved_twice ''v'' 0 2 64 = Inr [(2, id2)]"
    using ids(5) by (simp add: inventory_heads_def rows ids page_ok_def)
  show ?thesis
    using tip hs by (simp add: start_exchange_def new_exchange_def busy_def new_vault_sender_def vault_begin_def advance_def
      next_root_def remaining_heads_def advance_top_def encode_wire_def world0_def request_def vault_complete_def asking_def)
qed

theorem exchange_in_step_witness:
  "\<exists>x e. start_exchange world0 (\<lambda>v. v = ''v'') saved_twice ''v'' new_exchange = Inr (True, x) \<and>
     outgoing (\<lambda>v. v = ''v'') x = Inr (Some e) \<and> body e = Have ''v'' id2 \<and> request_expected e new_exchange"
proof -
  let ?auth = "\<lambda>v. v = ''v''" and ?n = "((new_exchange, saved_twice), (new_exchange, new_store), [], [])"
  obtain e where e: "queue asking = [e]" "about e = ''v''" "body e = Have ''v'' id2" "\<not> is_reply e"
    by (simp add: asking_def)
  then have out: "outgoing ?auth asking = Inr (Some e)" "sent asking = Inr (asking\<lparr>queue := []\<rparr>)"
    by (simp_all add: outgoing_def sent_def)
  have "net_step world0 ?auth (\<lambda>e. 100) ?n ((asking, saved_twice), (new_exchange, new_store), [], [])"
    using asking_starts by (rule net_step.started)
  then have "(net_step world0 ?auth (\<lambda>e. 100))\<^sup>*\<^sup>* ?n
      ((asking\<lparr>queue := []\<rparr>, saved_twice), (new_exchange, new_store), [] @ [e], [])"
    using net_step.sending[OF out, where ab = "[]"] by (meson converse_rtranclp_into_rtranclp r_into_rtranclp)
  from exchange_in_step[OF this] have "request_expected e new_exchange"
    using e(4) by simp
  then show ?thesis
    using asking_starts out(1) e(3) by blast
qed

end
