(* ===== verification/Spec2Isabelle.thy ===== *)
theory Spec2Isabelle
  imports Athena_Swap Athena_Observer Athena_Edits Athena_Patch Athena_History_Limits
    Athena_History_Store Athena_Rectangles Athena_Merge_Sort Athena_Base64
    Athena_Differences Athena_Rel_Hashmap Athena_Edit_Batch Athena_Exchange
begin

text \<open>
  A verification development of the document core of ATHENA, a structured editor derived from
  TeXmacs.

  \<^bold>\<open>The program.\<close> A document is a tree (\<open>src/src/Core/Types/tree.hpp\<close>) whose nodes carry an
  identity and properties (\<open>node_metadata.cpp\<close>). Every change of it is one of ten elementary
  modifications (\<open>modification.cpp\<close>), each addressing a node by a path (\<open>path.cpp\<close>). The
  editor applies modifications in place (\<open>src/src/Core/Abstractions/observer.cpp\<close>), while
  observers attached to the nodes are told of them and may ask for further ones, which are
  queued. One observer feeds the undo history (\<open>src/src/Document/History\<close>): it pairs each
  modification with its inverse (\<open>commute.cpp\<close>), collects them in patches (\<open>patch.cpp\<close>),
  and keeps an archive with a past and a tree of futures (\<open>archiver.cpp\<close>); with several
  authors it exchanges consecutive patches in order to bring the own one to the front. Around
  this core are the batches that edit several documents at once, each owned by a thread of its own
  (\<open>src/src/Document/Model/compound_edit_batch.cpp\<close>), the store of earlier versions of the
  documents and its delta codec (\<open>src/src/Sync/State\<close>), the journal of the revisions that are exchanged with
  other devices and that exchange (\<open>src/src/Sync/Hodarium\<close>), the hash tables of the environments, the rectangles
  of the invalid regions, and the operations on strings in the internal encoding, their
  searches and comparisons (\<open>src/src/Core\<close>).

  \<^bold>\<open>The theories\<close>, in the order in which they build on each other:

  \<^item> \<open>Athena_Prelude\<close>: failing accesses, substrings, and splices of lists with the laws under
    which two splices commute.
  \<^item> \<open>Athena_Tree\<close>, \<open>Athena_Metadata\<close>, \<open>Athena_Path\<close>, \<open>Athena_Modification\<close>: the data and the
    operations of the files above: accessors, duplication with fresh identities, the
    applicability test, preparation, and the functional application \<open>clean_apply\<close>.
  \<^item> \<open>Athena_Effect\<close>: the specification \<open>effect\<close> of a modification (descend to a node, splice
    there) and that \<open>clean_apply\<close> implements it; an applicable modification applies, and keeps
    documents well formed.
  \<^item> \<open>Athena_Commute\<close>, \<open>Athena_Invert\<close>, \<open>Athena_Swap\<close>: \<open>invert\<close>, \<open>swap\<close> and \<open>join\<close>, and that
    they mean what the history relies on; with the pair of modifications on which \<open>swap\<close> is
    wrong.
  \<^item> \<open>Athena_Observer\<close>: the loops of the in-place modification refine \<open>clean_apply\<close>; the queue
    of postponed modifications.
  \<^item> \<open>Athena_Edits\<close>: the contracts of reversible and of commuting edits as locales, with what
    follows for sequences. Modifications and patches are the instances.
  \<^item> \<open>Athena_Patch\<close>, \<open>Athena_Patch_Commute\<close>, \<open>Athena_Patch_Reverse\<close>: patches and that
    exchanging, inverting, joining and compactifying them keeps their effect.
  \<^item> \<open>Athena_Archiver\<close>, \<open>Athena_History\<close>, \<open>Athena_Session\<close>, \<open>Athena_History_Limits\<close>: the
    archiver; the zipper that it refines; sessions of edits, confirmations, undos, redos and
    saves, in which no assertion fails, undoing a confirmed batch gives back the document before it,
    redoing gives back the document after it, and the document counts as saved only when it is, as long as
    the history is not simplified below the saved document; and the runs in which more than that does not hold.
    Changes of metadata, marked blocks, and reopening and forgetting history items are operations of the model but
    not steps of the sessions.
  \<^item> \<open>Athena_Edit_Batch\<close>: the barriers of a batch (\<open>batch::run\<close>, \<open>batch::complete\<close>,
    \<open>submit_edit_batch\<close>) as a step relation, a step being one section of one thread. For every
    interleaving, all documents are committed or none is, completion is called once, and the
    batch ends with its actors released.
  \<^item> \<open>Athena_Delta\<close>: the delta codec of \<open>fossil_delta.cpp\<close>, on machine words.
  \<^item> \<open>Athena_History_Store\<close>: \<open>document_history_store.cpp\<close>. Its tables are the state, the
    statements sent to the database are operations on them. Captured versions are
    reconstructed exactly for as long as their row exists, capturing succeeds unless histories
    were merged by renaming, and accepted paths stay inside the vault.
  \<^item> \<open>Athena_Revisions\<close>, \<open>Athena_Journal\<close>: the journal of the revisions that devices exchange
    (\<open>src/src/Sync/Hodarium/revisions.cpp\<close>): the operations on its tables and its invariant;
    for every run, what has been applied is only replaced by what was made from it, devices with the same revisions
    and approvals agree, heads and merge bases are the maximal elements they stand for, transfers in
    chunks equal transfers at once, and an application that was started can be ended and excludes others.
  \<^item> \<open>Athena_Transfer\<close>, \<open>Athena_Replication\<close>, \<open>Athena_Exchange\<close>: the exchange of revisions
    (\<open>src/src/Sync/Hodarium/revision_transfer.cpp\<close>): the sender of a vault, which searches the ancestors of its heads
    depth first for what the other device lacks, the transfer of a revision, the receiver, and the numbered
    envelopes of the two directions. An exchange of a vault ends, with the revisions of the sender added
    to those of the receiver and nothing else changed, so that two devices that exchange in both directions have
    the same revisions and heads; whatever messages arrive, a receiver only adds revisions of authorized vaults;
    in every interleaving two exchanges stay in step; and a transfer that was corrupted is never repaired.
  \<^item> \<open>Athena_Hashmap\<close>, \<open>Athena_Rel_Hashmap\<close>: hash tables refine finite maps; the locale
    \<open>map_table\<close> is what their clients rely on; stacks of tables are transactions.
  \<^item> \<open>Athena_Merge_Sort\<close>: the in-place merge sort, for every total and transitive comparison.
  \<^item> \<open>Athena_Rectangles\<close>: lists of rectangles as sets of cells.
  \<^item> \<open>Athena_Base64\<close>, \<open>Athena_Text\<close>, \<open>Athena_Search\<close>, \<open>Athena_Differences\<close>: the codec of
    \<open>base64.cpp\<close> and the string operations of \<open>analyze.cpp\<close>.

  \<^bold>\<open>Conventions.\<close> A function that changes its argument returns the changed value. \<open>None\<close> is a
  failed assertion, an exception, or an access out of range. Integers are unbounded where the
  source counts nodes, characters or entries in memory, and words of their width in the delta
  codec and the hexadecimal numbers, where overflow decides what is accepted or returned. Areas, \<open>double\<close> in the source, are reals.
  Identities drawn from Qt, the clock and the fingerprint function of the version store, whether a
  statement of the database fails and whether an actor accepts work, the callbacks of a batch, the hashes
  of revisions and the verification of decisions, the hash function of a key type, the queries of the cursor
  navigation and the reactions of observers are parameters of the definitions that use them.
  So are, as the fields of the record \<open>world\<close>, the size of an encoded message, the size of a descriptor and the
  test for UTF-8 of the exchange, whose CBOR messages are a datatype.
  The theorems about the journal assume that the hash is injective on the contents that occur, and
  gives hexadecimal digests.
  The hypothesis on the navigation in the theorems about sessions is that its queries
  return.

  \<^bold>\<open>Loops.\<close> Loops are recursive functions with a measure, except: \<open>patch_swap\<close> has as fuel the
  sum of the depths of the two patches, which \<open>patch_swap_total\<close> shows to be enough;
  \<open>apply_loop\<close>, whose length depends on what the observers ask for, has a fuel argument and its
  discipline is proved for every run; the chains of deltas are followed for at most 64 versions, as in
  the source, and are never longer than that; \<open>as_hexadecimal\<close>, \<open>tokenize\<close>, \<open>replace\<close> and \<open>tm_search_backwards\<close> do not
  return on some inputs and are partial functions, with theorems for when they return and when
  they do not.

  \<^bold>\<open>Not modelled.\<close> Pointers, reference counts and sharing of trees (a document is a value); the
  observers other than the undo observer; several authors in one session; floating point conversions, input and
  output, bracket matching over the current document; failures of SQLite in the journal; the CBOR encoding of
  messages, and what a receiver, a sender or an exchange is after an exception that makes its owner drop it. Of the rest of the
  program: the typesetter, the renderers, the user interface, the converters between file formats, the
  interpreter and command layer, the services and the transport of the synchronisation, because they are
  dominated by third-party interfaces (Qt, fonts, PDF, cryptography, the network) whose behaviour
  would have to be assumed, or have no specification beyond their code.
\<close>

end
